(* ===== verification/Rut_Prelude.thy ===== *)
theory Rut_Prelude
  imports Main "HOL-Library.Word" "HOL-Library.Sublist"
begin

text \<open>
  Shared vocabulary of the development.

  \<^item> The fixed-width integer names of \<open>include/rut/common/types.h\<close> are words of the
    library theory Word, so that \<open>+\<close>, \<open>-\<close> and shifts wrap as in C++.
  \<^item> A byte range \<open>(ptr, len)\<close> that the code only reads is the list of its bytes;
    a \<open>Str\<close> that points \<^emph>\<open>into\<close> another buffer is a view (offset, length) into
    that buffer, so that its bounds can be stated.
  \<^item> Buffer lengths and positions inside a buffer are natural numbers.  Every buffer of
    the program is at most one 16 KB slice, so the \<open>u32\<close> position arithmetic of the
    scanners does not wrap; values that come from the wire (content lengths, chunk
    sizes, route indices, ring positions) keep their word type.
  \<^item> \<open>FixedVec\<close> is a list with its capacity checked at every push.
\<close>

unbundle bit_operations_syntax

section \<open>Machine integers, bytes and views\<close>

type_synonym u8 = "8 word"
type_synonym u16 = "16 word"
type_synonym u32 = "32 word"
type_synonym u64 = "64 word"

type_synonym bytes = "u8 list"

named_theorems bound_simps \<open>bounds of positions and word values\<close>
named_theorems frame_simps \<open>fields an operation leaves unchanged\<close>

text \<open>The bytes of a character literal.\<close>

definition ascii :: "string \<Rightarrow> bytes" where
  "ascii s = map of_char s"

lemma length_ascii [simp]: "length (ascii s) = length s"
  by (simp add: ascii_def)

lemma ascii_append: "ascii (s @ t) = ascii s @ ascii t"
  by (simp add: ascii_def)

abbreviation CR :: u8 where "CR \<equiv> 0x0D"
abbreviation LF :: u8 where "LF \<equiv> 0x0A"
abbreviation SP :: u8 where "SP \<equiv> 0x20"
abbreviation HTAB :: u8 where "HTAB \<equiv> 0x09"

definition crlf :: bytes where
  "crlf = [CR, LF]"

lemma length_crlf [simp]: "length crlf = 2"
  by (simp add: crlf_def)

text \<open>A view: an offset into a buffer and a length, the model of a non-owning \<open>Str\<close>.\<close>

record view =
  v_off :: nat
  v_len :: nat

definition view_bytes :: "bytes \<Rightarrow> view \<Rightarrow> bytes" where
  "view_bytes buf v = take (v_len v) (drop (v_off v) buf)"

definition view_in :: "nat \<Rightarrow> view \<Rightarrow> bool" where
  "view_in n v \<longleftrightarrow> v_off v + v_len v \<le> n"

lemma view_in_mono [intro]: "view_in n v \<Longrightarrow> n \<le> m \<Longrightarrow> view_in m v"
  by (simp add: view_in_def)

lemma view_bytes_append [simp]:
  "view_in (length buf) v \<Longrightarrow> view_bytes (buf @ rest) v = view_bytes buf v"
  by (simp add: view_bytes_def view_in_def)

lemma length_view_bytes [simp]:
  "view_in (length buf) v \<Longrightarrow> length (view_bytes buf v) = v_len v"
  by (simp add: view_bytes_def view_in_def)

section \<open>FixedVec\<close>

text \<open>\<open>FixedVec::push\<close>: \<open>None\<close> is the \<open>false\<close> of the code, the vector untouched.\<close>

definition fv_push :: "nat \<Rightarrow> 'a list \<Rightarrow> 'a \<Rightarrow> 'a list option" where
  "fv_push cap xs x = (if length xs \<ge> cap then None else Some (xs @ [x]))"

lemma fv_push_Some_iff:
  "fv_push cap xs x = Some ys \<longleftrightarrow> length xs < cap \<and> ys = xs @ [x]"
  by (auto simp: fv_push_def)

lemma fv_push_None_iff: "fv_push cap xs x = None \<longleftrightarrow> cap \<le> length xs"
  by (simp add: fv_push_def)

section \<open>Lists\<close>

lemma nth_append_prefix [simp]: "i < length xs \<Longrightarrow> (xs @ ys) ! i = xs ! i"
  by (simp add: nth_append)

lemma take_Suc_drop:
  "i < length xs \<Longrightarrow> drop i xs = xs ! i # drop (Suc i) xs"
  by (simp add: Cons_nth_drop_Suc)

lemma drop_eq_Nil_iff_ge: "drop i xs = [] \<longleftrightarrow> length xs \<le> i"
  by simp

lemma list_all_nth_iff: "list_all P xs \<longleftrightarrow> (\<forall>i < length xs. P (xs ! i))"
  by (simp add: list_all_length)

section \<open>Words\<close>

lemma word_of_nat_unat_id [simp]: "word_of_nat (unat w) = w"
  by simp

lemma unat_sub_le:
  "unat b \<le> unat a \<Longrightarrow> unat (a - b :: 'a::len word) = unat a - unat b"
  by (metis unat_sub word_le_nat_alt)

lemma unat_of_nat_small:
  "n < 2 ^ LENGTH('a) \<Longrightarrow> unat (of_nat n :: 'a::len word) = n"
  by (simp add: unat_of_nat take_bit_eq_mod)

lemma unat_sub_of_nat:
  fixes a :: "'a::len word"
  assumes "n \<le> unat a"
  shows "unat (a - of_nat n) = unat a - n"
proof -
  have "n < 2 ^ LENGTH('a)"
    using assms unsigned_less [of a] by (metis le_less_trans)
  then have "unat (of_nat n :: 'a word) = n"
    by (rule unat_of_nat_small)
  with assms show ?thesis by (simp add: unat_sub_le)
qed

lemma unat_Suc_no_wrap:
  fixes a :: "'a::len word"
  assumes "unat a < 2 ^ LENGTH('a) - 1"
  shows "unat (a + 1) = Suc (unat a)"
  using assms by (simp add: unat_word_ariths)

lemma unat_u32_lt: "unat (w :: u32) < 2 ^ 32"
  using unsigned_less [of w] by simp

text \<open>
  A little-endian load of a run of bytes (\<open>memcpy\<close> into an integer, \<open>u32_lit\<close>,
  \<open>u64_lit\<close>): comparing two loads compares the bytes.
\<close>

definition le_word :: "bytes \<Rightarrow> 'm::len word" where
  "le_word bs = foldr (\<lambda>b acc. push_bit 8 acc OR ucast b) bs 0"

lemma bit_le_word:
  "bit (le_word bs :: 'm::len word) i
     \<longleftrightarrow> i < LENGTH('m) \<and> i div 8 < length bs \<and> bit (bs ! (i div 8)) (i mod 8)"
proof (induction bs arbitrary: i)
  case Nil
  then show ?case by (simp add: le_word_def)
next
  case (Cons b bs)
  have step: "le_word (b # bs) = (push_bit 8 (le_word bs) OR ucast b :: 'm word)"
    by (simp add: le_word_def)
  show ?case
  proof (cases "i < 8")
    case True
    then show ?thesis by (auto simp: step bit_or_iff bit_push_bit_iff bit_ucast_iff)
  next
    case False
    then have "i div 8 = Suc ((i - 8) div 8)" "(i - 8) mod 8 = i mod 8"
      by (auto simp: div_if mod_if)
    moreover have "\<not> bit b i" using False bit_imp_le_length [of b i] by auto
    ultimately show ?thesis
      using False Cons.IH [of "i - 8"] bit_imp_le_length [of "le_word bs :: 'm word" "i - 8"]
      by (auto simp: step bit_or_iff bit_push_bit_iff bit_ucast_iff)
  qed
qed

lemma le_word_inject:
  assumes "length xs = length ys" "8 * length xs \<le> LENGTH('m)"
  shows "(le_word xs :: 'm::len word) = le_word ys \<longleftrightarrow> xs = ys"
proof
  assume eq: "(le_word xs :: 'm word) = le_word ys"
  show "xs = ys"
  proof (rule nth_equalityI)
    fix j assume j: "j < length xs"
    show "xs ! j = ys ! j"
    proof (rule bit_word_eqI)
      fix r assume r: "r < LENGTH(8)"
      have i: "(8 * j + r) div 8 = j" "(8 * j + r) mod 8 = r" "8 * j + r < LENGTH('m)"
        using r j assms by auto
      have "bit (le_word xs :: 'm word) (8 * j + r) = bit (le_word ys :: 'm word) (8 * j + r)"
        using eq by simp
      then show "bit (xs ! j) r = bit (ys ! j) r"
        using i j assms(1) by (simp add: bit_le_word)
    qed
  qed (rule assms(1))
qed simp

lemma le_word_or:
  assumes "length xs = length ys"
  shows "(le_word xs OR le_word ys :: 'm::len word) = le_word (map2 (OR) xs ys)"
  using assms by (intro bit_word_eqI) (auto simp: bit_or_iff bit_le_word)

lemma horner_ucast:
  "length ds = 8 \<Longrightarrow> 8 \<le> LENGTH('m) \<Longrightarrow>
     (horner_sum of_bool 2 ds :: 'm::len word) = ucast (horner_sum of_bool 2 ds :: u8)"
  by (rule bit_word_eqI) (auto simp: bit_horner_sum_bit_word_iff bit_ucast_iff)

lemma of_char_ucast: "8 \<le> LENGTH('m) \<Longrightarrow> (of_char c :: 'm::len word) = ucast (of_char c :: u8)"
  unfolding of_char_def by (rule horner_ucast) simp_all

end
