(* ===== verification/Chunked_Parser.thy ===== *)
theory Chunked_Parser
  imports Rut_Prelude
begin

text \<open>
  The incremental decoder of \<open>Transfer-Encoding: chunked\<close>
  (\<open>include/rut/runtime/chunked_parser.h\<close>, \<open>src/runtime/chunked_parser.cc\<close>) and the
  loop with which the proxy callbacks drive it.

  The decoder is modelled as written: one \<open>feed\<close> call walks the input, copies a run of
  chunk data out in bulk and returns at the first data run, at the end of the body or at
  an error.  Its reference is a one-byte automaton \<open>byte_step\<close>; \<open>chunk_drive_spec\<close>
  shows that driving the decoder computes the automaton's run, from which independence of
  the network's segmentation and the encode/decode round trip follow.
\<close>

section \<open>Model\<close>

datatype chunk_status = NeedMore | DataAvail | Done | ChunkError

datatype chunk_state =
    Size | SizeLF | Extension | Data | DataCR | DataLF
  | Trailer | TrailerLF | TrailerLine | TrailerLineLF | Complete

record chunked_parser =
  ck_state :: chunk_state
  chunk_remaining :: u32
  has_digits :: bool

definition ck_reset :: chunked_parser where
  "ck_reset = \<lparr>ck_state = Size, chunk_remaining = 0, has_digits = False\<rparr>"

definition hex_val :: "u8 \<Rightarrow> int" where
  "hex_val c =
     (if 0x30 \<le> c \<and> c \<le> 0x39 then uint c - 0x30
      else if 0x61 \<le> c \<and> c \<le> 0x66 then 10 + (uint c - 0x61)
      else if 0x41 \<le> c \<and> c \<le> 0x46 then 10 + (uint c - 0x41)
      else -1)"

text \<open>
  The result of \<open>feed\<close>: status, \<open>*consumed\<close>, the decoded region
  \<open>(*out_start, *out_len)\<close> where it was written, and the parser afterwards.
\<close>

record feed_result =
  fr_status :: chunk_status
  fr_consumed :: nat
  fr_out :: "view option"
  fr_parser :: chunked_parser

abbreviation feed_ret ::
  "chunk_status \<Rightarrow> nat \<Rightarrow> view option \<Rightarrow> chunked_parser \<Rightarrow> feed_result" where
  "feed_ret s n out p \<equiv> \<lparr>fr_status = s, fr_consumed = n, fr_out = out, fr_parser = p\<rparr>"

text \<open>
  One round of the \<open>switch\<close> in \<open>ChunkedParser::feed\<close>.  A case of the switch either
  advances \<open>pos\<close> by one and goes round the loop, returns from the function (with the
  number of bytes it still advances), or copies a run of data.
\<close>

datatype switch_result =
    Advance chunked_parser
  | Return chunk_status nat chunked_parser
  | CopyData

definition feed_switch :: "chunked_parser \<Rightarrow> u8 \<Rightarrow> switch_result" where
  "feed_switch p c =
     (case ck_state p of
        Size \<Rightarrow>
          (if hex_val c \<ge> 0 then
             (if chunk_remaining p > 0x0FFFFFFF then Return ChunkError 0 p
              else Advance
                     (p\<lparr>chunk_remaining :=
                          push_bit 4 (chunk_remaining p) OR word_of_int (hex_val c),
                        has_digits := True\<rparr>))
           else if c = CR then
             (if \<not> has_digits p then Return ChunkError 0 p
              else Advance (p\<lparr>ck_state := SizeLF\<rparr>))
           else if c = 0x3B then
             (if \<not> has_digits p then Return ChunkError 0 p
              else Advance (p\<lparr>ck_state := Extension\<rparr>))
           else Return ChunkError 0 p)
      | SizeLF \<Rightarrow>
          (if c \<noteq> LF then Return ChunkError 0 p
           else if chunk_remaining p = 0 then Advance (p\<lparr>ck_state := Trailer\<rparr>)
           else Advance (p\<lparr>ck_state := Data\<rparr>))
      | Extension \<Rightarrow>
          (if c = CR then Advance (p\<lparr>ck_state := SizeLF\<rparr>) else Advance p)
      | Data \<Rightarrow> CopyData
      | DataCR \<Rightarrow>
          (if c \<noteq> CR then Return ChunkError 0 p else Advance (p\<lparr>ck_state := DataLF\<rparr>))
      | DataLF \<Rightarrow>
          (if c \<noteq> LF then Return ChunkError 0 p
           else Advance (p\<lparr>ck_state := Size, chunk_remaining := 0, has_digits := False\<rparr>))
      | Trailer \<Rightarrow>
          (if c = CR then Advance (p\<lparr>ck_state := TrailerLF\<rparr>)
           else Advance (p\<lparr>ck_state := TrailerLine\<rparr>))
      | TrailerLF \<Rightarrow>
          (if c \<noteq> LF then Return ChunkError 0 p
           else Return Done 1 (p\<lparr>ck_state := Complete\<rparr>))
      | TrailerLine \<Rightarrow>
          (if c = CR then Advance (p\<lparr>ck_state := TrailerLineLF\<rparr>) else Advance p)
      | TrailerLineLF \<Rightarrow>
          (if c \<noteq> LF then Return ChunkError 0 p else Advance (p\<lparr>ck_state := Trailer\<rparr>))
      | Complete \<Rightarrow> Return Done 0 p)"

text \<open>The \<open>Data\<close> case: \<open>avail\<close> is what is left of the input from \<open>pos\<close> on.\<close>

definition copy_data :: "chunked_parser \<Rightarrow> nat \<Rightarrow> nat \<Rightarrow> feed_result" where
  "copy_data p pos avail =
     (let n = (if avail < unat (chunk_remaining p) then avail
               else unat (chunk_remaining p));
          r = chunk_remaining p - of_nat n;
          p' = p\<lparr>chunk_remaining := r\<rparr>
      in feed_ret DataAvail (pos + n) (Some \<lparr>v_off = pos, v_len = n\<rparr>)
           (if r = 0 then p'\<lparr>ck_state := DataCR\<rparr> else p'))"

text \<open>The loop: \<open>pos\<close> and the input from \<open>pos\<close> on.\<close>

fun feed_loop :: "chunked_parser \<Rightarrow> nat \<Rightarrow> bytes \<Rightarrow> feed_result" where
  "feed_loop p pos [] = feed_ret NeedMore pos None p"
| "feed_loop p pos (c # rest) =
     (case feed_switch p c of
        Advance p' \<Rightarrow> feed_loop p' (Suc pos) rest
      | Return s n p' \<Rightarrow> feed_ret s (pos + n) None p'
      | CopyData \<Rightarrow> copy_data p pos (length (c # rest)))"

definition feed :: "chunked_parser \<Rightarrow> bytes \<Rightarrow> feed_result" where
  "feed p input = feed_loop p 0 input"

text \<open>
  Where one call starts and how far it can get: a call that consumes nothing and reports
  data has left the \<open>Data\<close> state, so the driving loop makes progress.
\<close>

lemma feed_switch_Return_le: "feed_switch p c = Return s n p' \<Longrightarrow> n \<le> 1 \<and> s \<noteq> DataAvail"
  by (auto simp: feed_switch_def split: chunk_state.splits if_splits)

lemma feed_switch_CopyData_iff: "feed_switch p c = CopyData \<longleftrightarrow> ck_state p = Data"
  by (auto simp: feed_switch_def split: chunk_state.splits)

lemma feed_loop_consumed_ge: "pos \<le> fr_consumed (feed_loop p pos xs)"
  by (induction p pos xs rule: feed_loop.induct)
     (auto simp: copy_data_def Let_def split: switch_result.split intro: Suc_leD)

lemma feed_loop_consumed_le: "fr_consumed (feed_loop p pos xs) \<le> pos + length xs"
proof (induction p pos xs rule: feed_loop.induct)
  case (2 p pos c rest)
  then show ?case
    by (auto simp: copy_data_def Let_def dest: feed_switch_Return_le split: switch_result.split)
qed simp

lemma feed_loop_Data_state:
  assumes "fr_status (feed_loop p pos xs) = DataAvail"
    and "fr_consumed (feed_loop p pos xs) = pos"
  shows "ck_state p = Data \<and> ck_state (fr_parser (feed_loop p pos xs)) = DataCR"
proof (cases xs)
  case Nil
  with assms show ?thesis by simp
next
  case (Cons c rest)
  have "fr_consumed (feed_loop q (Suc pos) rest) \<noteq> pos" for q
    using feed_loop_consumed_ge [of "Suc pos" q rest] by simp
  with assms Cons have "ck_state p = Data"
    by (auto simp: feed_switch_CopyData_iff
        dest: feed_switch_Return_le split: switch_result.splits)
  with assms Cons show ?thesis
    by (auto simp: copy_data_def feed_switch_CopyData_iff [THEN iffD2] Let_def unat_eq_zero
        split: if_splits)
qed

text \<open>
  The loop that drives the decoder over the body bytes of one buffer; it occurs four times
  in the callbacks (request and response, first buffer and later ones).  The callers
  distinguish three outcomes: the body is complete, it is malformed, or more bytes are
  needed (the decoder said so, or the buffer is used up).  The regions the calls report
  are collected in \<open>dr_data\<close>.
\<close>

datatype drive_status = Incomplete | Finished | Malformed

record drive_result =
  dr_status :: drive_status
  dr_pos :: nat
  dr_data :: bytes
  dr_parser :: chunked_parser

abbreviation drive_ret ::
  "drive_status \<Rightarrow> nat \<Rightarrow> bytes \<Rightarrow> chunked_parser \<Rightarrow> drive_result" where
  "drive_ret s n d p \<equiv> \<lparr>dr_status = s, dr_pos = n, dr_data = d, dr_parser = p\<rparr>"

definition region :: "bytes \<Rightarrow> view option \<Rightarrow> bytes" where
  "region input out = (case out of None \<Rightarrow> [] | Some v \<Rightarrow> view_bytes input v)"

function chunk_drive_loop ::
  "chunked_parser \<Rightarrow> bytes \<Rightarrow> nat \<Rightarrow> bytes \<Rightarrow> drive_result" where
  "chunk_drive_loop p body pos out =
     (if pos < length body then
        (let r = feed p (drop pos body);
             pos' = pos + fr_consumed r;
             out' = out @ region (drop pos body) (fr_out r)
         in case fr_status r of
              Done \<Rightarrow> drive_ret Finished pos' out' (fr_parser r)
            | ChunkError \<Rightarrow> drive_ret Malformed pos' out' (fr_parser r)
            | NeedMore \<Rightarrow> drive_ret Incomplete pos' out' (fr_parser r)
            | DataAvail \<Rightarrow> chunk_drive_loop (fr_parser r) body pos' out')
      else drive_ret Incomplete pos out p)"
  by pat_completeness auto
termination
proof (relation "measures [\<lambda>(p, body, pos, out). length body - pos,
                           \<lambda>(p, body, pos, out). if ck_state p = Data then 1 else 0]",
       goal_cases)
  case 1
  show ?case by simp
next
  case (2 p body pos out r pos' out')
  show ?case
  proof (cases "fr_consumed r = 0")
    case True
    with 2 have "ck_state p = Data \<and> ck_state (fr_parser r) = DataCR"
      using feed_loop_Data_state [of p 0 "drop pos body"] by (simp add: feed_def)
    with True 2 show ?thesis by simp
  next
    case False
    with 2 have "length body - pos' < length body - pos" by linarith
    then show ?thesis by simp
  qed
qed

definition chunk_drive :: "chunked_parser \<Rightarrow> bytes \<Rightarrow> drive_result" where
  "chunk_drive p body = chunk_drive_loop p body 0 []"

declare chunk_drive_loop.simps [simp del]

section \<open>The reference: one byte at a time\<close>

text \<open>
  \<open>byte_step\<close> is the switch with the bulk copy replaced by a single byte, \<open>ck_run\<close>
  the run of that automaton up to the end of the body, an error, or the end of the input.
\<close>

definition byte_step :: "chunked_parser \<Rightarrow> u8 \<Rightarrow> switch_result" where
  "byte_step p c =
     (if ck_state p = Data then
        Advance (if chunk_remaining p = 1
                 then p\<lparr>chunk_remaining := 0, ck_state := DataCR\<rparr>
                 else p\<lparr>chunk_remaining := chunk_remaining p - 1\<rparr>)
      else feed_switch p c)"

definition emitted :: "chunked_parser \<Rightarrow> u8 \<Rightarrow> bytes" where
  "emitted p c = (if ck_state p = Data then [c] else [])"

definition drive_status_of :: "chunk_status \<Rightarrow> drive_status" where
  "drive_status_of s =
     (case s of Done \<Rightarrow> Finished | ChunkError \<Rightarrow> Malformed | _ \<Rightarrow> Incomplete)"

definition dr_prepend :: "nat \<Rightarrow> bytes \<Rightarrow> drive_result \<Rightarrow> drive_result" where
  "dr_prepend n d r = r\<lparr>dr_pos := n + dr_pos r, dr_data := d @ dr_data r\<rparr>"

fun ck_run :: "chunked_parser \<Rightarrow> bytes \<Rightarrow> drive_result" where
  "ck_run p [] = drive_ret Incomplete 0 [] p"
| "ck_run p (c # cs) =
     (case byte_step p c of
        Advance p' \<Rightarrow> dr_prepend 1 (emitted p c) (ck_run p' cs)
      | Return s n p' \<Rightarrow> drive_ret (drive_status_of s) n [] p'
      | CopyData \<Rightarrow> drive_ret Incomplete 0 [] p)"

text \<open>
  The type invariant: a decoder in the \<open>Data\<close> state has bytes to copy, and one that has
  seen no digit of a size has accumulated nothing.
\<close>

definition ck_inv :: "chunked_parser \<Rightarrow> bool" where
  "ck_inv p \<longleftrightarrow> (ck_state p = Data \<longrightarrow> chunk_remaining p \<noteq> 0) \<and>
     (ck_state p = Size \<and> \<not> has_digits p \<longrightarrow> chunk_remaining p = 0)"

lemma ck_inv_reset [simp]: "ck_inv ck_reset"
  by (simp add: ck_inv_def ck_reset_def)

lemma dr_prepend_simps [simp]:
  "dr_status (dr_prepend n d r) = dr_status r"
  "dr_pos (dr_prepend n d r) = n + dr_pos r"
  "dr_data (dr_prepend n d r) = d @ dr_data r"
  "dr_parser (dr_prepend n d r) = dr_parser r"
  "dr_prepend n d (dr_prepend m e r) = dr_prepend (n + m) (d @ e) r"
  "dr_prepend 0 [] r = r"
  by (simp_all add: dr_prepend_def)

lemma byte_step_not_CopyData [simp]: "byte_step p c \<noteq> CopyData"
  by (simp add: byte_step_def feed_switch_CopyData_iff)

lemma feed_switch_inv: "feed_switch p c = Advance p' \<Longrightarrow> ck_inv p'"
  by (auto simp: feed_switch_def ck_inv_def split: chunk_state.splits if_splits)

lemma byte_step_inv: "byte_step p c = Advance p' \<Longrightarrow> ck_inv p \<Longrightarrow> ck_inv p'"
  by (auto simp: byte_step_def ck_inv_def split: if_splits dest: feed_switch_inv)

lemma byte_step_other: "ck_state p \<noteq> Data \<Longrightarrow> byte_step p c = feed_switch p c"
  by (simp add: byte_step_def)

text \<open>Within a chunk the automaton copies byte by byte what the decoder copies at once.\<close>

definition after_copy :: "chunked_parser \<Rightarrow> nat \<Rightarrow> chunked_parser" where
  "after_copy p n =
     (let p' = p\<lparr>chunk_remaining := chunk_remaining p - of_nat n\<rparr>
      in if chunk_remaining p' = 0 then p'\<lparr>ck_state := DataCR\<rparr> else p')"

lemma ck_run_Data:
  assumes "ck_state p = Data" "length ds \<le> unat (chunk_remaining p)" "ds \<noteq> []"
  shows "ck_run p (ds @ rest) =
           dr_prepend (length ds) ds (ck_run (after_copy p (length ds)) rest)"
  using assms
proof (induction ds arbitrary: p)
  case (Cons c ds)
  have one: "chunk_remaining p \<noteq> 0" using Cons.prems by auto
  show ?case
  proof (cases "ds = []")
    case True
    with Cons.prems show ?thesis
      by (auto simp: byte_step_def after_copy_def emitted_def Let_def)
  next
    case False
    with Cons.prems have "unat (chunk_remaining p) > 1" by (cases ds) auto
    then have ne1: "chunk_remaining p \<noteq> 1" by auto
    let ?q = "p\<lparr>chunk_remaining := chunk_remaining p - 1\<rparr>"
    have "unat (chunk_remaining p - 1) = unat (chunk_remaining p) - 1"
      using one by (simp add: unat_minus_one)
    with Cons.prems have "length ds \<le> unat (chunk_remaining ?q)" by simp
    with Cons.IH [of ?q] Cons.prems False
    have "ck_run ?q (ds @ rest) =
            dr_prepend (length ds) ds (ck_run (after_copy ?q (length ds)) rest)" by simp
    moreover have "after_copy ?q (length ds) = after_copy p (length (c # ds))"
      by (simp add: after_copy_def Let_def algebra_simps)
    ultimately show ?thesis
      using Cons.prems ne1 by (simp add: byte_step_def emitted_def)
  qed
qed simp

text \<open>One call of the decoder is a stretch of the automaton's run.\<close>

lemma copy_data_spec:
  assumes "ck_state p = Data" "ck_inv p" "xs \<noteq> []"
    and r_def: "r = copy_data p (length pre) (length xs)"
  shows "ck_run p xs =
           dr_prepend (fr_consumed r - length pre) (region (pre @ xs) (fr_out r))
             (ck_run (fr_parser r) (drop (fr_consumed r - length pre) xs))"
proof -
  define n where "n = min (length xs) (unat (chunk_remaining p))"
  have n_pos: "n \<noteq> 0" using assms(1-3) by (auto simp: n_def ck_inv_def unat_gt_0)
  have r: "r = feed_ret DataAvail (length pre + n) (Some \<lparr>v_off = length pre, v_len = n\<rparr>)
                 (after_copy p n)"
    by (auto simp: r_def copy_data_def n_def after_copy_def Let_def min_def)
  have "ck_run p (take n xs @ drop n xs) =
          dr_prepend n (take n xs) (ck_run (after_copy p n) (drop n xs))"
    using ck_run_Data [of p "take n xs" "drop n xs"] assms(1,3) n_pos
    by (auto simp: n_def min_def)
  then show ?thesis
    by (simp add: r region_def view_bytes_def)
qed

lemma feed_loop_spec:
  assumes "ck_inv p" and "r = feed_loop p (length pre) xs"
  shows "ck_run p xs =
           (if fr_status r = DataAvail
            then dr_prepend (fr_consumed r - length pre) (region (pre @ xs) (fr_out r))
                   (ck_run (fr_parser r) (drop (fr_consumed r - length pre) xs))
            else drive_ret (drive_status_of (fr_status r)) (fr_consumed r - length pre) []
                   (fr_parser r))"
  using assms
proof (induction xs arbitrary: p pre r)
  case Nil
  then show ?case by (simp add: drive_status_of_def)
next
  case (Cons c xs)
  consider (adv) p' where "feed_switch p c = Advance p'"
    | (ret) s n p' where "feed_switch p c = Return s n p'"
    | (data) "feed_switch p c = CopyData" by (cases "feed_switch p c") auto
  then show ?case
  proof cases
    case adv
    then have nd: "ck_state p \<noteq> Data" using feed_switch_CopyData_iff [of p c] by auto
    let ?r = "feed_loop p' (Suc (length pre)) xs"
    obtain k where k: "fr_consumed ?r = Suc (length pre) + k"
      using feed_loop_consumed_ge [of "Suc (length pre)" p' xs] le_Suc_ex by blast
    from Cons.IH [of p' ?r "pre @ [c]"] feed_switch_inv [OF adv] adv nd k
    show ?thesis
      by (simp add: Cons.prems byte_step_other emitted_def dr_prepend_def)
  next
    case ret
    then have nd: "ck_state p \<noteq> Data" using feed_switch_CopyData_iff [of p c] by auto
    from ret nd feed_switch_Return_le [OF ret] show ?thesis
      by (simp add: Cons.prems byte_step_other)
  next
    case data
    then have st: "ck_state p = Data" by (simp add: feed_switch_CopyData_iff)
    have dav: "fr_status (copy_data p n m) = DataAvail" for n m
      by (simp add: copy_data_def Let_def)
    show ?thesis
      using copy_data_spec [OF st Cons.prems(1), of "c # xs" r pre] Cons.prems data
      by (simp add: dav del: ck_run.simps)
  qed
qed

lemma copy_data_inv: "ck_inv p \<Longrightarrow> ck_inv (fr_parser (copy_data p pos n))"
  by (simp add: copy_data_def ck_inv_def Let_def)

lemma feed_switch_Return_inv: "feed_switch p c = Return s n p' \<Longrightarrow> ck_inv p \<Longrightarrow> ck_inv p'"
  by (auto simp: feed_switch_def ck_inv_def split: chunk_state.splits if_splits)

lemma feed_loop_inv: "ck_inv p \<Longrightarrow> ck_inv (fr_parser (feed_loop p pos xs))"
  by (induction p pos xs rule: feed_loop.induct)
     (auto simp: copy_data_inv dest: feed_switch_inv feed_switch_Return_inv
       split: switch_result.split)

lemma feed_out_None: "fr_status (feed_loop p pos xs) \<noteq> DataAvail \<Longrightarrow> fr_out (feed_loop p pos xs) = None"
  by (induction p pos xs rule: feed_loop.induct)
     (auto simp: copy_data_def Let_def split: switch_result.splits)

lemma chunk_drive_loop_spec:
  assumes "ck_inv p" "pos \<le> length body"
  shows "chunk_drive_loop p body pos out = dr_prepend pos out (ck_run p (drop pos body))"
  using assms
proof (induction p body pos out rule: chunk_drive_loop.induct)
  case (1 p body pos out)
  show ?case
  proof (cases "pos < length body")
    case True
    define r where "r = feed p (drop pos body)"
    have le: "fr_consumed r \<le> length body - pos"
      using feed_loop_consumed_le [of p 0 "drop pos body"] by (simp add: r_def feed_def)
    have inv: "ck_inv (fr_parser r)"
      using "1.prems" by (simp add: r_def feed_def feed_loop_inv)
    have run: "ck_run p (drop pos body) =
           (if fr_status r = DataAvail
            then dr_prepend (fr_consumed r) (region (drop pos body) (fr_out r))
                   (ck_run (fr_parser r) (drop (pos + fr_consumed r) body))
            else drive_ret (drive_status_of (fr_status r)) (fr_consumed r) [] (fr_parser r))"
      using feed_loop_spec [of p r "[]" "drop pos body"] "1.prems"
      by (simp add: r_def feed_def add.commute)
    show ?thesis
    proof (cases "fr_status r = DataAvail")
      case data: True
      from "1.IH" [OF True r_def refl refl] data inv le True run show ?thesis
        by (simp add: chunk_drive_loop.simps [of p] Let_def flip: r_def)
    next
      case False
      moreover have "region (drop pos body) (fr_out r) = []"
        using False feed_out_None [of p 0] by (simp add: region_def r_def feed_def)
      ultimately show ?thesis
        using True run
        by (cases "fr_status r")
           (simp_all add: chunk_drive_loop.simps [of p] Let_def drive_status_of_def
             dr_prepend_def flip: r_def)
    qed
  next
    case False
    with "1.prems" show ?thesis
      by (simp add: chunk_drive_loop.simps dr_prepend_def)
  qed
qed

lemma chunk_drive_run: "ck_inv p \<Longrightarrow> chunk_drive p body = ck_run p body"
  by (simp add: chunk_drive_def chunk_drive_loop_spec)

text \<open>
  Consequences: the run never looks beyond what it consumes, so a body may be cut into
  buffers anywhere.
\<close>

lemma ck_run_pos_le: "dr_pos (ck_run p xs) \<le> length xs"
proof (induction p xs rule: ck_run.induct)
  case (2 p c cs)
  have "n \<le> 1" if "byte_step p c = Return s n p'" for s n p'
    using that feed_switch_Return_le [of p c s n p'] by (auto simp: byte_step_def split: if_splits)
  with 2 show ?case by (auto split: switch_result.split)
qed simp

lemma feed_switch_Return_not_NeedMore: "feed_switch p c = Return s n p' \<Longrightarrow> s \<noteq> NeedMore"
  by (auto simp: feed_switch_def split: chunk_state.splits if_splits)

lemma ck_run_append:
  "ck_run p (xs @ ys) =
     (let r = ck_run p xs in
      if dr_status r = Incomplete
      then dr_prepend (length xs) (dr_data r) (ck_run (dr_parser r) ys) else r)"
proof (induction xs arbitrary: p)
  case (Cons c xs)
  have ret: "drive_status_of s \<noteq> Incomplete" if "byte_step p c = Return s n p'" for s n p'
    using that feed_switch_Return_le [of p c s n p'] feed_switch_Return_not_NeedMore [of p c s n p']
    by (cases s) (auto simp: byte_step_def drive_status_of_def split: if_splits)
  show ?case
    by (cases "byte_step p c") (auto simp: Cons.IH Let_def dest: ret)
qed simp

lemma ck_run_inv: "ck_inv p \<Longrightarrow> ck_inv (dr_parser (ck_run p xs))"
proof (induction xs arbitrary: p)
  case (Cons c xs)
  have "ck_inv p'" if "byte_step p c = Return s n p'" for s n p'
    using that Cons.prems feed_switch_Return_inv [of p c s n p']
    by (auto simp: byte_step_def split: if_splits)
  with Cons show ?case
    by (auto split: switch_result.split dest: byte_step_inv)
qed simp

section \<open>The language of chunked bodies\<close>

text \<open>
  The chunked coding of RFC 9112 section 7.1 as the decoder reads it: a size line is hex
  digits, an optional extension and CRLF, with a value below \<open>2^32\<close>; a data chunk
  carries as many bytes as its size says and CRLF; the last chunk has size zero and is
  followed by trailer lines and an empty line.
\<close>

definition is_hex :: "u8 \<Rightarrow> bool" where
  "is_hex c \<longleftrightarrow> hex_val c \<ge> 0"

definition hexnum_from :: "nat \<Rightarrow> bytes \<Rightarrow> nat" where
  "hexnum_from v ds = foldl (\<lambda>a c. 16 * a + nat (hex_val c)) v ds"

definition chunk_ext :: "bytes \<Rightarrow> bool" where
  "chunk_ext e \<longleftrightarrow> e = [] \<or> hd e = 0x3B \<and> CR \<notin> set e"

inductive trailer_part :: "bytes \<Rightarrow> bool" where
  trailer_end: "trailer_part [CR, LF]"
| trailer_line: "l \<noteq> [] \<Longrightarrow> CR \<notin> set l \<Longrightarrow> trailer_part w \<Longrightarrow> trailer_part (l @ CR # LF # w)"

inductive chunked_body :: "bytes \<Rightarrow> bytes \<Rightarrow> bool"
  and after_size :: "nat \<Rightarrow> bytes \<Rightarrow> bytes \<Rightarrow> bool" where
  size_line: "ds \<noteq> [] \<Longrightarrow> list_all is_hex ds \<Longrightarrow> hexnum_from 0 ds < 2 ^ 32 \<Longrightarrow> chunk_ext e \<Longrightarrow>
     after_size (hexnum_from 0 ds) w d \<Longrightarrow> chunked_body (ds @ e @ CR # LF # w) d"
| last_chunk: "trailer_part w \<Longrightarrow> after_size 0 w []"
| data_chunk: "x \<noteq> [] \<Longrightarrow> chunked_body w d \<Longrightarrow>
     after_size (length x) (x @ CR # LF # w) (x @ d)"

text \<open>What remains to be read from each state of the decoder.\<close>

definition residual :: "chunked_parser \<Rightarrow> bytes \<Rightarrow> bytes \<Rightarrow> bool" where
  "residual p w d =
     (let v = unat (chunk_remaining p) in
      case ck_state p of
        Size \<Rightarrow> (\<exists>ds e w'. w = ds @ e @ CR # LF # w' \<and> (ds \<noteq> [] \<or> has_digits p) \<and>
                   list_all is_hex ds \<and> hexnum_from v ds < 2 ^ 32 \<and> chunk_ext e \<and>
                   after_size (hexnum_from v ds) w' d)
      | SizeLF \<Rightarrow> (\<exists>w'. w = LF # w' \<and> after_size v w' d)
      | Extension \<Rightarrow> (\<exists>e w'. w = e @ CR # LF # w' \<and> CR \<notin> set e \<and> after_size v w' d)
      | Data \<Rightarrow> (\<exists>x w' d'. w = x @ CR # LF # w' \<and> length x = v \<and> d = x @ d' \<and>
                   chunked_body w' d')
      | DataCR \<Rightarrow> (\<exists>w'. w = CR # LF # w' \<and> chunked_body w' d)
      | DataLF \<Rightarrow> (\<exists>w'. w = LF # w' \<and> chunked_body w' d)
      | Trailer \<Rightarrow> trailer_part w \<and> d = []
      | TrailerLF \<Rightarrow> w = [LF] \<and> d = []
      | TrailerLine \<Rightarrow> (\<exists>l w'. w = l @ CR # LF # w' \<and> CR \<notin> set l \<and> trailer_part w') \<and> d = []
      | TrailerLineLF \<Rightarrow> (\<exists>w'. w = LF # w' \<and> trailer_part w') \<and> d = []
      | Complete \<Rightarrow> False)"

inductive_simps after_size_0: "after_size 0 w d"

lemma after_size_pos:
  "0 < n \<Longrightarrow> after_size n w d \<longleftrightarrow>
     (\<exists>x w' d'. w = x @ CR # LF # w' \<and> length x = n \<and> d = x @ d' \<and> chunked_body w' d')"
  by (subst after_size.simps) fastforce

lemma hexnum_from_Nil [simp]: "hexnum_from v [] = v"
  by (simp add: hexnum_from_def)

lemma hexnum_from_Cons [simp]:
  "hexnum_from v (c # ds) = hexnum_from (16 * v + nat (hex_val c)) ds"
  by (simp add: hexnum_from_def)

lemma hexnum_from_ge: "v \<le> hexnum_from v ds"
proof (induction ds arbitrary: v)
  case (Cons c ds)
  have "v \<le> 16 * v + nat (hex_val c)" by simp
  also have "\<dots> \<le> hexnum_from v (c # ds)" using Cons.IH by simp
  finally show ?case .
qed simp

lemma hex_val_lt: "hex_val c < 16"
  by (auto simp: hex_val_def word_le_def)

lemma CR_not_hex [simp]: "\<not> is_hex CR" and semicolon_not_hex [simp]: "\<not> is_hex 0x3B"
  by (simp_all add: is_hex_def hex_val_def)

text \<open>Below the guard \<open>0x0FFFFFFF\<close>, shifting in a digit is exact.\<close>

lemma shift_in_digit:
  fixes r :: u32
  assumes "r \<le> 0x0FFFFFFF" "0 \<le> v" "v < 16"
  shows "unat (push_bit 4 r OR word_of_int v) = 16 * unat r + nat v"
proof -
  have r: "unat r \<le> 0x0FFFFFFF" using assms(1) by (simp add: word_le_nat_alt)
  have v: "unat (word_of_int v :: u32) = nat v"
    using assms(2,3) by (simp add: unat_eq_nat_uint uint_word_of_int_eq take_bit_int_eq_self)
  have p: "unat (push_bit 4 r) = 16 * unat r"
    using r by (simp add: push_bit_eq_mult unat_word_ariths)
  have "push_bit 4 r AND word_of_int v = 0"
  proof (rule bit_word_eqI)
    fix n
    have "\<not> bit v n" if "4 \<le> n"
    proof -
      have "take_bit 4 v = v" using assms(2,3) by (simp add: take_bit_int_eq_self)
      then have "bit v n = bit (take_bit 4 v) n" by simp
      with that show ?thesis by (simp add: bit_take_bit_iff)
    qed
    then show "bit (push_bit 4 r AND word_of_int v) n = bit 0 n"
      by (auto simp: bit_and_iff bit_push_bit_iff bit_word_of_int_iff)
  qed
  then have "push_bit 4 r OR word_of_int v = push_bit 4 r + word_of_int v"
    by (simp add: disjunctive_add_eq_or)
  then show ?thesis using p v r assms(2,3)
    by (simp add: unat_word_ariths)
qed

text \<open>Reading a byte takes the residual language of a state to that of the next state.\<close>

lemma residual_Size:
  assumes "ck_state p = Size"
  shows "residual p (c # w) d \<longleftrightarrow> (\<exists>p'. feed_switch p c = Advance p' \<and> residual p' w d)"
proof -
  let ?v = "unat (chunk_remaining p)"
  let ?P = "\<lambda>ds e w'. c # w = ds @ e @ CR # LF # w' \<and> (ds \<noteq> [] \<or> has_digits p) \<and>
     list_all is_hex ds \<and> hexnum_from ?v ds < 2 ^ 32 \<and> chunk_ext e \<and>
     after_size (hexnum_from ?v ds) w' d"
  have lhs: "residual p (c # w) d \<longleftrightarrow> (\<exists>ds e w'. ?P ds e w')"
    using assms by (simp add: residual_def Let_def)
  consider (hex) "is_hex c" | (cr) "c = CR" | (semi) "c = 0x3B"
    | (bad) "\<not> is_hex c" "c \<noteq> CR" "c \<noteq> 0x3B" by blast
  then show ?thesis
  proof cases
    case hex
    let ?v' = "16 * ?v + nat (hex_val c)"
    have split: "(\<exists>ds e w'. ?P ds e w') \<longleftrightarrow>
        (\<exists>ds e w'. w = ds @ e @ CR # LF # w' \<and> list_all is_hex ds \<and>
           hexnum_from ?v' ds < 2 ^ 32 \<and> chunk_ext e \<and> after_size (hexnum_from ?v' ds) w' d)"
      (is "?A \<longleftrightarrow> ?B")
    proof
      assume ?A
      then obtain ds e w' where P: "?P ds e w'" by blast
      have "ds \<noteq> []"
        using P hex by (cases e) (auto simp: chunk_ext_def)
      then show ?B using P hex by (cases ds) auto
    next
      assume ?B
      then obtain ds e w' where "?P (c # ds) e w'" using hex by auto
      then show ?A by blast
    qed
    show ?thesis
    proof (cases "chunk_remaining p > 0x0FFFFFFF")
      case True
      then have "?v \<ge> 0x10000000" by (simp add: word_less_nat_alt)
      then have "\<not> hexnum_from ?v' ds < 2 ^ 32" for ds
        using hexnum_from_ge [of ?v' ds] by simp
      then show ?thesis
        using True hex assms unfolding lhs split by (simp add: feed_switch_def is_hex_def)
    next
      case False
      then have "unat (push_bit 4 (chunk_remaining p) OR word_of_int (hex_val c)) = ?v'"
        using hex hex_val_lt [of c] by (intro shift_in_digit) (auto simp: is_hex_def not_less)
      then show ?thesis
        using False hex assms unfolding lhs split
        by (simp add: feed_switch_def is_hex_def residual_def Let_def)
    qed
  next
    case cr
    have "?P ds e w' \<longleftrightarrow> ds = [] \<and> e = [] \<and> w = LF # w' \<and> has_digits p \<and> after_size ?v w' d"
      for ds e w'
      using cr unat_u32_lt [of "chunk_remaining p"]
      by (cases ds; cases e) (auto simp: chunk_ext_def)
    then show ?thesis
      using cr assms unfolding lhs
      by (simp add: feed_switch_def is_hex_def [symmetric] residual_def)
  next
    case semi
    have "(\<exists>ds e w'. ?P ds e w') \<longleftrightarrow>
        has_digits p \<and> (\<exists>e w'. w = e @ CR # LF # w' \<and> CR \<notin> set e \<and> after_size ?v w' d)"
      (is "?A \<longleftrightarrow> ?B")
    proof
      assume ?A
      then obtain ds e w' where P: "?P ds e w'" by blast
      with semi have "ds = []" by (cases ds) auto
      with P semi show ?B by (cases e) (auto simp: chunk_ext_def)
    next
      assume ?B
      then obtain e w' where "w = e @ CR # LF # w'" "CR \<notin> set e" "after_size ?v w' d" "has_digits p"
        by blast
      then have "?P [] (0x3B # e) w'"
        using semi unat_u32_lt [of "chunk_remaining p"] by (simp add: chunk_ext_def)
      then show ?A by blast
    qed
    then show ?thesis
      using semi assms unfolding lhs
      by (simp add: feed_switch_def is_hex_def [symmetric] residual_def)
  next
    case bad
    have "\<not> ?P ds e w'" for ds e w'
      using bad by (cases ds; cases e) (auto simp: chunk_ext_def)
    then show ?thesis
      using bad assms unfolding lhs by (simp add: feed_switch_def is_hex_def)
  qed
qed

lemma residual_reset:
  "ck_state p = Size \<Longrightarrow> chunk_remaining p = 0 \<Longrightarrow> \<not> has_digits p \<Longrightarrow>
     residual p w d \<longleftrightarrow> chunked_body w d"
  by (subst chunked_body.simps) (simp add: residual_def)

lemma residual_Nil [simp]: "\<not> residual p [] d"
proof -
  have "\<not> trailer_part []" by (subst trailer_part.simps) simp
  then show ?thesis by (auto simp: residual_def Let_def split: chunk_state.splits)
qed

lemma trailer_part_Cons:
  "trailer_part (c # w) \<longleftrightarrow>
     (if c = CR then w = [LF]
      else \<exists>l w'. w = l @ CR # LF # w' \<and> CR \<notin> set l \<and> trailer_part w')" (is "_ \<longleftrightarrow> ?R")
proof
  assume "trailer_part (c # w)"
  then show ?R
    by (cases rule: trailer_part.cases) (auto simp: Cons_eq_append_conv, blast)
next
  assume R: ?R
  show "trailer_part (c # w)"
  proof (cases "c = CR")
    case True
    with R show ?thesis by (simp add: trailer_end)
  next
    case False
    with R obtain l w' where "w = l @ CR # LF # w'" "CR \<notin> set l" "trailer_part w'" by auto
    with False trailer_line [of "c # l" w'] show ?thesis by simp
  qed
qed

lemma line_Cons:
  "(\<exists>l w'. c # w = l @ CR # LF # w' \<and> CR \<notin> set l \<and> P w') \<longleftrightarrow>
     (if c = CR then \<exists>w'. w = LF # w' \<and> P w'
      else \<exists>l w'. w = l @ CR # LF # w' \<and> CR \<notin> set l \<and> P w')" (is "?L \<longleftrightarrow> ?R")
proof
  assume ?L
  then show ?R by (auto simp: Cons_eq_append_conv, blast)
next
  assume R: ?R
  show ?L
  proof (cases "c = CR")
    case True
    with R obtain w' where "c # w = [] @ CR # LF # w' \<and> CR \<notin> set [] \<and> P w'" by auto
    then show ?thesis by blast
  next
    case False
    with R obtain l w' where "c # w = (c # l) @ CR # LF # w' \<and> CR \<notin> set (c # l) \<and> P w'" by auto
    then show ?thesis by blast
  qed
qed

lemma chunk_Cons:
  "(\<exists>x w' d'. c # w = x @ CR # LF # w' \<and> length x = Suc k \<and> d = x @ d' \<and> chunked_body w' d')
     \<longleftrightarrow> (\<exists>d'. d = c # d' \<and> (\<exists>x w' d''. w = x @ CR # LF # w' \<and> length x = k \<and> d' = x @ d'' \<and>
            chunked_body w' d''))" (is "?A \<longleftrightarrow> ?B")
proof
  assume ?A then show ?B by (auto simp: Cons_eq_append_conv, blast)
next
  assume ?B
  then obtain x w' d'' where "c # w = (c # x) @ CR # LF # w'" "length (c # x) = Suc k"
    "d = (c # x) @ d''" "chunked_body w' d''" by auto
  then show ?A by blast
qed

lemma residual_Data:
  assumes "ck_state p = Data" "chunk_remaining p \<noteq> 0"
  shows "residual p (c # w) d \<longleftrightarrow> (\<exists>p'. byte_step p c = Advance p' \<and>
           (\<exists>d'. d = c # d' \<and> residual p' w d'))"
proof -
  obtain k where k: "unat (chunk_remaining p) = Suc k"
    using assms(2) unat_gt_0 by (metis not0_implies_Suc unat_eq_zero)
  have k': "unat (chunk_remaining p - 1) = k"
    using assms(2) k by (simp add: unat_minus_one)
  have one: "chunk_remaining p = 1 \<longleftrightarrow> k = 0"
    using k by (simp add: word_unat_eq_iff)
  show ?thesis
  proof (cases "chunk_remaining p = 1")
    case True
    with assms k one show ?thesis
      by (simp add: residual_def byte_step_def chunk_Cons [where k = 0, simplified])
  next
    case False
    with assms k k' show ?thesis
      by (simp add: residual_def byte_step_def chunk_Cons [simplified])
  qed
qed

lemma residual_step:
  assumes "ck_inv p"
  shows "residual p (c # w) d \<longleftrightarrow>
     (case byte_step p c of
        Advance p' \<Rightarrow> \<exists>d'. d = emitted p c @ d' \<and> residual p' w d'
      | Return s n p' \<Rightarrow> s = Done \<and> n = 1 \<and> w = [] \<and> d = []
      | CopyData \<Rightarrow> False)"
proof (cases "ck_state p")
  case Size
  then show ?thesis
    by (auto simp: residual_Size byte_step_other emitted_def feed_switch_def split: if_splits)
next
  case SizeLF
  have "0 < unat (chunk_remaining p) \<longleftrightarrow> chunk_remaining p \<noteq> 0" by (rule unat_gt_0)
  with SizeLF show ?thesis
    by (auto simp: byte_step_other emitted_def feed_switch_def residual_def after_size_0
        after_size_pos)
next
  case Extension
  then show ?thesis
    by (simp add: byte_step_other emitted_def feed_switch_def residual_def line_Cons)
next
  case Data
  with assms show ?thesis
    by (auto simp: residual_Data ck_inv_def emitted_def byte_step_def split: if_splits)
next
  case DataCR
  then show ?thesis
    by (auto simp: byte_step_other emitted_def feed_switch_def residual_def)
next
  case DataLF
  then show ?thesis
    by (auto simp: byte_step_other emitted_def feed_switch_def residual_reset)
       (auto simp: residual_def)
next
  case Trailer
  then show ?thesis
    by (simp add: byte_step_other emitted_def feed_switch_def residual_def trailer_part_Cons)
next
  case TrailerLine
  then show ?thesis
    by (simp add: byte_step_other emitted_def feed_switch_def residual_def
        line_Cons [where P = trailer_part])
qed (auto simp: byte_step_other emitted_def feed_switch_def residual_def)

lemma ck_run_Finished_iff:
  assumes "ck_inv p" "ck_state p \<noteq> Complete"
  shows "dr_status (ck_run p xs) = Finished \<and> dr_pos (ck_run p xs) = n \<and> dr_data (ck_run p xs) = d
     \<longleftrightarrow> n \<le> length xs \<and> residual p (take n xs) d"
  using assms
proof (induction xs arbitrary: p n d)
  case (Cons c xs)
  show ?case
  proof (cases "byte_step p c")
    case (Advance p')
    have nc: "ck_state p' \<noteq> Complete"
      using Advance Cons.prems(2)
      by (auto simp: byte_step_def feed_switch_def split: if_splits chunk_state.splits)
    have IH: "dr_status (ck_run p' xs) = Finished \<and> dr_pos (ck_run p' xs) = m \<and>
        dr_data (ck_run p' xs) = d' \<longleftrightarrow> m \<le> length xs \<and> residual p' (take m xs) d'" for m d'
      by (rule Cons.IH [OF byte_step_inv [OF Advance Cons.prems(1)] nc])
    show ?thesis
    proof (cases n)
      case 0
      then show ?thesis using Advance by simp
    next
      case (Suc m)
      have "(dr_status (ck_run p (c # xs)) = Finished \<and> dr_pos (ck_run p (c # xs)) = n \<and>
             dr_data (ck_run p (c # xs)) = d) \<longleftrightarrow>
            (\<exists>d'. d = emitted p c @ d' \<and> dr_status (ck_run p' xs) = Finished \<and>
                  dr_pos (ck_run p' xs) = m \<and> dr_data (ck_run p' xs) = d')"
        using Advance Suc by auto
      also have "\<dots> \<longleftrightarrow> n \<le> length (c # xs) \<and> residual p (take n (c # xs)) d"
        unfolding IH using Advance Suc by (simp add: residual_step [OF Cons.prems(1)]) blast
      finally show ?thesis .
    qed
  next
    case (Return s m p')
    have sw: "feed_switch p c = Return s m p'"
      using Return by (auto simp: byte_step_def split: if_splits)
    then have s: "s = Done \<and> m = 1 \<or> s = ChunkError"
      using Cons.prems(2) by (auto simp: feed_switch_def split: chunk_state.splits if_splits)
    show ?thesis
      using Return s
      by (cases n) (auto simp: residual_step [OF Cons.prems(1)] drive_status_of_def
          take_Suc_conv_app_nth)
  qed simp
qed simp

lemma residual_viable:
  assumes "ck_inv p" "ck_state p \<noteq> Complete"
  shows "\<exists>w d. residual p w d"
proof -
  have tr: "trailer_part [CR, LF]" by (rule trailer_end)
  have cb: "chunked_body [0x30, CR, LF, CR, LF] []"
    using size_line [of "[0x30]" "[]" "[CR, LF]" "[]"] last_chunk [OF tr]
    by (simp add: is_hex_def hex_val_def chunk_ext_def)
  have as: "\<exists>w d. after_size n w d" for n
    using last_chunk [OF tr] data_chunk [OF _ cb, of "replicate n 0"]
    by (cases "n = 0") fastforce+
  obtain w d where w: "after_size (unat (chunk_remaining p)) w d" using as by blast
  have v: "unat (chunk_remaining p) < 2 ^ 32" by (rule unat_u32_lt)
  show ?thesis
  proof (cases "ck_state p")
    case Size
    show ?thesis
    proof (cases "has_digits p")
      case True
      have "\<exists>ds e w'. CR # LF # w = ds @ e @ CR # LF # w' \<and> (ds \<noteq> [] \<or> has_digits p) \<and>
              list_all is_hex ds \<and> hexnum_from (unat (chunk_remaining p)) ds < 2 ^ 32 \<and>
              chunk_ext e \<and> after_size (hexnum_from (unat (chunk_remaining p)) ds) w' d"
        using True w v
        by (intro exI [of _ "[]"] exI [of _ w]) (simp add: chunk_ext_def)
      with Size have "residual p (CR # LF # w) d" by (simp add: residual_def)
      then show ?thesis by blast
    next
      case False
      with Size assms(1) cb show ?thesis by (auto simp: ck_inv_def residual_reset)
    qed
  next
    case Data
    with cb have "residual p (replicate (unat (chunk_remaining p)) 0 @ CR # LF # [0x30, CR, LF, CR, LF])
        (replicate (unat (chunk_remaining p)) 0 @ [])"
      by (simp add: residual_def) (metis append_Nil2 length_replicate)
    then show ?thesis by blast
  next
    case Extension
    with w have "residual p ([] @ CR # LF # w) d"
      by (simp add: residual_def) (metis append_Nil empty_iff list.set(1))
    then show ?thesis by blast
  next
    case TrailerLine
    with tr have "residual p ([] @ CR # LF # [CR, LF]) []"
      by (simp add: residual_def) (metis append_Nil empty_iff list.set(1))
    then show ?thesis by blast
  next
    case Trailer
    with tr show ?thesis by (auto simp: residual_def)
  next
    case TrailerLineLF
    with tr show ?thesis by (auto simp: residual_def)
  qed (use assms cb w in \<open>auto simp: residual_def\<close>)
qed

lemma ck_run_Incomplete:
  "dr_status (ck_run p xs) = Incomplete \<Longrightarrow> ck_state p \<noteq> Complete \<Longrightarrow>
     dr_pos (ck_run p xs) = length xs \<and> ck_state (dr_parser (ck_run p xs)) \<noteq> Complete"
proof (induction xs arbitrary: p)
  case (Cons c xs)
  have ret: "drive_status_of s \<noteq> Incomplete" if "byte_step p c = Return s n p'" for s n p'
    using that feed_switch_Return_le [of p c s n p'] feed_switch_Return_not_NeedMore [of p c s n p']
    by (cases s) (auto simp: byte_step_def drive_status_of_def split: if_splits)
  have "ck_state p' \<noteq> Complete" if "byte_step p c = Advance p'" for p'
    using that Cons.prems(2)
    by (auto simp: byte_step_def feed_switch_def split: if_splits chunk_state.splits)
  with Cons ret show ?case by (auto split: switch_result.splits)
qed simp

lemma residual_ck_reset: "residual ck_reset w d \<longleftrightarrow> chunked_body w d"
  by (rule residual_reset) (simp_all add: ck_reset_def)

lemma ck_reset_not_Complete [simp]: "ck_state ck_reset \<noteq> Complete"
  by (simp add: ck_reset_def)

text \<open>
  The sequence of receive callbacks over one body: each buffer is driven to its end, and
  the body goes on in the next buffer as long as it is incomplete.
\<close>

fun drive_buffers :: "chunked_parser \<Rightarrow> bytes list \<Rightarrow> drive_result" where
  "drive_buffers p [] = drive_ret Incomplete 0 [] p"
| "drive_buffers p (b # bs) =
     (let r = chunk_drive p b in
      if dr_status r = Incomplete
      then dr_prepend (dr_pos r) (dr_data r) (drive_buffers (dr_parser r) bs)
      else r)"

lemma drive_buffers_run:
  "ck_inv p \<Longrightarrow> ck_state p \<noteq> Complete \<Longrightarrow> drive_buffers p bs = ck_run p (concat bs)"
proof (induction bs arbitrary: p)
  case (Cons b bs)
  then show ?case
    using ck_run_Incomplete [of p b] ck_run_inv [of p b]
    by (simp add: chunk_drive_run ck_run_append Let_def)
qed simp

section \<open>Properties\<close>

text \<open>
  C3: the decoder accepts exactly the chunked coding.  Driven from a reset parser over
  any bytes, it reports a finished body after \<open>n\<close> bytes with payload \<open>d\<close> if and only
  if the first \<open>n\<close> bytes are a chunked body whose chunks carry \<open>d\<close>; the bytes after
  them (a pipelined request) are not touched.
\<close>

theorem chunk_drive_exact:
  "(dr_status (chunk_drive ck_reset xs) = Finished \<and> dr_pos (chunk_drive ck_reset xs) = n \<and>
    dr_data (chunk_drive ck_reset xs) = d)
   \<longleftrightarrow> n \<le> length xs \<and> chunked_body (take n xs) d"
  using ck_run_Finished_iff [of ck_reset xs n d] by (simp add: chunk_drive_run residual_ck_reset)

text \<open>
  C15: errors are exact and detected at once.  The decoder reports a malformed body if and
  only if no continuation of the bytes seen so far can contain a chunked body as a prefix.
\<close>

theorem chunk_drive_malformed_exact:
  "dr_status (chunk_drive ck_reset xs) = Malformed
   \<longleftrightarrow> (\<nexists>ys n d. n \<le> length (xs @ ys) \<and> chunked_body (take n (xs @ ys)) d)"
proof -
  let ?r = "ck_run ck_reset xs"
  have fin: "(\<exists>n d. n \<le> length (xs @ ys) \<and> chunked_body (take n (xs @ ys)) d)
      \<longleftrightarrow> dr_status (ck_run ck_reset (xs @ ys)) = Finished" for ys
    using ck_run_Finished_iff [of ck_reset "xs @ ys"] by (auto simp: residual_ck_reset)
  have inc: "\<exists>ys. dr_status (ck_run ck_reset (xs @ ys)) = Finished" if i: "dr_status ?r = Incomplete"
  proof -
    have inv: "ck_inv (dr_parser ?r)" "ck_state (dr_parser ?r) \<noteq> Complete"
      using ck_run_inv ck_run_Incomplete [OF i] by simp_all
    then obtain w d where "residual (dr_parser ?r) w d" using residual_viable by blast
    then have "dr_status (ck_run (dr_parser ?r) w) = Finished"
      using ck_run_Finished_iff [OF inv, of w "length w" d] by simp
    with i show ?thesis by (auto simp: ck_run_append Let_def intro!: exI [of _ w])
  qed
  have "dr_status ?r = Malformed \<longleftrightarrow> (\<nexists>ys. dr_status (ck_run ck_reset (xs @ ys)) = Finished)"
    using inc by (cases "dr_status ?r") (auto simp: ck_run_append Let_def)
  then show ?thesis by (simp add: fin [symmetric] chunk_drive_run)
qed

text \<open>
  C16: the result does not depend on how the network cuts the body.  Feeding any sequence
  of buffers one after the other gives the outcome, the consumed length, the payload and
  the parser state of feeding their concatenation at once.
\<close>

theorem drive_buffers_concat:
  "drive_buffers ck_reset bs = chunk_drive ck_reset (concat bs)"
  by (simp add: drive_buffers_run chunk_drive_run)

end
