(* ===== verification/Simd_Scan.thy ===== *)
theory Simd_Scan
  imports Rut_Prelude
begin

text \<open>
  The byte scanners of the HTTP parsers: the character tables
  (\<open>src/runtime/simd/char_tables.h\<close>), the portable implementation
  (\<open>src/runtime/simd/scalar.cc\<close>) and the contract of \<open>src/runtime/simd/simd.h\<close> as the
  locale \<open>byte_scanner\<close>.  The vector implementations are in \<open>Simd_Vector\<close>.

  A position is a natural number below the buffer's length; the sentinel
  \<open>static_cast<u32>(-1)\<close> is \<open>None\<close>.
\<close>

section \<open>Character tables\<close>

definition kTokenTable :: "nat list" where
  "kTokenTable = [
    0, 0, 0, 0, 0, 0, 0, 0, 0, 0, 0, 0, 0, 0, 0, 0,
    0, 0, 0, 0, 0, 0, 0, 0, 0, 0, 0, 0, 0, 0, 0, 0,
    0, 1, 0, 1, 1, 1, 1, 1, 0, 0, 1, 1, 0, 1, 1, 0,
    1, 1, 1, 1, 1, 1, 1, 1, 1, 1, 0, 0, 0, 0, 0, 0,
    0, 1, 1, 1, 1, 1, 1, 1, 1, 1, 1, 1, 1, 1, 1, 1,
    1, 1, 1, 1, 1, 1, 1, 1, 1, 1, 1, 0, 0, 0, 1, 1,
    1, 1, 1, 1, 1, 1, 1, 1, 1, 1, 1, 1, 1, 1, 1, 1,
    1, 1, 1, 1, 1, 1, 1, 1, 1, 1, 1, 0, 1, 0, 1, 0,
    0, 0, 0, 0, 0, 0, 0, 0, 0, 0, 0, 0, 0, 0, 0, 0,
    0, 0, 0, 0, 0, 0, 0, 0, 0, 0, 0, 0, 0, 0, 0, 0,
    0, 0, 0, 0, 0, 0, 0, 0, 0, 0, 0, 0, 0, 0, 0, 0,
    0, 0, 0, 0, 0, 0, 0, 0, 0, 0, 0, 0, 0, 0, 0, 0,
    0, 0, 0, 0, 0, 0, 0, 0, 0, 0, 0, 0, 0, 0, 0, 0,
    0, 0, 0, 0, 0, 0, 0, 0, 0, 0, 0, 0, 0, 0, 0, 0,
    0, 0, 0, 0, 0, 0, 0, 0, 0, 0, 0, 0, 0, 0, 0, 0,
    0, 0, 0, 0, 0, 0, 0, 0, 0, 0, 0, 0, 0, 0, 0, 0]"

definition kHeaderValueTable :: "nat list" where
  "kHeaderValueTable = [
    0, 0, 0, 0, 0, 0, 0, 0, 0, 1, 0, 0, 0, 0, 0, 0,
    0, 0, 0, 0, 0, 0, 0, 0, 0, 0, 0, 0, 0, 0, 0, 0,
    1, 1, 1, 1, 1, 1, 1, 1, 1, 1, 1, 1, 1, 1, 1, 1,
    1, 1, 1, 1, 1, 1, 1, 1, 1, 1, 1, 1, 1, 1, 1, 1,
    1, 1, 1, 1, 1, 1, 1, 1, 1, 1, 1, 1, 1, 1, 1, 1,
    1, 1, 1, 1, 1, 1, 1, 1, 1, 1, 1, 1, 1, 1, 1, 1,
    1, 1, 1, 1, 1, 1, 1, 1, 1, 1, 1, 1, 1, 1, 1, 1,
    1, 1, 1, 1, 1, 1, 1, 1, 1, 1, 1, 1, 1, 1, 1, 0,
    1, 1, 1, 1, 1, 1, 1, 1, 1, 1, 1, 1, 1, 1, 1, 1,
    1, 1, 1, 1, 1, 1, 1, 1, 1, 1, 1, 1, 1, 1, 1, 1,
    1, 1, 1, 1, 1, 1, 1, 1, 1, 1, 1, 1, 1, 1, 1, 1,
    1, 1, 1, 1, 1, 1, 1, 1, 1, 1, 1, 1, 1, 1, 1, 1,
    1, 1, 1, 1, 1, 1, 1, 1, 1, 1, 1, 1, 1, 1, 1, 1,
    1, 1, 1, 1, 1, 1, 1, 1, 1, 1, 1, 1, 1, 1, 1, 1,
    1, 1, 1, 1, 1, 1, 1, 1, 1, 1, 1, 1, 1, 1, 1, 1,
    1, 1, 1, 1, 1, 1, 1, 1, 1, 1, 1, 1, 1, 1, 1, 1]"

definition kUriTable :: "nat list" where
  "kUriTable = [
    0, 0, 0, 0, 0, 0, 0, 0, 0, 0, 0, 0, 0, 0, 0, 0,
    0, 0, 0, 0, 0, 0, 0, 0, 0, 0, 0, 0, 0, 0, 0, 0,
    0, 1, 1, 1, 1, 1, 1, 1, 1, 1, 1, 1, 1, 1, 1, 1,
    1, 1, 1, 1, 1, 1, 1, 1, 1, 1, 1, 1, 1, 1, 1, 1,
    1, 1, 1, 1, 1, 1, 1, 1, 1, 1, 1, 1, 1, 1, 1, 1,
    1, 1, 1, 1, 1, 1, 1, 1, 1, 1, 1, 1, 1, 1, 1, 1,
    1, 1, 1, 1, 1, 1, 1, 1, 1, 1, 1, 1, 1, 1, 1, 1,
    1, 1, 1, 1, 1, 1, 1, 1, 1, 1, 1, 1, 1, 1, 1, 0,
    0, 0, 0, 0, 0, 0, 0, 0, 0, 0, 0, 0, 0, 0, 0, 0,
    0, 0, 0, 0, 0, 0, 0, 0, 0, 0, 0, 0, 0, 0, 0, 0,
    0, 0, 0, 0, 0, 0, 0, 0, 0, 0, 0, 0, 0, 0, 0, 0,
    0, 0, 0, 0, 0, 0, 0, 0, 0, 0, 0, 0, 0, 0, 0, 0,
    0, 0, 0, 0, 0, 0, 0, 0, 0, 0, 0, 0, 0, 0, 0, 0,
    0, 0, 0, 0, 0, 0, 0, 0, 0, 0, 0, 0, 0, 0, 0, 0,
    0, 0, 0, 0, 0, 0, 0, 0, 0, 0, 0, 0, 0, 0, 0, 0,
    0, 0, 0, 0, 0, 0, 0, 0, 0, 0, 0, 0, 0, 0, 0, 0]"

definition token_ok :: "u8 \<Rightarrow> bool" where
  "token_ok b \<longleftrightarrow> kTokenTable ! unat b \<noteq> 0"

definition value_ok :: "u8 \<Rightarrow> bool" where
  "value_ok b \<longleftrightarrow> kHeaderValueTable ! unat b \<noteq> 0"

definition uri_ok :: "u8 \<Rightarrow> bool" where
  "uri_ok b \<longleftrightarrow> kUriTable ! unat b \<noteq> 0"

section \<open>The portable scanners\<close>

function fhe_loop :: "bytes \<Rightarrow> nat \<Rightarrow> nat \<Rightarrow> nat" where
  "fhe_loop buf len i =
     (if i + 3 < len then
        (if buf ! i = CR \<and> buf ! (i + 1) = LF \<and> buf ! (i + 2) = CR \<and> buf ! (i + 3) = LF
         then i + 4 else fhe_loop buf len (Suc i))
      else 0)"
  by pat_completeness auto
termination by (relation "measure (\<lambda>(buf, len, i). len - i)") auto

definition find_header_end :: "bytes \<Rightarrow> nat \<Rightarrow> nat \<Rightarrow> nat" where
  "find_header_end buf len from = fhe_loop buf len (if from > 3 then from - 3 else 0)"

function scan_header_value :: "bytes \<Rightarrow> nat \<Rightarrow> nat \<Rightarrow> nat option" where
  "scan_header_value buf pos end =
     (if pos < end then
        (if buf ! pos = CR then Some pos
         else if \<not> value_ok (buf ! pos) then None
         else scan_header_value buf (Suc pos) end)
      else Some end)"
  by pat_completeness auto
termination by (relation "measure (\<lambda>(buf, pos, end). end - pos)") auto

text \<open>The result of \<open>scan_uri\<close> is the returned position and \<open>*canon_end_out\<close>.\<close>

function uri_loop :: "bytes \<Rightarrow> nat \<Rightarrow> nat \<Rightarrow> nat \<Rightarrow> (nat \<times> nat) option" where
  "uri_loop buf pos end canon_end =
     (if pos < end then
        (let b = buf ! pos in
         if b = SP then Some (pos, if canon_end \<noteq> end then canon_end else pos)
         else if \<not> uri_ok b then None
         else uri_loop buf (Suc pos) end
                (if (b = 0x3F \<or> b = 0x23) \<and> canon_end = end then pos else canon_end))
      else Some (end, canon_end))"
  by pat_completeness auto
termination by (relation "measure (\<lambda>(buf, pos, end, c). end - pos)") auto

definition scan_uri :: "bytes \<Rightarrow> nat \<Rightarrow> nat \<Rightarrow> (nat \<times> nat) option" where
  "scan_uri buf pos end = uri_loop buf pos end end"

function scan_header_name :: "bytes \<Rightarrow> nat \<Rightarrow> nat \<Rightarrow> nat option" where
  "scan_header_name buf pos end =
     (if pos < end then
        (if buf ! pos = 0x3A then Some pos
         else if \<not> token_ok (buf ! pos) then None
         else scan_header_name buf (Suc pos) end)
      else None)"
  by pat_completeness auto
termination by (relation "measure (\<lambda>(buf, pos, end). end - pos)") auto

declare fhe_loop.simps [simp del] scan_header_value.simps [simp del]
  uri_loop.simps [simp del] scan_header_name.simps [simp del]

section \<open>The contract\<close>

text \<open>The reference scanners, by structural recursion on the bytes to be scanned.\<close>

fun hdr_end_spec :: "nat \<Rightarrow> bytes \<Rightarrow> nat" where
  "hdr_end_spec i [] = 0"
| "hdr_end_spec i (b # bs) =
     (if prefix [CR, LF, CR, LF] (b # bs) then i + 4 else hdr_end_spec (Suc i) bs)"

fun value_spec :: "nat \<Rightarrow> bytes \<Rightarrow> nat option" where
  "value_spec pos [] = Some pos"
| "value_spec pos (b # bs) =
     (if b = CR then Some pos else if value_ok b then value_spec (Suc pos) bs else None)"

fun uri_spec :: "nat \<Rightarrow> nat option \<Rightarrow> bytes \<Rightarrow> (nat \<times> nat) option" where
  "uri_spec pos c [] = Some (pos, case c of None \<Rightarrow> pos | Some k \<Rightarrow> k)"
| "uri_spec pos c (b # bs) =
     (if b = SP then Some (pos, case c of None \<Rightarrow> pos | Some k \<Rightarrow> k)
      else if uri_ok b then
        uri_spec (Suc pos) (if (b = 0x3F \<or> b = 0x23) \<and> c = None then Some pos else c) bs
      else None)"

fun name_spec :: "nat \<Rightarrow> bytes \<Rightarrow> nat option" where
  "name_spec pos [] = None"
| "name_spec pos (b # bs) =
     (if b = 0x3A then Some pos else if token_ok b then name_spec (Suc pos) bs else None)"

definition slice :: "bytes \<Rightarrow> nat \<Rightarrow> nat \<Rightarrow> bytes" where
  "slice buf pos end = drop pos (take end buf)"

text \<open>What a translation unit that implements \<open>simd.h\<close> provides.\<close>

record scanner =
  sc_find_header_end :: "bytes \<Rightarrow> nat \<Rightarrow> nat \<Rightarrow> nat"
  sc_header_value :: "bytes \<Rightarrow> nat \<Rightarrow> nat \<Rightarrow> nat option"
  sc_uri :: "bytes \<Rightarrow> nat \<Rightarrow> nat \<Rightarrow> (nat \<times> nat) option"
  sc_header_name :: "bytes \<Rightarrow> nat \<Rightarrow> nat \<Rightarrow> nat option"

definition scalar_scanner :: scanner where
  "scalar_scanner = \<lparr>sc_find_header_end = find_header_end, sc_header_value = scan_header_value,
     sc_uri = scan_uri, sc_header_name = scan_header_name\<rparr>"

locale byte_scanner =
  fixes S :: scanner
  assumes find_header_end_law:
      "len \<le> length buf \<Longrightarrow> sc_find_header_end S buf len from = hdr_end_spec (from - 3) (slice buf (from - 3) len)"
    and header_value_law:
      "pos \<le> end \<Longrightarrow> end \<le> length buf \<Longrightarrow> sc_header_value S buf pos end = value_spec pos (slice buf pos end)"
    and uri_law:
      "pos \<le> end \<Longrightarrow> end \<le> length buf \<Longrightarrow> sc_uri S buf pos end = uri_spec pos None (slice buf pos end)"
    and header_name_law:
      "pos \<le> end \<Longrightarrow> end \<le> length buf \<Longrightarrow> sc_header_name S buf pos end = name_spec pos (slice buf pos end)"

lemma slice_Nil [simp]: "end \<le> pos \<Longrightarrow> slice buf pos end = []"
  by (simp add: slice_def)

lemma slice_Cons: "pos < end \<Longrightarrow> end \<le> length buf \<Longrightarrow> slice buf pos end = buf ! pos # slice buf (Suc pos) end"
  by (simp add: slice_def Cons_nth_drop_Suc [symmetric])

lemma length_slice [simp]: "end \<le> length buf \<Longrightarrow> length (slice buf pos end) = end - pos"
  by (simp add: slice_def)

lemma nth_slice [simp]: "end \<le> length buf \<Longrightarrow> i < end - pos \<Longrightarrow> slice buf pos end ! i = buf ! (pos + i)"
  by (simp add: slice_def)

lemma slice_full: "slice buf pos (length buf) = drop pos buf"
  by (simp add: slice_def)

lemma slice_block:
  "pos + w \<le> end \<Longrightarrow> end \<le> length buf \<Longrightarrow>
     slice buf pos end = take w (drop pos buf) @ slice buf (pos + w) end"
proof -
  assume le: "pos + w \<le> end" "end \<le> length buf"
  have "slice buf pos end = take w (drop pos (take end buf)) @ drop w (drop pos (take end buf))"
    unfolding slice_def by (rule append_take_drop_id [symmetric])
  also have "take w (drop pos (take end buf)) = take w (drop pos buf)"
    using le by (simp add: drop_take min_def)
  also have "drop w (drop pos (take end buf)) = slice buf (pos + w) end"
    by (simp add: slice_def add.commute)
  finally show ?thesis .
qed

lemma slice_window: "p \<le> q \<Longrightarrow> q \<le> end \<Longrightarrow> slice buf p end = slice buf p q @ slice buf q end"
proof -
  assume le: "p \<le> q" "q \<le> end"
  have "drop p (take end buf) = take (q - p) (drop p (take end buf)) @ drop (q - p) (drop p (take end buf))"
    by (rule append_take_drop_id [symmetric])
  also have "take (q - p) (drop p (take end buf)) = drop p (take q buf)"
    using le by (simp add: take_drop min_def)
  also have "drop (q - p) (drop p (take end buf)) = drop q (take end buf)"
    using le by simp
  finally show ?thesis by (simp add: slice_def)
qed

lemma slice_eq_take_drop: "pos + w \<le> length buf \<Longrightarrow> slice buf pos (pos + w) = take w (drop pos buf)"
  by (simp add: slice_def drop_take)

section \<open>The tables as predicates\<close>

lemma token_table: "kTokenTable = map (\<lambda>n. if 48 \<le> n \<and> n \<le> 57 \<or> 65 \<le> n \<and> n \<le> 90 \<or> 97 \<le> n \<and> n \<le> 122 \<or>
    n = 33 \<or> 35 \<le> n \<and> n \<le> 39 \<or> n = 42 \<or> n = 43 \<or> n = 45 \<or> n = 46 \<or> 94 \<le> n \<and> n \<le> 96 \<or>
    n = 124 \<or> n = 126 then 1 else 0) [0..<256]"
  by code_simp

lemma value_table: "kHeaderValueTable = map (\<lambda>n. if n = 9 \<or> 32 \<le> n \<and> n \<noteq> 127 then 1 else 0) [0..<256]"
  by code_simp

lemma uri_table: "kUriTable = map (\<lambda>n. if 32 < n \<and> n < 127 then 1 else 0) [0..<256]"
  by code_simp

lemma unat_u8: "unat (b::u8) < 256"
  using unsigned_less [of b] by simp

lemma value_ok_iff: "value_ok b \<longleftrightarrow> b = HTAB \<or> 0x20 \<le> b \<and> b \<noteq> 0x7F"
  using unat_u8 [of b]
  by (auto simp: value_ok_def value_table word_le_nat_alt word_unat_eq_iff)

lemma uri_ok_iff: "uri_ok b \<longleftrightarrow> 0x20 < b \<and> b < 0x7F"
  using unat_u8 [of b]
  by (auto simp: uri_ok_def uri_table word_less_nat_alt)

lemma SP_not_uri_ok [simp]: "\<not> uri_ok SP"
  by (simp add: uri_ok_iff)

section \<open>The portable scanners meet the contract\<close>

lemma prefix4_iff:
  "prefix [a, b, c, d] xs \<longleftrightarrow> 3 < length xs \<and> xs ! 0 = a \<and> xs ! 1 = b \<and> xs ! 2 = c \<and> xs ! 3 = d"
  by (auto simp: prefix_def length_Suc_conv numeral_3_eq_3 numeral_2_eq_2 less_Suc_eq_le
      dest!: less_imp_Suc_add)

lemma hdr_end_spec_short: "length xs < 4 \<Longrightarrow> hdr_end_spec i xs = 0"
proof (induction xs arbitrary: i)
  case (Cons b xs)
  then have "\<not> prefix [CR, LF, CR, LF] (b # xs)" by (auto dest: prefix_length_le)
  with Cons show ?case by simp
qed simp

lemma fhe_loop_spec: "len \<le> length buf \<Longrightarrow> fhe_loop buf len i = hdr_end_spec i (slice buf i len)"
proof (induction buf len i rule: fhe_loop.induct)
  case (1 buf len i)
  show ?case
  proof (cases "i + 3 < len")
    case True
    then have s: "slice buf i len = buf ! i # slice buf (Suc i) len"
      using 1 by (intro slice_Cons) auto
    have "prefix [CR, LF, CR, LF] (slice buf i len) \<longleftrightarrow>
        buf ! i = CR \<and> buf ! (i + 1) = LF \<and> buf ! (i + 2) = CR \<and> buf ! (i + 3) = LF"
      using True 1 by (auto simp: prefix4_iff)
    then show ?thesis
      using 1 True by (subst fhe_loop.simps) (simp add: s)
  next
    case False
    then show ?thesis
      using 1 by (subst fhe_loop.simps) (simp add: hdr_end_spec_short)
  qed
qed

text \<open>The end of the header block is the first hit at or after the start.\<close>

definition hit :: "bytes \<Rightarrow> nat \<Rightarrow> nat \<Rightarrow> bool" where
  "hit buf len i \<longleftrightarrow> i + 3 < len \<and> buf ! i = CR \<and> buf ! (i + 1) = LF \<and> buf ! (i + 2) = CR \<and> buf ! (i + 3) = LF"

definition first_hit :: "bytes \<Rightarrow> nat \<Rightarrow> nat \<Rightarrow> nat \<Rightarrow> bool" where
  "first_hit buf len p r \<longleftrightarrow> r = 0 \<and> (\<forall>i \<ge> p. \<not> hit buf len i) \<or>
     (\<exists>i \<ge> p. hit buf len i \<and> r = i + 4 \<and> (\<forall>j \<ge> p. j < i \<longrightarrow> \<not> hit buf len j))"

lemma first_hit_unique: "first_hit buf len p r \<Longrightarrow> first_hit buf len p s \<Longrightarrow> r = s"
  unfolding first_hit_def by (metis linorder_neqE_nat)

lemma first_hit_skip:
  "\<forall>i < w. \<not> hit buf len (p + i) \<Longrightarrow> first_hit buf len (p + w) r \<Longrightarrow> first_hit buf len p r"
proof -
  assume no: "\<forall>i < w. \<not> hit buf len (p + i)" and r: "first_hit buf len (p + w) r"
  have "\<not> hit buf len j" if "p \<le> j" "j < p + w" for j
    using no that by (metis add_less_cancel_left le_Suc_ex)
  with r show ?thesis unfolding first_hit_def
    by (metis add_leD1 leI)
qed

lemma first_hit_found:
  "hit buf len (p + i) \<Longrightarrow> \<forall>j < i. \<not> hit buf len (p + j) \<Longrightarrow> first_hit buf len p (p + i + 4)"
  unfolding first_hit_def by (metis add_less_cancel_left le_Suc_ex le_add1)

lemma first_hit_spec:
  "len \<le> length buf \<Longrightarrow> first_hit buf len p (hdr_end_spec p (slice buf p len))"
proof (induction "len - p" arbitrary: p)
  case 0
  then show ?case by (auto simp: first_hit_def hit_def)
next
  case (Suc n)
  then have s: "slice buf p len = buf ! p # slice buf (Suc p) len"
    by (intro slice_Cons) auto
  have "prefix [CR, LF, CR, LF] (slice buf p len) \<longleftrightarrow> hit buf len p"
    using Suc by (auto simp: prefix4_iff hit_def)
  then show ?case
    using Suc.hyps(1) [of "Suc p"] Suc.hyps(2) Suc.prems first_hit_skip [of 1 buf len p]
      first_hit_found [of buf len p 0]
    by (auto simp: s simp del: prefix_Cons)
qed

lemma scan_header_value_spec:
  "pos \<le> end \<Longrightarrow> end \<le> length buf \<Longrightarrow> scan_header_value buf pos end = value_spec pos (slice buf pos end)"
  by (induction buf pos "end" rule: scan_header_value.induct)
     (subst scan_header_value.simps, auto simp: slice_Cons)

lemma scan_header_name_spec:
  "pos \<le> end \<Longrightarrow> end \<le> length buf \<Longrightarrow> scan_header_name buf pos end = name_spec pos (slice buf pos end)"
  by (induction buf pos "end" rule: scan_header_name.induct)
     (subst scan_header_name.simps, auto simp: slice_Cons)

lemma uri_loop_spec:
  assumes "pos \<le> end" "end \<le> length buf"
    and "c = (case co of None \<Rightarrow> end | Some k \<Rightarrow> k)" and "\<forall>k. co = Some k \<longrightarrow> k < pos"
  shows "uri_loop buf pos end c = uri_spec pos co (slice buf pos end)"
  using assms
proof (induction buf pos "end" c arbitrary: co rule: uri_loop.induct)
  case (1 buf pos "end" c)
  show ?case
  proof (cases "pos < end")
    case True
    let ?b = "buf ! pos"
    let ?qf = "?b = 0x3F \<or> ?b = 0x23"
    have c: "c = end \<longleftrightarrow> co = None" using "1.prems" True by (cases co) auto
    have step: "uri_loop buf (Suc pos) end (if ?qf \<and> c = end then pos else c) =
        uri_spec (Suc pos) (if ?qf \<and> co = None then Some pos else co) (slice buf (Suc pos) end)"
      if "?b \<noteq> SP" "uri_ok ?b"
      using True "1.prems" c that
      by (intro "1.IH") (auto simp: less_Suc_eq split: option.splits if_splits)
    show ?thesis
      using True "1.prems" c step
      by (subst uri_loop.simps) (auto simp: slice_Cons Let_def split: option.splits)
  next
    case False
    then show ?thesis
      using "1.prems" by (subst uri_loop.simps) (auto split: option.splits)
  qed
qed

lemma scan_uri_spec:
  "pos \<le> end \<Longrightarrow> end \<le> length buf \<Longrightarrow> scan_uri buf pos end = uri_spec pos None (slice buf pos end)"
  by (simp add: scan_uri_def uri_loop_spec)

interpretation scalar: byte_scanner scalar_scanner
proof unfold_locales
  show "sc_find_header_end scalar_scanner buf len from =
      hdr_end_spec (from - 3) (slice buf (from - 3) len)" if "len \<le> length buf" for buf len "from"
    using that by (cases "from > 3") (simp_all add: scalar_scanner_def find_header_end_def fhe_loop_spec)
qed (simp_all add: scalar_scanner_def scan_header_value_spec scan_uri_spec scan_header_name_spec)

end
