(* ===== verification/Http_Parser.thy ===== *)
theory Http_Parser
  imports Simd_Scan
begin

text \<open>
  The HTTP/1.x request and response parsers (\<open>include/rut/runtime/http_parser.h\<close>,
  \<open>src/runtime/http_parser.cc\<close>) and the canonical request path
  (\<open>include/rut/runtime/route_canon.h\<close>).

  A parser is a function of the scanners it is linked with and of the buffer; it returns
  the status, \<open>header_end\<close> and the parsed message, whose strings are views into the
  buffer.
\<close>

section \<open>Data\<close>

datatype http_method =
  GET | POST | PUT | DELETE | PATCH | HEAD | OPTIONS | CONNECT | TRACE | UnknownMethod

datatype http_version = Http10 | Http11 | UnknownVersion

datatype parse_status = PComplete | PIncomplete | PError

record header =
  h_name :: view
  h_value :: view

definition kMaxHeaders :: nat where
  "kMaxHeaders = 64"

record parsed_request =
  rq_method :: http_method
  rq_path :: "view option"
  rq_path_canon :: "view option"
  rq_version :: http_version
  rq_headers :: "header list"
  rq_content_length :: u32
  rq_keep_alive :: bool
  rq_chunked :: bool
  rq_has_content_length :: bool

definition rq_reset :: parsed_request where
  "rq_reset = \<lparr>rq_method = UnknownMethod, rq_path = None, rq_path_canon = None,
     rq_version = UnknownVersion, rq_headers = [], rq_content_length = 0,
     rq_keep_alive = False, rq_chunked = False, rq_has_content_length = False\<rparr>"

record parsed_response =
  rs_status_code :: u16
  rs_headers :: "header list"
  rs_content_length :: u32
  rs_has_content_length :: bool
  rs_chunked :: bool
  rs_keep_alive :: bool
  rs_connection_close :: bool

definition rs_reset :: parsed_response where
  "rs_reset = \<lparr>rs_status_code = 0, rs_headers = [], rs_content_length = 0,
     rs_has_content_length = False, rs_chunked = False, rs_keep_alive = True,
     rs_connection_close = False\<rparr>"

section \<open>Helpers of the parsers\<close>

definition load_u32 :: "bytes \<Rightarrow> nat \<Rightarrow> u32" where
  "load_u32 p i = le_word (take 4 (drop i p))"

definition load_u64 :: "bytes \<Rightarrow> nat \<Rightarrow> u64" where
  "load_u64 p i = le_word (take 8 (drop i p))"

definition u32_lit :: "char \<Rightarrow> char \<Rightarrow> char \<Rightarrow> char \<Rightarrow> u32" where
  "u32_lit a b c d = of_char a OR push_bit 8 (of_char b) OR push_bit 16 (of_char c)
     OR push_bit 24 (of_char d)"

definition u64_lit :: "string \<Rightarrow> u64" where
  "u64_lit s = foldl (\<lambda>v i. v OR push_bit (i * 8) (of_char (s ! i))) 0 [0..<8]"

text \<open>
  \<open>str_ci_eq\<close>: eight bytes at a time, then four, then one at a time; \<open>a\<close> and \<open>b\<close>
  have at least \<open>len\<close> bytes.
\<close>

function ci_eq8 :: "bytes \<Rightarrow> bytes \<Rightarrow> nat \<Rightarrow> nat \<Rightarrow> nat option" where
  "ci_eq8 a b len i =
     (if i + 8 \<le> len then
        (if load_u64 a i OR 0x2020202020202020 \<noteq> load_u64 b i OR 0x2020202020202020
         then None else ci_eq8 a b len (i + 8))
      else Some i)"
  by pat_completeness auto
termination by (relation "measure (\<lambda>(a, b, len, i). len - i)") auto

definition ci_eq1 :: "bytes \<Rightarrow> bytes \<Rightarrow> nat \<Rightarrow> nat \<Rightarrow> bool" where
  "ci_eq1 a b len i \<longleftrightarrow> list_all (\<lambda>j. a ! j OR 0x20 = b ! j OR 0x20) [i..<len]"

definition str_ci_eq :: "bytes \<Rightarrow> bytes \<Rightarrow> nat \<Rightarrow> bool" where
  "str_ci_eq a b len =
     (case ci_eq8 a b len 0 of
        None \<Rightarrow> False
      | Some i \<Rightarrow>
          if i + 4 \<le> len then
            (if load_u32 a i OR 0x20202020 \<noteq> load_u32 b i OR 0x20202020 then False
             else ci_eq1 a b len (i + 4))
          else ci_eq1 a b len i)"

declare ci_eq8.simps [simp del]

datatype uint_error = EINVAL | ERANGE

fun parse_uint_loop :: "u32 \<Rightarrow> bytes \<Rightarrow> uint_error + u32" where
  "parse_uint_loop val [] = Inr val"
| "parse_uint_loop val (c # cs) =
     (let d = ucast c - 0x30 :: u32 in
      if d > 9 then Inl EINVAL
      else if val > (0xFFFFFFFF - d) div 10 then Inl ERANGE
      else parse_uint_loop (val * 10 + d) cs)"

definition parse_uint :: "bytes \<Rightarrow> uint_error + u32" where
  "parse_uint p = (if p = [] then Inl EINVAL else parse_uint_loop 0 p)"

text \<open>The method and the advanced position, or \<open>UnknownMethod\<close> and the position unchanged.\<close>

definition parse_method_direct :: "bytes \<Rightarrow> nat \<Rightarrow> nat \<Rightarrow> http_method \<times> nat" where
  "parse_method_direct buf end pos =
     (if pos + 4 > end then (UnknownMethod, pos) else
      let v4 = load_u32 buf pos in
      if v4 = u32_lit CHR ''G'' CHR ''E'' CHR ''T'' CHR '' '' then (GET, pos + 4)
      else if v4 = u32_lit CHR ''P'' CHR ''U'' CHR ''T'' CHR '' '' then (PUT, pos + 4)
      else if pos + 5 > end then (UnknownMethod, pos)
      else if v4 = u32_lit CHR ''P'' CHR ''O'' CHR ''S'' CHR ''T'' \<and> buf ! (pos + 4) = SP
        then (POST, pos + 5)
      else if v4 = u32_lit CHR ''H'' CHR ''E'' CHR ''A'' CHR ''D'' \<and> buf ! (pos + 4) = SP
        then (HEAD, pos + 5)
      else if pos + 6 > end then (UnknownMethod, pos)
      else if v4 = u32_lit CHR ''P'' CHR ''A'' CHR ''T'' CHR ''C'' \<and>
          buf ! (pos + 4) = of_char CHR ''H'' \<and> buf ! (pos + 5) = SP then (PATCH, pos + 6)
      else if v4 = u32_lit CHR ''T'' CHR ''R'' CHR ''A'' CHR ''C'' \<and>
          buf ! (pos + 4) = of_char CHR ''E'' \<and> buf ! (pos + 5) = SP then (TRACE, pos + 6)
      else if pos + 7 > end then (UnknownMethod, pos)
      else if v4 = u32_lit CHR ''D'' CHR ''E'' CHR ''L'' CHR ''E'' \<and>
          buf ! (pos + 4) = of_char CHR ''T'' \<and> buf ! (pos + 5) = of_char CHR ''E'' \<and>
          buf ! (pos + 6) = SP then (DELETE, pos + 7)
      else if pos + 8 > end then (UnknownMethod, pos)
      else let hi = load_u32 buf (pos + 4) in
        if v4 = u32_lit CHR ''O'' CHR ''P'' CHR ''T'' CHR ''I'' \<and>
           hi = u32_lit CHR ''O'' CHR ''N'' CHR ''S'' CHR '' '' then (OPTIONS, pos + 8)
        else if v4 = u32_lit CHR ''C'' CHR ''O'' CHR ''N'' CHR ''N'' \<and>
           hi = u32_lit CHR ''E'' CHR ''C'' CHR ''T'' CHR '' '' then (CONNECT, pos + 8)
        else (UnknownMethod, pos))"

definition kHttp11 :: u64 where
  "kHttp11 = u64_lit ''HTTP/1.1''"

definition kHttp10 :: u64 where
  "kHttp10 = u64_lit ''HTTP/1.0''"

definition kCRLF :: u16 where
  "kCRLF = of_char CHR 0x0D OR push_bit 8 (of_char CHR 0x0A)"

definition http_method_str :: "http_method \<Rightarrow> string" where
  "http_method_str m = (case m of
     GET \<Rightarrow> ''GET'' | POST \<Rightarrow> ''POST'' | PUT \<Rightarrow> ''PUT'' | DELETE \<Rightarrow> ''DELETE''
   | PATCH \<Rightarrow> ''PATCH'' | HEAD \<Rightarrow> ''HEAD'' | OPTIONS \<Rightarrow> ''OPTIONS''
   | CONNECT \<Rightarrow> ''CONNECT'' | TRACE \<Rightarrow> ''TRACE'' | UnknownMethod \<Rightarrow> ''UNKNOWN'')"

section \<open>Canonical paths\<close>

text \<open>
  \<open>finalize_path_canonical\<close> on the string \<open>(ptr, len)\<close>: the offset and the length of the
  sub-view without leading and trailing slashes.
\<close>

definition finalize_path_canonical :: "bytes \<Rightarrow> nat \<times> nat" where
  "finalize_path_canonical p =
     (let lo = length (takeWhile (\<lambda>b. b = 0x2F) p);
          hi = length p - length (takeWhile (\<lambda>b. b = 0x2F) (rev (drop lo p)))
      in (lo, hi - lo))"

definition canonicalize_request :: "bytes \<Rightarrow> nat \<times> nat" where
  "canonicalize_request p =
     finalize_path_canonical (takeWhile (\<lambda>b. \<not> (b = 0x3F \<or> b = 0x23)) p)"

text \<open>The bytes of the canonical path: the path without the slashes at its ends.\<close>

definition strip_slashes :: "bytes \<Rightarrow> bytes" where
  "strip_slashes p = rev (dropWhile (\<lambda>b. b = 0x2F) (rev (dropWhile (\<lambda>b. b = 0x2F) p)))"

lemma finalize_strip:
  assumes "finalize_path_canonical p = (lo, n)"
  shows "lo + n \<le> length p" "take n (drop lo p) = strip_slashes p"
proof -
  let ?sl = "\<lambda>b :: u8. b = 0x2F"
  let ?d = "dropWhile ?sl p"
  have lo: "lo = length (takeWhile ?sl p)" "drop lo p = ?d"
    using assms by (auto simp: finalize_path_canonical_def Let_def dropWhile_eq_drop)
  have n: "n = length p - length (takeWhile ?sl (rev ?d)) - lo"
    using assms lo by (simp add: finalize_path_canonical_def Let_def)
  have lp: "lo + length ?d = length p" unfolding lo(1) by (metis length_append takeWhile_dropWhile_id)
  then have n': "n = length ?d - length (takeWhile ?sl (rev ?d))" unfolding n by linarith
  then show "lo + n \<le> length p" using lp by linarith
  show "take n (drop lo p) = strip_slashes p"
    unfolding lo(2) n' strip_slashes_def dropWhile_eq_drop [of _ "rev ?d"] rev_drop by simp
qed

section \<open>Semantic headers\<close>

text \<open>
  The comma-separated token loops: from position \<open>i\<close> of the value on, skip separators,
  take a token, compare it.
\<close>

definition is_sep :: "u8 \<Rightarrow> bool" where
  "is_sep b \<longleftrightarrow> b = SP \<or> b = HTAB \<or> b = 0x2C"

lemma token_shorter:
  "dropWhile is_sep v = c # cs \<Longrightarrow> length (dropWhile (\<lambda>b. \<not> is_sep b) (c # cs)) < length v"
proof -
  assume eq: "dropWhile is_sep v = c # cs"
  then have "\<not> is_sep c" by (metis hd_dropWhile list.distinct(1) list.sel(1))
  then have "length (dropWhile (\<lambda>b. \<not> is_sep b) (c # cs)) \<le> length cs"
    by (simp add: length_dropWhile_le)
  also have "\<dots> < length (dropWhile is_sep v)" by (simp add: eq)
  also have "\<dots> \<le> length v" by (rule length_dropWhile_le)
  finally show ?thesis .
qed

function match_connection :: "bytes \<Rightarrow> bool \<Rightarrow> bool" where
  "match_connection v keep_alive =
     (case dropWhile is_sep v of
        [] \<Rightarrow> keep_alive
      | c # cs \<Rightarrow>
          let tok = takeWhile (\<lambda>b. \<not> is_sep b) (c # cs);
              rest = dropWhile (\<lambda>b. \<not> is_sep b) (c # cs)
          in if length tok = 5 \<and> str_ci_eq tok (ascii ''close'') 5 then False
             else if length tok = 10 \<and> str_ci_eq tok (ascii ''keep-alive'') 10
             then match_connection rest True
             else match_connection rest keep_alive)"
  by pat_completeness auto
termination by (relation "measure (\<lambda>(v, k). length v)") (auto simp: token_shorter simp del: dropWhile.simps takeWhile.simps)

function has_chunked_token :: "bytes \<Rightarrow> bool" where
  "has_chunked_token v =
     (case dropWhile is_sep v of
        [] \<Rightarrow> False
      | c # cs \<Rightarrow>
          let tok = takeWhile (\<lambda>b. \<not> is_sep b) (c # cs);
              rest = dropWhile (\<lambda>b. \<not> is_sep b) (c # cs)
          in if length tok = 7 \<and> str_ci_eq tok (ascii ''chunked'') 7 then True
             else has_chunked_token rest)"
  by pat_completeness auto
termination by (relation "measure length") (auto simp: token_shorter simp del: dropWhile.simps takeWhile.simps)

declare match_connection.simps [simp del] has_chunked_token.simps [simp del]

text \<open>The name has at least one byte; the status is \<open>PComplete\<close> or \<open>PError\<close>.\<close>

definition apply_semantic_header ::
  "bytes \<Rightarrow> bytes \<Rightarrow> parsed_request \<Rightarrow> parse_status \<times> parsed_request" where
  "apply_semantic_header name val req =
     (let first = name ! 0 OR 0x20; name_len = length name in
      if first = of_char CHR ''c'' then
        (if name_len = 14 \<and> str_ci_eq (drop 1 name) (ascii ''ontent-length'') 13 then
           (case parse_uint val of
              Inl e \<Rightarrow> (PError, req)
            | Inr cl \<Rightarrow>
                if rq_has_content_length req then
                  (if rq_content_length req \<noteq> cl then (PError, req) else (PComplete, req))
                else (PComplete, req\<lparr>rq_content_length := cl, rq_has_content_length := True\<rparr>))
         else if name_len = 10 \<and> str_ci_eq (drop 1 name) (ascii ''onnection'') 9 then
           (PComplete, req\<lparr>rq_keep_alive := match_connection val (rq_keep_alive req)\<rparr>)
         else (PComplete, req))
      else if first = of_char CHR ''t'' then
        (if name_len = 17 \<and> str_ci_eq (drop 1 name) (ascii ''ransfer-encoding'') 16 then
           (PComplete, if has_chunked_token val then req\<lparr>rq_chunked := True\<rparr> else req)
         else (PComplete, req))
      else (PComplete, req))"

function match_connection_response :: "bytes \<Rightarrow> parsed_response \<Rightarrow> parsed_response" where
  "match_connection_response v resp =
     (case dropWhile is_sep v of
        [] \<Rightarrow> resp
      | c # cs \<Rightarrow>
          let tok = takeWhile (\<lambda>b. \<not> is_sep b) (c # cs);
              rest = dropWhile (\<lambda>b. \<not> is_sep b) (c # cs)
          in if length tok = 5 \<and> str_ci_eq tok (ascii ''close'') 5
             then resp\<lparr>rs_connection_close := True, rs_keep_alive := False\<rparr>
             else if length tok = 10 \<and> str_ci_eq tok (ascii ''keep-alive'') 10
             then match_connection_response rest (resp\<lparr>rs_keep_alive := True\<rparr>)
             else match_connection_response rest resp)"
  by pat_completeness auto
termination by (relation "measure (\<lambda>(v, r). length v)") (auto simp: token_shorter simp del: dropWhile.simps takeWhile.simps)

declare match_connection_response.simps [simp del]

definition apply_semantic_header_response ::
  "bytes \<Rightarrow> bytes \<Rightarrow> parsed_response \<Rightarrow> parse_status \<times> parsed_response" where
  "apply_semantic_header_response name val resp =
     (let first = name ! 0 OR 0x20; name_len = length name in
      if first = of_char CHR ''c'' then
        (if name_len = 14 \<and> str_ci_eq (drop 1 name) (ascii ''ontent-length'') 13 then
           (case parse_uint val of
              Inl e \<Rightarrow> (PError, resp)
            | Inr cl \<Rightarrow>
                if rs_has_content_length resp then
                  (if rs_content_length resp \<noteq> cl then (PError, resp) else (PComplete, resp))
                else (PComplete, resp\<lparr>rs_content_length := cl, rs_has_content_length := True\<rparr>))
         else if name_len = 10 \<and> str_ci_eq (drop 1 name) (ascii ''onnection'') 9 then
           (PComplete, match_connection_response val resp)
         else (PComplete, resp))
      else if first = of_char CHR ''t'' then
        (if name_len = 17 \<and> str_ci_eq (drop 1 name) (ascii ''ransfer-encoding'') 16 then
           (PComplete, if has_chunked_token val then resp\<lparr>rs_chunked := True\<rparr> else resp)
         else (PComplete, resp))
      else (PComplete, resp))"

section \<open>The header loop\<close>

text \<open>
  One round of the header loop, the same in both parsers: the end of the headers, an
  error, a \<open>goto maybe_incomplete\<close>, \<open>Incomplete\<close>, or a header and the position of
  the CR that ends its line.
\<close>

datatype line_result =
  LineEnd nat | LineError | LineMaybe | LineIncomplete | LineHeader header nat

function skip_ows :: "bytes \<Rightarrow> nat \<Rightarrow> nat" where
  "skip_ows buf pos =
     (if pos < length buf \<and> (buf ! pos = SP \<or> buf ! pos = HTAB) then skip_ows buf (Suc pos) else pos)"
  by pat_completeness auto
termination by (relation "measure (\<lambda>(buf, pos). length buf - pos)") auto

definition ows_end :: "bytes \<Rightarrow> nat \<Rightarrow> nat" where
  "ows_end buf pos = skip_ows buf (if buf ! pos = SP then pos + 1 else pos)"

fun trim_loop :: "bytes \<Rightarrow> nat \<Rightarrow> nat \<Rightarrow> nat" where
  "trim_loop buf value_start 0 = 0"
| "trim_loop buf value_start (Suc e) =
     (if Suc e > value_start \<and> (buf ! e = SP \<or> buf ! e = HTAB) then trim_loop buf value_start e
      else Suc e)"

definition trim_ows :: "bytes \<Rightarrow> nat \<Rightarrow> nat \<Rightarrow> nat" where
  "trim_ows buf value_start value_end =
     (if value_end > value_start \<and> buf ! (value_end - 1) \<le> SP
      then trim_loop buf value_start value_end else value_end)"

definition header_line :: "scanner \<Rightarrow> bytes \<Rightarrow> nat \<Rightarrow> line_result" where
  "header_line S buf pos =
     (let len = length buf in
      if pos + 2 > len then LineIncomplete
      else if buf ! pos = CR then
        (if buf ! (pos + 1) = LF then LineEnd (pos + 2) else LineError)
      else case sc_header_name S buf pos len of
        None \<Rightarrow> LineMaybe
      | Some colon_pos \<Rightarrow>
          if colon_pos = pos then LineError
          else if colon_pos + 1 \<ge> len then LineMaybe
          else
            let p0 = colon_pos + 1;
                value_start = ows_end buf p0
            in if value_start \<ge> len then LineMaybe
               else case sc_header_value S buf value_start len of
                 None \<Rightarrow> LineError
               | Some cr_pos \<Rightarrow>
                   if cr_pos \<ge> len \<or> cr_pos + 1 \<ge> len then LineMaybe
                   else if buf ! (cr_pos + 1) \<noteq> LF then LineError
                   else LineHeader
                     \<lparr>h_name = \<lparr>v_off = pos, v_len = colon_pos - pos\<rparr>,
                      h_value = \<lparr>v_off = value_start,
                                 v_len = trim_ows buf value_start cr_pos - value_start\<rparr>\<rparr>
                     cr_pos)"

declare skip_ows.simps [simp del]

definition maybe_incomplete :: "scanner \<Rightarrow> bytes \<Rightarrow> parse_status" where
  "maybe_incomplete S buf =
     (if sc_find_header_end S buf (length buf) 0 > 0 then PError else PIncomplete)"

section \<open>The request parser\<close>

record request_result =
  rr_status :: parse_status
  rr_header_end :: nat
  rr_req :: parsed_request

abbreviation req_ret :: "parse_status \<Rightarrow> nat \<Rightarrow> parsed_request \<Rightarrow> request_result" where
  "req_ret s e r \<equiv> \<lparr>rr_status = s, rr_header_end = e, rr_req = r\<rparr>"

text \<open>
  The loop over the header lines with the headers stored so far.  The test
  \<open>pos < cr_pos\<close> makes the recursion total for every scanner; a scanner that meets its
  contract returns a position after the name (\<open>header_line_advances\<close>).
\<close>

function request_headers ::
  "scanner \<Rightarrow> bytes \<Rightarrow> nat \<Rightarrow> header list \<Rightarrow> parsed_request \<Rightarrow> request_result" where
  "request_headers S buf pos hdrs req =
     (case header_line S buf pos of
        LineIncomplete \<Rightarrow> req_ret PIncomplete 0 req
      | LineError \<Rightarrow> req_ret PError 0 req
      | LineMaybe \<Rightarrow> req_ret (maybe_incomplete S buf) 0 req
      | LineEnd e \<Rightarrow>
          let req' = req\<lparr>rq_headers := hdrs\<rparr> in
          if rq_chunked req' \<and> rq_has_content_length req' then req_ret PError e req'
          else req_ret PComplete e req'
      | LineHeader h cr_pos \<Rightarrow>
          if length hdrs \<ge> kMaxHeaders then req_ret PError 0 req
          else case apply_semantic_header (view_bytes buf (h_name h)) (view_bytes buf (h_value h)) req of
            (PError, req') \<Rightarrow> req_ret PError 0 req'
          | (_, req') \<Rightarrow>
              if pos < cr_pos \<and> cr_pos < length buf
              then request_headers S buf (cr_pos + 2) (hdrs @ [h]) req'
              else req_ret PError 0 req')"
  by pat_completeness auto
termination
  by (relation "measure (\<lambda>(S, buf, pos, hdrs, req). length buf - pos)") auto

definition parse_request_line :: "scanner \<Rightarrow> bytes \<Rightarrow> (parse_status \<times> parsed_request) + (nat \<times> parsed_request)" where
  "parse_request_line S buf =
     (let len = length buf;
          (m, pos) = parse_method_direct buf len 0;
          req = rq_reset\<lparr>rq_method := m\<rparr>
      in if m = UnknownMethod then Inl (maybe_incomplete S buf, req)
         else case sc_uri S buf pos len of
           None \<Rightarrow> Inl (PError, req)
         | Some (uri_end, canon_end) \<Rightarrow>
             if uri_end \<ge> len then Inl (maybe_incomplete S buf, req)
             else if uri_end = pos then Inl (PError, req)
             else
               let req1 = req\<lparr>rq_path := Some \<lparr>v_off = pos, v_len = uri_end - pos\<rparr>\<rparr>;
                   req2 = (if buf ! pos = 0x2F then
                             (let (lo, n) = finalize_path_canonical (slice buf pos canon_end)
                              in req1\<lparr>rq_path_canon := Some \<lparr>v_off = pos + lo, v_len = n\<rparr>\<rparr>)
                           else req1);
                   p = uri_end + 1
               in if p + 10 > len then Inl (maybe_incomplete S buf, req2)
                  else if (le_word (take 2 (drop (p + 8) buf)) :: u16) \<noteq> kCRLF then Inl (PError, req2)
                  else if load_u64 buf p = kHttp11 then
                    Inr (p + 10, req2\<lparr>rq_version := Http11, rq_keep_alive := True\<rparr>)
                  else if load_u64 buf p = kHttp10 then
                    Inr (p + 10, req2\<lparr>rq_version := Http10, rq_keep_alive := False\<rparr>)
                  else Inl (PError, req2))"

definition parse_request :: "scanner \<Rightarrow> bytes \<Rightarrow> parsed_request \<Rightarrow> request_result" where
  "parse_request S buf req0 =
     (if length buf < 4 then req_ret PIncomplete 0 req0
      else case parse_request_line S buf of
        Inl (st, req) \<Rightarrow> req_ret st 0 req
      | Inr (pos, req) \<Rightarrow> request_headers S buf pos [] req)"

section \<open>The response parser\<close>

record response_result =
  sr_status :: parse_status
  sr_header_end :: nat
  sr_resp :: parsed_response

abbreviation resp_ret :: "parse_status \<Rightarrow> nat \<Rightarrow> parsed_response \<Rightarrow> response_result" where
  "resp_ret s e r \<equiv> \<lparr>sr_status = s, sr_header_end = e, sr_resp = r\<rparr>"

function response_headers ::
  "scanner \<Rightarrow> bytes \<Rightarrow> nat \<Rightarrow> header list \<Rightarrow> parsed_response \<Rightarrow> response_result" where
  "response_headers S buf pos hdrs resp =
     (case header_line S buf pos of
        LineIncomplete \<Rightarrow> resp_ret PIncomplete 0 resp
      | LineError \<Rightarrow> resp_ret PError 0 resp
      | LineMaybe \<Rightarrow> resp_ret (maybe_incomplete S buf) 0 resp
      | LineEnd e \<Rightarrow> resp_ret PComplete e (resp\<lparr>rs_headers := hdrs\<rparr>)
      | LineHeader h cr_pos \<Rightarrow>
          let hdrs' = (if length hdrs < kMaxHeaders then hdrs @ [h] else hdrs) in
          case apply_semantic_header_response (view_bytes buf (h_name h)) (view_bytes buf (h_value h)) resp of
            (PError, resp') \<Rightarrow> resp_ret PError 0 resp'
          | (_, resp') \<Rightarrow>
              if pos < cr_pos \<and> cr_pos < length buf
              then response_headers S buf (cr_pos + 2) hdrs' resp'
              else resp_ret PError 0 resp')"
  by pat_completeness auto
termination
  by (relation "measure (\<lambda>(S, buf, pos, hdrs, resp). length buf - pos)") auto

definition parse_status_line :: "bytes \<Rightarrow> (parse_status \<times> parsed_response) + (nat \<times> parsed_response)" where
  "parse_status_line buf =
     (let len = length buf; pos = 0 in
      if pos + 10 > len then Inl (PIncomplete, rs_reset)
      else if load_u64 buf pos AND 0x00FFFFFFFFFFFFFF \<noteq> u64_lit ''HTTP/1.0'' AND 0x00FFFFFFFFFFFFFF
      then Inl (PError, rs_reset)
      else if buf ! (pos + 7) \<noteq> 0x31 \<and> buf ! (pos + 7) \<noteq> 0x30 then Inl (PError, rs_reset)
      else
        let resp = rs_reset\<lparr>rs_keep_alive := (buf ! (pos + 7) = 0x31)\<rparr>; p = pos + 8 in
        if buf ! p \<noteq> SP then Inl (PError, resp)
        else
          let q = p + 1 in
          if q + 3 > len then Inl (PIncomplete, resp)
          else
            let d0 = ucast (buf ! q) - 0x30 :: u32;
                d1 = ucast (buf ! (q + 1)) - 0x30 :: u32;
                d2 = ucast (buf ! (q + 2)) - 0x30 :: u32
            in if d0 > 9 \<or> d1 > 9 \<or> d2 > 9 then Inl (PError, resp)
               else
                 let code = ucast (d0 * 100 + d1 * 10 + d2) :: u16 in
                 if code < 100 \<or> code > 599 then Inl (PError, resp)
                 else
                   let resp' = resp\<lparr>rs_status_code := code\<rparr>; r = q + 3 in
                   if r \<ge> len then Inl (PIncomplete, resp')
                   else
                     let scan = r + length (takeWhile (\<lambda>b. b \<noteq> CR) (drop r buf)) in
                     if scan + 1 \<ge> len then Inl (PIncomplete, resp')
                     else if buf ! (scan + 1) \<noteq> LF then Inl (PError, resp')
                     else Inr (scan + 2, resp'))"

definition parse_response :: "scanner \<Rightarrow> bytes \<Rightarrow> parsed_response \<Rightarrow> response_result" where
  "parse_response S buf resp0 =
     (if length buf < 12 then resp_ret PIncomplete 0 resp0
      else case parse_status_line buf of
        Inl (st, resp) \<Rightarrow> resp_ret st 0 resp
      | Inr (pos, resp) \<Rightarrow> response_headers S buf pos [] resp)"

declare request_headers.simps [simp del] response_headers.simps [simp del]

section \<open>Helper correctness\<close>

lemma load_u32_lit:
  "length (take 4 (drop i p)) = 4 \<Longrightarrow> load_u32 p i = u32_lit a b c d \<longleftrightarrow> take 4 (drop i p) = ascii [a, b, c, d]"
proof -
  assume l: "length (take 4 (drop i p)) = 4"
  have "u32_lit a b c d = le_word (ascii [a, b, c, d])"
    by (rule bit_word_eqI)
       (auto simp: u32_lit_def le_word_def ascii_def bit_or_iff bit_push_bit_iff bit_ucast_iff
         of_char_ucast [where 'm = 32])
  with l show ?thesis
    using le_word_inject [of "take 4 (drop i p)" "ascii [a, b, c, d]", where 'm = 32]
    by (simp add: load_u32_def)
qed

lemma version_lits:
  "kHttp11 = le_word (ascii ''HTTP/1.1'')" "kHttp10 = le_word (ascii ''HTTP/1.0'')"
  "kCRLF = le_word [CR, LF]"
  by code_simp+

lemma load_u64_version:
  assumes "p + 8 \<le> length buf"
  shows "load_u64 buf p = kHttp11 \<longleftrightarrow> take 8 (drop p buf) = ascii ''HTTP/1.1''"
    and "load_u64 buf p = kHttp10 \<longleftrightarrow> take 8 (drop p buf) = ascii ''HTTP/1.0''"
  using assms by (simp_all add: load_u64_def version_lits le_word_inject)

lemma load_crlf:
  "p + 2 \<le> length buf \<Longrightarrow>
     (le_word (take 2 (drop p buf)) :: u16) = kCRLF \<longleftrightarrow> take 2 (drop p buf) = [CR, LF]"
  by (simp add: version_lits le_word_inject)

text \<open>\<open>str_ci_eq\<close> compares the bytes with bit 5 set.\<close>

definition lower :: "u8 \<Rightarrow> u8" where
  "lower b = b OR 0x20"

lemma map2_lower: "length xs = n \<Longrightarrow> map2 (OR) xs (replicate n (0x20 :: u8)) = map lower xs"
  by (intro nth_equalityI) (auto simp: lower_def)

lemma load_u64_lower:
  assumes "i + 8 \<le> length a"
  shows "load_u64 a i OR 0x2020202020202020 = le_word (map lower (take 8 (drop i a)))"
proof -
  have m: "(0x2020202020202020 :: u64) = le_word (replicate 8 0x20)" by code_simp
  show ?thesis
    using assms map2_lower [of "take 8 (drop i a)" 8] by (simp add: load_u64_def m le_word_or)
qed

lemma load_u32_lower:
  assumes "i + 4 \<le> length a"
  shows "load_u32 a i OR 0x20202020 = le_word (map lower (take 4 (drop i a)))"
proof -
  have m: "(0x20202020 :: u32) = le_word (replicate 4 0x20)" by code_simp
  show ?thesis
    using assms map2_lower [of "take 4 (drop i a)" 4] by (simp add: load_u32_def m le_word_or)
qed

lemma ci_eq1_iff:
  "len \<le> length a \<Longrightarrow> len \<le> length b \<Longrightarrow> i \<le> len \<Longrightarrow>
     ci_eq1 a b len i \<longleftrightarrow> map lower (drop i (take len a)) = map lower (drop i (take len b))"
  by (auto simp: ci_eq1_def list_all_iff list_eq_iff_nth_eq lower_def)
     (metis le_add_diff_inverse less_diff_conv add.commute)

lemma drop_take_split:
  "i + n \<le> len \<Longrightarrow> len \<le> length (a :: bytes) \<Longrightarrow> drop i (take len a) = take n (drop i a) @ drop (i + n) (take len a)"
  using slice_block [of i n len a] by (simp add: slice_def)

lemma ci_eq8_spec:
  "len \<le> length a \<Longrightarrow> len \<le> length b \<Longrightarrow> i \<le> len \<Longrightarrow>
     case ci_eq8 a b len i of
       None \<Rightarrow> map lower (drop i (take len a)) \<noteq> map lower (drop i (take len b))
     | Some j \<Rightarrow> i \<le> j \<and> j \<le> len \<and>
         (map lower (drop i (take len a)) = map lower (drop i (take len b)) \<longleftrightarrow>
          map lower (drop j (take len a)) = map lower (drop j (take len b)))"
proof (induction a b len i rule: ci_eq8.induct)
  case (1 a b len i)
  show ?case
  proof (cases "i + 8 \<le> len")
    case True
    have ld: "load_u64 a i OR 0x2020202020202020 = load_u64 b i OR 0x2020202020202020 \<longleftrightarrow>
        map lower (take 8 (drop i a)) = map lower (take 8 (drop i b))"
      using True 1(2,3) by (simp add: load_u64_lower le_word_inject)
    have sp: "map lower (drop i (take len a)) = map lower (drop i (take len b)) \<longleftrightarrow>
        map lower (take 8 (drop i a)) = map lower (take 8 (drop i b)) \<and>
        map lower (drop (i + 8) (take len a)) = map lower (drop (i + 8) (take len b))"
      using True 1(2,3) by (simp add: drop_take_split [of i 8 len])
    show ?thesis
    proof (cases "map lower (take 8 (drop i a)) = map lower (take 8 (drop i b))")
      case eq: True
      have "ci_eq8 a b len i = ci_eq8 a b len (i + 8)"
        using True eq ld by (subst ci_eq8.simps) simp
      then show ?thesis using 1(1) [OF True] 1(2-) True eq ld sp by (auto split: option.splits)
    next
      case False
      then have "ci_eq8 a b len i = None" using True ld by (subst ci_eq8.simps) simp
      with False sp show ?thesis by simp
    qed
  next
    case False
    then have "ci_eq8 a b len i = Some i" by (subst ci_eq8.simps) simp
    with 1 show ?thesis by simp
  qed
qed

lemma str_ci_eq_iff:
  assumes "len \<le> length a" "len \<le> length b"
  shows "str_ci_eq a b len \<longleftrightarrow> map lower (take len a) = map lower (take len b)"
proof (cases "ci_eq8 a b len 0")
  case None
  then show ?thesis using ci_eq8_spec [OF assms, of 0] by (simp add: str_ci_eq_def)
next
  case (Some i)
  then have i: "i \<le> len" and eq: "map lower (take len a) = map lower (take len b) \<longleftrightarrow>
      map lower (drop i (take len a)) = map lower (drop i (take len b))"
    using ci_eq8_spec [OF assms, of 0] by simp_all
  show ?thesis
  proof (cases "i + 4 \<le> len")
    case True
    have ld: "load_u32 a i OR 0x20202020 = load_u32 b i OR 0x20202020 \<longleftrightarrow>
        map lower (take 4 (drop i a)) = map lower (take 4 (drop i b))"
      using True assms by (simp add: load_u32_lower le_word_inject)
    have "map lower (drop i (take len a)) = map lower (drop i (take len b)) \<longleftrightarrow>
        map lower (take 4 (drop i a)) = map lower (take 4 (drop i b)) \<and>
        map lower (drop (i + 4) (take len a)) = map lower (drop (i + 4) (take len b))"
      using True assms by (simp add: drop_take_split [of i 4 len])
    with Some True ld eq assms show ?thesis by (simp add: str_ci_eq_def ci_eq1_iff)
  next
    case False
    with Some eq assms i show ?thesis by (simp add: str_ci_eq_def ci_eq1_iff)
  qed
qed

text \<open>
  On bytes other than CR the comparison with a lower-case literal is the ASCII
  case-insensitive one: only the two cases of a letter become that letter.
\<close>

definition ascii_lower :: "u8 \<Rightarrow> u8" where
  "ascii_lower b = (if 0x41 \<le> b \<and> b \<le> 0x5A then b + 0x20 else b)"

definition lit_byte :: "u8 \<Rightarrow> bool" where
  "lit_byte l \<longleftrightarrow> l = 0x2D \<or> 0x61 \<le> l \<and> l \<le> 0x7A"

lemma lower_eq_iff: "bit l 5 \<Longrightarrow> lower b = l \<longleftrightarrow> b = l \<or> b = l - 0x20"
proof -
  assume l: "bit l 5"
  have "lower b = set_bit 5 b" by (simp add: lower_def set_bit_eq_or)
  then have lb: "lower b = (if bit b 5 then b else b + 0x20)" by (simp add: set_bit_eq)
  have "\<not> bit (l - 0x20) 5"
  proof -
    have "l - 0x20 = unset_bit 5 l" using l by (simp add: unset_bit_eq)
    then show ?thesis by (simp add: bit_unset_bit_iff)
  qed
  with l lb show ?thesis by (auto simp: algebra_simps)
qed

lemma lit_byte_bit5:
  assumes "lit_byte l" shows "bit l 5"
proof -
  have "unat l = 45 \<or> 97 \<le> unat l \<and> unat l \<le> 122"
    using assms by (auto simp: lit_byte_def word_le_nat_alt)
  then have "unat l div 32 = 1 \<or> unat l div 32 = 3" by (auto intro: div_nat_eqI)
  then have "odd (unat l div 32)" by auto
  then have "bit (unat l) 5" by (simp add: bit_iff_odd)
  then show ?thesis by (simp add: bit_unsigned_iff)
qed

lemma lower_ascii_lower: "lit_byte l \<Longrightarrow> b \<noteq> CR \<Longrightarrow> lower b = l \<longleftrightarrow> ascii_lower b = l"
proof -
  assume l: "lit_byte l" and b: "b \<noteq> CR"
  have i: "lower b = l \<longleftrightarrow> b = l \<or> b = l - 0x20" by (rule lower_eq_iff [OF lit_byte_bit5 [OF l]])
  have e: "b = l - 0x20 \<longleftrightarrow> b + 0x20 = l" by (auto simp: algebra_simps)
  show ?thesis
  proof (cases "0x41 \<le> b \<and> b \<le> 0x5A")
    case True
    have "b \<noteq> l" using True l by (auto simp: lit_byte_def word_le_nat_alt)
    with True i e show ?thesis by (simp add: ascii_lower_def)
  next
    case False
    have "b \<noteq> l - 0x20" if "b \<noteq> l"
    proof
      assume bl: "b = l - 0x20"
      show False
      proof (cases "l = 0x2D")
        case True with bl b show False by simp
      next
        case False
        then have "0x61 \<le> l" "l \<le> 0x7A" using l by (auto simp: lit_byte_def)
        then have "unat b = unat l - 0x20" using bl by (simp add: unat_sub word_le_nat_alt)
        with \<open>0x61 \<le> l\<close> \<open>l \<le> 0x7A\<close> \<open>\<not> (0x41 \<le> b \<and> b \<le> 0x5A)\<close> show False
          by (simp add: word_le_nat_alt) arith
      qed
    qed
    with False i show ?thesis by (auto simp: ascii_lower_def)
  qed
qed

lemma lower_lit: "lit_byte l \<Longrightarrow> lower l = l"
  by (simp add: lower_eq_iff lit_byte_bit5)

lemma str_ci_eq_ascii:
  assumes "length a = length lit" "CR \<notin> set a" "list_all lit_byte lit"
  shows "str_ci_eq a lit (length lit) \<longleftrightarrow> map ascii_lower a = lit"
proof -
  have "map lower lit = lit" using assms(3) by (intro map_idI) (auto simp: list_all_iff lower_lit)
  moreover have "lower (a ! i) = lit ! i \<longleftrightarrow> ascii_lower (a ! i) = lit ! i" if "i < length lit" for i
  proof (rule lower_ascii_lower)
    show "lit_byte (lit ! i)" using assms(3) that by (simp add: list_all_length)
    show "a ! i \<noteq> CR" using assms(1,2) that nth_mem by metis
  qed
  then have "map lower a = lit \<longleftrightarrow> map ascii_lower a = lit"
    using assms(1) by (auto simp: list_eq_iff_nth_eq)
  ultimately show ?thesis using assms(1) by (simp add: str_ci_eq_iff)
qed

text \<open>\<open>parse_uint\<close> accepts exactly the non-empty decimal strings below \<open>2^32\<close>.\<close>

definition is_digit :: "u8 \<Rightarrow> bool" where
  "is_digit c \<longleftrightarrow> 0x30 \<le> c \<and> c \<le> 0x39"

definition decnum_from :: "nat \<Rightarrow> bytes \<Rightarrow> nat" where
  "decnum_from v ds = foldl (\<lambda>a c. 10 * a + (unat c - 48)) v ds"

lemma decnum_from_simps [simp]:
  "decnum_from v [] = v" "decnum_from v (c # ds) = decnum_from (10 * v + (unat c - 48)) ds"
  by (simp_all add: decnum_from_def)

lemma decnum_from_ge: "v \<le> decnum_from v ds"
proof (induction ds arbitrary: v)
  case (Cons c ds)
  have "v \<le> 10 * v + (unat c - 48)" by simp
  also have "\<dots> \<le> decnum_from v (c # ds)" using Cons.IH by simp
  finally show ?case .
qed simp

lemma digit_value:
  fixes c :: u8
  defines "d \<equiv> ucast c - 0x30 :: u32"
  shows "d \<le> 9 \<longleftrightarrow> is_digit c" and "is_digit c \<Longrightarrow> unat d = unat c - 48"
proof -
  have uc: "unat (ucast c :: u32) = unat c" using unat_u8 [of c] by (simp add: unsigned_ucast_eq take_bit_nat_eq_self)
  have c: "unat c < 256" by (rule unat_u8)
  show v: "unat d = unat c - 48" if "is_digit c"
    using that uc by (simp add: d_def is_digit_def unat_sub word_le_nat_alt)
  show "d \<le> 9 \<longleftrightarrow> is_digit c"
  proof (cases "0x30 \<le> c")
    case True
    then have "unat d = unat c - 48" using uc by (simp add: d_def unat_sub word_le_nat_alt)
    with True show ?thesis by (auto simp: word_le_nat_alt is_digit_def)
  next
    case False
    then have lt: "unat c < 48" by (simp add: word_le_nat_alt)
    have "unat d = 2 ^ 32 + unat c - 48"
      using lt uc unat_sub_if' [of "ucast c :: u32" "0x30"] by (simp add: d_def)
    with False show ?thesis by (simp add: word_le_nat_alt is_digit_def)
  qed
qed

lemma overflow_check:
  fixes val d :: u32
  assumes "d \<le> 9"
  shows "val > (0xFFFFFFFF - d) div 10 \<longleftrightarrow> 2 ^ 32 \<le> 10 * unat val + unat d"
proof -
  have d: "unat d \<le> 9" using assms by (simp add: word_le_nat_alt)
  then have "unat (0xFFFFFFFF - d) = 0xFFFFFFFF - unat d"
    by (subst unat_sub) (simp_all add: word_le_nat_alt)
  then have "unat ((0xFFFFFFFF - d) div 10) = (0xFFFFFFFF - unat d) div 10"
    by (simp add: unat_div)
  then have "val > (0xFFFFFFFF - d) div 10 \<longleftrightarrow> (0xFFFFFFFF - unat d) div 10 < unat val"
    by (simp add: word_less_nat_alt)
  also have "\<dots> \<longleftrightarrow> 0xFFFFFFFF - unat d < unat val * 10" by (simp add: div_less_iff_less_mult)
  also have "\<dots> \<longleftrightarrow> 2 ^ 32 \<le> 10 * unat val + unat d" using d by auto
  finally show ?thesis .
qed

lemma parse_uint_loop_iff:
  "parse_uint_loop val p = Inr v \<longleftrightarrow>
     list_all is_digit p \<and> decnum_from (unat val) p < 2 ^ 32 \<and> unat v = decnum_from (unat val) p"
proof (induction p arbitrary: val)
  case Nil
  show ?case using unat_u32_lt [of val] by (auto simp: word_unat_eq_iff)
next
  case (Cons c p)
  let ?d = "ucast c - 0x30 :: u32"
  show ?case
  proof (cases "is_digit c")
    case False
    then have "?d > 9" using digit_value(1) [of c] by (simp add: not_le)
    with False show ?thesis by simp
  next
    case True
    then have d9: "?d \<le> 9" and dv: "unat ?d = unat c - 48" using digit_value [of c] by blast+
    have step: "parse_uint_loop val (c # p) =
        (if 2 ^ 32 \<le> 10 * unat val + unat ?d then Inl ERANGE else parse_uint_loop (val * 10 + ?d) p)"
      unfolding parse_uint_loop.simps Let_def overflow_check [OF d9] using leD [OF d9]
      by (simp only: if_False)
    show ?thesis
    proof (cases "2 ^ 32 \<le> 10 * unat val + unat ?d")
      case over: True
      then have "parse_uint_loop val (c # p) = Inl ERANGE" using step by (simp only: if_True)
      moreover have "\<not> decnum_from (unat val) (c # p) < 2 ^ 32"
        using over dv decnum_from_ge [of "10 * unat val + (unat c - 48)" p] by simp
      ultimately show ?thesis by simp
    next
      case False
      then have "unat (val * 10 + ?d) = 10 * unat val + (unat c - 48)"
        using dv by (simp add: unat_word_ariths)
      moreover have "parse_uint_loop val (c # p) = parse_uint_loop (val * 10 + ?d) p"
        using step False by (simp only: if_False)
      ultimately show ?thesis using Cons.IH [of "val * 10 + ?d"] True by simp
    qed
  qed
qed

lemma parse_uint_iff:
  "parse_uint p = Inr v \<longleftrightarrow>
     p \<noteq> [] \<and> list_all is_digit p \<and> decnum_from 0 p < 2 ^ 32 \<and> unat v = decnum_from 0 p"
  by (simp add: parse_uint_def parse_uint_loop_iff)

end
