(* ===== verification/Http_Lines.thy ===== *)
theory Http_Lines
  imports Http_Parser
begin

text \<open>
  What the parsers do on one line, stated over the bytes of the line: the decomposition of
  a header line into name, colon, optional white space and value, and how the result of a
  line behaves when more bytes arrive.  The facts are proved once, for every scanner that
  meets the contract \<open>byte_scanner\<close>.
\<close>

section \<open>The reference scanners on lists\<close>

lemma token_ok_bytes [simp]:
  "\<not> token_ok CR" "\<not> token_ok LF" "\<not> token_ok 0x3A" "\<not> token_ok SP" "\<not> token_ok HTAB"
  by (simp_all add: token_ok_def token_table)

lemma value_ok_bytes [simp]:
  "\<not> value_ok CR" "\<not> value_ok LF" "value_ok SP" "value_ok HTAB"
  by (simp_all add: value_ok_iff)

lemma uri_ok_bytes [simp]: "\<not> uri_ok CR" "\<not> uri_ok LF" "\<not> uri_ok HTAB"
  by (simp_all add: uri_ok_iff)

lemma name_spec_token: "list_all token_ok nm \<Longrightarrow> name_spec pos (nm @ 0x3A # rest) = Some (pos + length nm)"
  by (induction nm arbitrary: pos) auto

lemma name_spec_SomeE:
  assumes "name_spec pos xs = Some k"
  obtains nm rest where "xs = nm @ 0x3A # rest" "list_all token_ok nm" "k = pos + length nm"
proof -
  have "\<exists>nm rest. xs = nm @ 0x3A # rest \<and> list_all token_ok nm \<and> k = pos + length nm"
    using assms
  proof (induction xs arbitrary: pos)
    case (Cons b xs)
    show ?case
    proof (cases "b = 0x3A")
      case True
      with Cons.prems show ?thesis by (intro exI [of _ "[]"] exI [of _ xs]) simp
    next
      case False
      with Cons.prems have "token_ok b" "name_spec (Suc pos) xs = Some k" by (auto split: if_splits)
      with Cons.IH obtain nm rest where "xs = nm @ 0x3A # rest" "list_all token_ok nm" "k = Suc pos + length nm"
        by blast
      with \<open>token_ok b\<close> show ?thesis by (intro exI [of _ "b # nm"] exI [of _ rest]) simp
    qed
  qed simp
  then show ?thesis using that by blast
qed

lemma name_spec_append: "name_spec pos xs = Some k \<Longrightarrow> name_spec pos (xs @ ys) = Some k"
  by (induction xs arbitrary: pos) (auto split: if_splits)

lemma name_spec_None_append:
  "name_spec pos xs = None \<Longrightarrow> CR \<in> set xs \<Longrightarrow> name_spec pos (xs @ ys) = None"
  by (induction xs arbitrary: pos) (auto split: if_splits)

lemma value_spec_ok: "list_all value_ok v \<Longrightarrow> value_spec pos (v @ CR # rest) = Some (pos + length v)"
  by (induction v arbitrary: pos) auto

lemma value_spec_SomeE:
  assumes "value_spec pos xs = Some k"
  obtains (end_of_input) "list_all value_ok xs" "k = pos + length xs"
    | (cr) v rest where "xs = v @ CR # rest" "list_all value_ok v" "k = pos + length v"
proof -
  have "list_all value_ok xs \<and> k = pos + length xs \<or>
      (\<exists>v rest. xs = v @ CR # rest \<and> list_all value_ok v \<and> k = pos + length v)"
    using assms
  proof (induction xs arbitrary: pos)
    case (Cons b xs)
    show ?case
    proof (cases "b = CR")
      case True
      with Cons.prems show ?thesis by (intro disjI2 exI [of _ "[]"] exI [of _ xs]) simp
    next
      case False
      with Cons.prems have b: "value_ok b" "value_spec (Suc pos) xs = Some k" by (auto split: if_splits)
      with Cons.IH [of "Suc pos"] consider "list_all value_ok xs \<and> k = Suc pos + length xs"
        | v rest where "xs = v @ CR # rest" "list_all value_ok v" "k = Suc pos + length v" by blast
      then show ?thesis
      proof cases
        case 1
        with b show ?thesis by simp
      next
        case 2
        with b show ?thesis by (intro disjI2 exI [of _ "b # v"] exI [of _ rest]) simp
      qed
    qed
  qed simp
  then show ?thesis using that by blast
qed

lemma value_spec_append:
  "value_spec pos xs = Some k \<Longrightarrow> k < pos + length xs \<Longrightarrow> value_spec pos (xs @ ys) = Some k"
  by (induction xs arbitrary: pos) (auto split: if_splits)

lemma value_spec_None_append: "value_spec pos xs = None \<Longrightarrow> value_spec pos (xs @ ys) = None"
  by (induction xs arbitrary: pos) (auto split: if_splits)

lemma uri_spec_append:
  "uri_spec pos c xs = Some (k, e) \<Longrightarrow> k < pos + length xs \<Longrightarrow> uri_spec pos c (xs @ ys) = Some (k, e)"
  by (induction xs arbitrary: pos c) (auto split: if_splits)

lemma uri_spec_None_append: "uri_spec pos c xs = None \<Longrightarrow> uri_spec pos c (xs @ ys) = None"
  by (induction xs arbitrary: pos c) (auto split: if_splits)

text \<open>Optional white space.\<close>

definition is_ows :: "u8 \<Rightarrow> bool" where
  "is_ows b \<longleftrightarrow> b = SP \<or> b = HTAB"

lemma is_ows_value_ok: "is_ows b \<Longrightarrow> value_ok b"
  by (auto simp: is_ows_def)

lemma skip_ows_eq: "pos \<le> length buf \<Longrightarrow> skip_ows buf pos = pos + length (takeWhile is_ows (drop pos buf))"
proof (induction buf pos rule: skip_ows.induct)
  case (1 buf pos)
  show ?case
  proof (cases "pos < length buf \<and> is_ows (buf ! pos)")
    case True
    then have "drop pos buf = buf ! pos # drop (Suc pos) buf" by (simp add: Cons_nth_drop_Suc)
    with True 1 show ?thesis by (subst skip_ows.simps) (simp add: is_ows_def [abs_def])
  next
    case False
    then have "takeWhile is_ows (drop pos buf) = []"
      by (cases "pos < length buf") (auto simp: Cons_nth_drop_Suc [symmetric])
    with False show ?thesis by (subst skip_ows.simps) (auto simp: is_ows_def)
  qed
qed

lemma ows_end_eq: "p < length buf \<Longrightarrow> ows_end buf p = skip_ows buf p"
  by (cases "buf ! p = SP") (simp_all add: ows_end_def skip_ows.simps [of buf p])

lemma trim_loop_props:
  "s \<le> e \<Longrightarrow> s \<le> trim_loop buf s e \<and> trim_loop buf s e \<le> e \<and>
     (\<forall>i. trim_loop buf s e \<le> i \<longrightarrow> i < e \<longrightarrow> is_ows (buf ! i)) \<and>
     (s < trim_loop buf s e \<longrightarrow> \<not> is_ows (buf ! (trim_loop buf s e - 1)))"
proof (induction e)
  case (Suc e)
  then show ?case by (cases "s \<le> e") (auto simp: is_ows_def less_Suc_eq le_Suc_eq)
qed simp

lemma trim_ows_eq: "trim_ows buf s e = trim_loop buf s e"
proof (cases "e > s \<and> buf ! (e - 1) \<le> SP")
  case False
  then have "trim_loop buf s e = e"
    by (cases e) (auto simp: word_le_nat_alt)
  with False show ?thesis by (auto simp: trim_ows_def)
qed (simp add: trim_ows_def)

section \<open>Header lines\<close>

text \<open>The shape of a header line from position \<open>pos\<close> on.\<close>

definition header_shape ::
  "nat \<Rightarrow> bytes \<Rightarrow> bytes \<Rightarrow> bytes \<Rightarrow> bytes \<Rightarrow> bytes \<Rightarrow> bytes \<Rightarrow> header \<Rightarrow> nat \<Rightarrow> bool" where
  "header_shape pos xs nm o1 v o2 rest h cr \<longleftrightarrow>
     xs = nm @ 0x3A # o1 @ v @ o2 @ CR # LF # rest \<and>
     nm \<noteq> [] \<and> list_all token_ok nm \<and> list_all is_ows o1 \<and> list_all is_ows o2 \<and>
     list_all value_ok v \<and> (v = [] \<longrightarrow> o2 = []) \<and>
     (v \<noteq> [] \<longrightarrow> \<not> is_ows (hd v) \<and> \<not> is_ows (last v)) \<and>
     h = \<lparr>h_name = \<lparr>v_off = pos, v_len = length nm\<rparr>,
          h_value = \<lparr>v_off = pos + length nm + 1 + length o1, v_len = length v\<rparr>\<rparr> \<and>
     cr = pos + length nm + 1 + length o1 + length v + length o2"

context byte_scanner
begin

lemma header_name_full:
  "pos \<le> length buf \<Longrightarrow> sc_header_name S buf pos (length buf) = name_spec pos (drop pos buf)"
  by (simp add: header_name_law slice_full)

lemma header_value_full:
  "pos \<le> length buf \<Longrightarrow> sc_header_value S buf pos (length buf) = value_spec pos (drop pos buf)"
  by (simp add: header_value_law slice_full)

lemma uri_full: "pos \<le> length buf \<Longrightarrow> sc_uri S buf pos (length buf) = uri_spec pos None (drop pos buf)"
  by (simp add: uri_law slice_full)

lemma find_header_end_full: "sc_find_header_end S buf (length buf) 0 = hdr_end_spec 0 buf"
  by (simp add: find_header_end_law slice_full)

text \<open>The line, with the scanners replaced by their reference.\<close>

lemma header_line_eq:
  assumes "pos + 2 \<le> length buf" "buf ! pos \<noteq> CR"
  shows "header_line S buf pos =
     (case name_spec pos (drop pos buf) of
        None \<Rightarrow> LineMaybe
      | Some colon_pos \<Rightarrow>
          if colon_pos = pos then LineError
          else
            let value_start = skip_ows buf (colon_pos + 1)
            in if value_start \<ge> length buf then LineMaybe
               else case value_spec value_start (drop value_start buf) of
                 None \<Rightarrow> LineError
               | Some cr_pos \<Rightarrow>
                   if cr_pos + 1 \<ge> length buf then LineMaybe
                   else if buf ! (cr_pos + 1) \<noteq> LF then LineError
                   else LineHeader
                     \<lparr>h_name = \<lparr>v_off = pos, v_len = colon_pos - pos\<rparr>,
                      h_value = \<lparr>v_off = value_start,
                                 v_len = trim_loop buf value_start cr_pos - value_start\<rparr>\<rparr>
                     cr_pos)"
proof (cases "name_spec pos (drop pos buf)")
  case None
  with assms show ?thesis by (simp add: header_line_def Let_def header_name_full)
next
  case (Some colon)
  then obtain nm rest where "drop pos buf = nm @ 0x3A # rest" "colon = pos + length nm"
    by (rule name_spec_SomeE)
  then have "length (drop pos buf) = length nm + 1 + length rest" by simp
  with \<open>colon = pos + length nm\<close> assms have colon: "colon < length buf" by simp
  show ?thesis
  proof (cases "colon + 1 < length buf")
    case True
    from True Some assms show ?thesis
      by (auto simp: header_line_def Let_def header_name_full header_value_full trim_ows_eq ows_end_eq
          split: option.split)
  next
    case False
    with colon have "skip_ows buf (colon + 1) \<ge> length buf" by (simp add: skip_ows_eq)
    with False Some assms show ?thesis
      by (simp add: header_line_def Let_def header_name_full)
  qed
qed

end

lemma trim_loop_unique:
  assumes "s \<le> t" "t \<le> e" "\<forall>i. t \<le> i \<longrightarrow> i < e \<longrightarrow> is_ows (buf ! i)"
    "s < t \<longrightarrow> \<not> is_ows (buf ! (t - 1))"
  shows "trim_loop buf s e = t"
proof -
  have p: "s \<le> trim_loop buf s e" "trim_loop buf s e \<le> e"
    "\<forall>i. trim_loop buf s e \<le> i \<longrightarrow> i < e \<longrightarrow> is_ows (buf ! i)"
    "s < trim_loop buf s e \<longrightarrow> \<not> is_ows (buf ! (trim_loop buf s e - 1))"
    using trim_loop_props [of s e buf] assms by auto
  show ?thesis
  proof (rule ccontr)
    assume "trim_loop buf s e \<noteq> t"
    then consider "t < trim_loop buf s e" | "trim_loop buf s e < t" by linarith
    then show False
    proof cases
      case 1
      then have "t \<le> trim_loop buf s e - 1" "trim_loop buf s e - 1 < e" using p by auto
      then show False using assms p 1 by auto
    next
      case 2
      then have "trim_loop buf s e \<le> t - 1" "t - 1 < e" using assms by auto
      then show False using assms p 2 by auto
    qed
  qed
qed

lemma drop_nth_append: "drop pos buf = xs @ ys \<Longrightarrow> i < length xs \<Longrightarrow> buf ! (pos + i) = xs ! i"
proof -
  assume eq: "drop pos buf = xs @ ys" and i: "i < length xs"
  then have "pos \<le> length buf" by (cases "pos \<le> length buf") auto
  then have "buf ! (pos + i) = drop pos buf ! i" by simp
  also have "\<dots> = xs ! i" using eq i by (simp add: nth_append)
  finally show ?thesis .
qed

lemma drop_append_eq: "drop pos buf = xs @ ys \<Longrightarrow> drop (pos + length xs) buf = ys"
  by (metis add.commute append_eq_conv_conj drop_drop)

lemma drop_Cons_nth: "drop pos buf = x # xs \<Longrightarrow> pos < length buf \<and> buf ! pos = x \<and> drop (Suc pos) buf = xs"
  by (metis Cons_nth_drop_Suc drop_eq_Nil leI list.distinct(1) list.inject)

context byte_scanner
begin

lemma header_line_compute:
  assumes shape: "header_shape pos (drop pos buf) nm o1 v o2 rest h cr"
  shows "header_line S buf pos = LineHeader h cr"
proof -
  have xs: "drop pos buf = nm @ 0x3A # o1 @ v @ o2 @ CR # LF # rest"
    and nm: "nm \<noteq> []" "list_all token_ok nm" and ows: "list_all is_ows o1" "list_all is_ows o2"
    and vok: "list_all value_ok v" and vnil: "v = [] \<longrightarrow> o2 = []"
    and vends: "v \<noteq> [] \<longrightarrow> \<not> is_ows (hd v) \<and> \<not> is_ows (last v)"
    and h: "h = \<lparr>h_name = \<lparr>v_off = pos, v_len = length nm\<rparr>,
          h_value = \<lparr>v_off = pos + length nm + 1 + length o1, v_len = length v\<rparr>\<rparr>"
    and cr: "cr = pos + length nm + 1 + length o1 + length v + length o2"
    using shape by (auto simp: header_shape_def)
  define vs where "vs = pos + length nm + 1 + length o1"
  have len: "length (drop pos buf) = length nm + 1 + length o1 + length v + length o2 + 2 + length rest"
    unfolding xs by simp
  then have lb: "length buf = cr + 2 + length rest" unfolding cr by (cases "pos \<le> length buf") auto
  have first: "buf ! pos \<noteq> CR"
    using drop_nth_append [of pos buf nm _ 0] xs nm by (cases nm) auto
  have rest1: "drop (pos + length nm + 1) buf = o1 @ v @ o2 @ CR # LF # rest"
    using drop_append_eq [of pos buf "nm @ [0x3A]"] xs by (simp add: add.assoc)
  have zs: "drop vs buf = v @ o2 @ CR # LF # rest"
    using drop_append_eq [OF rest1] by (simp add: vs_def)
  have tw: "takeWhile is_ows (o1 @ v @ o2 @ CR # LF # rest) = o1"
    using ows vends vnil
    by (cases v) (auto simp: takeWhile_append list_all_iff is_ows_def [of CR])
  have le: "pos + length nm + 1 \<le> length buf" using lb cr by simp
  have skip: "skip_ows buf (pos + length nm + 1) = vs"
    unfolding skip_ows_eq [OF le] rest1 tw vs_def by (rule refl)
  have nspec: "name_spec pos (drop pos buf) = Some (pos + length nm)"
    unfolding xs by (rule name_spec_token [OF nm(2)])
  have "list_all value_ok (v @ o2)"
    using vok ows by (auto simp: list_all_iff is_ows_value_ok)
  then have vspec: "value_spec vs (drop vs buf) = Some cr"
    using value_spec_ok [of "v @ o2" vs "LF # rest"] unfolding zs by (simp add: cr vs_def)
  have e: "vs + length (v @ o2 @ [CR]) = cr + 1" by (simp add: cr vs_def)
  have "drop vs buf = (v @ o2 @ [CR]) @ LF # rest" unfolding zs by simp
  from drop_append_eq [OF this] have lfd: "drop (cr + 1) buf = LF # rest" unfolding e .
  have lf: "buf ! (cr + 1) = LF" using drop_Cons_nth [OF lfd] by blast
  have trim: "trim_loop buf vs cr = vs + length v"
  proof (rule trim_loop_unique)
    show "\<forall>i. vs + length v \<le> i \<longrightarrow> i < cr \<longrightarrow> is_ows (buf ! i)"
    proof (intro allI impI)
      fix i assume i: "vs + length v \<le> i" "i < cr"
      then have j: "i - vs - length v < length o2" by (simp add: cr vs_def)
      have "drop (vs + length v) buf = o2 @ CR # LF # rest" using drop_append_eq [OF zs] .
      from drop_nth_append [OF this j] i have "buf ! i = o2 ! (i - vs - length v)" by simp
      with ows(2) j show "is_ows (buf ! i)" by (simp add: list_all_length)
    qed
    show "vs < vs + length v \<longrightarrow> \<not> is_ows (buf ! (vs + length v - 1))"
    proof
      assume "vs < vs + length v"
      then have ne: "v \<noteq> []" by auto
      have "buf ! (vs + (length v - 1)) = v ! (length v - 1)"
        by (rule drop_nth_append [OF zs]) (use ne in simp)
      moreover have "vs + (length v - 1) = vs + length v - 1" using ne by (cases v) auto
      ultimately show "\<not> is_ows (buf ! (vs + length v - 1))" using vends ne by (simp add: last_conv_nth)
    qed
  qed (simp_all add: cr vs_def)
  have "pos + 2 \<le> length buf" using lb cr nm by (cases nm) auto
  from header_line_eq [OF this first] nspec nm skip vspec lf trim lb cr show ?thesis
    by (simp add: h vs_def)
qed

end

lemma dropWhile_hd_not: "dropWhile P xs = y # ys \<Longrightarrow> \<not> P y"
  by (metis hd_dropWhile list.distinct(1) list.sel(1))

lemma skip_ows_drop:
  "pos \<le> length buf \<Longrightarrow> drop (skip_ows buf pos) buf = dropWhile is_ows (drop pos buf) \<and>
     skip_ows buf pos = pos + length (takeWhile is_ows (drop pos buf))"
  by (simp add: skip_ows_eq dropWhile_eq_drop add.commute)

text \<open>A trimmed value: the bytes between the optional white space and the CR.\<close>

lemma trim_split:
  assumes zs: "drop vs buf = w @ CR # rest" and hd: "w \<noteq> [] \<longrightarrow> \<not> is_ows (hd w)"
  obtains v o2 where "w = v @ o2" "length v = trim_loop buf vs (vs + length w) - vs"
    "list_all is_ows o2" "v = [] \<longrightarrow> o2 = []" "v \<noteq> [] \<longrightarrow> \<not> is_ows (hd v) \<and> \<not> is_ows (last v)"
proof -
  define t where "t = trim_loop buf vs (vs + length w)"
  have t: "vs \<le> t" "t \<le> vs + length w" "\<forall>i. t \<le> i \<longrightarrow> i < vs + length w \<longrightarrow> is_ows (buf ! i)"
    "vs < t \<longrightarrow> \<not> is_ows (buf ! (t - 1))"
    using trim_loop_props [of vs "vs + length w" buf] by (auto simp: t_def)
  have nth: "buf ! (vs + i) = w ! i" if "i < length w" for i
    by (rule drop_nth_append [OF zs that])
  define v where "v = take (t - vs) w"
  define o2 where "o2 = drop (t - vs) w"
  have lv: "length v = t - vs" using t by (simp add: v_def)
  have ows2: "list_all is_ows o2"
    unfolding list_all_length
  proof (intro allI impI)
    fix i assume "i < length o2"
    then have lt: "t - vs + i < length w" by (simp add: o2_def)
    then have "is_ows (buf ! (vs + (t - vs + i)))" using t(3) t(1) by auto
    moreover have "o2 ! i = w ! (t - vs + i)" using lt by (simp add: o2_def)
    ultimately show "is_ows (o2 ! i)" unfolding nth [OF lt] by simp
  qed
  have vnil: "o2 = []" if "v = []"
  proof (rule ccontr)
    assume "o2 \<noteq> []"
    then have "w \<noteq> []" "hd w = hd o2" using that by (auto simp: o2_def v_def)
    with ows2 hd \<open>o2 \<noteq> []\<close> show False by (cases o2) auto
  qed
  have ends: "\<not> is_ows (hd v) \<and> \<not> is_ows (last v)" if "v \<noteq> []"
  proof
    have "hd v = hd w" "w \<noteq> []" using that by (auto simp: v_def)
    with hd show "\<not> is_ows (hd v)" by simp
    have lt: "vs < t" using that lv by (cases "vs < t") auto
    have "last v = w ! (t - vs - 1)" using that lv t lt by (simp add: last_conv_nth v_def)
    also have "\<dots> = buf ! (t - 1)" using nth [of "t - vs - 1"] lt t by simp
    finally show "\<not> is_ows (last v)" using t lt by simp
  qed
  show ?thesis
    by (rule that [of v o2]) (use lv ows2 vnil ends in \<open>auto simp: v_def o2_def t_def\<close>)
qed

context byte_scanner
begin

lemma header_line_HeaderD:
  assumes line: "header_line S buf pos = LineHeader h cr"
  obtains nm o1 v o2 rest where "header_shape pos (drop pos buf) nm o1 v o2 rest h cr"
proof -
  have pos: "pos + 2 \<le> length buf" "buf ! pos \<noteq> CR"
    using line by (auto simp: header_line_def Let_def split: if_splits)
  note eq = header_line_eq [OF pos, unfolded line]
  from eq obtain colon where colon: "name_spec pos (drop pos buf) = Some colon"
    by (cases "name_spec pos (drop pos buf)") auto
  then obtain nm rest1 where xs: "drop pos buf = nm @ 0x3A # rest1" and nm: "list_all token_ok nm"
    and c: "colon = pos + length nm" by (rule name_spec_SomeE)
  define vs where "vs = skip_ows buf (colon + 1)"
  have r1: "drop (colon + 1) buf = rest1"
    using drop_append_eq [of pos buf "nm @ [0x3A]" rest1] xs c by (simp add: add.assoc)
  have "length (drop pos buf) = length nm + 1 + length rest1" unfolding xs by simp
  then have clt: "colon + 1 \<le> length buf" using pos c by simp
  have vsd: "drop vs buf = dropWhile is_ows rest1" "vs = colon + 1 + length (takeWhile is_ows rest1)"
    using skip_ows_drop [OF clt] unfolding r1 vs_def [symmetric] by blast+
  from eq colon have ne: "colon \<noteq> pos" and "vs < length buf"
    by (auto simp: Let_def vs_def split: if_splits option.splits)
  from eq colon ne have vspec: "value_spec vs (drop vs buf) = Some cr"
    and cr: "cr + 1 < length buf" "buf ! (cr + 1) = LF"
    and h: "h = \<lparr>h_name = \<lparr>v_off = pos, v_len = colon - pos\<rparr>,
        h_value = \<lparr>v_off = vs, v_len = trim_loop buf vs cr - vs\<rparr>\<rparr>"
    by (auto simp: Let_def vs_def split: if_splits option.splits)
  from vspec obtain w rest2 where zs: "drop vs buf = w @ CR # rest2" and w: "list_all value_ok w"
    and crw: "cr = vs + length w"
    using cr \<open>vs < length buf\<close> by (cases rule: value_spec_SomeE) auto
  have "drop (cr + 1) buf = rest2"
    using drop_append_eq [of vs buf "w @ [CR]" rest2] zs crw by simp
  then have "rest2 = LF # drop (Suc (cr + 1)) buf"
    using cr Cons_nth_drop_Suc [of "cr + 1" buf] by simp
  then obtain rest where rest: "rest2 = LF # rest" by blast
  have hdw: "w \<noteq> [] \<longrightarrow> \<not> is_ows (hd w)"
    using dropWhile_hd_not [of is_ows rest1] zs vsd(1) by (cases w) auto
  obtain v o2 where vo: "w = v @ o2" "length v = trim_loop buf vs (vs + length w) - vs"
    "list_all is_ows o2" "v = [] \<longrightarrow> o2 = []" "v \<noteq> [] \<longrightarrow> \<not> is_ows (hd v) \<and> \<not> is_ows (last v)"
    by (rule trim_split [OF zs hdw])
  define o1 where "o1 = takeWhile is_ows rest1"
  have "rest1 = o1 @ dropWhile is_ows rest1" by (simp add: o1_def)
  then have r1': "rest1 = o1 @ v @ o2 @ CR # LF # rest"
    using vsd(1) zs vo(1) rest by simp
  have o1: "list_all is_ows o1" by (auto simp: o1_def list_all_iff dest: set_takeWhileD)
  have vs: "vs = colon + 1 + length o1" using vsd(2) by (simp add: o1_def)
  have "drop pos buf = nm @ 0x3A # o1 @ v @ o2 @ CR # LF # rest" using xs r1' by simp
  moreover have "nm \<noteq> []" using ne c by auto
  moreover have "list_all value_ok v" using w vo(1) by simp
  moreover have "h = \<lparr>h_name = \<lparr>v_off = pos, v_len = length nm\<rparr>,
      h_value = \<lparr>v_off = pos + length nm + 1 + length o1, v_len = length v\<rparr>\<rparr>"
    unfolding h vo(2) crw by (simp add: vs c)
  moreover have "cr = pos + length nm + 1 + length o1 + length v + length o2"
    unfolding crw vo(1) by (simp add: vs c)
  ultimately have "header_shape pos (drop pos buf) nm o1 v o2 rest h cr"
    unfolding header_shape_def using nm o1 vo(3-5) by blast
  then show ?thesis by (rule that)
qed

end

section \<open>Lines when more bytes arrive\<close>

lemma skip_ows_append:
  assumes "p \<le> length buf" "skip_ows buf p < length buf"
  shows "skip_ows (buf @ ys) p = skip_ows buf p"
proof -
  have "drop (skip_ows buf p) buf \<noteq> []" using assms(2) by simp
  then have "dropWhile is_ows (drop p buf) \<noteq> []" using skip_ows_drop [OF assms(1)] by metis
  then obtain x where "x \<in> set (drop p buf)" "\<not> is_ows x" by (auto simp: dropWhile_eq_Nil_conv)
  then have "takeWhile is_ows (drop p buf @ ys) = takeWhile is_ows (drop p buf)"
    by (rule takeWhile_append1)
  with assms(1) show ?thesis by (simp add: skip_ows_eq)
qed

lemma trim_loop_append: "e \<le> length buf \<Longrightarrow> trim_loop (buf @ ys) s e = trim_loop buf s e"
  by (induction e) auto

lemma skip_ows_ge: "p \<le> skip_ows buf p"
  by (cases "p \<le> length buf") (simp add: skip_ows_eq, subst skip_ows.simps, simp)

lemma hit_append: "hit buf (length buf) i \<Longrightarrow> hit (buf @ ys) (length (buf @ ys)) i"
  by (auto simp: hit_def)

context byte_scanner
begin

lemma header_line_append:
  assumes "header_line S buf pos \<noteq> LineMaybe" "header_line S buf pos \<noteq> LineIncomplete"
  shows "header_line S (buf @ ys) pos = header_line S buf pos"
proof -
  have pos: "pos + 2 \<le> length buf"
    using assms(2) by (auto simp: header_line_def Let_def split: if_splits)
  show ?thesis
  proof (cases "buf ! pos = CR")
    case True
    with pos show ?thesis by (simp add: header_line_def Let_def)
  next
    case False
    note eq = header_line_eq [OF pos False]
    have pos': "pos + 2 \<le> length (buf @ ys)" "(buf @ ys) ! pos \<noteq> CR" using pos False by simp_all
    note eq' = header_line_eq [OF pos']
    from eq assms(1) obtain colon where c: "name_spec pos (drop pos buf) = Some colon"
      by (cases "name_spec pos (drop pos buf)") auto
    then have c': "name_spec pos (drop pos (buf @ ys)) = Some colon"
      using pos name_spec_append [OF c] by simp
    obtain nm r where "drop pos buf = nm @ 0x3A # r" "colon = pos + length nm"
      by (rule name_spec_SomeE [OF c])
    then have "length (drop pos buf) = length nm + 1 + length r" by simp
    with \<open>colon = pos + length nm\<close> pos have clt: "colon + 1 \<le> length buf" by simp
    show ?thesis
    proof (cases "colon = pos")
      case True
      with c c' eq eq' show ?thesis by simp
    next
      case ne: False
      let ?vs = "skip_ows buf (colon + 1)"
      from eq c ne assms(1) have vs: "?vs < length buf" by (auto simp: Let_def split: if_splits)
      have vs': "skip_ows (buf @ ys) (colon + 1) = ?vs" by (rule skip_ows_append [OF clt vs])
      have dr: "drop ?vs (buf @ ys) = drop ?vs buf @ ys" using vs by simp
      show ?thesis
      proof (cases "value_spec ?vs (drop ?vs buf)")
        case None
        then have "value_spec ?vs (drop ?vs (buf @ ys)) = None" unfolding dr by (rule value_spec_None_append)
        with None c c' ne vs eq vs' show ?thesis unfolding eq' by (simp add: Let_def)
      next
        case (Some cr)
        with eq c ne assms(1) vs have cr: "cr + 1 < length buf" by (auto simp: Let_def split: if_splits)
        have "value_spec ?vs (drop ?vs (buf @ ys)) = Some cr"
          unfolding dr by (rule value_spec_append [OF Some]) (use cr vs in simp)
        with Some c c' ne vs cr eq vs' show ?thesis unfolding eq'
          by (simp add: Let_def trim_loop_append)
      qed
    qed
  qed
qed

text \<open>A line that may be incomplete stays so once the end of the headers is in sight.\<close>

lemma header_line_Maybe_append:
  assumes maybe: "header_line S buf pos = LineMaybe" and hit: "hit buf (length buf) i" "pos \<le> i"
  shows "header_line S (buf @ ys) pos = LineMaybe"
proof -
  have pos: "pos + 2 \<le> length buf" and ncr: "buf ! pos \<noteq> CR"
    using maybe by (auto simp: header_line_def Let_def split: if_splits)
  note eq = header_line_eq [OF pos ncr, unfolded maybe]
  have i: "i + 3 < length buf" "buf ! i = CR" using hit by (auto simp: hit_def)
  have "buf ! i = drop pos buf ! (i - pos)" using hit(2) i by simp
  then have inset: "CR \<in> set (drop pos buf)"
    using i hit(2) nth_mem [of "i - pos" "drop pos buf"] by simp
  have "name_spec pos (drop pos buf) = None"
  proof (rule ccontr)
    assume "name_spec pos (drop pos buf) \<noteq> None"
    then obtain colon where c: "name_spec pos (drop pos buf) = Some colon" by auto
    obtain nm r where xs: "drop pos buf = nm @ 0x3A # r" and nm: "list_all token_ok nm"
      and colon: "colon = pos + length nm" by (rule name_spec_SomeE [OF c])
    have "length (drop pos buf) = length nm + 1 + length r" unfolding xs by simp
    then have clt: "colon + 1 \<le> length buf" using colon pos by simp
    have r: "drop (colon + 1) buf = r"
      using drop_append_eq [of pos buf "nm @ [0x3A]" r] xs colon by (simp add: add.assoc)
    define vs where "vs = skip_ows buf (colon + 1)"
    have vs: "drop vs buf = dropWhile is_ows r" "vs = colon + 1 + length (takeWhile is_ows r)"
      using skip_ows_drop [OF clt] unfolding r vs_def [symmetric] by blast+
    have no1: "buf ! j \<noteq> CR" if "pos \<le> j" "j < vs" for j
    proof -
      have "drop pos buf = (nm @ 0x3A # takeWhile is_ows r) @ dropWhile is_ows r" using xs by simp
      moreover have "j - pos < length (nm @ 0x3A # takeWhile is_ows r)" using that vs(2) colon by simp
      ultimately have "buf ! (pos + (j - pos)) = (nm @ 0x3A # takeWhile is_ows r) ! (j - pos)"
        by (rule drop_nth_append)
      moreover have "CR \<notin> set (nm @ 0x3A # takeWhile is_ows r)"
        using nm by (auto simp: list_all_iff is_ows_def dest!: set_takeWhileD)
      ultimately show ?thesis
        using \<open>j - pos < _\<close> that(1) nth_mem by (metis le_add_diff_inverse)
    qed
    have "vs \<le> i" using no1 [of i] i hit(2) by (meson not_le)
    then have vlt: "vs < length buf" using i by simp
    from eq c have "colon \<noteq> pos" by auto
    with eq c vlt obtain cr where cr: "value_spec vs (drop vs buf) = Some cr" "length buf \<le> cr + 1"
      by (auto simp: Let_def vs_def split: option.splits if_splits)
    from cr(1) have "buf ! j \<noteq> CR" if "vs \<le> j" "j + 1 < length buf" for j
    proof (cases rule: value_spec_SomeE)
      case end_of_input
      have lt: "j - vs < length (drop vs buf)" using that by simp
      then have "value_ok (drop vs buf ! (j - vs))" using end_of_input(1) unfolding list_all_length by blast
      moreover have "drop vs buf ! (j - vs) = buf ! j" using that by simp
      ultimately show ?thesis by auto
    next
      case (cr v rest)
      then have "j - vs < length v" using that \<open>length buf \<le> _\<close> by simp
      moreover from this have "buf ! (vs + (j - vs)) = v ! (j - vs)"
        using cr(1) by (intro drop_nth_append)
      ultimately show ?thesis using cr(2) that by (auto simp: list_all_length)
    qed
    with \<open>vs \<le> i\<close> i show False by auto
  qed
  then have "name_spec pos (drop pos (buf @ ys)) = None"
    using name_spec_None_append inset pos by simp
  moreover have "pos + 2 \<le> length (buf @ ys)" "(buf @ ys) ! pos \<noteq> CR" using pos ncr by simp_all
  ultimately show ?thesis using header_line_eq [of pos "buf @ ys"] by simp
qed

end

end
