(* ===== verification/Http_Request_Line.thy ===== *)
theory Http_Request_Line
  imports Http_Lines
begin

text \<open>
  The request line: the methods the parser recognises, the request target, and what
  \<open>parse_request_line\<close> returns in each of its cases.
\<close>

section \<open>The request line\<close>

lemma take_drop_map: "pos + n \<le> length buf \<Longrightarrow> take n (drop pos buf) = map (\<lambda>i. buf ! (pos + i)) [0..<n]"
  by (intro nth_equalityI) auto

lemma upt_4: "[0..<4] = [0, 1, 2, 3 :: nat]"
  by (simp add: upt_conv_Cons)

lemma lit4:
  "pos + 4 \<le> length buf \<Longrightarrow> load_u32 buf pos = u32_lit a b c d \<longleftrightarrow>
     buf ! pos = of_char a \<and> buf ! (pos + 1) = of_char b \<and> buf ! (pos + 2) = of_char c \<and>
     buf ! (pos + 3) = of_char d"
  using load_u32_lit [of pos buf a b c d] take_drop_map [of pos 4 buf]
  by (simp add: upt_4 ascii_def)

lemma prefix_iff_nth: "prefix xs ys \<longleftrightarrow> length xs \<le> length ys \<and> (\<forall>i < length xs. ys ! i = xs ! i)"
proof
  assume "prefix xs ys"
  then show "length xs \<le> length ys \<and> (\<forall>i < length xs. ys ! i = xs ! i)"
    by (auto simp: prefix_def nth_append)
next
  assume *: "length xs \<le> length ys \<and> (\<forall>i < length xs. ys ! i = xs ! i)"
  then have "take (length xs) ys = xs" by (intro nth_equalityI) auto
  then show "prefix xs ys" by (metis append_take_drop_id prefixI)
qed

text \<open>The bytes of a method and the space after it.\<close>

definition method_bytes :: "http_method \<Rightarrow> bytes" where
  "method_bytes m = ascii (http_method_str m) @ [SP]"

lemmas method_simps = method_bytes_def http_method_str_def ascii_def

lemma parse_method_sound:
  "parse_method_direct buf (length buf) 0 = (m, n) \<Longrightarrow> m \<noteq> UnknownMethod \<Longrightarrow>
     prefix (method_bytes m) buf \<and> n = length (method_bytes m)"
  unfolding prefix_iff_nth
  by (auto simp: parse_method_direct_def Let_def lit4 method_simps All_less_Suc numeral_eq_Suc
      split: if_splits)

lemma parse_method_complete:
  assumes "prefix (method_bytes m) buf" "m \<noteq> UnknownMethod"
  shows "parse_method_direct buf (length buf) 0 = (m, length (method_bytes m))"
proof -
  obtain rest where "buf = method_bytes m @ rest" using assms(1) by (auto simp: prefix_def)
  with assms(2) show ?thesis
    by (cases m) (simp_all add: parse_method_direct_def Let_def lit4 method_simps)
qed

lemma parse_method_unknown:
  "fst (parse_method_direct buf (length buf) 0) = UnknownMethod \<longleftrightarrow>
     (\<forall>m. m \<noteq> UnknownMethod \<longrightarrow> \<not> prefix (method_bytes m) buf)"
proof
  assume "\<forall>m. m \<noteq> UnknownMethod \<longrightarrow> \<not> prefix (method_bytes m) buf"
  then show "fst (parse_method_direct buf (length buf) 0) = UnknownMethod"
    using parse_method_sound [of buf] by (metis prod.collapse)
qed (use parse_method_complete in fastforce)

lemma CR_notin_method_bytes: "m \<noteq> UnknownMethod \<Longrightarrow> CR \<notin> set (method_bytes m)"
  by (cases m) (simp_all add: method_simps)

text \<open>The request target.\<close>

definition not_qf :: "u8 \<Rightarrow> bool" where
  "not_qf b \<longleftrightarrow> \<not> (b = 0x3F \<or> b = 0x23)"

lemma uri_spec_target:
  "list_all uri_ok u \<Longrightarrow> uri_spec pos c (u @ SP # rest) =
     Some (pos + length u, case c of Some k \<Rightarrow> k | None \<Rightarrow> pos + length (takeWhile not_qf u))"
  by (induction u arbitrary: pos c) (auto simp: not_qf_def split: option.splits)

lemma uri_spec_SomeE:
  assumes "uri_spec pos c xs = Some (k, e)"
  obtains (end_of_input) "list_all uri_ok xs" "k = pos + length xs"
    | (sp) u rest where "xs = u @ SP # rest" "list_all uri_ok u" "k = pos + length u"
proof -
  have "list_all uri_ok xs \<and> k = pos + length xs \<or>
      (\<exists>u rest. xs = u @ SP # rest \<and> list_all uri_ok u \<and> k = pos + length u)"
    using assms
  proof (induction xs arbitrary: pos c)
    case (Cons b xs)
    show ?case
    proof (cases "b = SP")
      case True
      with Cons.prems show ?thesis by (intro disjI2 exI [of _ "[]"] exI [of _ xs]) simp
    next
      case False
      with Cons.prems obtain c' where b: "uri_ok b" "uri_spec (Suc pos) c' xs = Some (k, e)"
        by (auto split: if_splits)
      with Cons.IH [OF b(2)] consider "list_all uri_ok xs \<and> k = Suc pos + length xs"
        | u rest where "xs = u @ SP # rest" "list_all uri_ok u" "k = Suc pos + length u" by blast
      then show ?thesis
      proof cases
        case 1
        with b show ?thesis by simp
      next
        case 2
        with b show ?thesis by (intro disjI2 exI [of _ "b # u"] exI [of _ rest]) simp
      qed
    qed
  qed simp
  then show ?thesis using that by blast
qed

definition canon_view :: "nat \<Rightarrow> bytes \<Rightarrow> view option" where
  "canon_view pos u =
     (if u \<noteq> [] \<and> hd u = 0x2F
      then (let (lo, n) = canonicalize_request u in Some \<lparr>v_off = pos + lo, v_len = n\<rparr>) else None)"

text \<open>The shape of a request line and the request it yields.\<close>

definition version_bytes :: "http_version \<Rightarrow> bytes" where
  "version_bytes v = (case v of Http11 \<Rightarrow> ascii ''HTTP/1.1'' | Http10 \<Rightarrow> ascii ''HTTP/1.0''
     | UnknownVersion \<Rightarrow> [])"

definition line_request :: "http_method \<Rightarrow> bytes \<Rightarrow> http_version \<Rightarrow> parsed_request" where
  "line_request m u v =
     rq_reset\<lparr>rq_method := m,
       rq_path := Some \<lparr>v_off = length (method_bytes m), v_len = length u\<rparr>,
       rq_path_canon := canon_view (length (method_bytes m)) u,
       rq_version := v, rq_keep_alive := (v = Http11)\<rparr>"

definition line_shape :: "bytes \<Rightarrow> http_method \<Rightarrow> bytes \<Rightarrow> http_version \<Rightarrow> bytes \<Rightarrow> bool" where
  "line_shape buf m u v rest \<longleftrightarrow>
     buf = method_bytes m @ u @ SP # version_bytes v @ CR # LF # rest \<and>
     m \<noteq> UnknownMethod \<and> u \<noteq> [] \<and> list_all uri_ok u \<and> v \<noteq> UnknownVersion"

lemma length_version_bytes: "v \<noteq> UnknownVersion \<Longrightarrow> length (version_bytes v) = 8"
  by (cases v) (simp_all add: version_bytes_def)

lemma take_8_version:
  "take 8 xs = ascii ''HTTP/1.1'' \<or> take 8 xs = ascii ''HTTP/1.0'' \<longleftrightarrow>
     (\<exists>v. v \<noteq> UnknownVersion \<and> take 8 xs = version_bytes v)"
proof -
  have "(\<exists>v. v \<noteq> UnknownVersion \<and> take 8 xs = version_bytes v) \<longleftrightarrow>
      take 8 xs = version_bytes Http11 \<or> take 8 xs = version_bytes Http10"
    by (metis http_version.exhaust http_version.distinct)
  then show ?thesis by (simp add: version_bytes_def)
qed

lemma drop_append_length: "drop (length xs + n) (xs @ ys) = drop n ys"
  by simp

lemma canon_view_eq:
  assumes "u \<noteq> []" "buf = mb @ u @ rest"
  shows "(if buf ! length mb = 0x2F
          then let (lo, n) = finalize_path_canonical
                    (slice buf (length mb) (length mb + length (takeWhile not_qf u)))
               in r\<lparr>rq_path_canon := Some \<lparr>v_off = length mb + lo, v_len = n\<rparr>\<rparr>
          else r) =
         (if hd u = 0x2F then r\<lparr>rq_path_canon := canon_view (length mb) u\<rparr> else r)"
proof -
  have "buf ! length mb = hd u" using assms by (cases u) auto
  moreover have "slice buf (length mb) (length mb + length (takeWhile not_qf u)) = takeWhile not_qf u"
  proof -
    have "take (length (takeWhile not_qf u)) u = takeWhile not_qf u"
      by (metis takeWhile_eq_take)
    moreover have "length (takeWhile not_qf u) \<le> length u" by (rule length_takeWhile_le)
    ultimately show ?thesis using assms(2) by (simp add: slice_def)
  qed
  moreover have "canonicalize_request u = finalize_path_canonical (takeWhile not_qf u)"
    by (simp add: canonicalize_request_def not_qf_def [abs_def])
  ultimately show ?thesis using assms(1) by (simp add: canon_view_def split: prod.split)
qed

lemma uri_spec_all_ok: "list_all uri_ok xs \<Longrightarrow> \<exists>e. uri_spec pos c xs = Some (pos + length xs, e)"
proof (induction xs arbitrary: pos c)
  case (Cons b xs)
  have "\<exists>e. uri_spec (Suc pos) d xs = Some (pos + length (b # xs), e)" for d
    using Cons.IH [of "Suc pos" d] Cons.prems by simp
  then show ?case using Cons.prems by (cases "b = SP") (simp_all add: SP_not_uri_ok)
qed simp

context byte_scanner
begin

lemma request_line_unknown:
  "fst (parse_method_direct buf (length buf) 0) = UnknownMethod \<Longrightarrow>
     \<exists>r. parse_request_line S buf = Inl (maybe_incomplete S buf, r)"
  by (auto simp: parse_request_line_def Let_def split: prod.split)

lemma request_line_method:
  assumes "m \<noteq> UnknownMethod" "buf = method_bytes m @ xs"
  defines "n \<equiv> length (method_bytes m)"
  shows "parse_method_direct buf (length buf) 0 = (m, n)"
    and "sc_uri S buf n (length buf) = uri_spec n None xs"
proof -
  show "parse_method_direct buf (length buf) 0 = (m, n)"
    unfolding n_def using assms by (intro parse_method_complete) auto
  show "sc_uri S buf n (length buf) = uri_spec n None xs"
    using uri_full [of n buf] assms by (simp add: n_def)
qed

lemma request_line_bad_uri:
  assumes "m \<noteq> UnknownMethod" "buf = method_bytes m @ xs" "uri_spec (length (method_bytes m)) None xs = None"
  shows "\<exists>r. parse_request_line S buf = Inl (PError, r)"
  using request_line_method [OF assms(1,2)] assms(1,3)
  by (simp add: parse_request_line_def Let_def)

lemma request_line_no_space:
  assumes "m \<noteq> UnknownMethod" "buf = method_bytes m @ xs" "list_all uri_ok xs"
  shows "\<exists>r. parse_request_line S buf = Inl (maybe_incomplete S buf, r)"
proof -
  obtain e where "uri_spec (length (method_bytes m)) None xs = Some (length buf, e)"
    using assms(2) uri_spec_all_ok [OF assms(3)] by (metis length_append)
  with request_line_method [OF assms(1,2)] assms(1) show ?thesis
    by (simp add: parse_request_line_def Let_def)
qed

lemma request_line_empty_uri:
  assumes "m \<noteq> UnknownMethod" "buf = method_bytes m @ SP # r"
  shows "\<exists>r. parse_request_line S buf = Inl (PError, r)"
  using request_line_method [OF assms] assms
  by (simp add: parse_request_line_def Let_def)

lemma request_line_eq:
  assumes "m \<noteq> UnknownMethod" "u \<noteq> []" "list_all uri_ok u" and buf: "buf = method_bytes m @ u @ SP # r"
  defines "p \<equiv> length (method_bytes m) + length u + 1"
  shows "parse_request_line S buf =
     (let req = line_request m u UnknownVersion in
      if length r < 10 then Inl (maybe_incomplete S buf, req)
      else if take 2 (drop 8 r) \<noteq> [CR, LF] then Inl (PError, req)
      else if take 8 r = ascii ''HTTP/1.1'' then Inr (p + 10, line_request m u Http11)
      else if take 8 r = ascii ''HTTP/1.0'' then Inr (p + 10, line_request m u Http10)
      else Inl (PError, req))"
proof -
  let ?n = "length (method_bytes m)"
  let ?e = "?n + length (takeWhile not_qf u)"
  have us: "uri_spec ?n None (u @ SP # r) = Some (?n + length u, ?e)"
    using uri_spec_target [OF assms(3), of ?n None r] by simp
  note mu = request_line_method [OF assms(1) buf]
  have len: "length buf = p + length r" by (simp add: buf p_def)
  have dp: "drop p buf = r" by (simp add: buf p_def)
  have ver: "load_u64 buf p = kHttp11 \<longleftrightarrow> take 8 r = ascii ''HTTP/1.1''"
    "load_u64 buf p = kHttp10 \<longleftrightarrow> take 8 r = ascii ''HTTP/1.0''"
    "(le_word (take 2 (drop (p + 8) buf)) :: u16) = kCRLF \<longleftrightarrow> take 2 (drop 8 r) = [CR, LF]"
    if "\<not> length r < 10"
  proof -
    have l: "p + 8 \<le> length buf" "p + 8 + 2 \<le> length buf" using that len by auto
    show "load_u64 buf p = kHttp11 \<longleftrightarrow> take 8 r = ascii ''HTTP/1.1''"
      "load_u64 buf p = kHttp10 \<longleftrightarrow> take 8 r = ascii ''HTTP/1.0''"
      using load_u64_version [OF l(1)] unfolding dp by blast+
    have "drop (p + 8) buf = drop 8 r" unfolding dp [symmetric] by (simp add: add.commute)
    then show "(le_word (take 2 (drop (p + 8) buf)) :: u16) = kCRLF \<longleftrightarrow> take 2 (drop 8 r) = [CR, LF]"
      using load_crlf [OF l(2)] by simp
  qed
  note cv = canon_view_eq [OF assms(2) buf]
  let ?r0 = "rq_reset\<lparr>rq_method := m, rq_path := Some \<lparr>v_off = ?n, v_len = ?n + length u - ?n\<rparr>\<rparr>"
  have req: "(if hd u = 0x2F then ?r0\<lparr>rq_path_canon := canon_view ?n u\<rparr> else ?r0) =
      line_request m u UnknownVersion"
    by (simp add: line_request_def rq_reset_def canon_view_def)
  have vers: "(line_request m u UnknownVersion)\<lparr>rq_version := Http11, rq_keep_alive := True\<rparr> = line_request m u Http11"
    "(line_request m u UnknownVersion)\<lparr>rq_version := Http10, rq_keep_alive := False\<rparr> = line_request m u Http10"
    by (simp_all add: line_request_def)
  have ne: "?n + length u \<noteq> ?n" "\<not> length buf \<le> ?n + length u" using assms(2) by (auto simp: buf)
  have sh: "?n + length u + 1 = p" "(length buf < p + 10) = (length r < 10)"
    using len by (auto simp: p_def)
  show ?thesis
    unfolding parse_request_line_def Let_def mu prod.case us option.case cv [unfolded Let_def] req
      sh vers if_not_P [OF assms(1)] if_not_P [OF ne(1)] if_not_P [OF ne(2)]
    using ver by (cases "length r < 10") simp_all
qed

end

end
