(* ===== verification/Simd_Vector.thy ===== *)
theory Simd_Vector
  imports Simd_Scan
begin

text \<open>
  The x86 vector implementations of \<open>simd.h\<close>: SSE2, AVX2 and AVX-512, whose masks have one
  bit per lane.  Each is shown to be a \<open>byte_scanner\<close>.

  A vector register is the list of its lanes; a lane-wise comparison followed by
  \<open>movemask\<close> is \<open>movemask (map P chunk)\<close> for the lane predicate \<open>P\<close>, a word of the
  mask's C type.  The bit tricks on masks (count trailing zeros, clear the lowest set bit,
  the mask of the bits below a position) are modelled on words as written.
\<close>

section \<open>Masks\<close>

definition movemask :: "bool list \<Rightarrow> 'm::len word" where
  "movemask lanes = horner_sum of_bool 2 lanes"

text \<open>\<open>__builtin_ctz\<close>; the callers guarantee a non-zero argument.\<close>

definition ctz :: "'m::len word \<Rightarrow> nat" where
  "ctz w = length (takeWhile (\<lambda>i. \<not> bit w i) [0..<LENGTH('m)])"

definition clear_lowest :: "'m::len word \<Rightarrow> 'm word" where
  "clear_lowest w = w AND (w - 1)"

definition below :: "nat \<Rightarrow> 'm::len word" where
  "below k = push_bit k 1 - 1"

lemma bit_movemask:
  "bit (movemask lanes :: 'm::len word) i \<longleftrightarrow> i < LENGTH('m) \<and> i < length lanes \<and> lanes ! i"
  by (simp add: movemask_def bit_horner_sum_bit_word_iff)

lemma bit_below: "bit (below k :: 'm::len word) i \<longleftrightarrow> i < LENGTH('m) \<and> i < k"
proof -
  have "below k = (mask k :: 'm word)"
    by (simp add: below_def mask_eq_exp_minus_1)
  then show ?thesis by (auto simp: bit_mask_iff)
qed

lemma ctz_props:
  fixes w :: "'m::len word"
  assumes "w \<noteq> 0"
  shows "bit w (ctz w)" "ctz w < LENGTH('m)" "\<And>i. i < ctz w \<Longrightarrow> \<not> bit w i"
proof -
  let ?P = "\<lambda>i. \<not> bit w i" let ?xs = "[0..<LENGTH('m)]"
  obtain n where n: "bit w n" using assms by (metis bit_eqI bit_0_eq bot_apply bot_bool_def)
  then have nl: "n < LENGTH('m)" by (rule bit_imp_le_length)
  have "\<not> list_all ?P ?xs" using n nl by (auto simp: list_all_iff)
  then have lt: "ctz w < length ?xs"
    unfolding ctz_def
    by (metis length_takeWhile_le list_all_iff order_le_imp_less_or_eq takeWhile_eq_all_conv
        takeWhile_eq_take take_all_iff order_refl)
  then show "ctz w < LENGTH('m)" by simp
  have "\<not> ?P (?xs ! ctz w)"
    using lt unfolding ctz_def by (rule nth_length_takeWhile)
  with lt show "bit w (ctz w)" by simp
  show "\<not> bit w i" if "i < ctz w" for i
  proof -
    have "?P (takeWhile ?P ?xs ! i)"
      using that set_takeWhileD [of "takeWhile ?P ?xs ! i" ?P ?xs] nth_mem [of i "takeWhile ?P ?xs"]
      by (simp add: ctz_def)
    moreover have "takeWhile ?P ?xs ! i = i"
      using that lt by (simp add: ctz_def takeWhile_nth)
    ultimately show ?thesis by simp
  qed
qed

lemma ctz_eqI:
  fixes w :: "'m::len word"
  assumes "bit w k" "\<And>i. i < k \<Longrightarrow> \<not> bit w i"
  shows "ctz w = k"
proof -
  have "w \<noteq> 0" using assms(1) by auto
  from ctz_props [OF this] assms show ?thesis by (metis linorder_neqE_nat)
qed

lemma bit_clear_lowest:
  fixes w :: "'m::len word"
  assumes "w \<noteq> 0"
  shows "bit (clear_lowest w) i \<longleftrightarrow> bit w i \<and> i \<noteq> ctz w"
proof -
  let ?k = "ctz w"
  define a where "a = w AND NOT (mask (Suc ?k))"
  note k = ctz_props [OF assms]
  have ba: "bit a i \<longleftrightarrow> bit w i \<and> ?k < i" for i
    using bit_imp_le_length [of w i]
    by (auto simp: a_def bit_simps)
  have "w = a OR push_bit ?k 1"
    using k by (intro bit_word_eqI) (auto simp: bit_or_iff ba bit_exp_iff
        dest: linorder_neqE_nat)
  moreover have "a AND push_bit ?k 1 = 0"
    by (intro bit_word_eqI) (auto simp: bit_and_iff ba bit_exp_iff)
  ultimately have w: "w = a + push_bit ?k 1"
    by (simp add: disjunctive_add_eq_or)
  have "a AND mask ?k = 0"
    by (intro bit_word_eqI) (auto simp: bit_and_iff ba bit_mask_iff)
  then have "a OR mask ?k = a + mask ?k"
    by (simp add: disjunctive_add_eq_or)
  also have "\<dots> = w - 1"
    by (subst w) (simp add: mask_eq_exp_minus_1)
  finally have w1: "w - 1 = a OR mask ?k" by simp
  have "bit (clear_lowest w) i \<longleftrightarrow> bit w i \<and> bit (a OR mask ?k) i"
    by (simp add: clear_lowest_def bit_and_iff w1)
  then show ?thesis
    using k(3) [of i] bit_imp_le_length [of w i]
    by (auto simp: bit_or_iff ba bit_mask_iff)
qed

lemma clear_lowest_less:
  assumes "w \<noteq> 0"
  shows "clear_lowest w < w"
proof -
  have "clear_lowest w \<noteq> w"
    using bit_clear_lowest [OF assms, of "ctz w"] ctz_props(1) [OF assms] by auto
  moreover have "clear_lowest w \<le> w"
    unfolding clear_lowest_def by (rule word_and_le2)
  ultimately show ?thesis by (simp add: order.not_eq_order_implies_strict)
qed

lemma word_nonzero_iff: "(w :: 'm::len word) \<noteq> 0 \<longleftrightarrow> (\<exists>i. bit w i)"
  by (metis bit_0_eq bit_eqI bot_apply bot_bool_def)

lemma movemask_nonzero_iff:
  "length lanes \<le> LENGTH('m) \<Longrightarrow> (movemask lanes :: 'm::len word) \<noteq> 0 \<longleftrightarrow> (\<exists>i < length lanes. lanes ! i)"
  by (auto simp: word_nonzero_iff bit_movemask) (meson less_le_trans)

lemma ctz_movemask:
  fixes lanes :: "bool list"
  assumes "(movemask lanes :: 'm::len word) \<noteq> 0" "length lanes \<le> LENGTH('m)"
  defines "k \<equiv> ctz (movemask lanes :: 'm word)"
  shows "k < length lanes \<and> lanes ! k \<and> (\<forall>i < k. \<not> lanes ! i)"
  using ctz_props [OF assms(1)] assms(2) unfolding k_def by (auto simp: bit_movemask)

section \<open>SSE2, AVX2 and AVX-512\<close>

text \<open>
  The three files share the shape of each loop; they differ in the number of lanes
  \<open>w\<close> and the mask type, in how the lane predicates are computed, in how the mask
  of the lanes below a position is computed (\<open>pre\<close>) and in what runs when fewer than
  \<open>w\<close> bytes are left (\<open>tail\<close>).
\<close>

function mask_walk :: "bytes \<Rightarrow> nat \<Rightarrow> nat \<Rightarrow> 'm::len word \<Rightarrow> nat option" where
  "mask_walk buf len pos m =
     (if m = 0 then None
      else let idx = pos + ctz m in
        if idx + 3 < len \<and> buf ! (idx + 1) = LF \<and> buf ! (idx + 2) = CR \<and> buf ! (idx + 3) = LF
        then Some (idx + 4)
        else mask_walk buf len pos (clear_lowest m))"
  by pat_completeness auto
termination
  by (relation "measure (\<lambda>(buf, len, pos, m). unat m)")
     (auto dest: clear_lowest_less simp: word_less_nat_alt)

function vec_fhe_loop ::
  "nat \<Rightarrow> 'm::len itself \<Rightarrow> (nat \<Rightarrow> nat) \<Rightarrow> bytes \<Rightarrow> nat \<Rightarrow> nat \<Rightarrow> nat" where
  "vec_fhe_loop w ty tail buf len pos =
     (if 0 < w \<and> pos + w \<le> len then
        (case mask_walk buf len pos
                (movemask (map (\<lambda>b. b = CR) (take w (drop pos buf))) :: 'm word) of
           Some r \<Rightarrow> r
         | None \<Rightarrow> vec_fhe_loop w ty tail buf len (pos + w))
      else tail pos)"
  by pat_completeness auto
termination by (relation "measure (\<lambda>(w, ty, tail, buf, len, pos). len - pos)") auto

function vec_value_loop ::
  "nat \<Rightarrow> (nat \<Rightarrow> 'm::len word) \<Rightarrow> (u8 \<Rightarrow> bool) \<Rightarrow> (nat \<Rightarrow> nat option) \<Rightarrow>
   bytes \<Rightarrow> nat \<Rightarrow> nat \<Rightarrow> nat option" where
  "vec_value_loop w pre bad tail buf pos end =
     (if 0 < w \<and> pos + w \<le> end then
        (let chunk = take w (drop pos buf);
             cr_mask = movemask (map (\<lambda>b. b = CR) chunk) :: 'm word;
             bad_mask = movemask (map bad chunk) :: 'm word
         in if cr_mask OR bad_mask \<noteq> 0 then
              (if cr_mask \<noteq> 0 then
                 (let cr_pos = ctz cr_mask;
                      real_bad = (bad_mask AND pre cr_pos) AND NOT cr_mask
                  in if real_bad \<noteq> 0 then None else Some (pos + cr_pos))
               else if bad_mask AND NOT cr_mask \<noteq> 0 then None
               else vec_value_loop w pre bad tail buf (pos + w) end)
            else vec_value_loop w pre bad tail buf (pos + w) end)
      else tail pos)"
  by pat_completeness auto
termination by (relation "measure (\<lambda>(w, pre, bad, tail, buf, pos, end). end - pos)") auto

function vec_uri_loop ::
  "nat \<Rightarrow> (nat \<Rightarrow> 'm::len word) \<Rightarrow> (u8 \<Rightarrow> bool) \<Rightarrow> bytes \<Rightarrow> nat \<Rightarrow> nat \<Rightarrow> nat \<Rightarrow>
   (nat \<times> nat) option" where
  "vec_uri_loop w pre bad buf pos end canon_end =
     (if 0 < w \<and> pos + w \<le> end then
        (let chunk = take w (drop pos buf);
             sp_mask = movemask (map (\<lambda>b. b = SP) chunk) :: 'm word;
             bad_mask = movemask (map bad chunk) :: 'm word;
             qf_mask = movemask (map (\<lambda>b. b = 0x3F \<or> b = 0x23) chunk) :: 'm word
         in if sp_mask \<noteq> 0 then
              (let sp_pos = ctz sp_mask;
                   pre_sp = pre sp_pos;
                   real_bad = (bad_mask AND pre_sp) AND NOT sp_mask;
                   qf_before_sp = qf_mask AND pre_sp
               in if real_bad \<noteq> 0 then None
                  else Some (pos + sp_pos,
                    if canon_end = end then
                      (if qf_before_sp \<noteq> 0 then pos + ctz qf_before_sp else pos + sp_pos)
                    else canon_end))
            else if bad_mask \<noteq> 0 then None
            else vec_uri_loop w pre bad buf (pos + w) end
                   (if qf_mask \<noteq> 0 \<and> canon_end = end then pos + ctz qf_mask else canon_end))
      else uri_loop buf pos end canon_end)"
  by pat_completeness auto
termination by (relation "measure (\<lambda>(w, pre, bad, buf, pos, end, c). end - pos)") auto

function vec_name_loop ::
  "nat \<Rightarrow> 'm::len itself \<Rightarrow> bytes \<Rightarrow> nat \<Rightarrow> nat \<Rightarrow> nat option" where
  "vec_name_loop w ty buf pos end =
     (if 0 < w \<and> pos + w \<le> end then
        (let chunk = take w (drop pos buf);
             m = movemask (map (\<lambda>b. b = 0x3A) chunk) :: 'm word
         in if m \<noteq> 0 then
              (if list_all token_ok (take (ctz m) chunk) then Some (pos + ctz m) else None)
            else if list_all token_ok chunk then vec_name_loop w ty buf (pos + w) end
            else None)
      else scan_header_name buf pos end)"
  by pat_completeness auto
termination by (relation "measure (\<lambda>(w, ty, buf, pos, end). end - pos)") auto

declare mask_walk.simps [simp del] vec_fhe_loop.simps [simp del] vec_value_loop.simps [simp del]
  vec_uri_loop.simps [simp del] vec_name_loop.simps [simp del]

text \<open>
  Lane predicates.  SSE2 and AVX2 only compare signed bytes: \<open>scan_header_value\<close> biases
  both sides by \<open>0x80\<close>, \<open>scan_uri\<close> relies on high bytes being negative.
\<close>

definition x86_value_bad :: "u8 \<Rightarrow> bool" where
  "x86_value_bad b \<longleftrightarrow> \<not> b = HTAB \<and> sint (b XOR 0x80) < sint (0x20 XOR 0x80 :: u8) \<or> b = 0x7F"

definition x86_uri_bad :: "u8 \<Rightarrow> bool" where
  "x86_uri_bad b \<longleftrightarrow> sint b < sint (0x21 :: u8) \<or> b = 0x7F"

definition avx512_value_bad :: "u8 \<Rightarrow> bool" where
  "avx512_value_bad b \<longleftrightarrow> b < 0x20 \<and> \<not> b = HTAB \<or> b = 0x7F"

definition avx512_uri_bad :: "u8 \<Rightarrow> bool" where
  "avx512_uri_bad b \<longleftrightarrow> (b < 0x21 \<or> b = 0x7F) \<or> bit b 7"

definition below64 :: "nat \<Rightarrow> u64" where
  "below64 k = (if k < 64 then push_bit k 1 - 1 else NOT 0)"

definition sse2_find_header_end :: "bytes \<Rightarrow> nat \<Rightarrow> nat \<Rightarrow> nat" where
  "sse2_find_header_end buf len from =
     vec_fhe_loop 16 TYPE(32) (fhe_loop buf len) buf len (if from > 3 then from - 3 else 0)"

definition sse2_scan_header_value :: "bytes \<Rightarrow> nat \<Rightarrow> nat \<Rightarrow> nat option" where
  "sse2_scan_header_value buf pos end =
     vec_value_loop 16 (below :: nat \<Rightarrow> u32) x86_value_bad (\<lambda>p. scan_header_value buf p end) buf pos end"

definition sse2_scan_uri :: "bytes \<Rightarrow> nat \<Rightarrow> nat \<Rightarrow> (nat \<times> nat) option" where
  "sse2_scan_uri buf pos end =
     vec_uri_loop 16 (below :: nat \<Rightarrow> u32) x86_uri_bad buf pos end end"

definition sse2_scan_header_name :: "bytes \<Rightarrow> nat \<Rightarrow> nat \<Rightarrow> nat option" where
  "sse2_scan_header_name = vec_name_loop 16 TYPE(32)"

definition avx2_find_header_end :: "bytes \<Rightarrow> nat \<Rightarrow> nat \<Rightarrow> nat" where
  "avx2_find_header_end buf len from =
     vec_fhe_loop 32 TYPE(32) (vec_fhe_loop 16 TYPE(32) (fhe_loop buf len) buf len) buf len
       (if from > 3 then from - 3 else 0)"

definition avx2_scan_header_value :: "bytes \<Rightarrow> nat \<Rightarrow> nat \<Rightarrow> nat option" where
  "avx2_scan_header_value buf pos end =
     vec_value_loop 32 (below :: nat \<Rightarrow> u32) x86_value_bad (\<lambda>p. scan_header_value buf p end) buf pos end"

definition avx2_scan_uri :: "bytes \<Rightarrow> nat \<Rightarrow> nat \<Rightarrow> (nat \<times> nat) option" where
  "avx2_scan_uri buf pos end =
     vec_uri_loop 32 (below :: nat \<Rightarrow> u32) x86_uri_bad buf pos end end"

definition avx2_scan_header_name :: "bytes \<Rightarrow> nat \<Rightarrow> nat \<Rightarrow> nat option" where
  "avx2_scan_header_name = vec_name_loop 32 TYPE(32)"

definition avx512_find_header_end :: "bytes \<Rightarrow> nat \<Rightarrow> nat \<Rightarrow> nat" where
  "avx512_find_header_end buf len from =
     vec_fhe_loop 64 TYPE(64) (fhe_loop buf len) buf len (if from > 3 then from - 3 else 0)"

definition avx512_scan_header_value :: "bytes \<Rightarrow> nat \<Rightarrow> nat \<Rightarrow> nat option" where
  "avx512_scan_header_value buf pos end =
     vec_value_loop 64 below64 avx512_value_bad (\<lambda>p. scan_header_value buf p end) buf pos end"

definition avx512_scan_uri :: "bytes \<Rightarrow> nat \<Rightarrow> nat \<Rightarrow> (nat \<times> nat) option" where
  "avx512_scan_uri buf pos end =
     vec_uri_loop 64 below64 avx512_uri_bad buf pos end end"

definition avx512_scan_header_name :: "bytes \<Rightarrow> nat \<Rightarrow> nat \<Rightarrow> nat option" where
  "avx512_scan_header_name = vec_name_loop 64 TYPE(64)"

text \<open>The lane predicates agree with the tables, byte by byte.\<close>

lemma uint_u8: "0 \<le> uint (b::u8)" "uint (b::u8) < 256"
  using uint_bounded [of b] by simp_all

lemma bit7_u8: "bit (b::u8) 7 \<longleftrightarrow> 128 \<le> uint b"
proof -
  have "uint b div 128 = (if uint b < 128 then 0 else 1)"
    using uint_u8 [of b] by (auto simp: int_div_pos_eq [where q = 1])
  then have "bit (uint b) 7 \<longleftrightarrow> 128 \<le> uint b" by (simp add: bit_iff_odd)
  then show ?thesis by (simp add: bit_uint_iff)
qed

lemma sint_u8: "sint (b::u8) = (if uint b < 128 then uint b else uint b - 256)"
  using bit7_u8 [of b] uint_u8 [of b]
  by (simp add: sint_uint signed_take_bit_eq_take_bit_minus take_bit_int_eq_self bit_uint_iff)

lemma xor80: "b XOR 0x80 = b + (0x80::u8)"
proof -
  have "b XOR 0x80 = flip_bit 7 b" by (simp add: flip_bit_eq_xor)
  also have "\<dots> = b + 0x80"
    by (simp add: flip_bit_eq_if set_bit_eq unset_bit_eq)
  finally show ?thesis .
qed

lemma uint_plus80: "uint (b + (0x80::u8)) = (if uint b < 128 then uint b + 128 else uint b - 128)"
proof -
  have "uint (b + (0x80::u8)) = (uint b + 128) mod 256" by (simp add: uint_word_ariths)
  then show ?thesis using uint_u8 [of b]
    by (auto simp: mod_pos_pos_trivial int_mod_pos_eq [where q = 1])
qed

lemma biased_less: "sint ((b::u8) XOR 0x80) < -96 \<longleftrightarrow> uint b < 32"
  using uint_u8 [of b] by (simp add: xor80 sint_u8 uint_plus80)
lemma x86_value_bad_iff: "x86_value_bad b \<longleftrightarrow> \<not> value_ok b"
  by (auto simp: x86_value_bad_def biased_less value_ok_iff word_le_def)

lemma x86_uri_bad_iff: "x86_uri_bad b \<longleftrightarrow> \<not> uri_ok b"
  using uint_u8 [of b]
  by (auto simp: x86_uri_bad_def sint_u8 uri_ok_iff word_less_def word_uint_eq_iff)

lemma avx512_value_bad_iff: "avx512_value_bad b \<longleftrightarrow> \<not> value_ok b"
  by (auto simp: avx512_value_bad_def value_ok_iff)

lemma avx512_uri_bad_iff: "avx512_uri_bad b \<longleftrightarrow> \<not> uri_ok b"
  by (auto simp: avx512_uri_bad_def bit7_u8 uri_ok_iff word_less_def word_uint_eq_iff)

text \<open>What a scan does on a block of bytes that is followed by others.\<close>

lemma all_less_Suc_shift: "(\<forall>i < Suc k. P i) \<longleftrightarrow> P 0 \<and> (\<forall>i < k. P (Suc i))"
  by (metis less_Suc_eq_0_disj)

lemma value_spec_clean:
  "\<forall>b \<in> set c. b \<noteq> CR \<and> value_ok b \<Longrightarrow> value_spec pos (c @ rest) = value_spec (pos + length c) rest"
  by (induction c arbitrary: pos) auto

lemma value_spec_stop:
  "k < length c \<Longrightarrow> c ! k = CR \<Longrightarrow> \<forall>i < k. c ! i \<noteq> CR \<Longrightarrow>
     value_spec pos (c @ rest) = (if \<forall>i < k. value_ok (c ! i) then Some (pos + k) else None)"
proof (induction c arbitrary: pos k)
  case (Cons b c)
  then show ?case by (cases k) (auto simp: all_less_Suc_shift)
qed simp

lemma value_spec_bad:
  "CR \<notin> set c \<Longrightarrow> b \<in> set c \<Longrightarrow> \<not> value_ok b \<Longrightarrow> value_spec pos (c @ rest) = None"
  by (induction c arbitrary: pos) auto

lemma name_spec_clean:
  "\<forall>b \<in> set c. b \<noteq> 0x3A \<and> token_ok b \<Longrightarrow> name_spec pos (c @ rest) = name_spec (pos + length c) rest"
  by (induction c arbitrary: pos) auto

lemma name_spec_stop:
  "k < length c \<Longrightarrow> c ! k = 0x3A \<Longrightarrow> \<forall>i < k. c ! i \<noteq> 0x3A \<Longrightarrow>
     name_spec pos (c @ rest) = (if \<forall>i < k. token_ok (c ! i) then Some (pos + k) else None)"
proof (induction c arbitrary: pos k)
  case (Cons b c)
  then show ?case by (cases k) (auto simp: all_less_Suc_shift)
qed simp

lemma name_spec_bad:
  "0x3A \<notin> set c \<Longrightarrow> b \<in> set c \<Longrightarrow> \<not> token_ok b \<Longrightarrow> name_spec pos (c @ rest) = None"
  by (induction c arbitrary: pos) auto

text \<open>The position of the first \<open>?\<close> or \<open>#\<close> among the first \<open>k\<close> bytes.\<close>

definition qf :: "u8 \<Rightarrow> bool" where
  "qf b \<longleftrightarrow> b = 0x3F \<or> b = 0x23"

fun first_qf :: "nat \<Rightarrow> bytes \<Rightarrow> nat option" where
  "first_qf pos [] = None"
| "first_qf pos (b # bs) = (if qf b then Some pos else first_qf (Suc pos) bs)"

definition canon_upd :: "nat option \<Rightarrow> nat \<Rightarrow> bytes \<Rightarrow> nat option" where
  "canon_upd co pos c = (case co of Some k \<Rightarrow> Some k | None \<Rightarrow> first_qf pos c)"

lemma first_qf_None: "first_qf pos c = None \<longleftrightarrow> (\<forall>i < length c. \<not> qf (c ! i))"
  by (induction c arbitrary: pos) (auto simp: all_less_Suc_shift)

lemma first_qf_Some:
  "k < length c \<Longrightarrow> qf (c ! k) \<Longrightarrow> \<forall>i < k. \<not> qf (c ! i) \<Longrightarrow> first_qf pos c = Some (pos + k)"
proof (induction c arbitrary: pos k)
  case (Cons b c)
  then show ?case by (cases k) (auto simp: all_less_Suc_shift)
qed simp

lemma first_qf_less: "first_qf pos c = Some k \<Longrightarrow> k < pos + length c"
proof (induction c arbitrary: pos)
  case (Cons b c)
  then show ?case using Cons.IH [of "Suc pos"] by (auto split: if_splits)
qed simp

lemma uri_spec_clean:
  "\<forall>b \<in> set c. uri_ok b \<and> b \<noteq> SP \<Longrightarrow>
     uri_spec pos co (c @ rest) = uri_spec (pos + length c) (canon_upd co pos c) rest"
proof (induction c arbitrary: pos co)
  case Nil
  then show ?case by (simp add: canon_upd_def split: option.split)
next
  case (Cons b c)
  then show ?case by (auto simp: canon_upd_def qf_def split: option.split)
qed

lemma uri_spec_bad:
  "SP \<notin> set c \<Longrightarrow> b \<in> set c \<Longrightarrow> \<not> uri_ok b \<Longrightarrow> uri_spec pos co (c @ rest) = None"
  by (induction c arbitrary: pos co) auto

lemma uri_spec_stop:
  assumes "k < length c" "c ! k = SP" "\<forall>i < k. c ! i \<noteq> SP"
  shows "uri_spec pos co (c @ rest) =
     (if \<forall>i < k. uri_ok (c ! i)
      then Some (pos + k, case canon_upd co pos (take k c) of None \<Rightarrow> pos + k | Some j \<Rightarrow> j)
      else None)"
proof -
  have c: "c @ rest = take k c @ SP # drop (Suc k) c @ rest"
    using assms id_take_nth_drop [of k c] by auto
  have set: "set (take k c) = {c ! i | i. i < k}"
    using assms(1) by (simp add: nth_image [of k c, symmetric] image_def atLeast0LessThan) blast
  show ?thesis
  proof (cases "\<forall>i < k. uri_ok (c ! i)")
    case True
    then have "\<forall>b \<in> set (take k c). uri_ok b \<and> b \<noteq> SP"
      using set by auto
    then show ?thesis using True assms(1) by (subst c) (simp add: uri_spec_clean)
  next
    case False
    then obtain b where "b \<in> set (take k c)" "\<not> uri_ok b" using set by auto
    moreover have "SP \<notin> set (take k c)" using assms set by auto
    ultimately show ?thesis using False by (subst c) (simp add: uri_spec_bad)
  qed
qed

text \<open>The masks of a block, read as statements about its bytes.\<close>

lemma block_mask_nonzero:
  "length c \<le> LENGTH('m) \<Longrightarrow> (movemask (map P c) :: 'm::len word) \<noteq> 0 \<longleftrightarrow> (\<exists>b \<in> set c. P b)"
  by (simp add: movemask_nonzero_iff) (metis in_set_conv_nth nth_map)

lemma block_ctz:
  assumes "(movemask (map P c) :: 'm::len word) \<noteq> 0" "length c \<le> LENGTH('m)"
  defines "k \<equiv> ctz (movemask (map P c) :: 'm word)"
  shows "k < length c" "P (c ! k)" "\<forall>i < k. \<not> P (c ! i)"
  using ctz_movemask [OF assms(1)] assms(2) unfolding k_def by auto

lemma block_real_bad:
  assumes "k < length c" "length c \<le> LENGTH('m)" "\<And>i. i < length c \<Longrightarrow> bit (pre :: 'm::len word) i \<longleftrightarrow> i < k"
  shows "(movemask (map P c) AND pre) AND NOT (movemask (map Q c)) \<noteq> 0
     \<longleftrightarrow> (\<exists>i < k. P (c ! i) \<and> \<not> Q (c ! i))"
  using assms
proof -
  let ?m = "(movemask (map P c) AND pre) AND NOT (movemask (map Q c))"
  have "bit ?m i \<longleftrightarrow> i < k \<and> P (c ! i) \<and> \<not> Q (c ! i)" for i
    using assms by (cases "i < length c") (auto simp: bit_and_iff bit_not_iff bit_movemask)
  then show ?thesis unfolding word_nonzero_iff by blast
qed

lemma block_below_nonzero:
  assumes "k < length c" "length c \<le> LENGTH('m)" "\<And>i. i < length c \<Longrightarrow> bit (pre :: 'm::len word) i \<longleftrightarrow> i < k"
  shows "movemask (map P c) AND pre = movemask (map P (take k c))"
  using assms
  by (intro bit_word_eqI) (auto simp: bit_and_iff bit_movemask)

lemma first_qf_mask:
  assumes "length c \<le> LENGTH('m)"
  shows "first_qf pos c = (if (movemask (map (\<lambda>b. b = 0x3F \<or> b = 0x23) c) :: 'm::len word) = 0 then None
           else Some (pos + ctz (movemask (map (\<lambda>b. b = 0x3F \<or> b = 0x23) c) :: 'm word)))"
proof (cases "(movemask (map qf c) :: 'm word) = 0")
  case True
  then have "\<not> (\<exists>b \<in> set c. qf b)" using block_mask_nonzero [OF assms, of qf] by blast
  with True show ?thesis by (auto simp: first_qf_None qf_def [abs_def])
next
  case False
  show ?thesis
    using first_qf_Some [OF block_ctz [OF False assms]] False by (simp add: qf_def [abs_def])
qed

text \<open>The loops meet the contract, for every lane count the mask type has bits for.\<close>

lemma vec_value_loop_spec:
  fixes pre :: "nat \<Rightarrow> 'm::len word"
  assumes w: "0 < w" "w \<le> LENGTH('m)"
    and pre: "\<And>k i. k < w \<Longrightarrow> i < w \<Longrightarrow> bit (pre k) i \<longleftrightarrow> i < k"
    and bad: "\<And>b. bad b \<longleftrightarrow> \<not> value_ok b"
    and tail: "\<And>p. p \<le> end \<Longrightarrow> tail p = value_spec p (slice buf p end)"
    and len: "end \<le> length buf"
  shows "pos \<le> end \<Longrightarrow> vec_value_loop w pre bad tail buf pos end = value_spec pos (slice buf pos end)"
proof (induction "end - pos" arbitrary: pos rule: less_induct)
  case less
  show ?case
  proof (cases "pos + w \<le> end")
    case True
    define c where "c = take w (drop pos buf)"
    have lc: "length c = w" using True len by (simp add: c_def)
    have sl: "slice buf pos end = c @ slice buf (pos + w) end"
      unfolding c_def by (rule slice_block [OF True len])
    have IH: "vec_value_loop w pre bad tail buf (pos + w) end = value_spec (pos + w) (slice buf (pos + w) end)"
      using less(1) [of "pos + w"] True w by simp
    let ?cr = "movemask (map (\<lambda>b. b = CR) c) :: 'm word" and ?bad = "movemask (map bad c) :: 'm word"
    have badnz: "?bad \<noteq> 0 \<longleftrightarrow> (\<exists>b \<in> set c. \<not> value_ok b)"
      using block_mask_nonzero [of c bad] w lc by (simp add: bad)
    show ?thesis
    proof (cases "?cr = 0")
      case no_cr: True
      then have nocr: "CR \<notin> set c" using block_mask_nonzero [of c "\<lambda>b. b = CR"] w lc by blast
      show ?thesis
      proof (cases "?bad = 0")
        case True
        with badnz nocr have "\<forall>b \<in> set c. b \<noteq> CR \<and> value_ok b" by auto
        with True no_cr IH sl lc w \<open>pos + w \<le> end\<close> show ?thesis
          by (subst vec_value_loop.simps) (simp add: Let_def value_spec_clean flip: c_def)
      next
        case False
        with badnz nocr have "value_spec pos (slice buf pos end) = None"
          unfolding sl using value_spec_bad by blast
        with False no_cr w \<open>pos + w \<le> end\<close> show ?thesis
          by (subst vec_value_loop.simps) (simp add: Let_def flip: c_def)
      qed
    next
      case False
      note k = block_ctz [OF False, unfolded lc, OF w(2)]
      have rb: "(?bad AND pre (ctz ?cr)) AND NOT ?cr \<noteq> 0 \<longleftrightarrow> \<not> (\<forall>i < ctz ?cr. value_ok (c ! i))"
        using block_real_bad [of "ctz ?cr" c "pre (ctz ?cr)" bad "\<lambda>b. b = CR"] k w lc pre
        by (auto simp: bad)
      have "value_spec pos (slice buf pos end) =
          (if \<forall>i < ctz ?cr. value_ok (c ! i) then Some (pos + ctz ?cr) else None)"
        unfolding sl using k lc by (intro value_spec_stop) auto
      moreover have "?cr OR ?bad \<noteq> 0" using False by (metis or_eq_0_iff)
      ultimately show ?thesis
        using False rb w \<open>pos + w \<le> end\<close>
        by (subst vec_value_loop.simps) (simp add: Let_def flip: c_def)
    qed
  next
    case False
    then show ?thesis using less.prems tail by (subst vec_value_loop.simps) simp
  qed
qed

lemma vec_name_loop_spec:
  assumes w: "0 < w" "w \<le> LENGTH('m::len)" and len: "end \<le> length buf"
  shows "pos \<le> end \<Longrightarrow> vec_name_loop w TYPE('m) buf pos end = name_spec pos (slice buf pos end)"
proof (induction "end - pos" arbitrary: pos rule: less_induct)
  case less
  show ?case
  proof (cases "pos + w \<le> end")
    case True
    define c where "c = take w (drop pos buf)"
    have lc: "length c = w" using True len by (simp add: c_def)
    have sl: "slice buf pos end = c @ slice buf (pos + w) end"
      unfolding c_def by (rule slice_block [OF True len])
    have IH: "vec_name_loop w TYPE('m) buf (pos + w) end = name_spec (pos + w) (slice buf (pos + w) end)"
      using less(1) [of "pos + w"] True w by simp
    let ?m = "movemask (map (\<lambda>b. b = 0x3A) c) :: 'm word"
    show ?thesis
    proof (cases "?m = 0")
      case no: True
      then have "0x3A \<notin> set c" using block_mask_nonzero [of c "\<lambda>b. b = 0x3A"] w lc by blast
      then have "name_spec pos (slice buf pos end) =
          (if list_all token_ok c then name_spec (pos + w) (slice buf (pos + w) end) else None)"
        unfolding sl using name_spec_bad [of c] name_spec_clean [of c pos "slice buf (pos + w) end"] lc
        by (auto simp: list_all_iff)
      with no IH w True show ?thesis
        by (subst vec_name_loop.simps) (simp add: Let_def flip: c_def)
    next
      case False
      note k = block_ctz [OF False, unfolded lc, OF w(2)]
      have "list_all token_ok (take (ctz ?m) c) \<longleftrightarrow> (\<forall>i < ctz ?m. token_ok (c ! i))"
        using k(1) lc by (simp add: list_all_length)
      moreover have "name_spec pos (slice buf pos end) =
          (if \<forall>i < ctz ?m. token_ok (c ! i) then Some (pos + ctz ?m) else None)"
        unfolding sl using k lc by (intro name_spec_stop) auto
      ultimately show ?thesis using False w True
        by (subst vec_name_loop.simps) (simp add: Let_def flip: c_def)
    qed
  next
    case False
    then show ?thesis using less.prems len by (subst vec_name_loop.simps) (simp add: scan_header_name_spec)
  qed
qed

lemma vec_uri_loop_spec:
  fixes pre :: "nat \<Rightarrow> 'm::len word"
  assumes w: "0 < w" "w \<le> LENGTH('m)"
    and pre: "\<And>k i. k < w \<Longrightarrow> i < w \<Longrightarrow> bit (pre k) i \<longleftrightarrow> i < k"
    and bad: "\<And>b. bad b \<longleftrightarrow> \<not> uri_ok b"
    and len: "end \<le> length buf"
  shows "pos \<le> end \<Longrightarrow> ce = (case co of None \<Rightarrow> end | Some k \<Rightarrow> k) \<Longrightarrow> \<forall>k. co = Some k \<longrightarrow> k < pos \<Longrightarrow>
     vec_uri_loop w pre bad buf pos end ce = uri_spec pos co (slice buf pos end)"
proof (induction "end - pos" arbitrary: pos co ce rule: less_induct)
  case less
  show ?case
  proof (cases "pos + w \<le> end")
    case True
    define c where "c = take w (drop pos buf)"
    have lc: "length c = w" using True len by (simp add: c_def)
    have sl: "slice buf pos end = c @ slice buf (pos + w) end"
      unfolding c_def by (rule slice_block [OF True len])
    have ce: "ce = end \<longleftrightarrow> co = None" using less.prems True w by (cases co) auto
    let ?sp = "movemask (map (\<lambda>b. b = SP) c) :: 'm word" and ?bad = "movemask (map bad c) :: 'm word"
    let ?qf = "\<lambda>c. movemask (map (\<lambda>b. b = 0x3F \<or> b = 0x23) c) :: 'm word"
    show ?thesis
    proof (cases "?sp = 0")
      case no_sp: True
      then have nosp: "SP \<notin> set c" using block_mask_nonzero [of c "\<lambda>b. b = SP"] w lc by blast
      have badnz: "?bad \<noteq> 0 \<longleftrightarrow> (\<exists>b \<in> set c. \<not> uri_ok b)"
        using block_mask_nonzero [of c bad] w lc by (simp add: bad)
      show ?thesis
      proof (cases "?bad = 0")
        case nobad: True
        let ?co = "canon_upd co pos c"
        let ?ce = "if ?qf c \<noteq> 0 \<and> ce = end then pos + ctz (?qf c) else ce"
        have fq: "first_qf pos c = (if ?qf c = 0 then None else Some (pos + ctz (?qf c)))"
          by (rule first_qf_mask) (use lc w in simp)
        have ce': "?ce = (case ?co of None \<Rightarrow> end | Some k \<Rightarrow> k)"
          using ce less.prems(2) by (cases co) (auto simp: canon_upd_def fq)
        have lt: "\<forall>k. ?co = Some k \<longrightarrow> k < pos + w"
          using less.prems(3) first_qf_less [of pos c] lc
          by (cases co) (auto simp: canon_upd_def)
        have "vec_uri_loop w pre bad buf (pos + w) end ?ce =
            uri_spec (pos + w) ?co (slice buf (pos + w) end)"
          using less(1) [of "pos + w"] True w ce' lt by simp
        moreover have "\<forall>b \<in> set c. uri_ok b \<and> b \<noteq> SP" using badnz nobad nosp by auto
        ultimately show ?thesis
          using nobad no_sp w True sl lc
          by (subst vec_uri_loop.simps) (simp add: Let_def uri_spec_clean flip: c_def)
      next
        case False
        with badnz nosp have "uri_spec pos co (slice buf pos end) = None"
          unfolding sl using uri_spec_bad by blast
        with False no_sp w True show ?thesis
          by (subst vec_uri_loop.simps) (simp add: Let_def flip: c_def)
      qed
    next
      case False
      let ?k = "ctz ?sp"
      note k = block_ctz [OF False, unfolded lc, OF w(2)]
      have pk: "\<And>i. i < length c \<Longrightarrow> bit (pre ?k) i \<longleftrightarrow> i < ?k" using pre k lc by simp
      have rb: "(?bad AND pre ?k) AND NOT ?sp \<noteq> 0 \<longleftrightarrow> \<not> (\<forall>i < ?k. uri_ok (c ! i))"
        using block_real_bad [of ?k c "pre ?k" bad "\<lambda>b. b = SP", OF _ _ pk] k w lc
        by (auto simp: bad)
      have qb: "?qf c AND pre ?k = ?qf (take ?k c)"
        using block_below_nonzero [of ?k c "pre ?k", OF _ _ pk] k w lc by simp
      have fq: "first_qf pos (take ?k c) =
          (if ?qf (take ?k c) = 0 then None else Some (pos + ctz (?qf (take ?k c))))"
        by (rule first_qf_mask) (use lc w k in simp)
      have "uri_spec pos co (slice buf pos end) =
         (if \<forall>i < ?k. uri_ok (c ! i)
          then Some (pos + ?k, case canon_upd co pos (take ?k c) of None \<Rightarrow> pos + ?k | Some j \<Rightarrow> j)
          else None)"
        unfolding sl using k lc by (intro uri_spec_stop) auto
      moreover have "(case canon_upd co pos (take ?k c) of None \<Rightarrow> pos + ?k | Some j \<Rightarrow> j) =
          (if ce = end then (if ?qf c AND pre ?k \<noteq> 0 then pos + ctz (?qf c AND pre ?k) else pos + ?k)
           else ce)"
        using ce less.prems(2) by (cases co) (auto simp: canon_upd_def fq qb)
      ultimately show ?thesis
        using False rb w True
        by (subst vec_uri_loop.simps) (simp add: Let_def flip: c_def)
    qed
  next
    case False
    then show ?thesis using less.prems len by (subst vec_uri_loop.simps) (simp add: uri_loop_spec)
  qed
qed

lemma mask_walk_spec:
  fixes m :: "'m::len word"
  assumes "\<And>i. bit m i \<Longrightarrow> buf ! (pos + i) = CR"
  shows "case mask_walk buf len pos m of
           None \<Rightarrow> \<forall>i. bit m i \<longrightarrow> \<not> hit buf len (pos + i)
         | Some r \<Rightarrow> \<exists>i. bit m i \<and> hit buf len (pos + i) \<and> r = pos + i + 4 \<and>
                     (\<forall>j < i. bit m j \<longrightarrow> \<not> hit buf len (pos + j))"
  using assms
proof (induction buf len pos m rule: mask_walk.induct)
  case (1 buf len pos m)
  show ?case
  proof (cases "m = 0")
    case True
    then show ?thesis by (subst mask_walk.simps) simp
  next
    case False
    note k = ctz_props [OF False] and cl = bit_clear_lowest [OF False]
    let ?idx = "pos + ctz m"
    have h: "hit buf len ?idx \<longleftrightarrow> ?idx + 3 < len \<and> buf ! (?idx + 1) = LF \<and> buf ! (?idx + 2) = CR \<and>
        buf ! (?idx + 3) = LF"
      using "1.prems" [OF k(1)] by (simp add: hit_def)
    show ?thesis
    proof (cases "hit buf len ?idx")
      case True
      have "mask_walk buf len pos m = Some (?idx + 4)"
        using False True h by (subst mask_walk.simps) (simp add: Let_def)
      with True k show ?thesis by (auto intro!: exI [of _ "ctz m"])
    next
      case nh: False
      have eq: "mask_walk buf len pos m = mask_walk buf len pos (clear_lowest m)"
        using False nh h by (subst mask_walk.simps) (auto simp: Let_def)
      have "case mask_walk buf len pos (clear_lowest m) of
           None \<Rightarrow> \<forall>i. bit (clear_lowest m) i \<longrightarrow> \<not> hit buf len (pos + i)
         | Some r \<Rightarrow> \<exists>i. bit (clear_lowest m) i \<and> hit buf len (pos + i) \<and> r = pos + i + 4 \<and>
                     (\<forall>j < i. bit (clear_lowest m) j \<longrightarrow> \<not> hit buf len (pos + j))"
        using False nh h "1.prems" cl by (intro "1.IH" [OF False refl]) auto
      then show ?thesis
        unfolding eq cl using nh by (auto split: option.splits)
    qed
  qed
qed

lemma vec_fhe_loop_spec:
  assumes w: "0 < w" "w \<le> LENGTH('m::len)" and len: "len \<le> length buf"
    and tail: "\<And>p. first_hit buf len p (tail p)"
  shows "first_hit buf len pos (vec_fhe_loop w TYPE('m) tail buf len pos)"
proof (induction "len - pos" arbitrary: pos rule: less_induct)
  case less
  show ?case
  proof (cases "pos + w \<le> len")
    case True
    define m where "m = (movemask (map (\<lambda>b. b = CR) (take w (drop pos buf))) :: 'm word)"
    have lc: "length (take w (drop pos buf)) = w" using True len by simp
    have bm: "bit m i \<longleftrightarrow> i < w \<and> buf ! (pos + i) = CR" for i
      using lc w by (auto simp: m_def bit_movemask)
    then have hb: "hit buf len (pos + i) \<Longrightarrow> i < w \<Longrightarrow> bit m i" for i by (simp add: hit_def)
    have walk: "case mask_walk buf len pos m of
           None \<Rightarrow> \<forall>i. bit m i \<longrightarrow> \<not> hit buf len (pos + i)
         | Some r \<Rightarrow> \<exists>i. bit m i \<and> hit buf len (pos + i) \<and> r = pos + i + 4 \<and>
                     (\<forall>j < i. bit m j \<longrightarrow> \<not> hit buf len (pos + j))"
      by (rule mask_walk_spec) (simp add: bm)
    show ?thesis
    proof (cases "mask_walk buf len pos m")
      case None
      then have "\<forall>i < w. \<not> hit buf len (pos + i)" using walk hb by auto
      moreover have "first_hit buf len (pos + w) (vec_fhe_loop w TYPE('m) tail buf len (pos + w))"
        using less True w by simp
      ultimately show ?thesis
        using None True w first_hit_skip by (subst vec_fhe_loop.simps) (simp flip: m_def)
    next
      case (Some r)
      then obtain i where i: "bit m i" "hit buf len (pos + i)" "r = pos + i + 4"
        "\<forall>j < i. bit m j \<longrightarrow> \<not> hit buf len (pos + j)" using walk by auto
      then have "\<forall>j < i. \<not> hit buf len (pos + j)"
        using hb bm by (metis order_less_trans)
      with i Some True w first_hit_found show ?thesis
        by (subst vec_fhe_loop.simps) (simp flip: m_def)
    qed
  next
    case False
    then show ?thesis using tail by (subst vec_fhe_loop.simps) simp
  qed
qed

lemma first_hit_fhe_loop: "len \<le> length buf \<Longrightarrow> first_hit buf len p (fhe_loop buf len p)"
  by (simp add: fhe_loop_spec first_hit_spec)

lemma start_minus: "(if from > 3 then from - 3 else 0) = from - (3::nat)"
  by simp

lemma find_header_end_lawI:
  "len \<le> length buf \<Longrightarrow> first_hit buf len p r \<Longrightarrow> r = hdr_end_spec p (slice buf p len)"
  using first_hit_unique first_hit_spec by blast

definition sse2_scanner :: scanner where
  "sse2_scanner = \<lparr>sc_find_header_end = sse2_find_header_end,
     sc_header_value = sse2_scan_header_value, sc_uri = sse2_scan_uri,
     sc_header_name = sse2_scan_header_name\<rparr>"

definition avx2_scanner :: scanner where
  "avx2_scanner = \<lparr>sc_find_header_end = avx2_find_header_end,
     sc_header_value = avx2_scan_header_value, sc_uri = avx2_scan_uri,
     sc_header_name = avx2_scan_header_name\<rparr>"

definition avx512_scanner :: scanner where
  "avx512_scanner = \<lparr>sc_find_header_end = avx512_find_header_end,
     sc_header_value = avx512_scan_header_value, sc_uri = avx512_scan_uri,
     sc_header_name = avx512_scan_header_name\<rparr>"

lemma bit_below64: "k < 64 \<Longrightarrow> bit (below64 k) i \<longleftrightarrow> i < 64 \<and> i < k"
  using bit_below [where 'm = 64, of k i] by (simp add: below64_def below_def)

interpretation sse2: byte_scanner sse2_scanner
  by unfold_locales
    (simp_all add: sse2_scanner_def sse2_find_header_end_def sse2_scan_header_value_def
      sse2_scan_uri_def sse2_scan_header_name_def start_minus vec_value_loop_spec vec_uri_loop_spec
      vec_name_loop_spec scan_header_value_spec x86_value_bad_iff x86_uri_bad_iff bit_below
      find_header_end_lawI vec_fhe_loop_spec first_hit_fhe_loop)

interpretation avx2: byte_scanner avx2_scanner
  by unfold_locales
    (simp_all add: avx2_scanner_def avx2_find_header_end_def avx2_scan_header_value_def
      avx2_scan_uri_def avx2_scan_header_name_def start_minus vec_value_loop_spec vec_uri_loop_spec
      vec_name_loop_spec scan_header_value_spec x86_value_bad_iff x86_uri_bad_iff bit_below
      find_header_end_lawI vec_fhe_loop_spec first_hit_fhe_loop)

interpretation avx512: byte_scanner avx512_scanner
  by unfold_locales
    (simp_all add: avx512_scanner_def avx512_find_header_end_def avx512_scan_header_value_def
      avx512_scan_uri_def avx512_scan_header_name_def start_minus vec_value_loop_spec
      vec_uri_loop_spec vec_name_loop_spec scan_header_value_spec avx512_value_bad_iff
      avx512_uri_bad_iff bit_below64 find_header_end_lawI vec_fhe_loop_spec first_hit_fhe_loop)

end
