(* ===== verification/Simd_Arm.thy ===== *)
theory Simd_Arm
  imports Simd_Vector
begin

text \<open>
  The ARM implementations of \<open>simd.h\<close>: NEON, whose masks have four bits per lane, and SVE,
  whose loops run under a predicate over the hardware's vector length.  The NEON block
  operations are shown equal to those of the one-bit-per-lane masks of \<open>Simd_Vector\<close>.
\<close>

section \<open>NEON\<close>

text \<open>
  \<open>neon_movemask\<close>: the sixteen \<open>0xFF\<close>/\<open>0x00\<close> lanes are read as eight 16-bit lanes,
  shifted right by four, narrowed to bytes and read as one 64-bit word (little endian).
\<close>

definition neon_lane16 :: "bytes \<Rightarrow> nat \<Rightarrow> u16" where
  "neon_lane16 v j = ucast (v ! (2 * j)) OR push_bit 8 (ucast (v ! (2 * j + 1)))"

definition neon_movemask :: "bool list \<Rightarrow> u64" where
  "neon_movemask lanes =
     (let v = map (\<lambda>m. if m then 0xFF else 0) lanes;
          narrowed = map (\<lambda>j. ucast (drop_bit 4 (neon_lane16 v j)) :: u8) [0..<8]
      in le_word narrowed)"

definition neon_any :: "bool list \<Rightarrow> bool" where
  "neon_any lanes \<longleftrightarrow> foldr (max :: nat \<Rightarrow> nat \<Rightarrow> nat) (map (\<lambda>m. if m then 255 else 0) lanes) 0 \<noteq> 0"

definition pre_nibbles :: "nat \<Rightarrow> u64" where
  "pre_nibbles k = (if k = 0 then 0 else push_bit (k * 4) 1 - 1)"

definition neon_value_bad :: "u8 \<Rightarrow> bool" where
  "neon_value_bad b \<longleftrightarrow> b < 0x20 \<and> \<not> b = HTAB \<or> b = 0x7F"

definition neon_uri_bad :: "u8 \<Rightarrow> bool" where
  "neon_uri_bad b \<longleftrightarrow> (b < 0x21 \<or> b = 0x7F) \<or> 0x80 \<le> b"

function neon_fhe_loop :: "bytes \<Rightarrow> nat \<Rightarrow> nat \<Rightarrow> nat" where
  "neon_fhe_loop buf len pos =
     (if pos + 16 \<le> len then
        (if neon_any (map (\<lambda>b. b = CR) (take 16 (drop pos buf))) then
           (case find (\<lambda>i. buf ! (pos + i) = CR \<and> buf ! (pos + i + 1) = LF \<and>
                          buf ! (pos + i + 2) = CR \<and> buf ! (pos + i + 3) = LF)
                   (takeWhile (\<lambda>i. pos + i + 3 < len) [0..<16]) of
              Some i \<Rightarrow> pos + i + 4
            | None \<Rightarrow> neon_fhe_loop buf len (pos + 16))
         else neon_fhe_loop buf len (pos + 16))
      else fhe_loop buf len pos)"
  by pat_completeness auto
termination by (relation "measure (\<lambda>(buf, len, pos). len - pos)") auto

definition neon_find_header_end :: "bytes \<Rightarrow> nat \<Rightarrow> nat \<Rightarrow> nat" where
  "neon_find_header_end buf len from = neon_fhe_loop buf len (if from > 3 then from - 3 else 0)"

function neon_scan_header_value :: "bytes \<Rightarrow> nat \<Rightarrow> nat \<Rightarrow> nat option" where
  "neon_scan_header_value buf pos end =
     (if pos + 16 \<le> end then
        (let chunk = take 16 (drop pos buf);
             cr_mask = neon_movemask (map (\<lambda>b. b = CR) chunk);
             bad_mask = neon_movemask (map neon_value_bad chunk)
         in if cr_mask \<noteq> 0 then
              (let cr_byte = ctz cr_mask div 4;
                   real_bad = (bad_mask AND pre_nibbles cr_byte) AND NOT cr_mask
               in if real_bad \<noteq> 0 then None else Some (pos + cr_byte))
            else if bad_mask \<noteq> 0 then None
            else neon_scan_header_value buf (pos + 16) end)
      else scan_header_value buf pos end)"
  by pat_completeness auto
termination by (relation "measure (\<lambda>(buf, pos, end). end - pos)") auto

function neon_uri_loop :: "bytes \<Rightarrow> nat \<Rightarrow> nat \<Rightarrow> nat \<Rightarrow> (nat \<times> nat) option" where
  "neon_uri_loop buf pos end canon_end =
     (if pos + 16 \<le> end then
        (let chunk = take 16 (drop pos buf);
             sp_mask = neon_movemask (map (\<lambda>b. b = SP) chunk);
             bad_mask = neon_movemask (map neon_uri_bad chunk);
             qf_mask = neon_movemask (map (\<lambda>b. b = 0x3F \<or> b = 0x23) chunk)
         in if sp_mask \<noteq> 0 then
              (let sp_byte = ctz sp_mask div 4;
                   real_bad = (bad_mask AND pre_nibbles sp_byte) AND NOT sp_mask;
                   qf_before_sp = qf_mask AND pre_nibbles sp_byte
               in if real_bad \<noteq> 0 then None
                  else Some (pos + sp_byte,
                    if canon_end = end then
                      (if qf_before_sp \<noteq> 0 then pos + ctz qf_before_sp div 4 else pos + sp_byte)
                    else canon_end))
            else if bad_mask \<noteq> 0 then None
            else neon_uri_loop buf (pos + 16) end
                   (if qf_mask \<noteq> 0 \<and> canon_end = end then pos + ctz qf_mask div 4 else canon_end))
      else uri_loop buf pos end canon_end)"
  by pat_completeness auto
termination by (relation "measure (\<lambda>(buf, pos, end, c). end - pos)") auto

definition neon_scan_uri :: "bytes \<Rightarrow> nat \<Rightarrow> nat \<Rightarrow> (nat \<times> nat) option" where
  "neon_scan_uri buf pos end = neon_uri_loop buf pos end end"

text \<open>
  The scalar loop over a window of positions, with \<open>None\<close> when it runs to the end of the
  window without returning.
\<close>

fun name_window :: "bytes \<Rightarrow> nat list \<Rightarrow> nat option option" where
  "name_window buf [] = None"
| "name_window buf (i # is) =
     (if buf ! i = 0x3A then Some (Some i)
      else if \<not> token_ok (buf ! i) then Some None
      else name_window buf is)"

function neon_scan_header_name :: "bytes \<Rightarrow> nat \<Rightarrow> nat \<Rightarrow> nat option" where
  "neon_scan_header_name buf pos end =
     (if pos + 16 \<le> end then
        (case (if neon_any (map (\<lambda>b. b = 0x3A) (take 16 (drop pos buf)))
               then name_window buf (takeWhile (\<lambda>i. i < end) [pos..<pos + 16]) else None) of
           Some r \<Rightarrow> r
         | None \<Rightarrow>
             if list_all (\<lambda>j. token_ok (buf ! j)) [pos..<pos + 16]
             then neon_scan_header_name buf (pos + 16) end else None)
      else scan_header_name buf pos end)"
  by pat_completeness auto
termination by (relation "measure (\<lambda>(buf, pos, end). end - pos)") auto

declare neon_fhe_loop.simps [simp del] neon_scan_header_value.simps [simp del]
  neon_uri_loop.simps [simp del] neon_scan_header_name.simps [simp del]

lemma bit_FF: "bit (0xFF :: 'm::len word) i \<longleftrightarrow> i < LENGTH('m) \<and> i < 8"
proof -
  have "bit (0xFF :: 'm word) i \<longleftrightarrow> bit (mask 8 :: 'm word) i" by (simp add: mask_eq_exp_minus_1)
  also have "\<dots> \<longleftrightarrow> i < LENGTH('m) \<and> i < 8" by (auto simp only: bit_mask_iff possible_bit_word)
  finally show ?thesis .
qed

lemma bit_neon_lane16:
  assumes "length lanes = 16" "j < 8" "r < 8"
  shows "bit (neon_lane16 (map (\<lambda>m. if m then 0xFF else 0) lanes) j) (r + 4)
     \<longleftrightarrow> lanes ! (2 * j + (if r < 4 then 0 else 1))"
proof -
  define v where "v = map (\<lambda>m. if m then 0xFF else 0 :: u8) lanes"
  have v: "bit (v ! n) k \<longleftrightarrow> lanes ! n \<and> k < 8" if "n < 16" for n k
    using that assms(1) bit_FF [where 'm = 8, of k] by (simp add: v_def)
  have "bit (neon_lane16 v j) (r + 4) \<longleftrightarrow>
      bit (v ! (2 * j)) (r + 4) \<or> 4 \<le> r \<and> bit (v ! (2 * j + 1)) (r - 4)"
    using assms(3) by (auto simp: neon_lane16_def bit_or_iff bit_push_bit_iff bit_ucast_iff)
  also have "\<dots> \<longleftrightarrow> lanes ! (2 * j + (if r < 4 then 0 else 1))"
    using assms(2,3) v [of "2 * j" "r + 4"] v [of "2 * j + 1" "r - 4"] by auto
  finally show ?thesis by (simp only: v_def)
qed

lemma bit_neon_movemask:
  assumes "length lanes = 16"
  shows "bit (neon_movemask lanes) i \<longleftrightarrow> i < 64 \<and> lanes ! (i div 4)"
proof (cases "i < 64")
  case True
  have "i div 4 = 2 * (i div 8) + (if i mod 8 < 4 then 0 else 1)" by presburger
  moreover have "bit (neon_movemask lanes) i \<longleftrightarrow>
      bit (neon_lane16 (map (\<lambda>m. if m then 0xFF else 0) lanes) (i div 8)) (i mod 8 + 4)"
  proof -
    have "i div 8 < 8" "i mod 8 < 8" using True by auto
    with True show ?thesis
      by (auto simp: neon_movemask_def bit_le_word bit_ucast_iff bit_drop_bit_eq add.commute
          simp del: upt_rec_numeral upt_Suc mod_less_divisor) linarith?
  qed
  ultimately show ?thesis
    using True assms by (simp add: bit_neon_lane16)
next
  case False
  then show ?thesis using bit_imp_le_length [of "neon_movemask lanes" i] by auto
qed

text \<open>A word whose nibbles are lanes: its tests are those of the one-bit mask of the lanes.\<close>

definition nibbles :: "(nat \<Rightarrow> bool) \<Rightarrow> u64 \<Rightarrow> bool" where
  "nibbles L w \<longleftrightarrow> (\<forall>i. bit w i \<longleftrightarrow> i < 64 \<and> L (i div 4))"

lemma nibbles_nonzero: "nibbles L w \<Longrightarrow> w \<noteq> 0 \<longleftrightarrow> (\<exists>j < 16. L j)"
proof -
  assume n: "nibbles L w"
  have "(\<exists>i. i < 64 \<and> L (i div 4)) \<longleftrightarrow> (\<exists>j < 16. L j)"
  proof
    assume "\<exists>j < 16. L j"
    then obtain j where "j < 16" "L j" by blast
    then show "\<exists>i. i < 64 \<and> L (i div 4)" by (intro exI [of _ "4 * j"]) auto
  next
    assume "\<exists>i. i < 64 \<and> L (i div 4)"
    then obtain i where "i < 64" "L (i div 4)" by blast
    then show "\<exists>j < 16. L j" by (intro exI [of _ "i div 4"]) auto
  qed
  with n show ?thesis by (simp add: word_nonzero_iff nibbles_def)
qed

lemma nibbles_ctz:
  assumes n: "nibbles L w" and k: "k < 16" "L k" "\<forall>j < k. \<not> L j"
  shows "ctz w div 4 = k"
proof -
  have "ctz w = 4 * k"
    using n k by (intro ctz_eqI) (auto simp: nibbles_def)
  then show ?thesis by simp
qed

lemma nibbles_movemask: "length c = 16 \<Longrightarrow> nibbles (\<lambda>j. P (c ! j)) (neon_movemask (map P c))"
  by (auto simp: nibbles_def bit_neon_movemask)

lemma bit_pre_nibbles: "k < 16 \<Longrightarrow> bit (pre_nibbles k) i \<longleftrightarrow> i < 4 * k"
  using bit_below [where 'm = 64, of "k * 4" i] by (auto simp: pre_nibbles_def below_def)

lemma div4_less: "i div 4 < k \<longleftrightarrow> i < 4 * (k::nat)"
  by auto

lemma nibbles_below:
  "length c = 16 \<Longrightarrow> k < 16 \<Longrightarrow>
     nibbles (\<lambda>j. j < k \<and> P (c ! j)) (neon_movemask (map P c) AND pre_nibbles k)"
  by (auto simp: nibbles_def bit_and_iff bit_neon_movemask bit_pre_nibbles div4_less)

lemma nibbles_real_bad:
  "length c = 16 \<Longrightarrow> k < 16 \<Longrightarrow>
     nibbles (\<lambda>j. j < k \<and> P (c ! j) \<and> \<not> Q (c ! j))
       ((neon_movemask (map P c) AND pre_nibbles k) AND NOT (neon_movemask (map Q c)))"
  by (auto simp: nibbles_def bit_and_iff bit_not_iff bit_neon_movemask bit_pre_nibbles div4_less)

lemma neon_nonzero:
  "length c = 16 \<Longrightarrow> neon_movemask (map P c) \<noteq> 0 \<longleftrightarrow> (movemask (map P c) :: u64) \<noteq> 0"
  using nibbles_nonzero [OF nibbles_movemask, of c P] by (auto simp: movemask_nonzero_iff)

lemma neon_ctz:
  assumes "length c = 16" "(movemask (map P c) :: u64) \<noteq> 0"
  shows "ctz (neon_movemask (map P c)) div 4 = ctz (movemask (map P c) :: u64)"
  using nibbles_ctz [OF nibbles_movemask] block_ctz [OF assms(2)] assms(1) by simp

lemma ex_lanes_below: "k < n \<Longrightarrow> (\<exists>j < n. j < k \<and> R j) \<longleftrightarrow> (\<exists>j < (k::nat). R j)"
  by (metis order_less_trans)

lemma neon_real_bad:
  assumes "length c = 16" "k < 16"
  shows "(neon_movemask (map P c) AND pre_nibbles k) AND NOT (neon_movemask (map Q c)) \<noteq> 0 \<longleftrightarrow>
         (movemask (map P c) AND below k) AND NOT (movemask (map Q c)) \<noteq> (0 :: u64)"
  using nibbles_nonzero [OF nibbles_real_bad [OF assms], of P Q] assms
    block_real_bad [of k c "below k :: u64" P Q]
  by (simp add: bit_below ex_lanes_below)

lemma neon_below_nonzero:
  assumes "length c = 16" "k < 16"
  shows "neon_movemask (map P c) AND pre_nibbles k \<noteq> 0 \<longleftrightarrow> movemask (map P c) AND below k \<noteq> (0 :: u64)"
proof -
  have "movemask (map P c) AND below k = (movemask (map P (take k c)) :: u64)"
    using assms by (intro block_below_nonzero) (auto simp: bit_below)
  then show ?thesis
    using nibbles_nonzero [OF nibbles_below [OF assms], of P] assms
    by (auto simp: movemask_nonzero_iff ex_lanes_below)
qed

lemma neon_below_ctz:
  assumes "length c = 16" "k < 16" "movemask (map P c) AND below k \<noteq> (0 :: u64)"
  shows "ctz (neon_movemask (map P c) AND pre_nibbles k) div 4 = ctz (movemask (map P c) AND below k :: u64)"
proof -
  have eq: "movemask (map P c) AND below k = (movemask (map P (take k c)) :: u64)"
    using assms by (intro block_below_nonzero) (auto simp: bit_below)
  have "ctz (movemask (map P (take k c)) :: u64) < k \<and> P (c ! ctz (movemask (map P (take k c)) :: u64)) \<and>
      (\<forall>i < ctz (movemask (map P (take k c)) :: u64). \<not> P (c ! i))"
    using block_ctz [of P "take k c", where 'm = 64] assms eq by auto
  then show ?thesis
    unfolding eq using assms by (intro nibbles_ctz [OF nibbles_below]) auto
qed

lemma neon_value_bad_iff: "neon_value_bad b \<longleftrightarrow> \<not> value_ok b"
  by (auto simp: neon_value_bad_def value_ok_iff)

lemma neon_uri_bad_iff: "neon_uri_bad b \<longleftrightarrow> \<not> uri_ok b"
  by (auto simp: neon_uri_bad_def uri_ok_iff word_less_def word_le_def word_uint_eq_iff)

text \<open>The NEON loops are the generic ones.\<close>

lemma neon_value_eq:
  assumes "end \<le> length buf"
  shows "neon_scan_header_value buf pos end =
     vec_value_loop 16 (below :: nat \<Rightarrow> u64) neon_value_bad (\<lambda>p. scan_header_value buf p end) buf pos end"
proof (induction "end - pos" arbitrary: pos rule: less_induct)
  case less
  show ?case
  proof (cases "pos + 16 \<le> end")
    case True
    define c where "c = take 16 (drop pos buf)"
    have lc: "length c = 16" using True assms by (simp add: c_def)
    let ?cr = "movemask (map (\<lambda>b. b = CR) c) :: u64" and ?bad = "movemask (map neon_value_bad c) :: u64"
    have k: "ctz ?cr < 16" if "?cr \<noteq> 0" using block_ctz(1) [OF that] lc by simp
    have IH: "neon_scan_header_value buf (pos + 16) end = vec_value_loop 16 (below :: nat \<Rightarrow> u64)
        neon_value_bad (\<lambda>p. scan_header_value buf p end) buf (pos + 16) end"
      using less True by simp
    have no: "?bad AND NOT ?cr = ?bad" if "?cr = 0" using that by simp
    show ?thesis
      using True IH k lc
      by (subst neon_scan_header_value.simps, subst vec_value_loop.simps)
         (simp add: Let_def neon_nonzero [OF lc] neon_ctz [OF lc] neon_real_bad [OF lc] or_eq_0_iff
           flip: c_def)
  next
    case False
    then show ?thesis by (subst neon_scan_header_value.simps, subst vec_value_loop.simps) simp
  qed
qed

lemma neon_uri_eq:
  assumes "end \<le> length buf"
  shows "neon_uri_loop buf pos end ce = vec_uri_loop 16 (below :: nat \<Rightarrow> u64) neon_uri_bad buf pos end ce"
proof (induction "end - pos" arbitrary: pos ce rule: less_induct)
  case less
  show ?case
  proof (cases "pos + 16 \<le> end")
    case True
    define c where "c = take 16 (drop pos buf)"
    have lc: "length c = 16" using True assms by (simp add: c_def)
    let ?sp = "movemask (map (\<lambda>b. b = SP) c) :: u64"
    have k: "ctz ?sp < 16" if "?sp \<noteq> 0" using block_ctz(1) [OF that] lc by simp
    have IH: "neon_uri_loop buf (pos + 16) end e =
        vec_uri_loop 16 (below :: nat \<Rightarrow> u64) neon_uri_bad buf (pos + 16) end e" for e
      using less True by simp
    show ?thesis
      using True IH k lc
      by (subst neon_uri_loop.simps, subst vec_uri_loop.simps)
         (simp add: Let_def neon_nonzero [OF lc] neon_ctz [OF lc] neon_real_bad [OF lc]
           neon_below_nonzero [OF lc] neon_below_ctz [OF lc] flip: c_def)
  next
    case False
    then show ?thesis by (subst neon_uri_loop.simps, subst vec_uri_loop.simps) simp
  qed
qed

lemma neon_any_iff: "neon_any (map P c) \<longleftrightarrow> (\<exists>b \<in> set c. P b)"
  unfolding neon_any_def by (induction c) auto

text \<open>A window of positions scanned one by one is a stretch of the reference scan.\<close>

lemma name_window_spec:
  assumes "q \<le> length buf"
  shows "p \<le> q \<Longrightarrow> name_spec p (slice buf p q @ rest) =
     (case name_window buf [p..<q] of Some r \<Rightarrow> r | None \<Rightarrow> name_spec q rest)"
proof (induction "q - p" arbitrary: p)
  case (Suc n)
  then have "slice buf p q = buf ! p # slice buf (Suc p) q" "[p..<q] = p # [Suc p..<q]"
    using assms by (auto simp: slice_Cons upt_conv_Cons)
  with Suc show ?case by simp
qed simp

lemma set_slice: "q \<le> length buf \<Longrightarrow> set (slice buf p q) = (\<lambda>i. buf ! i) ` {p..<q}"
proof -
  assume q: "q \<le> length buf"
  have "slice buf p q = map (\<lambda>i. buf ! i) [p..<q]"
    using q by (intro nth_equalityI) auto
  then show ?thesis by simp
qed

lemma name_window_None:
  "name_window buf is = None \<longleftrightarrow> (\<forall>i \<in> set is. buf ! i \<noteq> 0x3A \<and> token_ok (buf ! i))"
  by (induction "is") auto

lemma name_window_no_colon:
  "\<forall>i \<in> set is. buf ! i \<noteq> 0x3A \<Longrightarrow>
     name_window buf is = (if list_all (\<lambda>j. token_ok (buf ! j)) is then None else Some None)"
  by (induction "is") auto

lemma neon_name_spec:
  assumes "end \<le> length buf"
  shows "pos \<le> end \<Longrightarrow> neon_scan_header_name buf pos end = name_spec pos (slice buf pos end)"
proof (induction "end - pos" arbitrary: pos rule: less_induct)
  case less
  show ?case
  proof (cases "pos + 16 \<le> end")
    case True
    let ?w = "[pos..<pos + 16]"
    have tw: "takeWhile (\<lambda>i. i < end) ?w = ?w" using True by simp
    have c: "take 16 (drop pos buf) = slice buf pos (pos + 16)"
      using True assms by (simp add: slice_eq_take_drop)
    have set: "set (slice buf pos (pos + 16)) = (\<lambda>i. buf ! i) ` set ?w"
      using True assms by (subst set_slice) auto
    have IH: "neon_scan_header_name buf (pos + 16) end = name_spec (pos + 16) (slice buf (pos + 16) end)"
      using less True by simp
    have spec: "name_spec pos (slice buf pos end) =
        (case name_window buf ?w of Some r \<Rightarrow> r | None \<Rightarrow> name_spec (pos + 16) (slice buf (pos + 16) end))"
      using True assms name_window_spec [of "pos + 16" buf pos "slice buf (pos + 16) end"]
      by (simp add: slice_window [of pos "pos + 16" "end"] del: upt_Suc)
    have eq: "neon_scan_header_name buf pos end =
        (case (if neon_any (map (\<lambda>b. b = 0x3A) (slice buf pos (pos + 16))) then name_window buf ?w else None) of
           Some r \<Rightarrow> r
         | None \<Rightarrow> if list_all (\<lambda>j. token_ok (buf ! j)) ?w
                  then neon_scan_header_name buf (pos + 16) end else None)"
      using True by (subst neon_scan_header_name.simps) (simp only: c tw if_True)
    show ?thesis
    proof (cases "neon_any (map (\<lambda>b. b = 0x3A) (slice buf pos (pos + 16)))")
      case any: True
      have "list_all (\<lambda>j. token_ok (buf ! j)) ?w" if "name_window buf ?w = None"
        using that unfolding name_window_None list_all_iff by blast
      then show ?thesis unfolding eq spec IH using any by (cases "name_window buf ?w") simp_all
    next
      case False
      then have "\<forall>i \<in> set ?w. buf ! i \<noteq> 0x3A" unfolding neon_any_iff set by blast
      from name_window_no_colon [OF this] False show ?thesis unfolding eq spec IH by simp
    qed
  next
    case False
    then show ?thesis
      using less.prems assms by (subst neon_scan_header_name.simps) (simp add: scan_header_name_spec)
  qed
qed

lemma find_hit_window:
  assumes "find (\<lambda>i. hit buf len (pos + i)) [0..<n] = r"
  shows "case r of None \<Rightarrow> \<forall>i < n. \<not> hit buf len (pos + i)
     | Some i \<Rightarrow> i < n \<and> hit buf len (pos + i) \<and> (\<forall>j < i. \<not> hit buf len (pos + j))"
  using assms
  by (auto simp: find_None_iff find_Some_iff split: option.split)

lemma neon_find_window:
  "find (\<lambda>i. buf ! (pos + i) = CR \<and> buf ! (pos + i + 1) = LF \<and> buf ! (pos + i + 2) = CR \<and>
      buf ! (pos + i + 3) = LF) (takeWhile (\<lambda>i. pos + i + 3 < len) is) =
   find (\<lambda>i. hit buf len (pos + i)) is" if "sorted is"
  using that
proof (induction "is")
  case (Cons i "is")
  show ?case
  proof (cases "pos + i + 3 < len")
    case True
    with Cons show ?thesis by (simp add: hit_def)
  next
    case False
    with Cons.prems have "\<forall>j \<in> set (i # is). \<not> hit buf len (pos + j)" by (auto simp: hit_def)
    then have "find (\<lambda>i. hit buf len (pos + i)) (i # is) = None" by (simp add: find_None_iff)
    with False show ?thesis by simp
  qed
qed simp

lemma no_CR_no_hit:
  assumes "pos + w \<le> length buf" "CR \<notin> set (take w (drop pos buf))" "i < w"
  shows "\<not> hit buf len (pos + i)"
proof
  assume "hit buf len (pos + i)"
  then have "take w (drop pos buf) ! i = CR" using assms by (simp add: hit_def)
  moreover have "i < length (take w (drop pos buf))" using assms by simp
  ultimately show False using assms(2) nth_mem by metis
qed

lemma neon_fhe_spec:
  assumes len: "len \<le> length buf"
  shows "first_hit buf len pos (neon_fhe_loop buf len pos)"
proof (induction "len - pos" arbitrary: pos rule: less_induct)
  case less
  show ?case
  proof (cases "pos + 16 \<le> len")
    case True
    have IH: "first_hit buf len (pos + 16) (neon_fhe_loop buf len (pos + 16))" using less True by simp
    let ?f = "find (\<lambda>i. hit buf len (pos + i)) [0..<16]"
    have skip: "first_hit buf len pos (neon_fhe_loop buf len (pos + 16))"
      if "\<forall>i < 16. \<not> hit buf len (pos + i)" using first_hit_skip [OF that IH] .
    show ?thesis
    proof (cases "neon_any (map (\<lambda>b. b = CR) (take 16 (drop pos buf)))")
      case any: True
      then have eq: "neon_fhe_loop buf len pos =
          (case ?f of Some i \<Rightarrow> pos + i + 4 | None \<Rightarrow> neon_fhe_loop buf len (pos + 16))"
        using True neon_find_window [of "[0..<16]" buf pos len]
        by (subst neon_fhe_loop.simps) (simp del: upt_rec_numeral)
      show ?thesis
        using find_hit_window [of buf len pos 16 ?f] skip first_hit_found [of buf len pos]
        unfolding eq by (cases ?f) (auto simp del: upt_rec_numeral)
    next
      case False
      then have "CR \<notin> set (take 16 (drop pos buf))" unfolding neon_any_iff by blast
      then have "\<forall>i < 16. \<not> hit buf len (pos + i)"
        using no_CR_no_hit [of pos 16 buf] True len by simp
      with False True skip show ?thesis by (subst neon_fhe_loop.simps) simp
    qed
  next
    case False
    then show ?thesis using len by (subst neon_fhe_loop.simps) (simp add: first_hit_fhe_loop)
  qed
qed

definition neon_scanner :: scanner where
  "neon_scanner = \<lparr>sc_find_header_end = neon_find_header_end,
     sc_header_value = neon_scan_header_value, sc_uri = neon_scan_uri,
     sc_header_name = neon_scan_header_name\<rparr>"

interpretation neon: byte_scanner neon_scanner
  by unfold_locales
    (simp_all add: neon_scanner_def neon_find_header_end_def neon_scan_uri_def start_minus
      neon_value_eq neon_uri_eq vec_value_loop_spec vec_uri_loop_spec scan_header_value_spec
      neon_value_bad_iff neon_uri_bad_iff bit_below neon_name_spec find_header_end_lawI neon_fhe_spec)

section \<open>SVE\<close>

text \<open>
  \<open>vl\<close> is the hardware's vector length in bytes (\<open>svcntb\<close>).  A predicated load reads
  the \<open>min vl (end - pos)\<close> bytes of the window; a test under the predicate looks at
  exactly those.
\<close>

definition window :: "nat \<Rightarrow> bytes \<Rightarrow> nat \<Rightarrow> nat \<Rightarrow> bytes" where
  "window vl buf pos end = take (min (end - pos) vl) (drop pos buf)"

function sve_fhe_loop :: "nat \<Rightarrow> bytes \<Rightarrow> nat \<Rightarrow> nat \<Rightarrow> nat" where
  "sve_fhe_loop vl buf len pos =
     (if 0 < vl \<and> pos < len then
        (if list_ex (\<lambda>b. b = CR) (window vl buf pos len) then
           (let remaining = len - pos;
                check_len = (if remaining < vl then remaining else vl)
            in case find (\<lambda>i. pos + i + 3 < len \<and> buf ! (pos + i) = CR \<and> buf ! (pos + i + 1) = LF \<and>
                            buf ! (pos + i + 2) = CR \<and> buf ! (pos + i + 3) = LF) [0..<check_len] of
                 Some i \<Rightarrow> pos + i + 4
               | None \<Rightarrow> sve_fhe_loop vl buf len (pos + vl))
         else sve_fhe_loop vl buf len (pos + vl))
      else 0)"
  by pat_completeness auto
termination by (relation "measure (\<lambda>(vl, buf, len, pos). len - pos)") auto

definition sve_find_header_end :: "nat \<Rightarrow> bytes \<Rightarrow> nat \<Rightarrow> nat \<Rightarrow> nat" where
  "sve_find_header_end vl buf len from = sve_fhe_loop vl buf len (if from > 3 then from - 3 else 0)"

definition sve_value_bad :: "u8 \<Rightarrow> bool" where
  "sve_value_bad b \<longleftrightarrow> b < 0x20 \<and> \<not> b = HTAB \<or> b = 0x7F"

definition sve_uri_bad :: "u8 \<Rightarrow> bool" where
  "sve_uri_bad b \<longleftrightarrow> (b < 0x21 \<or> b = 0x7F) \<or> 0x80 \<le> b"

fun value_window :: "bytes \<Rightarrow> nat list \<Rightarrow> nat option option" where
  "value_window buf [] = None"
| "value_window buf (i # is) =
     (if buf ! i = CR then Some (Some i)
      else if \<not> value_ok (buf ! i) then Some None
      else value_window buf is)"

function sve_scan_header_value :: "nat \<Rightarrow> bytes \<Rightarrow> nat \<Rightarrow> nat \<Rightarrow> nat option" where
  "sve_scan_header_value vl buf pos end =
     (if 0 < vl \<and> pos < end then
        (let remaining = end - pos;
             scan_end = pos + (if remaining < vl then remaining else vl)
         in case (if list_ex (\<lambda>b. b = CR \<or> sve_value_bad b) (window vl buf pos end)
                  then value_window buf [pos..<scan_end] else None) of
              Some r \<Rightarrow> r
            | None \<Rightarrow> sve_scan_header_value vl buf (pos + vl) end)
      else Some end)"
  by pat_completeness auto
termination by (relation "measure (\<lambda>(vl, buf, pos, end). end - pos)") auto

fun uri_window :: "bytes \<Rightarrow> nat \<Rightarrow> nat \<Rightarrow> nat list \<Rightarrow> (nat \<times> nat) option option \<times> nat" where
  "uri_window buf end canon_end [] = (None, canon_end)"
| "uri_window buf end canon_end (i # is) =
     (let b = buf ! i in
      if b = SP then (Some (Some (i, if canon_end \<noteq> end then canon_end else i)), canon_end)
      else if \<not> uri_ok b then (Some None, canon_end)
      else uri_window buf end
             (if (b = 0x3F \<or> b = 0x23) \<and> canon_end = end then i else canon_end) is)"

function sve_uri_loop :: "nat \<Rightarrow> bytes \<Rightarrow> nat \<Rightarrow> nat \<Rightarrow> nat \<Rightarrow> (nat \<times> nat) option" where
  "sve_uri_loop vl buf pos end canon_end =
     (if 0 < vl \<and> pos < end then
        (let remaining = end - pos;
             scan_end = pos + (if remaining < vl then remaining else vl)
         in case (if list_ex (\<lambda>b. (b = SP \<or> sve_uri_bad b) \<or> (b = 0x3F \<or> b = 0x23))
                       (window vl buf pos end)
                  then uri_window buf end canon_end [pos..<scan_end] else (None, canon_end)) of
              (Some r, _) \<Rightarrow> r
            | (None, ce) \<Rightarrow> sve_uri_loop vl buf (pos + vl) end ce)
      else Some (end, canon_end))"
  by pat_completeness auto
termination by (relation "measure (\<lambda>(vl, buf, pos, end, c). end - pos)") auto

definition sve_scan_uri :: "nat \<Rightarrow> bytes \<Rightarrow> nat \<Rightarrow> nat \<Rightarrow> (nat \<times> nat) option" where
  "sve_scan_uri vl buf pos end = sve_uri_loop vl buf pos end end"

function sve_scan_header_name :: "nat \<Rightarrow> bytes \<Rightarrow> nat \<Rightarrow> nat \<Rightarrow> nat option" where
  "sve_scan_header_name vl buf pos end =
     (if 0 < vl \<and> pos < end then
        (let remaining = end - pos;
             scan_end = pos + (if remaining < vl then remaining else vl)
         in case (if list_ex (\<lambda>b. b = 0x3A) (window vl buf pos end)
                  then name_window buf [pos..<scan_end] else None) of
              Some r \<Rightarrow> r
            | None \<Rightarrow>
                if list_all (\<lambda>j. token_ok (buf ! j)) [pos..<scan_end]
                then sve_scan_header_name vl buf (pos + vl) end else None)
      else None)"
  by pat_completeness auto
termination by (relation "measure (\<lambda>(vl, buf, pos, end). end - pos)") auto

declare sve_fhe_loop.simps [simp del] sve_scan_header_value.simps [simp del]
  sve_uri_loop.simps [simp del] sve_scan_header_name.simps [simp del]

text \<open>The window ends at \<open>scan_end\<close>, and so does a step of the scan.\<close>

lemma scan_end_min: "(pos::nat) < end \<Longrightarrow> pos + (if end - pos < vl then end - pos else vl) = min end (pos + vl)"
  by auto

lemma window_slice:
  "pos < end \<Longrightarrow> end \<le> length buf \<Longrightarrow> window vl buf pos end = slice buf pos (min end (pos + vl))"
  by (simp add: window_def slice_def drop_take min_def)

lemma value_window_spec:
  assumes "q \<le> length buf"
  shows "p \<le> q \<Longrightarrow> value_spec p (slice buf p q @ rest) =
     (case value_window buf [p..<q] of Some r \<Rightarrow> r | None \<Rightarrow> value_spec q rest)"
proof (induction "q - p" arbitrary: p)
  case (Suc n)
  then have "slice buf p q = buf ! p # slice buf (Suc p) q" "[p..<q] = p # [Suc p..<q]"
    using assms by (auto simp: slice_Cons upt_conv_Cons)
  with Suc show ?case by simp
qed simp

lemma value_window_clean:
  "\<forall>i \<in> set is. \<not> (buf ! i = CR \<or> sve_value_bad (buf ! i)) \<Longrightarrow> value_window buf is = None"
  by (induction "is") (auto simp: sve_value_bad_def value_ok_iff)

lemma sve_value_spec:
  assumes vl: "0 < vl" and len: "end \<le> length buf"
  shows "pos \<le> end \<Longrightarrow> sve_scan_header_value vl buf pos end = value_spec pos (slice buf pos end)"
proof (induction "end - pos" arbitrary: pos rule: less_induct)
  case less
  show ?case
  proof (cases "pos < end")
    case True
    define q where "q = min end (pos + vl)"
    have q: "pos \<le> q" "q \<le> end" "q \<le> length buf" using True len by (auto simp: q_def)
    have spec: "value_spec pos (slice buf pos end) =
        (case value_window buf [pos..<q] of Some r \<Rightarrow> r | None \<Rightarrow> value_spec q (slice buf q end))"
      using value_window_spec [OF q(3,1)] slice_window [OF q(1,2)] by simp
    have IH: "sve_scan_header_value vl buf (pos + vl) end = value_spec q (slice buf q end)"
    proof (cases "pos + vl \<le> end")
      case True
      then show ?thesis using less(1) [of "pos + vl"] vl \<open>pos < end\<close> by (simp add: q_def)
    next
      case False
      then show ?thesis by (subst sve_scan_header_value.simps) (simp add: q_def)
    qed
    have cl: "value_window buf [pos..<q] = None"
      if "\<not> list_ex (\<lambda>b. b = CR \<or> sve_value_bad b) (window vl buf pos end)"
    proof (rule value_window_clean)
      show "\<forall>i \<in> set [pos..<q]. \<not> (buf ! i = CR \<or> sve_value_bad (buf ! i))"
        using that True len q unfolding window_slice [OF True len] q_def [symmetric] list_ex_iff set_slice [OF q(3)]
        by auto
    qed
    have eq: "sve_scan_header_value vl buf pos end =
        (case (if list_ex (\<lambda>b. b = CR \<or> sve_value_bad b) (window vl buf pos end)
               then value_window buf [pos..<q] else None) of
           Some r \<Rightarrow> r | None \<Rightarrow> sve_scan_header_value vl buf (pos + vl) end)"
      using True vl
      by (subst sve_scan_header_value.simps) (simp add: Let_def scan_end_min [OF True] flip: q_def)
    show ?thesis unfolding eq spec IH using cl by (auto split: option.split)
  next
    case False
    then show ?thesis using less.prems by (subst sve_scan_header_value.simps) simp
  qed
qed

lemma sve_name_spec:
  assumes vl: "0 < vl" and len: "end \<le> length buf"
  shows "pos \<le> end \<Longrightarrow> sve_scan_header_name vl buf pos end = name_spec pos (slice buf pos end)"
proof (induction "end - pos" arbitrary: pos rule: less_induct)
  case less
  show ?case
  proof (cases "pos < end")
    case True
    define q where "q = min end (pos + vl)"
    have q: "pos \<le> q" "q \<le> end" "q \<le> length buf" using True len by (auto simp: q_def)
    have spec: "name_spec pos (slice buf pos end) =
        (case name_window buf [pos..<q] of Some r \<Rightarrow> r | None \<Rightarrow> name_spec q (slice buf q end))"
      using name_window_spec [OF q(3,1)] slice_window [OF q(1,2)] by simp
    have IH: "sve_scan_header_name vl buf (pos + vl) end = name_spec q (slice buf q end)"
    proof (cases "pos + vl \<le> end")
      case True
      then show ?thesis using less(1) [of "pos + vl"] vl \<open>pos < end\<close> by (simp add: q_def)
    next
      case False
      then show ?thesis by (subst sve_scan_header_name.simps) (simp add: q_def)
    qed
    have cl: "name_window buf [pos..<q] = (if list_all (\<lambda>j. token_ok (buf ! j)) [pos..<q] then None else Some None)"
      if "\<not> list_ex (\<lambda>b. b = 0x3A) (window vl buf pos end)"
    proof (rule name_window_no_colon)
      show "\<forall>i \<in> set [pos..<q]. buf ! i \<noteq> 0x3A"
        using that True len q unfolding window_slice [OF True len] q_def [symmetric] list_ex_iff set_slice [OF q(3)]
        by auto
    qed
    have tok: "list_all (\<lambda>j. token_ok (buf ! j)) [pos..<q]" if "name_window buf [pos..<q] = None"
      using that unfolding name_window_None list_all_iff by blast
    have eq: "sve_scan_header_name vl buf pos end =
        (case (if list_ex (\<lambda>b. b = 0x3A) (window vl buf pos end) then name_window buf [pos..<q] else None) of
           Some r \<Rightarrow> r | None \<Rightarrow> if list_all (\<lambda>j. token_ok (buf ! j)) [pos..<q]
             then sve_scan_header_name vl buf (pos + vl) end else None)"
      using True vl
      by (subst sve_scan_header_name.simps) (simp add: Let_def scan_end_min [OF True] flip: q_def)
    show ?thesis
    proof (cases "list_ex (\<lambda>b. b = 0x3A) (window vl buf pos end)")
      case True
      then show ?thesis unfolding eq spec IH using tok by (cases "name_window buf [pos..<q]") simp_all
    next
      case False
      from cl [OF False] False show ?thesis unfolding eq spec IH by simp
    qed
  next
    case False
    then show ?thesis using less.prems by (subst sve_scan_header_name.simps) simp
  qed
qed

lemma uri_window_spec:
  assumes "q \<le> end" "end \<le> length buf"
  shows "p \<le> q \<Longrightarrow> ce = (case co of None \<Rightarrow> end | Some k \<Rightarrow> k) \<Longrightarrow> \<forall>k. co = Some k \<longrightarrow> k < p \<Longrightarrow>
     (case uri_window buf end ce [p..<q] of
        (Some r, _) \<Rightarrow> uri_spec p co (slice buf p q @ rest) = r
      | (None, ce') \<Rightarrow> \<exists>co'. ce' = (case co' of None \<Rightarrow> end | Some k \<Rightarrow> k) \<and> (\<forall>k. co' = Some k \<longrightarrow> k < q) \<and>
           uri_spec p co (slice buf p q @ rest) = uri_spec q co' rest)"
proof (induction "q - p" arbitrary: p co ce)
  case 0
  then show ?case by (auto intro!: exI [of _ co])
next
  case (Suc n)
  then have lt: "p < q" by simp
  let ?b = "buf ! p"
  have s: "slice buf p q = ?b # slice buf (Suc p) q" "[p..<q] = p # [Suc p..<q]"
    using lt assms by (auto simp: slice_Cons upt_conv_Cons)
  have ce: "ce = end \<longleftrightarrow> co = None" using Suc.prems lt assms by (cases co) auto
  let ?co = "if (?b = 0x3F \<or> ?b = 0x23) \<and> co = None then Some p else co"
  let ?ce = "if (?b = 0x3F \<or> ?b = 0x23) \<and> ce = end then p else ce"
  have ce': "?ce = (case ?co of None \<Rightarrow> end | Some k \<Rightarrow> k)" using ce Suc.prems(2) by auto
  have lt': "\<forall>k. ?co = Some k \<longrightarrow> k < Suc p" using Suc.prems(3) by (auto simp: less_Suc_eq)
  note IH = Suc.hyps(1) [of "Suc p" ?ce ?co, OF _ _ ce' lt']
  show ?case
  proof (cases "?b = SP \<or> \<not> uri_ok ?b")
    case True
    then show ?thesis using ce Suc.prems(2) by (cases co) (auto simp: s Let_def)
  next
    case False
    then have eqs: "uri_window buf end ce [p..<q] = uri_window buf end ?ce [Suc p..<q]"
      "uri_spec p co (slice buf p q @ rest) = uri_spec (Suc p) ?co (slice buf (Suc p) q @ rest)"
      by (simp_all add: s Let_def)
    show ?thesis unfolding eqs by (rule IH) (use Suc.hyps(2) lt in auto)
  qed
qed

lemma uri_window_clean:
  "\<forall>i \<in> set is. \<not> ((buf ! i = SP \<or> sve_uri_bad (buf ! i)) \<or> buf ! i = 0x3F \<or> buf ! i = 0x23) \<Longrightarrow>
     uri_window buf end ce is = (None, ce)"
proof (induction "is")
  case (Cons i "is")
  have "sve_uri_bad b \<longleftrightarrow> \<not> uri_ok b" for b
    using neon_uri_bad_iff [of b] by (simp add: sve_uri_bad_def neon_uri_bad_def)
  with Cons show ?case by (auto simp: Let_def)
qed simp

lemma sve_uri_spec:
  assumes vl: "0 < vl" and len: "end \<le> length buf"
  shows "pos \<le> end \<Longrightarrow> ce = (case co of None \<Rightarrow> end | Some k \<Rightarrow> k) \<Longrightarrow> \<forall>k. co = Some k \<longrightarrow> k < pos \<Longrightarrow>
     sve_uri_loop vl buf pos end ce = uri_spec pos co (slice buf pos end)"
proof (induction "end - pos" arbitrary: pos co ce rule: less_induct)
  case less
  show ?case
  proof (cases "pos < end")
    case True
    define q where "q = min end (pos + vl)"
    have q: "pos \<le> q" "q \<le> end" "q \<le> length buf" using True len by (auto simp: q_def)
    let ?uw = "uri_window buf end ce [pos..<q]"
    have win: "case ?uw of (Some r, _) \<Rightarrow> uri_spec pos co (slice buf pos end) = r
      | (None, ce') \<Rightarrow> \<exists>co'. ce' = (case co' of None \<Rightarrow> end | Some k \<Rightarrow> k) \<and> (\<forall>k. co' = Some k \<longrightarrow> k < q) \<and>
           uri_spec pos co (slice buf pos end) = uri_spec q co' (slice buf q end)"
      using uri_window_spec [OF q(2) len q(1) less.prems(2,3), of "slice buf q end"]
      unfolding slice_window [OF q(1,2), symmetric] .
    have IH: "sve_uri_loop vl buf (pos + vl) end e = uri_spec q co' (slice buf q end)"
      if "e = (case co' of None \<Rightarrow> end | Some k \<Rightarrow> k)" "\<forall>k. co' = Some k \<longrightarrow> k < q" for e co'
    proof (cases "pos + vl \<le> end")
      case True
      then show ?thesis using less(1) [of "pos + vl" e co'] vl that \<open>pos < end\<close> by (simp add: q_def)
    next
      case False
      then show ?thesis using that(1) by (subst sve_uri_loop.simps) (simp add: q_def split: option.split)
    qed
    have cl: "?uw = (None, ce)"
      if "\<not> list_ex (\<lambda>b. (b = SP \<or> sve_uri_bad b) \<or> (b = 0x3F \<or> b = 0x23)) (window vl buf pos end)"
    proof (rule uri_window_clean)
      show "\<forall>i \<in> set [pos..<q]. \<not> ((buf ! i = SP \<or> sve_uri_bad (buf ! i)) \<or> buf ! i = 0x3F \<or> buf ! i = 0x23)"
        using that True len q unfolding window_slice [OF True len] q_def [symmetric] list_ex_iff set_slice [OF q(3)]
        by auto
    qed
    have "sve_uri_loop vl buf pos end ce =
        (case (if list_ex (\<lambda>b. (b = SP \<or> sve_uri_bad b) \<or> (b = 0x3F \<or> b = 0x23)) (window vl buf pos end)
               then ?uw else (None, ce)) of
           (Some r, _) \<Rightarrow> r | (None, e) \<Rightarrow> sve_uri_loop vl buf (pos + vl) end e)"
      using True vl
      by (subst sve_uri_loop.simps) (simp add: Let_def scan_end_min [OF True] flip: q_def)
    also have "(if list_ex (\<lambda>b. (b = SP \<or> sve_uri_bad b) \<or> (b = 0x3F \<or> b = 0x23)) (window vl buf pos end)
               then ?uw else (None, ce)) = ?uw" using cl by simp
    finally show ?thesis using win IH by (cases ?uw; cases "fst ?uw") auto
  next
    case False
    then show ?thesis using less.prems by (subst sve_uri_loop.simps) (simp split: option.split)
  qed
qed

lemma sve_fhe_spec:
  assumes vl: "0 < vl" and len: "len \<le> length buf"
  shows "first_hit buf len pos (sve_fhe_loop vl buf len pos)"
proof (induction "len - pos" arbitrary: pos rule: less_induct)
  case less
  show ?case
  proof (cases "pos < len")
    case True
    let ?n = "if len - pos < vl then len - pos else vl"
    let ?f = "find (\<lambda>i. hit buf len (pos + i)) [0..<?n]"
    have IH: "first_hit buf len (pos + vl) (sve_fhe_loop vl buf len (pos + vl))" using less True vl by simp
    have skip: "first_hit buf len pos (sve_fhe_loop vl buf len (pos + vl))"
      if "\<forall>i < ?n. \<not> hit buf len (pos + i)"
      using that by (intro first_hit_skip [OF _ IH]) (auto simp: hit_def split: if_splits)
    show ?thesis
    proof (cases "list_ex (\<lambda>b. b = CR) (window vl buf pos len)")
      case any: True
      then have eq: "sve_fhe_loop vl buf len pos =
          (case ?f of Some i \<Rightarrow> pos + i + 4 | None \<Rightarrow> sve_fhe_loop vl buf len (pos + vl))"
        using True vl by (subst sve_fhe_loop.simps) (simp add: Let_def hit_def [abs_def] add.assoc)
      show ?thesis
        using find_hit_window [of buf len pos ?n ?f] skip first_hit_found [of buf len pos]
        unfolding eq by (cases ?f) auto
    next
      case False
      have "CR \<notin> set (take ?n (drop pos buf))" using False True by (auto simp: window_def list_ex_iff min_def split: if_splits)
      then have "\<forall>i < ?n. \<not> hit buf len (pos + i)"
        using no_CR_no_hit [of pos ?n buf] True len by auto
      with False True vl skip show ?thesis by (subst sve_fhe_loop.simps) simp
    qed
  next
    case False
    then show ?thesis by (subst sve_fhe_loop.simps) (auto simp: first_hit_def hit_def)
  qed
qed

definition sve_scanner :: "nat \<Rightarrow> scanner" where
  "sve_scanner vl = \<lparr>sc_find_header_end = sve_find_header_end vl,
     sc_header_value = sve_scan_header_value vl, sc_uri = sve_scan_uri vl,
     sc_header_name = sve_scan_header_name vl\<rparr>"

lemma sve_byte_scanner: "0 < vl \<Longrightarrow> byte_scanner (sve_scanner vl)"
  by unfold_locales
    (simp_all add: sve_scanner_def sve_find_header_end_def sve_scan_uri_def start_minus
      sve_value_spec sve_uri_spec sve_name_spec find_header_end_lawI sve_fhe_spec)

interpretation sve: byte_scanner "sve_scanner (16 * Suc n)" for n
  by (rule sve_byte_scanner) simp

section \<open>The build's choice\<close>

text \<open>
  One of the implementations is linked in; an SVE vector has a multiple of 128 bits.
\<close>

datatype simd_backend = Scalar | SSE2 | AVX2 | AVX512 | NEON | SVE nat

definition backend_scanner :: "simd_backend \<Rightarrow> scanner" where
  "backend_scanner b = (case b of
     Scalar \<Rightarrow> scalar_scanner | SSE2 \<Rightarrow> sse2_scanner | AVX2 \<Rightarrow> avx2_scanner
   | AVX512 \<Rightarrow> avx512_scanner | NEON \<Rightarrow> neon_scanner | SVE n \<Rightarrow> sve_scanner (16 * Suc n))"

interpretation backend: byte_scanner "backend_scanner b" for b
  unfolding backend_scanner_def
  by (cases b) (simp_all add: scalar.byte_scanner_axioms sse2.byte_scanner_axioms
      avx2.byte_scanner_axioms avx512.byte_scanner_axioms neon.byte_scanner_axioms sve_byte_scanner)

text \<open>
  C14: every vector implementation of the scanners computes what the portable one does, on
  every buffer and every range inside it: the end of the header block, the end of a header
  value, the end of the request target with the end of its canonical part, and the end of
  a header name, invalid bytes included.
\<close>

theorem scanners_agree:
  assumes "pos \<le> end" "end \<le> length buf"
  shows "sc_find_header_end (backend_scanner b) buf end from = find_header_end buf end from
       \<and> sc_header_value (backend_scanner b) buf pos end = scan_header_value buf pos end
       \<and> sc_uri (backend_scanner b) buf pos end = scan_uri buf pos end
       \<and> sc_header_name (backend_scanner b) buf pos end = scan_header_name buf pos end"
  using assms scalar.find_header_end_law [of "end" buf "from"]
    backend.find_header_end_law [of "end" buf b "from"]
  by (simp add: backend.header_value_law backend.uri_law backend.header_name_law
      scan_header_value_spec scan_uri_spec scan_header_name_spec scalar_scanner_def)

theorem scanners_agree_witness:
  "sc_header_name (backend_scanner AVX2) (ascii ''Host: a'') 0 7 = Some 4"
proof -
  have "scan_header_name (ascii ''Host: a'') 0 7 = Some 4" by code_simp
  then show ?thesis using scanners_agree [of 0 7 "ascii ''Host: a''" AVX2 0] by (simp add: ascii_def)
qed

end
