(* ===== verification/Http_Messages.thy ===== *)
theory Http_Messages
  imports Http_Request_Line Simd_Arm
begin

text \<open>
  The two parsers as a whole: which bytes they accept, that what they return lies inside
  the buffer, that their verdict is independent of the bytes that follow, that the end of
  the headers they report is the first empty line, and that a request that is printed is
  parsed back.
\<close>

section \<open>The request line under more bytes\<close>

text \<open>Every buffer falls into one of the five cases.\<close>

lemma request_line_cases:
  obtains (unknown) "fst (parse_method_direct buf (length buf) 0) = UnknownMethod"
    | (bad) m xs where "m \<noteq> UnknownMethod" "buf = method_bytes m @ xs"
        "uri_spec (length (method_bytes m)) None xs = None"
    | (no_space) m xs where "m \<noteq> UnknownMethod" "buf = method_bytes m @ xs" "list_all uri_ok xs"
    | (empty) m r where "m \<noteq> UnknownMethod" "buf = method_bytes m @ SP # r"
    | (line) m u r where "m \<noteq> UnknownMethod" "u \<noteq> []" "list_all uri_ok u" "buf = method_bytes m @ u @ SP # r"
proof (cases "fst (parse_method_direct buf (length buf) 0) = UnknownMethod")
  case True
  then show ?thesis by (rule unknown)
next
  case False
  then obtain m xs where m: "m \<noteq> UnknownMethod" "buf = method_bytes m @ xs"
    unfolding parse_method_unknown by (auto simp: prefix_def)
  show ?thesis
  proof (cases "uri_spec (length (method_bytes m)) None xs")
    case None
    show ?thesis by (rule bad [OF m None])
  next
    case (Some ke)
    then obtain k e where "uri_spec (length (method_bytes m)) None xs = Some (k, e)" by (cases ke) auto
    then show ?thesis
    proof (cases rule: uri_spec_SomeE)
      case end_of_input
      show ?thesis by (rule no_space [OF m end_of_input(1)])
    next
      case (sp u rest)
      have eq: "buf = method_bytes m @ u @ SP # rest" unfolding m(2) sp(1) by simp
      show ?thesis
      proof (cases "u = []")
        case True
        show ?thesis by (rule empty [OF m(1), of rest]) (simp add: eq True)
      next
        case False
        show ?thesis by (rule line [OF m(1) False sp(2) eq])
      qed
    qed
  qed
qed

context byte_scanner
begin

lemma request_line_compute:
  assumes "line_shape buf m u v rest"
  shows "parse_request_line S buf =
     Inr (length (method_bytes m) + length u + 11, line_request m u v)"
proof -
  let ?r = "version_bytes v @ CR # LF # rest"
  have a: "m \<noteq> UnknownMethod" "u \<noteq> []" "list_all uri_ok u" "buf = method_bytes m @ u @ SP # ?r"
    and v: "v \<noteq> UnknownVersion" using assms by (auto simp: line_shape_def)
  have "length (version_bytes v) = 8" by (rule length_version_bytes [OF v])
  then have "take 8 ?r = version_bytes v" "take 2 (drop 8 ?r) = [CR, LF]" "\<not> length ?r < 10" by simp_all
  moreover have "ascii ''HTTP/1.0'' \<noteq> ascii ''HTTP/1.1''" by (simp add: ascii_def)
  ultimately show ?thesis
    using v request_line_eq [OF a] by (cases v) (simp_all add: Let_def version_bytes_def)
qed

lemma request_line_Inr_shape:
  assumes "parse_request_line S buf = Inr (pos, req)"
  obtains m u v rest where "line_shape buf m u v rest" "pos = length (method_bytes m) + length u + 11"
    "req = line_request m u v"
proof (cases rule: request_line_cases [of buf])
  case unknown
  with request_line_unknown [OF unknown] assms show ?thesis by auto
next
  case bad
  with request_line_bad_uri [OF bad] assms show ?thesis by auto
next
  case no_space
  with request_line_no_space [OF no_space] assms show ?thesis by auto
next
  case empty
  with request_line_empty_uri [OF empty] assms show ?thesis by auto
next
  case (line m u r)
  note eq = request_line_eq [OF line, unfolded assms]
  have r: "\<not> length r < 10" "take 2 (drop 8 r) = [CR, LF]"
    using eq by (auto simp: Let_def split: if_splits)
  obtain v where v: "v \<noteq> UnknownVersion" "take 8 r = version_bytes v" "req = line_request m u v"
    and pos: "pos = length (method_bytes m) + length u + 11"
    using eq by (auto simp: Let_def version_bytes_def split: if_splits
        intro: that [of Http11] that [of Http10])
  have "r = take 8 r @ take 2 (drop 8 r) @ drop 10 r"
    by (metis append_assoc append_take_drop_id drop_drop numeral_plus_numeral semiring_norm(2,3,5,6,7) add.commute)
  then have "r = version_bytes v @ CR # LF # drop 10 r" using r v(2) by simp
  then have "line_shape buf m u v (drop 10 r)" using line v(1) by (simp add: line_shape_def)
  then show ?thesis using that pos v(3) by blast
qed

lemma maybe_incomplete_iff: "maybe_incomplete S buf = PError \<longleftrightarrow> (\<exists>i. hit buf (length buf) i)"
proof -
  have "first_hit buf (length buf) 0 (hdr_end_spec 0 buf)"
    using first_hit_spec [of "length buf" buf 0] by (simp add: slice_full)
  then have "0 < hdr_end_spec 0 buf \<longleftrightarrow> (\<exists>i. hit buf (length buf) i)"
    by (auto simp: first_hit_def)
  then show ?thesis by (simp add: maybe_incomplete_def find_header_end_full)
qed

lemma maybe_incomplete_cases: "maybe_incomplete S buf = PError \<or> maybe_incomplete S buf = PIncomplete"
  by (simp add: maybe_incomplete_def)

lemma maybe_incomplete_append:
  "maybe_incomplete S buf = PError \<Longrightarrow> maybe_incomplete S (buf @ ys) = PError"
  unfolding maybe_incomplete_iff using hit_append by blast

lemma request_line_Error_append:
  assumes "parse_request_line S buf = Inl (PError, req)"
  shows "\<exists>req'. parse_request_line S (buf @ ys) = Inl (PError, req')"
proof (cases rule: request_line_cases [of buf])
  case unknown
  then have h: "maybe_incomplete S buf = PError" using request_line_unknown [OF unknown] assms by auto
  then obtain i where i: "hit buf (length buf) i" unfolding maybe_incomplete_iff by blast
  have "fst (parse_method_direct (buf @ ys) (length (buf @ ys)) 0) = UnknownMethod"
    unfolding parse_method_unknown
  proof (intro allI impI notI)
    fix m assume m: "m \<noteq> UnknownMethod" "prefix (method_bytes m) (buf @ ys)"
    then have "\<not> prefix (method_bytes m) buf" using unknown unfolding parse_method_unknown by blast
    then have "prefix buf (method_bytes m)"
      using m(2) prefix_same_cases [of buf "buf @ ys" "method_bytes m"] by auto
    then have "set buf \<subseteq> set (method_bytes m)" by (auto simp: prefix_def)
    moreover have "CR \<in> set buf" using i nth_mem [of i buf] by (auto simp: hit_def)
    ultimately show False using CR_notin_method_bytes [OF m(1)] by blast
  qed
  from request_line_unknown [OF this] maybe_incomplete_append [OF h] show ?thesis by simp
next
  case (bad m xs)
  show ?thesis
    by (rule request_line_bad_uri [OF bad(1), of _ "xs @ ys"])
       (simp_all add: bad(2) uri_spec_None_append [OF bad(3)])
next
  case (no_space m xs)
  have "maybe_incomplete S buf = PError" using request_line_no_space [OF no_space] assms by auto
  then obtain i where "hit buf (length buf) i" unfolding maybe_incomplete_iff by blast
  then have "CR \<in> set buf" using nth_mem [of i buf] by (auto simp: hit_def)
  then have False using no_space CR_notin_method_bytes [OF no_space(1)] by (auto simp: list_all_iff)
  then show ?thesis ..
next
  case (empty m r)
  then show ?thesis by (intro request_line_empty_uri [of m _ "r @ ys"]) simp_all
next
  case (line m u r)
  note eq = request_line_eq [OF line, unfolded assms]
  have buf': "buf @ ys = method_bytes m @ u @ SP # (r @ ys)" using line(4) by simp
  note eq' = request_line_eq [OF line(1-3) buf']
  show ?thesis
  proof (cases "length r < 10")
    case False
    then have "take 2 (drop 8 (r @ ys)) = take 2 (drop 8 r)" "take 8 (r @ ys) = take 8 r" by simp_all
    with False eq show ?thesis unfolding eq' by (auto simp: Let_def split: if_splits)
  next
    case True
    then have h: "maybe_incomplete S buf = PError" using eq by (simp add: Let_def)
    then obtain i where i: "hit buf (length buf) i" unfolding maybe_incomplete_iff by blast
    let ?p = "length (method_bytes m @ u @ [SP])"
    have nocr: "CR \<notin> set (method_bytes m @ u @ [SP])"
      using CR_notin_method_bytes [OF line(1)] line(3) by (auto simp: list_all_iff)
    have bufp: "buf = (method_bytes m @ u @ [SP]) @ r" using line(4) by simp
    have pi: "?p \<le> i"
    proof (rule ccontr)
      assume "\<not> ?p \<le> i"
      then have "buf ! i \<in> set (method_bytes m @ u @ [SP])" unfolding bufp by (metis not_le nth_append nth_mem)
      with i nocr show False by (simp add: hit_def)
    qed
    have j: "i - ?p < 8" "i - ?p < length r" "r ! (i - ?p) = CR"
    proof -
      have "i + 4 \<le> length buf" "buf ! i = CR" using i by (auto simp: hit_def)
      moreover have "buf ! i = r ! (i - ?p)" unfolding bufp using pi by (metis nth_append not_le)
      moreover have "length buf = ?p + length r" unfolding bufp by simp
      ultimately show "i - ?p < 8" "i - ?p < length r" "r ! (i - ?p) = CR" using pi True by simp_all
    qed
    have "take 8 (r @ ys) \<noteq> ascii ''HTTP/1.1''" "take 8 (r @ ys) \<noteq> ascii ''HTTP/1.0''"
    proof -
      have "take 8 (r @ ys) ! (i - ?p) = CR" using j by (simp add: nth_append)
      then have "CR \<in> set (take 8 (r @ ys))" using j nth_mem [of "i - ?p" "take 8 (r @ ys)"] by simp
      moreover have "CR \<notin> set (ascii ''HTTP/1.1'')" "CR \<notin> set (ascii ''HTTP/1.0'')" by (simp_all add: ascii_def)
      ultimately show "take 8 (r @ ys) \<noteq> ascii ''HTTP/1.1''" "take 8 (r @ ys) \<noteq> ascii ''HTTP/1.0''" by metis+
    qed
    then show ?thesis unfolding eq' using maybe_incomplete_append [OF h] by (simp add: Let_def)
  qed
qed

end

section \<open>The header section\<close>

text \<open>
  A header line: the name, the white space after the colon, the value and the white space
  after it.  A value is trimmed, and an empty value carries its white space before it.
\<close>

record field =
  f_name :: bytes
  f_ows :: bytes
  f_value :: bytes
  f_trail :: bytes

definition field_bytes :: "field \<Rightarrow> bytes" where
  "field_bytes f = f_name f @ 0x3A # f_ows f @ f_value f @ f_trail f @ [CR, LF]"

definition field_ok :: "field \<Rightarrow> bool" where
  "field_ok f \<longleftrightarrow>
     f_name f \<noteq> [] \<and> list_all token_ok (f_name f) \<and> list_all is_ows (f_ows f) \<and> list_all is_ows (f_trail f) \<and>
     list_all value_ok (f_value f) \<and> (f_value f = [] \<longrightarrow> f_trail f = []) \<and>
     (f_value f \<noteq> [] \<longrightarrow> \<not> is_ows (hd (f_value f)) \<and> \<not> is_ows (last (f_value f)))"

definition field_header :: "nat \<Rightarrow> field \<Rightarrow> header" where
  "field_header pos f =
     \<lparr>h_name = \<lparr>v_off = pos, v_len = length (f_name f)\<rparr>,
      h_value = \<lparr>v_off = pos + length (f_name f) + 1 + length (f_ows f), v_len = length (f_value f)\<rparr>\<rparr>"

lemma header_shape_field:
  "header_shape pos xs nm o1 v o2 rest h cr \<longleftrightarrow>
     (let f = \<lparr>f_name = nm, f_ows = o1, f_value = v, f_trail = o2\<rparr> in
      field_ok f \<and> xs = field_bytes f @ rest \<and> h = field_header pos f \<and> cr + 2 = pos + length (field_bytes f))"
  by (auto simp: header_shape_def field_ok_def field_bytes_def field_header_def Let_def)

lemma length_field_bytes: "length (field_bytes f) =
   length (f_name f) + length (f_ows f) + length (f_value f) + length (f_trail f) + 3"
  by (simp add: field_bytes_def)

lemma view_bytes_drop:
  "drop pos buf = xs @ ys @ zs \<Longrightarrow> view_bytes buf \<lparr>v_off = pos + length xs, v_len = length ys\<rparr> = ys"
  using drop_append_eq [of pos buf xs "ys @ zs"] by (simp add: view_bytes_def)

lemma field_views:
  assumes "drop pos buf = field_bytes f @ rest"
  shows "view_bytes buf (h_name (field_header pos f)) = f_name f"
    "view_bytes buf (h_value (field_header pos f)) = f_value f"
  using assms view_bytes_drop [of pos buf "[]" "f_name f"]
    view_bytes_drop [of pos buf "f_name f @ 0x3A # f_ows f" "f_value f"]
  by (simp_all add: field_bytes_def field_header_def add.assoc)

context byte_scanner
begin

lemma header_line_field:
  assumes "field_ok f" "drop pos buf = field_bytes f @ rest"
  shows "header_line S buf pos = LineHeader (field_header pos f) (pos + length (field_bytes f) - 2)"
proof -
  have "header_shape pos (drop pos buf) (f_name f) (f_ows f) (f_value f) (f_trail f) rest
      (field_header pos f) (pos + length (field_bytes f) - 2)"
    unfolding header_shape_field using assms by (cases f) (simp add: Let_def length_field_bytes)
  then show ?thesis by (rule header_line_compute)
qed

lemma header_line_fieldE:
  assumes "header_line S buf pos = LineHeader h cr"
  obtains f rest where "field_ok f" "drop pos buf = field_bytes f @ rest" "h = field_header pos f"
    "cr + 2 = pos + length (field_bytes f)"
  using header_line_HeaderD [OF assms] unfolding header_shape_field Let_def by metis

lemma header_line_End: "header_line S buf pos = LineEnd e \<longleftrightarrow> e = pos + 2 \<and> (\<exists>rest. drop pos buf = CR # LF # rest)"
proof
  assume "header_line S buf pos = LineEnd e"
  then have "pos + 2 \<le> length buf" "buf ! pos = CR" "buf ! (pos + 1) = LF" "e = pos + 2"
    by (auto simp: header_line_def Let_def split: if_splits option.splits)
  moreover from this have "drop pos buf = CR # LF # drop (pos + 2) buf"
    by (simp add: Cons_nth_drop_Suc [symmetric])
  ultimately show "e = pos + 2 \<and> (\<exists>rest. drop pos buf = CR # LF # rest)" by blast
next
  assume "e = pos + 2 \<and> (\<exists>rest. drop pos buf = CR # LF # rest)"
  then obtain rest where e: "e = pos + 2" "drop pos buf = CR # LF # rest" by blast
  from drop_Cons_nth [OF e(2)] have a: "pos < length buf" "buf ! pos = CR" "drop (Suc pos) buf = LF # rest" by auto
  from drop_Cons_nth [OF a(3)] have "Suc pos < length buf" "buf ! Suc pos = LF" by auto
  with a(2) e(1) show "header_line S buf pos = LineEnd e" by (simp add: header_line_def Let_def)
qed

end

text \<open>The positions between lines, and the first empty line.\<close>

definition clean :: "bytes \<Rightarrow> nat \<Rightarrow> bool" where
  "clean buf pos \<longleftrightarrow> 2 \<le> pos \<and> pos \<le> length buf \<and> buf ! (pos - 2) = CR \<and> buf ! (pos - 1) = LF \<and>
     (\<forall>i. hit buf (length buf) i \<longrightarrow> pos \<le> i + 2)"

lemma clean_hit_after: "clean buf pos \<Longrightarrow> hit buf (length buf) i \<Longrightarrow> buf ! pos \<noteq> CR \<Longrightarrow> pos \<le> i"
proof -
  assume c: "clean buf pos" and h: "hit buf (length buf) i" and n: "buf ! pos \<noteq> CR"
  then have "pos \<le> i + 2" by (auto simp: clean_def)
  moreover have "pos \<noteq> i + 2" using h n by (auto simp: hit_def)
  moreover have "pos \<noteq> i + 1" using h c by (auto simp: hit_def clean_def)
  ultimately show "pos \<le> i" by linarith
qed

lemma field_no_CR:
  assumes "field_ok f" "drop pos buf = field_bytes f @ rest" "pos \<le> i" "i + 2 < pos + length (field_bytes f)"
  shows "buf ! i \<noteq> CR"
proof -
  have "field_bytes f = (f_name f @ 0x3A # f_ows f @ f_value f @ f_trail f) @ [CR, LF]"
    by (simp add: field_bytes_def)
  moreover have i: "i - pos < length (f_name f @ 0x3A # f_ows f @ f_value f @ f_trail f)"
    using assms(3,4) by (simp add: field_bytes_def)
  ultimately have "buf ! (pos + (i - pos)) = (f_name f @ 0x3A # f_ows f @ f_value f @ f_trail f) ! (i - pos)"
    by (intro drop_nth_append [where ys = "[CR, LF] @ rest"]) (simp_all add: assms(2))
  then have "buf ! i \<in> set (f_name f @ 0x3A # f_ows f @ f_value f @ f_trail f)"
    using assms(3) nth_mem [OF i] by simp
  moreover have "CR \<notin> set (f_name f @ 0x3A # f_ows f @ f_value f @ f_trail f)"
    using assms(1) by (auto simp: field_ok_def list_all_iff is_ows_def)
  ultimately show ?thesis by metis
qed

lemma clean_field:
  assumes c: "clean buf pos" and f: "field_ok f" "drop pos buf = field_bytes f @ rest"
  shows "clean buf (pos + length (field_bytes f))"
proof -
  let ?n = "length (field_bytes f)"
  have n: "3 \<le> ?n" by (simp add: length_field_bytes)
  have "length (drop pos buf) = ?n + length rest" by (simp add: f(2))
  then have l: "pos + ?n \<le> length buf" using n by simp
  have fb: "field_bytes f = (f_name f @ 0x3A # f_ows f @ f_value f @ f_trail f) @ [CR, LF]"
    by (simp add: field_bytes_def)
  have e: "buf ! (pos + (?n - 2)) = CR" "buf ! (pos + (?n - 1)) = LF"
    using n drop_nth_append [OF f(2), of "?n - 2"] drop_nth_append [OF f(2), of "?n - 1"]
    by (simp_all add: fb nth_append)
  have ncr: "buf ! pos \<noteq> CR" using field_no_CR [OF f, of pos] n by (auto simp: length_field_bytes)
  have "pos + ?n \<le> i + 2" if h: "hit buf (length buf) i" for i
  proof (rule ccontr)
    assume "\<not> pos + ?n \<le> i + 2"
    then have "buf ! i \<noteq> CR" using field_no_CR [OF f] clean_hit_after [OF c h ncr] by simp
    with h show False by (simp add: hit_def)
  qed
  with l e n c show ?thesis by (simp add: clean_def)
qed

lemma clean_first_hit: "clean buf pos \<Longrightarrow> drop pos buf = CR # LF # rest \<Longrightarrow> hdr_end_spec 0 buf = pos + 2"
proof -
  assume c: "clean buf pos" and d: "drop pos buf = CR # LF # rest"
  from drop_Cons_nth [OF d] have a: "buf ! pos = CR" "drop (Suc pos) buf = LF # rest" by auto
  from drop_Cons_nth [OF a(2)] have b: "Suc pos < length buf" "buf ! Suc pos = LF" by auto
  have h: "hit buf (length buf) (pos - 2)"
  proof -
    obtain q where q: "pos = q + 2" using c by (metis clean_def le_add_diff_inverse2)
    show ?thesis using c a b unfolding q by (simp add: hit_def clean_def numeral_3_eq_3)
  qed
  have first: "first_hit buf (length buf) 0 (hdr_end_spec 0 buf)"
    using first_hit_spec [of "length buf" buf 0] by (simp add: slice_full)
  then obtain k where k: "hdr_end_spec 0 buf = k + 4" "hit buf (length buf) k" "\<forall>j. j < k \<longrightarrow> \<not> hit buf (length buf) j"
    using h by (auto simp: first_hit_def)
  have "pos \<le> k + 2" using c k(2) by (auto simp: clean_def)
  moreover have "k \<le> pos - 2" using h k(3) by (meson not_le)
  moreover have "2 \<le> pos" using c by (simp add: clean_def)
  ultimately show ?thesis using k(1) by linarith
qed

text \<open>What the loop does with a sequence of header lines.\<close>

fun run_fields :: "nat \<Rightarrow> header list \<Rightarrow> parsed_request \<Rightarrow> field list \<Rightarrow> (header list \<times> parsed_request) option" where
  "run_fields pos hdrs req [] = Some (hdrs, req)"
| "run_fields pos hdrs req (f # fs) =
     (if kMaxHeaders \<le> length hdrs then None
      else case apply_semantic_header (f_name f) (f_value f) req of
        (PError, _) \<Rightarrow> None
      | (_, req') \<Rightarrow> run_fields (pos + length (field_bytes f)) (hdrs @ [field_header pos f]) req' fs)"

definition fields_bytes :: "field list \<Rightarrow> bytes" where
  "fields_bytes fs = concat (map field_bytes fs)"

context byte_scanner
begin

lemma request_headers_field:
  assumes "field_ok f" "drop pos buf = field_bytes f @ rest"
  shows "request_headers S buf pos hdrs req =
     (if kMaxHeaders \<le> length hdrs then req_ret PError 0 req
      else case apply_semantic_header (f_name f) (f_value f) req of
        (PError, req') \<Rightarrow> req_ret PError 0 req'
      | (_, req') \<Rightarrow> request_headers S buf (pos + length (field_bytes f)) (hdrs @ [field_header pos f]) req')"
proof -
  let ?cr = "pos + length (field_bytes f) - 2"
  have "f_name f \<noteq> []" using assms(1) by (simp add: field_ok_def)
  then have n: "4 \<le> length (field_bytes f)" by (cases "f_name f") (simp_all add: length_field_bytes)
  have "length (drop pos buf) = length (field_bytes f) + length rest" by (simp add: assms(2))
  then have cr: "pos < ?cr \<and> ?cr < length buf" "?cr + 2 = pos + length (field_bytes f)" using n by auto
  show ?thesis
    unfolding request_headers.simps [of S buf pos hdrs req] header_line_field [OF assms] line_result.case
      field_views [OF assms(2)] if_P [OF cr(1)] cr(2) ..
qed

lemma request_headers_complete:
  assumes "drop pos buf = fields_bytes fs @ CR # LF # rest" "list_all field_ok fs"
    "run_fields pos hdrs req fs = Some (hdrs', req')" "\<not> (rq_chunked req' \<and> rq_has_content_length req')"
  shows "request_headers S buf pos hdrs req =
     req_ret PComplete (pos + length (fields_bytes fs) + 2) (req'\<lparr>rq_headers := hdrs'\<rparr>)"
  using assms
proof (induction fs arbitrary: pos hdrs req)
  case Nil
  then have "header_line S buf pos = LineEnd (pos + 2)" by (simp add: header_line_End fields_bytes_def)
  with Nil show ?case by (subst request_headers.simps) (simp add: fields_bytes_def Let_def)
next
  case (Cons f fs)
  have d: "drop pos buf = field_bytes f @ (fields_bytes fs @ CR # LF # rest)"
    using Cons.prems(1) by (simp add: fields_bytes_def)
  have f: "field_ok f" "list_all field_ok fs" using Cons.prems(2) by simp_all
  obtain st req1 where a: "apply_semantic_header (f_name f) (f_value f) req = (st, req1)" by fastforce
  have r: "\<not> kMaxHeaders \<le> length hdrs" "st \<noteq> PError"
    "run_fields (pos + length (field_bytes f)) (hdrs @ [field_header pos f]) req1 fs = Some (hdrs', req')"
    using Cons.prems(3) a by (auto split: if_splits parse_status.splits)
  from r(2) show ?case
    unfolding request_headers_field [OF f(1) d] a prod.case if_not_P [OF r(1)]
    using Cons.IH [OF drop_append_eq [OF d] f(2) r(3) Cons.prems(4)]
    by (cases st) (simp_all add: fields_bytes_def)
qed

lemma request_headers_sound:
  assumes "request_headers S buf pos hdrs req = req_ret PComplete e q"
  shows "\<exists>fs rest hdrs' req'. drop pos buf = fields_bytes fs @ CR # LF # rest \<and> list_all field_ok fs \<and>
     run_fields pos hdrs req fs = Some (hdrs', req') \<and> \<not> (rq_chunked req' \<and> rq_has_content_length req') \<and>
     e = pos + length (fields_bytes fs) + 2 \<and> q = req'\<lparr>rq_headers := hdrs'\<rparr>"
  using assms
proof (induction "length buf - pos" arbitrary: pos hdrs req rule: less_induct)
  case less
  show ?case
  proof (cases "header_line S buf pos")
    case (LineEnd p)
    from LineEnd obtain rest where p: "p = pos + 2" "drop pos buf = CR # LF # rest"
      unfolding header_line_End by blast
    have "request_headers S buf pos hdrs req =
        (if rq_chunked req \<and> rq_has_content_length req then req_ret PError p (req\<lparr>rq_headers := hdrs\<rparr>)
         else req_ret PComplete p (req\<lparr>rq_headers := hdrs\<rparr>))"
      by (subst request_headers.simps) (simp add: LineEnd Let_def)
    with less.prems p show ?thesis
      by (intro exI [of _ "[]"] exI [of _ rest] exI [of _ hdrs] exI [of _ req])
         (auto simp: fields_bytes_def split: if_splits)
  next
    case (LineHeader h cr)
    then obtain f rest where f: "field_ok f" "drop pos buf = field_bytes f @ rest" by (rule header_line_fieldE)
    let ?n = "length (field_bytes f)"
    obtain st req1 where a: "apply_semantic_header (f_name f) (f_value f) req = (st, req1)" by fastforce
    note eq = request_headers_field [OF f, of hdrs req, unfolded a prod.case less.prems]
    have r: "\<not> kMaxHeaders \<le> length hdrs" "st \<noteq> PError"
      "request_headers S buf (pos + ?n) (hdrs @ [field_header pos f]) req1 = req_ret PComplete e q"
      using eq by (auto split: if_splits parse_status.splits)
    have "length buf - pos = ?n + length rest" "0 < ?n"
      using arg_cong [OF f(2), of length] by (simp_all add: length_field_bytes)
    then have "length buf - (pos + ?n) < length buf - pos" by linarith
    from less.hyps [OF this r(3)] obtain fs rest' hdrs' req' where
      fs: "drop (pos + ?n) buf = fields_bytes fs @ CR # LF # rest'" "list_all field_ok fs"
        "run_fields (pos + ?n) (hdrs @ [field_header pos f]) req1 fs = Some (hdrs', req')"
        "\<not> (rq_chunked req' \<and> rq_has_content_length req')" "e = pos + ?n + length (fields_bytes fs) + 2"
        "q = req'\<lparr>rq_headers := hdrs'\<rparr>" by blast
    have "rest = fields_bytes fs @ CR # LF # rest'" using fs(1) drop_append_eq [OF f(2)] by simp
    then have "drop pos buf = fields_bytes (f # fs) @ CR # LF # rest'" using f(2) by (simp add: fields_bytes_def)
    moreover have "run_fields pos hdrs req (f # fs) = Some (hdrs', req')"
      using r fs(3) a by (auto split: parse_status.splits)
    moreover have "e = pos + length (fields_bytes (f # fs)) + 2" using fs(5) by (simp add: fields_bytes_def)
    ultimately show ?thesis using f(1) fs(2,4,6)
      by (intro exI [of _ "f # fs"] exI [of _ rest'] exI [of _ hdrs'] exI [of _ req']) simp
  qed (use less.prems in \<open>simp_all add: request_headers.simps [of S buf pos] maybe_incomplete_def split: if_splits\<close>)
qed

end

lemma clean_line:
  assumes "line_shape buf m u v rest"
  shows "clean buf (length (method_bytes m) + length u + 11)"
    "drop (length (method_bytes m) + length u + 11) buf = rest"
proof -
  let ?l = "method_bytes m @ u @ SP # version_bytes v"
  have v: "length (version_bytes v) = 8" using assms by (simp add: line_shape_def length_version_bytes)
  have buf: "buf = ?l @ CR # LF # rest" using assms by (simp add: line_shape_def)
  have l: "length (method_bytes m) + length u + 11 = length ?l + 2" by (simp add: v)
  have "drop (length ?l + length [CR, LF]) (?l @ [CR, LF] @ rest) = rest"
    by (metis append_assoc append_eq_conv_conj length_append)
  then show "drop (length (method_bytes m) + length u + 11) buf = rest"
    unfolding l using buf by simp
  have ncr: "CR \<notin> set ?l"
    using assms CR_notin_method_bytes [of m]
    by (cases v) (auto simp: line_shape_def list_all_iff version_bytes_def ascii_def)
  have "length ?l \<le> i" if h: "hit buf (length buf) i" for i
  proof (rule ccontr)
    assume "\<not> length ?l \<le> i"
    then have "buf ! i = ?l ! i" "i < length ?l" unfolding buf by (simp_all only: nth_append not_le if_True)
    then have "buf ! i \<in> set ?l" by (metis nth_mem)
    with h ncr show False by (simp add: hit_def)
  qed
  then have "clean (?l @ CR # LF # rest) (length ?l + 2)" unfolding buf clean_def
    by (simp only: nth_append) simp
  then show "clean buf (length (method_bytes m) + length u + 11)" unfolding l buf .
qed

text \<open>A request as the bytes of its parts.\<close>

definition request_bytes :: "http_method \<Rightarrow> bytes \<Rightarrow> http_version \<Rightarrow> field list \<Rightarrow> bytes" where
  "request_bytes m u v fs =
     method_bytes m @ u @ [SP] @ version_bytes v @ [CR, LF] @ fields_bytes fs @ [CR, LF]"

definition request_ok :: "http_method \<Rightarrow> bytes \<Rightarrow> http_version \<Rightarrow> field list \<Rightarrow> bool" where
  "request_ok m u v fs \<longleftrightarrow> m \<noteq> UnknownMethod \<and> u \<noteq> [] \<and> list_all uri_ok u \<and> v \<noteq> UnknownVersion \<and>
     list_all field_ok fs"

definition request_value :: "http_method \<Rightarrow> bytes \<Rightarrow> http_version \<Rightarrow> field list \<Rightarrow> parsed_request option" where
  "request_value m u v fs =
     (case run_fields (length (method_bytes m) + length u + 11) [] (line_request m u v) fs of
        None \<Rightarrow> None
      | Some (hdrs, req) \<Rightarrow>
          if rq_chunked req \<and> rq_has_content_length req then None else Some (req\<lparr>rq_headers := hdrs\<rparr>))"

lemma request_shape:
  "request_ok m u v fs \<Longrightarrow> line_shape (request_bytes m u v fs @ rest) m u v (fields_bytes fs @ CR # LF # rest)"
  by (simp add: request_ok_def line_shape_def request_bytes_def)

lemma length_request_bytes:
  "v \<noteq> UnknownVersion \<Longrightarrow>
     length (request_bytes m u v fs) = length (method_bytes m) + length u + 11 + length (fields_bytes fs) + 2"
  by (simp add: request_bytes_def length_version_bytes)

context byte_scanner
begin

lemma parse_request_complete:
  assumes "request_ok m u v fs" "request_value m u v fs = Some q"
  shows "parse_request S (request_bytes m u v fs @ rest) req0 =
     req_ret PComplete (length (request_bytes m u v fs)) q"
proof -
  let ?buf = "request_bytes m u v fs @ rest"
  note sh = request_shape [OF assms(1), of rest]
  have v: "v \<noteq> UnknownVersion" "list_all field_ok fs" using assms(1) by (auto simp: request_ok_def)
  obtain hdrs req where r: "run_fields (length (method_bytes m) + length u + 11) [] (line_request m u v) fs = Some (hdrs, req)"
    "\<not> (rq_chunked req \<and> rq_has_content_length req)" "q = req\<lparr>rq_headers := hdrs\<rparr>"
    using assms(2) by (auto simp: request_value_def split: option.splits if_splits)
  have len: "\<not> length ?buf < 4" using length_request_bytes [OF v(1)] by simp
  show ?thesis
    unfolding parse_request_def if_not_P [OF len] request_line_compute [OF sh] sum.case prod.case
      request_headers_complete [OF clean_line(2) [OF sh] v(2) r(1,2)] length_request_bytes [OF v(1)] r(3) ..
qed

lemma parse_request_sound:
  assumes "parse_request S buf req0 = req_ret PComplete e q"
  shows "\<exists>m u v fs rest. buf = request_bytes m u v fs @ rest \<and> request_ok m u v fs \<and>
     request_value m u v fs = Some q \<and> e = length (request_bytes m u v fs)"
proof -
  obtain pos req where l: "parse_request_line S buf = Inr (pos, req)" "request_headers S buf pos [] req = req_ret PComplete e q"
  proof (cases "parse_request_line S buf")
    case (Inl p)
    obtain st r where p: "p = (st, r)" by (cases p)
    with Inl assms have "st = PComplete" by (auto simp: parse_request_def split: if_splits)
    moreover have "fst p \<noteq> PComplete" if "parse_request_line S buf = Inl p" for p
    proof (cases rule: request_line_cases [of buf])
      case unknown
      from request_line_unknown [OF unknown] that maybe_incomplete_cases [of buf] show ?thesis by auto
    next
      case bad
      from request_line_bad_uri [OF bad] that show ?thesis by auto
    next
      case no_space
      from request_line_no_space [OF no_space] that maybe_incomplete_cases [of buf] show ?thesis by auto
    next
      case empty
      from request_line_empty_uri [OF empty] that show ?thesis by auto
    next
      case line
      from request_line_eq [OF line] that maybe_incomplete_cases [of buf] show ?thesis
        by (auto simp: Let_def split: if_splits)
    qed
    ultimately show ?thesis using Inl p by fastforce
  next
    case (Inr p)
    obtain pos req where "p = (pos, req)" by (cases p)
    with Inr assms show ?thesis by (intro that) (auto simp: parse_request_def split: if_splits)
  qed
  from request_line_Inr_shape [OF l(1)] obtain m u v rest where
    s: "line_shape buf m u v rest" "pos = length (method_bytes m) + length u + 11" "req = line_request m u v" .
  from request_headers_sound [OF l(2)] obtain fs rest' hdrs' req' where
    h: "drop pos buf = fields_bytes fs @ CR # LF # rest'" "list_all field_ok fs"
      "run_fields pos [] req fs = Some (hdrs', req')" "\<not> (rq_chunked req' \<and> rq_has_content_length req')"
      "e = pos + length (fields_bytes fs) + 2" "q = req'\<lparr>rq_headers := hdrs'\<rparr>" by blast
  have rest: "rest = fields_bytes fs @ CR # LF # rest'" using clean_line(2) [OF s(1)] h(1) s(2) by simp
  have ok: "request_ok m u v fs" using s(1) h(2) by (simp add: request_ok_def line_shape_def)
  have "buf = request_bytes m u v fs @ rest'"
    using s(1) by (simp add: line_shape_def request_bytes_def rest)
  moreover have "request_value m u v fs = Some q"
    using h(3,4,6) by (simp add: request_value_def s(2,3))
  moreover have "e = length (request_bytes m u v fs)"
    using h(5) s(2) ok by (simp add: length_request_bytes request_ok_def)
  ultimately show ?thesis using ok by blast
qed

end

lemma clean_fields:
  "clean buf pos \<Longrightarrow> drop pos buf = fields_bytes fs @ rest \<Longrightarrow> list_all field_ok fs \<Longrightarrow>
     clean buf (pos + length (fields_bytes fs))"
proof (induction fs arbitrary: pos)
  case (Cons f fs)
  have d: "drop pos buf = field_bytes f @ fields_bytes fs @ rest"
    using Cons.prems(2) by (simp add: fields_bytes_def)
  have "clean buf (pos + length (field_bytes f))" using Cons.prems d by (intro clean_field [OF _ _ d]) simp_all
  from Cons.IH [OF this drop_append_eq [OF d]] Cons.prems(3) show ?case
    by (simp add: fields_bytes_def add.assoc)
qed (simp add: fields_bytes_def)

lemma request_bytes_hdr_end:
  assumes "request_ok m u v fs"
  shows "hdr_end_spec 0 (request_bytes m u v fs @ rest) = length (request_bytes m u v fs)"
proof -
  let ?pos = "length (method_bytes m) + length u + 11"
  note sh = request_shape [OF assms, of rest]
  note d = clean_line(2) [OF sh]
  have ok: "list_all field_ok fs" "v \<noteq> UnknownVersion" using assms by (auto simp: request_ok_def)
  have "hdr_end_spec 0 (request_bytes m u v fs @ rest) = ?pos + length (fields_bytes fs) + 2"
    by (rule clean_first_hit [OF clean_fields [OF clean_line(1) [OF sh] d ok(1)] drop_append_eq [OF d]])
  then show ?thesis using length_request_bytes [OF ok(2)] by simp
qed

context byte_scanner
begin

lemma request_headers_Error_append:
  assumes "rr_status (request_headers S buf pos hdrs req) = PError" "clean buf pos"
  shows "rr_status (request_headers S (buf @ ys) pos hdrs req) = PError"
  using assms
proof (induction "length buf - pos" arbitrary: pos hdrs req rule: less_induct)
  case less
  note eq = request_headers.simps [of S buf pos hdrs req]
    and eq' = request_headers.simps [of S "buf @ ys" pos hdrs req]
  show ?case
  proof (cases "header_line S buf pos")
    case (LineEnd p)
    then have "header_line S (buf @ ys) pos = LineEnd p" using header_line_append [of buf pos ys] by simp
    with less.prems(1) LineEnd show ?thesis unfolding eq' eq by simp
  next
    case LineError
    then have "header_line S (buf @ ys) pos = LineError" using header_line_append [of buf pos ys] by simp
    then show ?thesis unfolding eq' by simp
  next
    case LineMaybe
    then have m: "maybe_incomplete S buf = PError" using less.prems(1) unfolding eq by simp
    then obtain i where i: "hit buf (length buf) i" unfolding maybe_incomplete_iff by blast
    have "buf ! pos \<noteq> CR" using LineMaybe by (auto simp: header_line_def Let_def split: if_splits)
    from header_line_Maybe_append [OF LineMaybe i clean_hit_after [OF less.prems(2) i this]]
    show ?thesis unfolding eq' by (simp add: maybe_incomplete_append [OF m])
  next
    case LineIncomplete
    with less.prems(1) show ?thesis unfolding eq by simp
  next
    case (LineHeader h cr)
    then obtain f rest where f: "field_ok f" "drop pos buf = field_bytes f @ rest" by (rule header_line_fieldE)
    let ?n = "length (field_bytes f)"
    have l: "length buf - pos = ?n + length rest" "0 < ?n"
      using arg_cong [OF f(2), of length] by (simp_all add: length_field_bytes)
    have f': "drop pos (buf @ ys) = field_bytes f @ (rest @ ys)"
    proof -
      have "pos \<le> length buf" using l by linarith
      then show ?thesis by (simp add: f(2))
    qed
    have lt: "length buf - (pos + ?n) < length buf - pos" using l by linarith
    obtain st req1 where a: "apply_semantic_header (f_name f) (f_value f) req = (st, req1)" by fastforce
    note IH = less.hyps [OF lt _ clean_field [OF less.prems(2) f], of "hdrs @ [field_header pos f]" req1]
    show ?thesis
      using less.prems(1) IH
      unfolding request_headers_field [OF f] request_headers_field [OF f(1) f'] a prod.case
      by (auto split: if_splits parse_status.splits)
  qed
qed

lemma parse_request_Error_append:
  assumes "rr_status (parse_request S buf req0) = PError"
  shows "rr_status (parse_request S (buf @ ys) req0) = PError"
proof -
  have len: "\<not> length buf < 4" using assms by (auto simp: parse_request_def)
  then have len': "\<not> length (buf @ ys) < 4" by simp
  note eq = parse_request_def [of S buf req0, unfolded if_not_P [OF len]]
    and eq' = parse_request_def [of S "buf @ ys" req0, unfolded if_not_P [OF len']]
  show ?thesis
  proof (cases "parse_request_line S buf")
    case (Inl p)
    obtain st r where p: "p = (st, r)" by (cases p)
    with Inl assms have "parse_request_line S buf = Inl (PError, r)" unfolding eq by simp
    from request_line_Error_append [OF this, of ys] obtain req' where
      "parse_request_line S (buf @ ys) = Inl (PError, req')" ..
    then show ?thesis unfolding eq' by simp
  next
    case (Inr p)
    obtain pos req where p: "p = (pos, req)" by (cases p)
    then have h: "rr_status (request_headers S buf pos [] req) = PError" using Inr assms unfolding eq by simp
    from Inr p request_line_Inr_shape obtain m u v rest where
      s: "line_shape buf m u v rest" "pos = length (method_bytes m) + length u + 11" "req = line_request m u v" by blast
    have "line_shape (buf @ ys) m u v (rest @ ys)" using s(1) by (simp add: line_shape_def)
    from request_line_compute [OF this] request_headers_Error_append [OF h] clean_line(1) [OF s(1)]
    show ?thesis unfolding eq' by (simp add: s(2,3))
  qed
qed

end

section \<open>One parser for every scanner\<close>

context byte_scanner
begin

lemma header_line_scalar: "header_line S buf pos = header_line scalar_scanner buf pos"
proof (cases "pos + 2 \<le> length buf \<and> buf ! pos \<noteq> CR")
  case True
  then show ?thesis using header_line_eq [of pos buf] scalar.header_line_eq [of pos buf] by simp
qed (auto simp: header_line_def Let_def)

lemma maybe_incomplete_scalar: "maybe_incomplete S buf = maybe_incomplete scalar_scanner buf"
  by (simp add: maybe_incomplete_def find_header_end_full scalar.find_header_end_full)

lemma request_headers_scalar: "request_headers S buf pos hdrs req = request_headers scalar_scanner buf pos hdrs req"
proof (induction "length buf - pos" arbitrary: pos hdrs req rule: less_induct)
  case less
  note eqs = request_headers.simps [of S buf pos hdrs req] request_headers.simps [of scalar_scanner buf pos hdrs req]
    header_line_scalar maybe_incomplete_scalar
  show ?case
  proof (cases "header_line scalar_scanner buf pos")
    case (LineHeader h cr)
    have "request_headers S buf (cr + 2) hs r = request_headers scalar_scanner buf (cr + 2) hs r"
      if "pos < cr \<and> cr < length buf" for hs r
      using that by (intro less) auto
    then show ?thesis unfolding eqs LineHeader line_result.case Let_def
      by (auto split: prod.split parse_status.split)
  qed (simp_all add: eqs)
qed

lemma response_headers_scalar:
  "response_headers S buf pos hdrs resp = response_headers scalar_scanner buf pos hdrs resp"
proof (induction "length buf - pos" arbitrary: pos hdrs resp rule: less_induct)
  case less
  note eqs = response_headers.simps [of S buf pos hdrs resp] response_headers.simps [of scalar_scanner buf pos hdrs resp]
    header_line_scalar maybe_incomplete_scalar
  show ?case
  proof (cases "header_line scalar_scanner buf pos")
    case (LineHeader h cr)
    have "response_headers S buf (cr + 2) hs r = response_headers scalar_scanner buf (cr + 2) hs r"
      if "pos < cr \<and> cr < length buf" for hs r
      using that by (intro less) auto
    then show ?thesis unfolding eqs LineHeader line_result.case Let_def
      by (auto split: prod.split parse_status.split)
  qed (simp_all add: eqs)
qed

lemma request_line_scalar: "parse_request_line S buf = parse_request_line scalar_scanner buf"
proof -
  obtain m n where p: "parse_method_direct buf (length buf) 0 = (m, n)" by fastforce
  have "sc_uri S buf n (length buf) = sc_uri scalar_scanner buf n (length buf)" if "m \<noteq> UnknownMethod"
    using parse_method_sound [OF p that] uri_full [of n buf] scalar.uri_full [of n buf]
    by (simp add: prefix_iff_nth)
  then show ?thesis
    unfolding parse_request_line_def Let_def p prod.case maybe_incomplete_scalar by simp
qed

lemma parse_request_scalar: "parse_request S buf req0 = parse_request scalar_scanner buf req0"
  unfolding parse_request_def request_line_scalar request_headers_scalar ..

lemma parse_response_scalar: "parse_response S buf resp0 = parse_response scalar_scanner buf resp0"
  unfolding parse_response_def response_headers_scalar ..

end

section \<open>Responses\<close>

text \<open>The status line: stable under more bytes, and free of an empty line.\<close>

lemma load_u64_append: "pos + 8 \<le> length buf \<Longrightarrow> load_u64 (buf @ ys) pos = load_u64 buf pos"
  by (simp add: load_u64_def)

lemma takeWhile_scan_append:
  assumes "r + length (takeWhile P (drop r buf)) + 1 < length buf"
  shows "takeWhile P (drop r (buf @ ys)) = takeWhile P (drop r buf)"
proof -
  have "length (takeWhile P (drop r buf)) < length (drop r buf)" "r \<le> length buf" using assms by auto
  then obtain x where "x \<in> set (drop r buf)" "\<not> P x"
    by (metis nth_length_takeWhile nth_mem)
  with \<open>r \<le> length buf\<close> show ?thesis by (simp add: takeWhile_append1)
qed

text \<open>The version and the code: the verdict on the first twelve bytes.\<close>

definition status_head :: "bytes \<Rightarrow> parsed_response + parsed_response" where
  "status_head b =
     (if load_u64 b 0 AND 0x00FFFFFFFFFFFFFF \<noteq> u64_lit ''HTTP/1.0'' AND 0x00FFFFFFFFFFFFFF then Inl rs_reset
      else if b ! 7 \<noteq> 0x31 \<and> b ! 7 \<noteq> 0x30 then Inl rs_reset
      else
        let resp = rs_reset\<lparr>rs_keep_alive := (b ! 7 = 0x31)\<rparr> in
        if b ! 8 \<noteq> SP then Inl resp
        else
          let d0 = ucast (b ! 9) - 0x30 :: u32; d1 = ucast (b ! 10) - 0x30 :: u32; d2 = ucast (b ! 11) - 0x30 :: u32
          in if d0 > 9 \<or> d1 > 9 \<or> d2 > 9 then Inl resp
             else
               let code = ucast (d0 * 100 + d1 * 10 + d2) :: u16 in
               if code < 100 \<or> code > 599 then Inl resp else Inr (resp\<lparr>rs_status_code := code\<rparr>))"

definition reason_end :: "bytes \<Rightarrow> nat" where
  "reason_end buf = 12 + length (takeWhile (\<lambda>b. b \<noteq> CR) (drop 12 buf))"

lemma case_sum_ifs:
  "(if c1 then Inl (e, a) else if c2 then Inl (e, a) else if c3 then Inl (e, b) else if c4 then Inl (e, b)
    else if c5 then Inl (e, b) else if c6 then Inl (i, r) else if c7 then Inl (i, r)
    else if c8 then Inl (e, r) else Inr (n, r)) =
   (case (if c1 then Inl a else if c2 then Inl a else if c3 then Inl b else if c4 then Inl b
          else if c5 then Inl b else Inr r) of
      Inl r \<Rightarrow> Inl (e, r)
    | Inr r \<Rightarrow> if c6 \<or> c7 then Inl (i, r) else if c8 then Inl (e, r) else Inr (n, r))"
  by simp

lemma status_line_split:
  assumes "12 \<le> length buf"
  shows "parse_status_line buf =
     (case status_head (take 12 buf) of
        Inl r \<Rightarrow> Inl (PError, r)
      | Inr r \<Rightarrow>
          if length buf \<le> 12 \<or> length buf \<le> reason_end buf + 1 then Inl (PIncomplete, r)
          else if buf ! (reason_end buf + 1) \<noteq> LF then Inl (PError, r)
          else Inr (reason_end buf + 2, r))"
proof -
  have n: "take 12 buf ! 7 = buf ! 7" "take 12 buf ! 8 = buf ! 8" "take 12 buf ! 9 = buf ! 9"
    "take 12 buf ! 10 = buf ! 10" "take 12 buf ! 11 = buf ! 11" by simp_all
  have w: "load_u64 (take 12 buf) 0 = load_u64 buf 0" by (simp add: load_u64_def min_def)
  have p: "0 + 10 = (10::nat)" "0 + 7 = (7::nat)" "0 + 8 = (8::nat)" "8 + 1 = (9::nat)" "9 + 1 = (10::nat)"
    "9 + 2 = (11::nat)" "9 + 3 = (12::nat)" "\<not> length buf < 10" "\<not> length buf < 12" using assms by simp_all
  show ?thesis
    unfolding parse_status_line_def status_head_def Let_def n w p(1-7) if_not_P [OF p(8)]
      if_not_P [OF p(9)] reason_end_def
    by (rule case_sum_ifs)
qed

lemma reason_end_append:
  assumes "12 < length buf" "reason_end buf + 1 < length buf"
  shows "reason_end (buf @ ys) = reason_end buf" "(buf @ ys) ! (reason_end buf + 1) = buf ! (reason_end buf + 1)"
proof -
  have "takeWhile (\<lambda>b. b \<noteq> CR) (drop 12 (buf @ ys)) = takeWhile (\<lambda>b. b \<noteq> CR) (drop 12 buf)"
    using assms(2) unfolding reason_end_def by (rule takeWhile_scan_append)
  then show "reason_end (buf @ ys) = reason_end buf" unfolding reason_end_def by (rule arg_cong)
  show "(buf @ ys) ! (reason_end buf + 1) = buf ! (reason_end buf + 1)" using assms(2) by (simp only: nth_append if_True)
qed

lemma status_line_append:
  assumes "12 \<le> length buf" "\<forall>r. parse_status_line buf \<noteq> Inl (PIncomplete, r)"
  shows "parse_status_line (buf @ ys) = parse_status_line buf"
proof -
  have l: "12 \<le> length (buf @ ys)" and t: "take 12 (buf @ ys) = take 12 buf" using assms(1) by simp_all
  note eq = status_line_split [OF assms(1)] and eq' = status_line_split [OF l, unfolded t]
  show ?thesis
  proof (cases "status_head (take 12 buf)")
    case (Inl r)
    then show ?thesis unfolding eq eq' by simp
  next
    case (Inr r)
    have n: "\<not> (length buf \<le> 12 \<or> length buf \<le> reason_end buf + 1)"
    proof
      assume "length buf \<le> 12 \<or> length buf \<le> reason_end buf + 1"
      then have "parse_status_line buf = Inl (PIncomplete, r)" unfolding eq Inr by (simp only: sum.case if_True)
      with assms(2) show False by blast
    qed
    then have re: "12 < length buf" "reason_end buf + 1 < length buf" by auto
    have n': "\<not> (length (buf @ ys) \<le> 12 \<or> length (buf @ ys) \<le> reason_end buf + 1)" using re by auto
    show ?thesis unfolding eq eq' Inr sum.case reason_end_append [OF re] if_not_P [OF n] if_not_P [OF n'] ..
  qed
qed

lemma le_word_and:
  assumes "length xs = length ys"
  shows "(le_word xs AND le_word ys :: 'm::len word) = le_word (map2 (AND) xs ys)"
  using assms by (intro bit_word_eqI) (auto simp: bit_and_iff bit_le_word)

lemma version_mask:
  assumes "12 \<le> length b"
  shows "load_u64 b 0 AND 0x00FFFFFFFFFFFFFF = u64_lit ''HTTP/1.0'' AND 0x00FFFFFFFFFFFFFF \<longleftrightarrow>
     take 7 b = ascii ''HTTP/1.''"
proof -
  let ?m = "replicate 7 0xFF @ [0] :: bytes"
  obtain c0 c1 c2 c3 c4 c5 c6 c7 r where b: "b = c0 # c1 # c2 # c3 # c4 # c5 # c6 # c7 # r"
    using assms by (auto simp: numeral_eq_Suc Suc_le_length_iff)
  have m: "(0x00FFFFFFFFFFFFFF :: u64) = le_word ?m" by code_simp
  have r: "u64_lit ''HTTP/1.0'' AND 0x00FFFFFFFFFFFFFF = le_word (ascii ''HTTP/1.'' @ [0])" by code_simp
  have ff: "x AND 0xFF = x" for x :: u8
  proof -
    have "(0xFF :: u8) = - 1" by simp
    then show ?thesis by (simp only: and.right_neutral)
  qed
  have l: "load_u64 b 0 AND 0x00FFFFFFFFFFFFFF = le_word (take 7 b @ [0])"
    unfolding m load_u64_def by (subst le_word_and) (simp_all add: b ff numeral_eq_Suc)
  show ?thesis unfolding l r by (subst le_word_inject) (simp_all add: b ascii_def)
qed

text \<open>
  The head of a status line: \<open>HTTP/1.0\<close> or \<open>HTTP/1.1\<close>, a space and a three-digit code
  from 100 to 599.
\<close>

definition status_shape :: "bytes \<Rightarrow> bool" where
  "status_shape b \<longleftrightarrow> take 7 b = ascii ''HTTP/1.'' \<and> (b ! 7 = 0x31 \<or> b ! 7 = 0x30) \<and> b ! 8 = SP \<and>
     list_all is_digit (take 3 (drop 9 b)) \<and> 100 \<le> decnum_from 0 (take 3 (drop 9 b)) \<and>
     decnum_from 0 (take 3 (drop 9 b)) \<le> 599"

lemma status_code_unat:
  fixes a b c :: u8
  assumes "is_digit a" "is_digit b" "is_digit c"
  defines "code \<equiv> ucast ((ucast a - 0x30) * 100 + (ucast b - 0x30) * 10 + (ucast c - 0x30) :: u32) :: u16"
  shows "unat code = decnum_from 0 [a, b, c]"
proof -
  let ?w = "(ucast a - 0x30) * 100 + (ucast b - 0x30) * 10 + (ucast c - 0x30) :: u32"
  have d: "unat (ucast a - 0x30 :: u32) = unat a - 48" "unat (ucast b - 0x30 :: u32) = unat b - 48"
    "unat (ucast c - 0x30 :: u32) = unat c - 48"
    using digit_value(2) assms(1-3) by blast+
  have l: "unat a - 48 \<le> 9" "unat b - 48 \<le> 9" "unat c - 48 \<le> 9"
    using assms(1-3) by (auto simp: is_digit_def word_le_nat_alt)
  have "unat ?w = ((unat a - 48) * 100 + (unat b - 48) * 10 + (unat c - 48)) mod 2 ^ 32"
    unfolding unat_word_ariths d by (simp add: mod_simps)
  then have w: "unat ?w = (unat a - 48) * 100 + (unat b - 48) * 10 + (unat c - 48)" using l by simp
  have "unat code = unat ?w" unfolding code_def using w l
    by (simp add: unsigned_ucast_eq take_bit_nat_eq_self)
  then show ?thesis unfolding w by simp
qed

lemma status_head_Inr:
  assumes "length b = 12"
  shows "(\<exists>r. status_head b = Inr r) \<longleftrightarrow> status_shape b"
proof -
  have d: "take 3 (drop 9 b) = [b ! 9, b ! 10, b ! 11]"
    using assms take_drop_map [of 9 3 b] by (simp add: numeral_eq_Suc upt_conv_Cons)
  have v: "load_u64 b 0 AND 0x00FFFFFFFFFFFFFF = u64_lit ''HTTP/1.0'' AND 0x00FFFFFFFFFFFFFF \<longleftrightarrow>
      take 7 b = ascii ''HTTP/1.''" using assms by (intro version_mask) simp
  have dig: "\<not> 9 < (ucast c - 0x30 :: u32) \<longleftrightarrow> is_digit c" for c :: u8
    using digit_value(1) [of c] by (simp add: not_less)
  have code: "\<not> (code < 100 \<or> 599 < code) \<longleftrightarrow> 100 \<le> unat code \<and> unat code \<le> 599" for code :: u16
    by (auto simp: word_less_nat_alt)
  have ex: "(\<exists>r. (if c then Inl a else e) = Inr r) \<longleftrightarrow> \<not> c \<and> (\<exists>r. e = Inr r)"
    for c a and e :: "parsed_response + parsed_response" by simp
  have dg: "\<not> (9 < (ucast (b ! 9) - 0x30 :: u32) \<or> 9 < (ucast (b ! 10) - 0x30 :: u32) \<or>
      9 < (ucast (b ! 11) - 0x30 :: u32)) \<longleftrightarrow> list_all is_digit (take 3 (drop 9 b))"
    unfolding d de_Morgan_disj dig by simp
  show ?thesis
    unfolding status_head_def Let_def ex not_not v dg code de_Morgan_conj status_shape_def
    unfolding d using status_code_unat [of "b ! 9" "b ! 10" "b ! 11"] by auto
qed

lemma status_shape_no_CR: "status_shape b \<Longrightarrow> length b = 12 \<Longrightarrow> CR \<notin> set b"
proof -
  assume s: "status_shape b" and l: "length b = 12"
  have d: "drop 7 b = b ! 7 # b ! 8 # take 3 (drop 9 b)"
    using l Cons_nth_drop_Suc [of 7 b] Cons_nth_drop_Suc [of 8 b] by simp
  have "set b = set (take 7 b) \<union> set (drop 7 b)" by (metis append_take_drop_id set_append)
  moreover have "CR \<notin> set (take 3 (drop 9 b))"
  proof
    assume "CR \<in> set (take 3 (drop 9 b))"
    then have "is_digit CR" using s unfolding status_shape_def list_all_iff by blast
    then show False by (simp add: is_digit_def)
  qed
  moreover have "CR \<notin> set (take 7 b)"
  proof -
    have "take 7 b = ascii ''HTTP/1.''" using s unfolding status_shape_def by blast
    then show ?thesis by (simp only: ascii_def) simp
  qed
  moreover have "b ! 7 \<noteq> CR" "b ! 8 \<noteq> CR" using s unfolding status_shape_def by auto
  ultimately show ?thesis unfolding d by simp
qed

lemma status_line_InrD:
  assumes "parse_status_line buf = Inr (pos, r)" "12 \<le> length buf"
  shows "status_shape (take 12 buf)" "clean buf pos" "status_head (take 12 buf) = Inr r"
    "\<exists>reason rest. buf = take 12 buf @ reason @ CR # LF # rest \<and> CR \<notin> set reason \<and> pos = 14 + length reason"
proof -
  note eq = status_line_split [OF assms(2), unfolded assms(1)]
  show hr: "status_head (take 12 buf) = Inr r"
    using eq by (auto split: sum.splits if_splits)
  then show sh: "status_shape (take 12 buf)" using status_head_Inr [of "take 12 buf"] assms(2) by auto
  have p: "12 < length buf" "reason_end buf + 1 < length buf" "buf ! (reason_end buf + 1) = LF" "pos = reason_end buf + 2"
    using eq unfolding hr by (auto split: if_splits)
  let ?w = "takeWhile (\<lambda>b. b \<noteq> CR) (drop 12 buf)"
  have re: "reason_end buf = 12 + length ?w" by (simp add: reason_end_def)
  have lt: "length ?w < length (drop 12 buf)" using p(2) re by simp
  have cr: "buf ! reason_end buf = CR" using nth_length_takeWhile [OF lt] p(1) re by simp
  have "drop 12 buf = ?w @ drop (length ?w) (drop 12 buf)" by (metis takeWhile_dropWhile_id dropWhile_eq_drop)
  also have "drop (length ?w) (drop 12 buf) = drop (reason_end buf) buf" by (simp add: re add.commute)
  also have "\<dots> = CR # LF # drop pos buf"
    using p cr Cons_nth_drop_Suc [of "reason_end buf" buf] Cons_nth_drop_Suc [of "reason_end buf + 1" buf] by simp
  finally have d: "drop 12 buf = ?w @ CR # LF # drop pos buf" .
  have ncr: "CR \<notin> set (take 12 buf @ ?w)"
    using status_shape_no_CR [OF sh] assms(2) by (auto dest: set_takeWhileD)
  have buf: "buf = take 12 buf @ ?w @ CR # LF # drop pos buf" using d by (metis append_take_drop_id)
  then show "\<exists>reason rest. buf = take 12 buf @ reason @ CR # LF # rest \<and> CR \<notin> set reason \<and> pos = 14 + length reason"
    using ncr p(4) re by (intro exI [of _ ?w] exI [of _ "drop pos buf"]) simp
  have "reason_end buf \<le> i" if h: "hit buf (length buf) i" for i
  proof (rule ccontr)
    assume "\<not> reason_end buf \<le> i"
    then have i: "i < length (take 12 buf @ ?w)" using re assms(2) by simp
    have "buf ! i = (take 12 buf @ ?w) ! i" by (subst buf) (use i in \<open>simp only: append_assoc [symmetric] nth_append if_True\<close>)
    then have "buf ! i \<in> set (take 12 buf @ ?w)" using nth_mem [OF i] by simp
    with h ncr show False by (simp add: hit_def)
  qed
  then show "clean buf pos" using p cr by (auto simp: clean_def)
qed

text \<open>
  The loop over the response headers from the start of a line: its verdict does not change
  with the bytes that follow, and a complete header section ends at the first empty line
  with at most \<open>kMaxHeaders\<close> headers, all inside it.
\<close>

definition hdrs_in :: "nat \<Rightarrow> header list \<Rightarrow> bool" where
  "hdrs_in e hdrs \<longleftrightarrow> length hdrs \<le> kMaxHeaders \<and>
     (\<forall>h \<in> set hdrs. view_in e (h_name h) \<and> view_in e (h_value h))"

context byte_scanner
begin

lemma response_headers_field:
  assumes "field_ok f" "drop pos buf = field_bytes f @ rest"
  shows "response_headers S buf pos hdrs resp =
     (let hdrs' = (if length hdrs < kMaxHeaders then hdrs @ [field_header pos f] else hdrs) in
      case apply_semantic_header_response (f_name f) (f_value f) resp of
        (PError, resp') \<Rightarrow> resp_ret PError 0 resp'
      | (_, resp') \<Rightarrow> response_headers S buf (pos + length (field_bytes f)) hdrs' resp')"
proof -
  let ?cr = "pos + length (field_bytes f) - 2"
  have "f_name f \<noteq> []" using assms(1) by (simp add: field_ok_def)
  then have n: "4 \<le> length (field_bytes f)" by (cases "f_name f") (simp_all add: length_field_bytes)
  have "length (drop pos buf) = length (field_bytes f) + length rest" by (simp add: assms(2))
  then have cr: "pos < ?cr \<and> ?cr < length buf" "?cr + 2 = pos + length (field_bytes f)" using n by auto
  show ?thesis
    unfolding response_headers.simps [of S buf pos hdrs resp] header_line_field [OF assms] line_result.case
      field_views [OF assms(2)] if_P [OF cr(1)] cr(2) ..
qed

lemma response_headers_run:
  assumes "sr_status (response_headers S buf pos hdrs resp) \<noteq> PIncomplete" "clean buf pos" "hdrs_in pos hdrs"
  defines "R \<equiv> response_headers S buf pos hdrs resp"
  shows "response_headers S (buf @ ys) pos hdrs resp = R \<and>
     (sr_status R = PComplete \<longrightarrow> sr_header_end R = hdr_end_spec 0 buf \<and> sr_header_end R \<le> length buf \<and>
        hdrs_in (sr_header_end R) (rs_headers (sr_resp R)))"
  using assms(1-3) unfolding R_def
proof (induction "length buf - pos" arbitrary: pos hdrs resp rule: less_induct)
  case less
  note eq = response_headers.simps [of S buf pos hdrs resp]
    and eq' = response_headers.simps [of S "buf @ ys" pos hdrs resp]
  show ?case
  proof (cases "header_line S buf pos")
    case (LineEnd p)
    then have "header_line S (buf @ ys) pos = LineEnd p" using header_line_append [of buf pos ys] by simp
    moreover from LineEnd obtain rest where p: "p = pos + 2" "drop pos buf = CR # LF # rest"
      unfolding header_line_End by blast
    moreover have "pos + 2 \<le> length buf" using arg_cong [OF p(2), of length] by simp
    moreover have "hdrs_in (pos + 2) hdrs" using less.prems(3) by (auto simp: hdrs_in_def view_in_def)
    ultimately show ?thesis unfolding eq' eq using LineEnd clean_first_hit [OF less.prems(2) p(2)] by simp
  next
    case LineError
    then have "header_line S (buf @ ys) pos = LineError" using header_line_append [of buf pos ys] by simp
    with LineError show ?thesis unfolding eq' eq by simp
  next
    case LineMaybe
    then have m: "maybe_incomplete S buf = PError"
      using less.prems(1) maybe_incomplete_cases [of buf] unfolding eq by auto
    then obtain i where i: "hit buf (length buf) i" unfolding maybe_incomplete_iff by blast
    have "buf ! pos \<noteq> CR" using LineMaybe by (auto simp: header_line_def Let_def split: if_splits)
    from header_line_Maybe_append [OF LineMaybe i clean_hit_after [OF less.prems(2) i this]]
    show ?thesis unfolding eq' eq by (simp add: maybe_incomplete_append [OF m] m LineMaybe)
  next
    case LineIncomplete
    with less.prems(1) show ?thesis unfolding eq by simp
  next
    case (LineHeader h cr)
    then obtain f rest where f: "field_ok f" "drop pos buf = field_bytes f @ rest" by (rule header_line_fieldE)
    let ?n = "length (field_bytes f)"
    have l: "length buf - pos = ?n + length rest" "0 < ?n"
      using arg_cong [OF f(2), of length] by (simp_all add: length_field_bytes)
    have f': "drop pos (buf @ ys) = field_bytes f @ (rest @ ys)"
    proof -
      have "pos \<le> length buf" using l by linarith
      then show ?thesis by (simp add: f(2))
    qed
    have lt: "length buf - (pos + ?n) < length buf - pos" using l by linarith
    obtain st resp1 where a: "apply_semantic_header_response (f_name f) (f_value f) resp = (st, resp1)" by fastforce
    let ?hdrs = "if length hdrs < kMaxHeaders then hdrs @ [field_header pos f] else hdrs"
    have hin: "hdrs_in (pos + ?n) ?hdrs"
      using less.prems(3) by (auto simp: hdrs_in_def view_in_def field_header_def length_field_bytes)
    note IH = less.hyps [OF lt _ clean_field [OF less.prems(2) f] hin, of resp1]
      and steps = response_headers_field [OF f] response_headers_field [OF f(1) f'] a prod.case Let_def
    show ?thesis
    proof (cases st)
      case PError
      then show ?thesis unfolding steps by simp
    qed (use less.prems(1) IH in \<open>simp_all only: steps parse_status.case, blast+\<close>)
  qed
qed

lemma parse_response_run:
  assumes "sr_status (parse_response S buf resp0) \<noteq> PIncomplete"
  defines "R \<equiv> parse_response S buf resp0"
  shows "parse_response S (buf @ ys) resp0 = R \<and>
     (sr_status R = PComplete \<longrightarrow> sr_header_end R = hdr_end_spec 0 buf \<and> sr_header_end R \<le> length buf \<and>
        status_shape (take 12 buf) \<and>
        hdrs_in (sr_header_end R) (rs_headers (sr_resp R)))"
proof -
  have len: "\<not> length buf < 12" using assms(1) by (auto simp: parse_response_def)
  then have len': "\<not> length (buf @ ys) < 12" "12 \<le> length buf" by simp_all
  note eq = parse_response_def [of S buf resp0, unfolded if_not_P [OF len]]
    and eq' = parse_response_def [of S "buf @ ys" resp0, unfolded if_not_P [OF len'(1)]]
  have "\<forall>r. parse_status_line buf \<noteq> Inl (PIncomplete, r)"
    using assms(1) unfolding eq by auto
  note app = status_line_append [OF len'(2) this, of ys]
  show ?thesis
  proof (cases "parse_status_line buf")
    case (Inl p)
    obtain st r where p: "p = (st, r)" by (cases p)
    have "st \<noteq> PComplete"
      using Inl unfolding p status_line_split [OF len'(2)] by (auto split: sum.splits if_splits)
    with Inl p show ?thesis unfolding R_def eq eq' app by simp
  next
    case (Inr p)
    obtain pos r where p: "p = (pos, r)" by (cases p)
    note i = status_line_InrD [OF Inr [unfolded p] len'(2)]
    have "sr_status (response_headers S buf pos [] r) \<noteq> PIncomplete"
      using assms(1) Inr p unfolding eq by simp
    from response_headers_run [OF this i(2), of ys] Inr p i(1) show ?thesis
      unfolding R_def eq eq' app by (auto simp: hdrs_in_def)
  qed
qed

end

section \<open>What a complete request holds\<close>

definition same_line :: "parsed_request \<Rightarrow> parsed_request \<Rightarrow> bool" where
  "same_line a b \<longleftrightarrow> rq_method a = rq_method b \<and> rq_path a = rq_path b \<and>
     rq_path_canon a = rq_path_canon b \<and> rq_version a = rq_version b"

lemma semantic_same_line: "apply_semantic_header n v req = (st, req') \<Longrightarrow> same_line req' req"
  by (auto simp: apply_semantic_header_def Let_def same_line_def split: if_splits sum.splits)

lemma run_fields_result:
  "run_fields pos hdrs req fs = Some (hdrs', req') \<Longrightarrow> drop pos buf = fields_bytes fs @ rest \<Longrightarrow>
   length hdrs \<le> kMaxHeaders \<Longrightarrow>
     same_line req' req \<and> length hdrs' \<le> kMaxHeaders \<and>
     (\<exists>hs. hdrs' = hdrs @ hs \<and>
       map (\<lambda>h. (view_bytes buf (h_name h), view_bytes buf (h_value h))) hs =
         map (\<lambda>f. (f_name f, f_value f)) fs \<and>
       (\<forall>h \<in> set hs. view_in (pos + length (fields_bytes fs)) (h_name h) \<and>
          view_in (pos + length (fields_bytes fs)) (h_value h)))"
proof (induction fs arbitrary: pos hdrs req)
  case Nil
  then show ?case by (simp add: same_line_def)
next
  case (Cons f fs)
  obtain st req1 where a: "apply_semantic_header (f_name f) (f_value f) req = (st, req1)" by fastforce
  have r: "\<not> kMaxHeaders \<le> length hdrs"
    "run_fields (pos + length (field_bytes f)) (hdrs @ [field_header pos f]) req1 fs = Some (hdrs', req')"
    using Cons.prems(1) a by (auto split: if_splits parse_status.splits)
  have d: "drop pos buf = field_bytes f @ (fields_bytes fs @ rest)"
    using Cons.prems(2) by (simp add: fields_bytes_def)
  have "length (hdrs @ [field_header pos f]) \<le> kMaxHeaders" using r(1) by simp
  from Cons.IH [OF r(2) drop_append_eq [OF d] this] obtain hs where
    IH: "same_line req' req1" "length hdrs' \<le> kMaxHeaders" "hdrs' = (hdrs @ [field_header pos f]) @ hs"
      "map (\<lambda>h. (view_bytes buf (h_name h), view_bytes buf (h_value h))) hs = map (\<lambda>f. (f_name f, f_value f)) fs"
      "\<forall>h \<in> set hs. view_in (pos + length (field_bytes f) + length (fields_bytes fs)) (h_name h) \<and>
         view_in (pos + length (field_bytes f) + length (fields_bytes fs)) (h_value h)" by blast
  have len: "pos + length (fields_bytes (f # fs)) = pos + length (field_bytes f) + length (fields_bytes fs)"
    by (simp add: fields_bytes_def)
  have "same_line req' req" using IH(1) semantic_same_line [OF a] by (simp add: same_line_def)
  moreover have "view_in (pos + length (fields_bytes (f # fs))) (h_name (field_header pos f))"
    "view_in (pos + length (fields_bytes (f # fs))) (h_value (field_header pos f))"
    unfolding len by (simp_all add: field_header_def view_in_def length_field_bytes)
  ultimately show ?case
    unfolding len using IH(2-5) field_views [OF d] by (intro conjI exI [of _ "field_header pos f # hs"]) auto
qed

definition request_parts :: "bytes \<Rightarrow> parsed_request \<Rightarrow> http_method \<times> bytes option \<times> http_version \<times> (bytes \<times> bytes) list" where
  "request_parts buf q =
     (rq_method q, map_option (view_bytes buf) (rq_path q), rq_version q,
      map (\<lambda>h. (view_bytes buf (h_name h), view_bytes buf (h_value h))) (rq_headers q))"

lemma request_value_result:
  assumes "request_ok m u v fs" "request_value m u v fs = Some q" "buf = request_bytes m u v fs @ rest"
  defines "e \<equiv> length (request_bytes m u v fs)"
  shows "request_parts buf q = (m, Some u, v, map (\<lambda>f. (f_name f, f_value f)) fs)"
    "rq_path q = Some \<lparr>v_off = length (method_bytes m), v_len = length u\<rparr>"
    "rq_path_canon q = canon_view (length (method_bytes m)) u"
    "hdrs_in e (rq_headers q)" "\<not> (rq_chunked q \<and> rq_has_content_length q)"
proof -
  let ?pos = "length (method_bytes m) + length u + 11"
  obtain hdrs req where r: "run_fields ?pos [] (line_request m u v) fs = Some (hdrs, req)"
    "\<not> (rq_chunked req \<and> rq_has_content_length req)" "q = req\<lparr>rq_headers := hdrs\<rparr>"
    using assms(2) by (auto simp: request_value_def split: option.splits if_splits)
  have v: "v \<noteq> UnknownVersion" using assms(1) by (simp add: request_ok_def)
  have d: "drop ?pos buf = fields_bytes fs @ (CR # LF # rest)"
    using clean_line(2) [OF request_shape [OF assms(1), of rest]] assms(3) by simp
  have e: "?pos + length (fields_bytes fs) \<le> e" using length_request_bytes [OF v] by (simp add: e_def)
  from run_fields_result [OF r(1) d] have run: "same_line req (line_request m u v)" "length hdrs \<le> kMaxHeaders"
    "map (\<lambda>h. (view_bytes buf (h_name h), view_bytes buf (h_value h))) hdrs = map (\<lambda>f. (f_name f, f_value f)) fs"
    "\<forall>h \<in> set hdrs. view_in (?pos + length (fields_bytes fs)) (h_name h) \<and> view_in (?pos + length (fields_bytes fs)) (h_value h)"
    by auto
  show p: "rq_path q = Some \<lparr>v_off = length (method_bytes m), v_len = length u\<rparr>"
    and "rq_path_canon q = canon_view (length (method_bytes m)) u" and "\<not> (rq_chunked q \<and> rq_has_content_length q)"
    using run(1) r(2,3) by (auto simp: same_line_def line_request_def)
  have "view_bytes buf \<lparr>v_off = length (method_bytes m), v_len = length u\<rparr> = u"
    by (simp add: view_bytes_def assms(3) request_bytes_def)
  with p run(1,3) r(3) show "request_parts buf q = (m, Some u, v, map (\<lambda>f. (f_name f, f_value f)) fs)"
    by (simp add: request_parts_def same_line_def line_request_def)
  show "hdrs_in e (rq_headers q)" using run(2,4) e r(3) by (auto simp: hdrs_in_def)
qed

lemma canon_view_result:
  assumes "canon_view pos u = Some c" "drop pos buf = u @ rest"
  shows "view_in (pos + length u) c" "view_bytes buf c = strip_slashes (takeWhile not_qf u)"
proof -
  obtain lo n where f: "finalize_path_canonical (takeWhile not_qf u) = (lo, n)" by fastforce
  have c: "c = \<lparr>v_off = pos + lo, v_len = n\<rparr>"
    using assms(1) f by (auto simp: canon_view_def canonicalize_request_def not_qf_def [abs_def] split: if_splits)
  have le: "lo + n \<le> length (takeWhile not_qf u)" by (rule finalize_strip(1) [OF f])
  have lt: "length (takeWhile not_qf u) \<le> length u" by (rule length_takeWhile_le)
  show "view_in (pos + length u) c" using le lt by (simp add: c view_in_def)
  have "take n (drop lo (u @ rest)) = take n (drop lo (takeWhile not_qf u))"
  proof -
    have "u @ rest = takeWhile not_qf u @ dropWhile not_qf u @ rest" by simp
    moreover have "take n (drop lo (xs @ ys)) = take n (drop lo xs)" if "lo + n \<le> length xs" for xs ys :: bytes
      using that by simp
    ultimately show ?thesis using le by metis
  qed
  then have "view_bytes buf c = take n (drop lo (takeWhile not_qf u))"
    unfolding c view_bytes_def assms(2) [symmetric] by (simp add: add.commute)
  then show "view_bytes buf c = strip_slashes (takeWhile not_qf u)" using finalize_strip(2) [OF f] by simp
qed

section \<open>Properties\<close>

definition sample_request :: bytes where
  "sample_request = ascii ''GET /a/?q HTTP/1.1'' @ [CR, LF] @ ascii ''Host: x'' @ [CR, LF, CR, LF]"

lemma sample_request_complete:
  "rr_status (parse_request (backend_scanner b) sample_request rq_reset) = PComplete"
proof -
  have "rr_status (parse_request scalar_scanner sample_request rq_reset) = PComplete" by code_simp
  then show ?thesis by (simp add: backend.parse_request_scalar)
qed

lemma request_result_eta: "rr_status R = PComplete \<Longrightarrow> R = req_ret PComplete (rr_header_end R) (rr_req R)"
  by (cases R) simp

text \<open>
  C1: \<open>HttpParser::parse\<close>, on every instruction set, returns \<open>Complete\<close> with the end of
  headers \<open>e\<close> and the request \<open>q\<close> exactly when the buffer starts with the bytes of a
  request: a known method, a non-empty target of accepted bytes, \<open>HTTP/1.0\<close> or
  \<open>HTTP/1.1\<close>, and well-formed header lines whose semantic headers are consistent and at
  most 64 in number.  \<open>e\<close> is the length of these bytes.
\<close>

theorem parse_request_exact:
  "parse_request (backend_scanner b) buf req0 = req_ret PComplete e q \<longleftrightarrow>
     (\<exists>m u v fs rest. buf = request_bytes m u v fs @ rest \<and> request_ok m u v fs \<and>
        request_value m u v fs = Some q \<and> e = length (request_bytes m u v fs))"
proof
  assume "parse_request (backend_scanner b) buf req0 = req_ret PComplete e q"
  then show "\<exists>m u v fs rest. buf = request_bytes m u v fs @ rest \<and> request_ok m u v fs \<and>
        request_value m u v fs = Some q \<and> e = length (request_bytes m u v fs)"
    by (rule backend.parse_request_sound)
qed (use backend.parse_request_complete [of _ _ _ _ q b _ req0] in force)

text \<open>
  C17: Printing a request and parsing it gives the request back: the method, the target, the
  version and the names and values of the headers, in order, whatever follows the request.
\<close>

theorem request_roundtrip:
  assumes "request_ok m u v fs" "request_value m u v fs = Some q"
  shows "\<exists>q. parse_request (backend_scanner b) (request_bytes m u v fs @ body) req0 =
       req_ret PComplete (length (request_bytes m u v fs)) q \<and>
     request_parts (request_bytes m u v fs @ body) q = (m, Some u, v, map (\<lambda>f. (f_name f, f_value f)) fs)"
  using backend.parse_request_complete [OF assms] request_value_result(1) [OF assms refl] by blast

theorem request_roundtrip_witness:
  "\<exists>q. parse_request (backend_scanner NEON)
       (request_bytes GET (ascii ''/x'') Http11
         [\<lparr>f_name = ascii ''Host'', f_ows = [SP], f_value = ascii ''h'', f_trail = []\<rparr>] @ []) rq_reset =
       req_ret PComplete 28 q \<and>
     request_parts (request_bytes GET (ascii ''/x'') Http11
         [\<lparr>f_name = ascii ''Host'', f_ows = [SP], f_value = ascii ''h'', f_trail = []\<rparr>] @ []) q =
       (GET, Some (ascii ''/x''), Http11, [(ascii ''Host'', ascii ''h'')])"
proof -
  let ?fs = "[\<lparr>f_name = ascii ''Host'', f_ows = [SP], f_value = ascii ''h'', f_trail = []\<rparr>]"
  have ok: "request_ok GET (ascii ''/x'') Http11 ?fs" by code_simp
  have "(case request_value GET (ascii ''/x'') Http11 ?fs of None \<Rightarrow> False | Some _ \<Rightarrow> True)" by code_simp
  then obtain q where q: "request_value GET (ascii ''/x'') Http11 ?fs = Some q" by (auto split: option.splits)
  have len: "length (request_bytes GET (ascii ''/x'') Http11 ?fs) = 28" by code_simp
  from request_roundtrip [OF ok q, of NEON "[]" rq_reset] show ?thesis unfolding len by simp
qed

text \<open>
  C18: A verdict other than \<open>Incomplete\<close> does not change when more bytes arrive: an error
  stays an error and a complete request is returned unchanged.
\<close>

theorem parse_request_stable:
  assumes "rr_status (parse_request (backend_scanner b) buf req0) \<noteq> PIncomplete"
  shows "rr_status (parse_request (backend_scanner b) (buf @ ys) req0) =
       rr_status (parse_request (backend_scanner b) buf req0) \<and>
     (rr_status (parse_request (backend_scanner b) buf req0) = PComplete \<longrightarrow>
        parse_request (backend_scanner b) (buf @ ys) req0 = parse_request (backend_scanner b) buf req0)"
proof (cases "rr_status (parse_request (backend_scanner b) buf req0)")
  case PComplete
  note eq = request_result_eta [OF PComplete]
  from backend.parse_request_sound [OF eq] obtain m u v fs rest where
    s: "buf = request_bytes m u v fs @ rest" "request_ok m u v fs"
      "request_value m u v fs = Some (rr_req (parse_request (backend_scanner b) buf req0))"
      "rr_header_end (parse_request (backend_scanner b) buf req0) = length (request_bytes m u v fs)" by blast
  have "parse_request (backend_scanner b) (buf @ ys) req0 = parse_request (backend_scanner b) buf req0"
    using backend.parse_request_complete [OF s(2,3), of b "rest @ ys" req0] eq s(4) unfolding s(1) by simp
  then show ?thesis by simp
next
  case PError
  with backend.parse_request_Error_append [OF this, of ys] show ?thesis by simp
qed (use assms in simp)

theorem parse_request_stable_witness:
  "rr_status (parse_request (backend_scanner SSE2) (sample_request @ ascii ''GET'') rq_reset) = PComplete"
  using parse_request_stable [of SSE2 sample_request rq_reset "ascii ''GET''"] sample_request_complete [of SSE2]
  by simp

text \<open>
  C19: A complete request is safe to use: the end of its headers is the position after the
  first empty line, where \<open>find_header_end\<close> puts it, and inside the buffer; the target and
  at most 64 headers lie before it; the canonical path is the target up to the query without
  the slashes at its ends; and the request never has both framings, a chunked body and a
  content length.
\<close>

theorem parse_request_safe:
  assumes "rr_status (parse_request (backend_scanner b) buf req0) = PComplete"
  defines "R \<equiv> parse_request (backend_scanner b) buf req0"
  shows "rr_header_end R = find_header_end buf (length buf) 0 \<and> rr_header_end R \<le> length buf \<and>
     hdrs_in (rr_header_end R) (rq_headers (rr_req R)) \<and>
     (\<exists>p. rq_path (rr_req R) = Some p \<and> view_in (rr_header_end R) p \<and>
        (view_bytes buf p ! 0 = 0x2F \<longleftrightarrow> rq_path_canon (rr_req R) \<noteq> None) \<and>
        (\<forall>c. rq_path_canon (rr_req R) = Some c \<longrightarrow> view_in (rr_header_end R) c \<and>
           view_bytes buf c = strip_slashes (takeWhile not_qf (view_bytes buf p)))) \<and>
     \<not> (rq_chunked (rr_req R) \<and> rq_has_content_length (rr_req R))"
proof -
  from backend.parse_request_sound [OF request_result_eta [OF assms(1)]] obtain m u v fs rest where
    s: "buf = request_bytes m u v fs @ rest" "request_ok m u v fs" "request_value m u v fs = Some (rr_req R)"
      "rr_header_end R = length (request_bytes m u v fs)" unfolding R_def by blast
  note r = request_value_result [OF s(2,3,1)]
  let ?p = "\<lparr>v_off = length (method_bytes m), v_len = length u\<rparr>"
  have u: "u \<noteq> []" "v \<noteq> UnknownVersion" using s(2) by (auto simp: request_ok_def)
  have p: "view_bytes buf ?p = u" "view_in (rr_header_end R) ?p"
    using length_request_bytes [OF u(2), of m u fs] s(1,4) by (simp_all add: view_bytes_def request_bytes_def view_in_def)
  have he: "rr_header_end R = find_header_end buf (length buf) 0"
    using request_bytes_hdr_end [OF s(2), of rest] scalar.find_header_end_full [of buf] s(1,4)
    by (simp add: scalar_scanner_def)
  have d: "drop (length (method_bytes m)) buf = u @ drop (length (method_bytes m) + length u) buf"
    unfolding s(1) request_bytes_def by simp
  have "view_in (rr_header_end R) c \<and> view_bytes buf c = strip_slashes (takeWhile not_qf u)"
    if "rq_path_canon (rr_req R) = Some c" for c
  proof -
    have "canon_view (length (method_bytes m)) u = Some c" using that r(3) by simp
    from canon_view_result [OF this d] show ?thesis
      using length_request_bytes [OF u(2), of m u fs] s(4) by (auto simp: view_in_def)
  qed
  moreover have "u ! 0 = 0x2F \<longleftrightarrow> rq_path_canon (rr_req R) \<noteq> None"
    using r(3) u(1) by (simp add: canon_view_def hd_conv_nth split: prod.split)
  moreover have "rr_header_end R \<le> length buf" using s(1,4) by simp
  ultimately show ?thesis using he r(2,4,5) p s(4) by auto
qed

theorem parse_request_safe_witness:
  "rr_header_end (parse_request (backend_scanner AVX512) sample_request rq_reset) = 31"
proof -
  have "find_header_end sample_request (length sample_request) 0 = 31" by code_simp
  then show ?thesis
    using parse_request_safe [OF sample_request_complete [of AVX512]] by simp
qed

text \<open>
  C20: The parsers give the same result on every instruction set: the vectorised scanners
  are interchangeable with the scalar ones, on every input.
\<close>

theorem parsers_backend_independent:
  "parse_request (backend_scanner b) buf req0 = parse_request scalar_scanner buf req0 \<and>
     parse_response (backend_scanner b) buf resp0 = parse_response scalar_scanner buf resp0"
  by (simp add: backend.parse_request_scalar backend.parse_response_scalar)

text \<open>
  C21: The response parser: a verdict other than \<open>Incomplete\<close> is returned unchanged
  when more bytes arrive; a complete response has a status line of \<open>HTTP/1.0\<close> or
  \<open>HTTP/1.1\<close> with a code from 100 to 599, the end of its headers is the position after the
  first empty line, and at most 64 headers are kept, all before it.
\<close>

theorem parse_response_stable:
  assumes "sr_status (parse_response (backend_scanner b) buf resp0) \<noteq> PIncomplete"
  defines "R \<equiv> parse_response (backend_scanner b) buf resp0"
  shows "parse_response (backend_scanner b) (buf @ ys) resp0 = R \<and>
     (sr_status R = PComplete \<longrightarrow>
        sr_header_end R = find_header_end buf (length buf) 0 \<and> sr_header_end R \<le> length buf \<and>
        status_shape (take 12 buf) \<and> hdrs_in (sr_header_end R) (rs_headers (sr_resp R)))"
proof -
  have f: "find_header_end buf (length buf) 0 = hdr_end_spec 0 buf"
    using scalar.find_header_end_full [of buf] by (simp add: scalar_scanner_def)
  show ?thesis unfolding R_def f by (rule backend.parse_response_run [OF assms(1)])
qed

theorem parse_response_stable_witness:
  "sr_header_end (parse_response (backend_scanner (SVE 1))
     (ascii ''HTTP/1.1 204 '' @ [CR, LF, CR, LF] @ ascii ''HTTP'') rs_reset) = 17"
proof -
  let ?buf = "ascii ''HTTP/1.1 204 '' @ [CR, LF, CR, LF]"
  have "sr_status (parse_response scalar_scanner ?buf rs_reset) = PComplete" by code_simp
  then have c: "sr_status (parse_response (backend_scanner (SVE 1)) ?buf rs_reset) = PComplete"
    by (simp only: backend.parse_response_scalar)
  then have i: "sr_status (parse_response (backend_scanner (SVE 1)) ?buf rs_reset) \<noteq> PIncomplete" by simp
  have f: "find_header_end ?buf (length ?buf) 0 = 17" by code_simp
  show ?thesis
    using parse_response_stable [OF i, of "ascii ''HTTP''"] c unfolding f append_assoc by simp
qed

text \<open>
  C22: \<open>parse_uint\<close> accepts exactly the non-empty strings of decimal digits whose value fits
  32 bits, and returns that value: no overflow goes unnoticed.
\<close>

theorem parse_uint_exact:
  "parse_uint p = Inr v \<longleftrightarrow>
     p \<noteq> [] \<and> list_all is_digit p \<and> decnum_from 0 p < 2 ^ 32 \<and> unat v = decnum_from 0 p"
  by (rule parse_uint_iff)

end
