(* ===== verification/Http_Framing.thy ===== *)
theory Http_Framing
  imports Http_Messages
begin

text \<open>
  The framing of a request (http_parser.cc, \<open>apply_semantic_header\<close>): which header lines decide
  the length of the body and the fate of the connection, in terms of header names compared
  without case, comma-separated tokens and decimal numbers.
\<close>

section \<open>Names and tokens\<close>

definition named :: "string \<Rightarrow> bytes \<Rightarrow> bool" where
  "named s n \<longleftrightarrow> map ascii_lower n = ascii s"

function tokens :: "bytes \<Rightarrow> bytes list" where
  "tokens v =
     (case dropWhile is_sep v of
        [] \<Rightarrow> []
      | c # cs \<Rightarrow> takeWhile (\<lambda>b. \<not> is_sep b) (c # cs) # tokens (dropWhile (\<lambda>b. \<not> is_sep b) (c # cs)))"
  by pat_completeness auto
termination by (relation "measure length") (auto simp: token_shorter simp del: dropWhile.simps takeWhile.simps)

declare tokens.simps [simp del]

definition has_token :: "string \<Rightarrow> bytes \<Rightarrow> bool" where
  "has_token s v \<longleftrightarrow> (\<exists>t \<in> set (tokens v). named s t)"

text \<open>The literals the parser compares with are lower-case letters and dashes.\<close>

definition lit_string :: "string \<Rightarrow> bool" where
  "lit_string s \<longleftrightarrow> list_all lit_byte (ascii s)"

lemma str_ci_eq_named:
  assumes "lit_string s" "CR \<notin> set t"
  shows "length t = length s \<and> str_ci_eq t (ascii s) (length s) \<longleftrightarrow> named s t"
proof (cases "length t = length s")
  case True
  with str_ci_eq_ascii [of t "ascii s"] assms show ?thesis by (simp add: named_def lit_string_def)
next
  case False
  then show ?thesis by (auto simp: named_def dest: arg_cong [of _ _ length])
qed

lemma first_byte_named:
  assumes "lit_string (c # s)" "CR \<notin> set n" "n \<noteq> []"
  shows "n ! 0 OR 0x20 = of_char c \<and> length n = Suc (length s) \<and> str_ci_eq (drop 1 n) (ascii s) (length s) \<longleftrightarrow> named (c # s) n"
proof -
  obtain b bs where n: "n = b # bs" using assms(3) by (cases n) auto
  have l: "lit_byte (of_char c)" "lit_string s" using assms(1) by (simp_all add: lit_string_def ascii_def)
  have b: "b \<noteq> CR" "CR \<notin> set bs" using assms(2) by (auto simp: n)
  have "b OR 0x20 = of_char c \<longleftrightarrow> ascii_lower b = of_char c" using lower_ascii_lower [OF l(1) b(1)] by (simp add: lower_def)
  moreover have "named (c # s) n \<longleftrightarrow> ascii_lower b = of_char c \<and> named s bs" by (simp add: named_def n ascii_def)
  ultimately show ?thesis using str_ci_eq_named [OF l(2) b(2)] by (auto simp: n)
qed

text \<open>The token loops.\<close>

lemma tokens_no_CR: "CR \<notin> set v \<Longrightarrow> t \<in> set (tokens v) \<Longrightarrow> CR \<notin> set t"
proof (induction v rule: tokens.induct)
  case (1 v)
  show ?case
  proof (cases "dropWhile is_sep v")
    case Nil
    with 1(3) show ?thesis by (simp add: tokens.simps [of v])
  next
    case (Cons c cs)
    have sub: "set (c # cs) \<subseteq> set v" using Cons set_dropWhileD by (metis subsetI)
    have "CR \<notin> set (dropWhile (\<lambda>b. \<not> is_sep b) (c # cs))" "CR \<notin> set (takeWhile (\<lambda>b. \<not> is_sep b) (c # cs))"
      using sub 1(2) set_dropWhileD set_takeWhileD by (metis subsetD)+
    moreover have "t = takeWhile (\<lambda>b. \<not> is_sep b) (c # cs) \<or> t \<in> set (tokens (dropWhile (\<lambda>b. \<not> is_sep b) (c # cs)))"
      using 1(3) Cons by (simp add: tokens.simps [of v] del: takeWhile.simps dropWhile.simps)
    ultimately show ?thesis using 1(1) [OF Cons] by blast
  qed
qed

lemma token_named:
  assumes "CR \<notin> set t"
  shows "length t = 5 \<and> str_ci_eq t (ascii ''close'') 5 \<longleftrightarrow> named ''close'' t"
    "length t = 10 \<and> str_ci_eq t (ascii ''keep-alive'') 10 \<longleftrightarrow> named ''keep-alive'' t"
    "length t = 7 \<and> str_ci_eq t (ascii ''chunked'') 7 \<longleftrightarrow> named ''chunked'' t"
proof -
  have l: "lit_string ''close''" "lit_string ''keep-alive''" "lit_string ''chunked''" by code_simp+
  show "length t = 5 \<and> str_ci_eq t (ascii ''close'') 5 \<longleftrightarrow> named ''close'' t"
    "length t = 10 \<and> str_ci_eq t (ascii ''keep-alive'') 10 \<longleftrightarrow> named ''keep-alive'' t"
    "length t = 7 \<and> str_ci_eq t (ascii ''chunked'') 7 \<longleftrightarrow> named ''chunked'' t"
    using str_ci_eq_named [OF l(1) assms] str_ci_eq_named [OF l(2) assms] str_ci_eq_named [OF l(3) assms] by (simp_all add: numeral_eq_Suc)
qed

lemma has_chunked_token_iff: "CR \<notin> set v \<Longrightarrow> has_chunked_token v \<longleftrightarrow> has_token ''chunked'' v"
proof (induction v rule: tokens.induct)
  case (1 v)
  show ?case
  proof (cases "dropWhile is_sep v")
    case Nil
    show ?thesis unfolding has_token_def tokens.simps [of v] has_chunked_token.simps [of v] Nil list.case by simp
  next
    case (Cons c cs)
    let ?t = "takeWhile (\<lambda>b. \<not> is_sep b) (c # cs)" and ?r = "dropWhile (\<lambda>b. \<not> is_sep b) (c # cs)"
    have tv: "tokens v = ?t # tokens ?r" by (simp only: tokens.simps [of v] Cons list.case)
    have "CR \<notin> set ?t" by (rule tokens_no_CR [OF 1(2)]) (simp only: tv list.set_intros)
    note t = token_named(3) [OF this]
    have "set ?r \<subseteq> set v" using Cons set_dropWhileD by (metis subsetI)
    then have r: "CR \<notin> set ?r" using 1(2) by blast
    show ?thesis
      unfolding has_chunked_token.simps [of v] Cons list.case Let_def t 1(1) [OF Cons r] has_token_def tv by simp
  qed
qed

lemma match_connection_eq:
  "CR \<notin> set v \<Longrightarrow> match_connection v k = (\<not> has_token ''close'' v \<and> (has_token ''keep-alive'' v \<or> k))"
proof (induction v arbitrary: k rule: tokens.induct)
  case (1 v)
  show ?case
  proof (cases "dropWhile is_sep v")
    case Nil
    show ?thesis unfolding has_token_def tokens.simps [of v] match_connection.simps [of v] Nil list.case by simp
  next
    case (Cons c cs)
    let ?t = "takeWhile (\<lambda>b. \<not> is_sep b) (c # cs)" and ?r = "dropWhile (\<lambda>b. \<not> is_sep b) (c # cs)"
    have tv: "tokens v = ?t # tokens ?r" by (simp only: tokens.simps [of v] Cons list.case)
    have nt: "CR \<notin> set ?t" by (rule tokens_no_CR [OF 1(2)]) (simp only: tv list.set_intros)
    note t = token_named(1,2) [OF nt]
    have "set ?r \<subseteq> set v" using Cons set_dropWhileD by (metis subsetI)
    then have r: "CR \<notin> set ?r" using 1(2) by blast
    show ?thesis
      unfolding match_connection.simps [of v] Cons list.case Let_def t 1(1) [OF Cons r] has_token_def tv by auto
  qed
qed

lemma semantic_header_eq:
  assumes "n \<noteq> []" "CR \<notin> set n" "CR \<notin> set v"
  shows "apply_semantic_header n v req =
    (if named ''content-length'' n then
       (case parse_uint v of
          Inl e \<Rightarrow> (PError, req)
        | Inr cl \<Rightarrow>
            if rq_has_content_length req then
              (if rq_content_length req \<noteq> cl then (PError, req) else (PComplete, req))
            else (PComplete, req\<lparr>rq_content_length := cl, rq_has_content_length := True\<rparr>))
     else if named ''connection'' n then
       (PComplete, req\<lparr>rq_keep_alive := (\<not> has_token ''close'' v \<and> (has_token ''keep-alive'' v \<or> rq_keep_alive req))\<rparr>)
     else if named ''transfer-encoding'' n then
       (PComplete, if has_token ''chunked'' v then req\<lparr>rq_chunked := True\<rparr> else req)
     else (PComplete, req))"
proof -
  have l: "lit_string ''content-length''" "lit_string ''connection''" "lit_string ''transfer-encoding''" by code_simp+
  note n = first_byte_named [OF l(1) assms(2,1)] first_byte_named [OF l(2) assms(2,1)] first_byte_named [OF l(3) assms(2,1)]
  have c: "n ! 0 OR 0x20 = of_char CHR ''c'' \<Longrightarrow> (length n = 14 \<and> str_ci_eq (drop 1 n) (ascii ''ontent-length'') 13 \<longleftrightarrow> named ''content-length'' n)
      \<and> (length n = 10 \<and> str_ci_eq (drop 1 n) (ascii ''onnection'') 9 \<longleftrightarrow> named ''connection'' n)"
    and t: "n ! 0 OR 0x20 = of_char CHR ''t'' \<Longrightarrow> length n = 17 \<and> str_ci_eq (drop 1 n) (ascii ''ransfer-encoding'') 16 \<longleftrightarrow> named ''transfer-encoding'' n"
    and nc: "n ! 0 OR 0x20 \<noteq> of_char CHR ''c'' \<Longrightarrow> \<not> named ''content-length'' n \<and> \<not> named ''connection'' n"
    and nt: "n ! 0 OR 0x20 \<noteq> of_char CHR ''t'' \<Longrightarrow> \<not> named ''transfer-encoding'' n"
    using n by (auto simp: numeral_eq_Suc)
  have ct: "(of_char CHR ''c'' :: u8) \<noteq> of_char CHR ''t''" by simp
  show ?thesis
  proof (cases "n ! 0 OR 0x20 = of_char CHR ''c''")
    case True
    then have "\<not> named ''transfer-encoding'' n" using nt ct by metis
    with True c [OF True] show ?thesis
      unfolding apply_semantic_header_def Let_def match_connection_eq [OF assms(3)] by simp
  next
    case False
    with nc [OF False] nt t show ?thesis
      unfolding apply_semantic_header_def Let_def has_chunked_token_iff [OF assms(3)] by auto
  qed
qed

section \<open>Header sections\<close>

text \<open>The values of the \<open>Content-Length\<close> lines, and whether a line asks for chunked coding.\<close>

definition lengths :: "field list \<Rightarrow> (uint_error + u32) list" where
  "lengths fs = map (\<lambda>f. parse_uint (f_value f)) (filter (\<lambda>f. named ''content-length'' (f_name f)) fs)"

definition any_chunked :: "field list \<Rightarrow> bool" where
  "any_chunked fs \<longleftrightarrow> (\<exists>f \<in> set fs. named ''transfer-encoding'' (f_name f) \<and> has_token ''chunked'' (f_value f))"

definition connection_step :: "field \<Rightarrow> bool \<Rightarrow> bool" where
  "connection_step f k = (if named ''connection'' (f_name f)
     then \<not> has_token ''close'' (f_value f) \<and> (has_token ''keep-alive'' (f_value f) \<or> k) else k)"

definition framing_ok :: "field list \<Rightarrow> bool" where
  "framing_ok fs \<longleftrightarrow> (\<exists>n. set (lengths fs) \<subseteq> {Inr n}) \<and> \<not> (lengths fs \<noteq> [] \<and> any_chunked fs)"

text \<open>The length a request has committed to while its lines are read.\<close>

definition committed :: "parsed_request \<Rightarrow> u32 \<Rightarrow> bool" where
  "committed req n \<longleftrightarrow> (rq_has_content_length req \<longrightarrow> rq_content_length req = n)"

lemma field_ok_CR: "field_ok f \<Longrightarrow> f_name f \<noteq> [] \<and> CR \<notin> set (f_name f) \<and> CR \<notin> set (f_value f)"
  by (auto simp: field_ok_def list_all_iff)

lemma named_distinct:
  "named ''connection'' n \<Longrightarrow> \<not> named ''content-length'' n" "named ''transfer-encoding'' n \<Longrightarrow> \<not> named ''content-length'' n"
  "named ''transfer-encoding'' n \<Longrightarrow> \<not> named ''connection'' n"
  by (auto simp: named_def ascii_def)

definition framed :: "parsed_request \<Rightarrow> field list \<Rightarrow> parsed_request \<Rightarrow> bool" where
  "framed req fs req' \<longleftrightarrow>
     (rq_has_content_length req' \<longleftrightarrow> rq_has_content_length req \<or> lengths fs \<noteq> []) \<and>
     (rq_has_content_length req' \<longrightarrow> committed req (rq_content_length req') \<and> set (lengths fs) \<subseteq> {Inr (rq_content_length req')}) \<and>
     (rq_chunked req' \<longleftrightarrow> rq_chunked req \<or> any_chunked fs) \<and>
     rq_keep_alive req' = fold connection_step fs (rq_keep_alive req)"

lemma lengths_Cons: "lengths (f # fs) = (if named ''content-length'' (f_name f) then [parse_uint (f_value f)] else []) @ lengths fs"
  by (simp add: lengths_def)

lemma any_chunked_Cons: "any_chunked (f # fs) \<longleftrightarrow>
    (named ''transfer-encoding'' (f_name f) \<and> has_token ''chunked'' (f_value f)) \<or> any_chunked fs"
  by (simp add: any_chunked_def)

lemma run_fields_too_many:
  "length hdrs \<le> kMaxHeaders \<Longrightarrow> kMaxHeaders < length hdrs + length fs \<Longrightarrow> run_fields pos hdrs req fs = None"
proof (induction fs arbitrary: pos hdrs req)
  case (Cons f fs)
  show ?case
  proof (cases "kMaxHeaders \<le> length hdrs")
    case False
    then have "run_fields p (hdrs @ [h]) r fs = None" for p h r using Cons.prems by (intro Cons.IH) simp_all
    with False show ?thesis by (simp split: prod.split parse_status.split)
  qed simp
qed simp

text \<open>One line: what it commits the request to.\<close>

lemma semantic_step:
  assumes "field_ok f" "apply_semantic_header (f_name f) (f_value f) req = (st, req1)"
  shows "st = PError \<Longrightarrow> \<not> (\<exists>n. committed req n \<and> set (lengths [f]) \<subseteq> {Inr n})" "st \<noteq> PError \<Longrightarrow> framed req [f] req1"
    "st = PError \<or> st = PComplete"
proof -
  note c = field_ok_CR [OF assms(1)]
  note eq = assms(2) [unfolded semantic_header_eq [OF conjunct1 [OF c] conjunct1 [OF conjunct2 [OF c]] conjunct2 [OF conjunct2 [OF c]], of req]]
  note d = lengths_Cons any_chunked_Cons connection_step_def lengths_def [of "[]"] any_chunked_def [of "[]"]
  have "(st = PError \<longrightarrow> \<not> (\<exists>n. committed req n \<and> set (lengths [f]) \<subseteq> {Inr n})) \<and> (st \<noteq> PError \<longrightarrow> framed req [f] req1)
      \<and> (st = PError \<or> st = PComplete)"
  proof (cases "named ''content-length'' (f_name f)")
    case True
    then have n: "\<not> named ''connection'' (f_name f)" "\<not> named ''transfer-encoding'' (f_name f)"
      using named_distinct [of "f_name f"] by blast+
    show ?thesis
    proof (cases "parse_uint (f_value f)")
      case (Inl e)
      with True n eq show ?thesis by (auto simp: d framed_def)
    next
      case (Inr n)
      with True \<open>\<not> named ''connection'' (f_name f)\<close> \<open>\<not> named ''transfer-encoding'' (f_name f)\<close> eq show ?thesis
        by (auto simp: d framed_def committed_def split: if_splits)
    qed
  next
    case False
    then show ?thesis using eq named_distinct(3) [of "f_name f"]
      by (auto simp: d framed_def committed_def split: if_splits)
  qed
  then show "st = PError \<Longrightarrow> \<not> (\<exists>n. committed req n \<and> set (lengths [f]) \<subseteq> {Inr n})" "st \<noteq> PError \<Longrightarrow> framed req [f] req1"
    "st = PError \<or> st = PComplete" by blast+
qed

lemma set_lengths_Cons: "set (lengths (f # fs)) = set (lengths [f]) \<union> set (lengths fs)" "lengths (f # fs) \<noteq> [] \<longleftrightarrow> lengths [f] \<noteq> [] \<or> lengths fs \<noteq> []"
  by (simp_all add: lengths_Cons lengths_def)

lemma framed_committed:
  assumes "framed req [f] req1" "committed req n" "set (lengths [f]) \<subseteq> {Inr n}"
  shows "committed req1 n"
proof -
  have "rq_content_length req1 = n" if h: "rq_has_content_length req1"
  proof (cases "rq_has_content_length req")
    case True
    with assms(1,2) h show ?thesis by (simp add: framed_def committed_def)
  next
    case False
    with assms(1) h have "lengths [f] \<noteq> []" "set (lengths [f]) \<subseteq> {Inr (rq_content_length req1)}" by (simp_all add: framed_def)
    with assms(3) show ?thesis by (cases "lengths [f]") auto
  qed
  then show ?thesis by (simp add: committed_def)
qed

lemma framed_Cons:
  assumes "framed req [f] req1" "framed req1 fs req2"
  shows "framed req (f # fs) req2"
proof -
  have h: "rq_has_content_length req2 \<longleftrightarrow> rq_has_content_length req \<or> lengths (f # fs) \<noteq> []"
    using assms unfolding framed_def by (subst set_lengths_Cons(2)) blast
  have cl: "committed req (rq_content_length req2) \<and> set (lengths (f # fs)) \<subseteq> {Inr (rq_content_length req2)}"
    if h2: "rq_has_content_length req2"
  proof -
    have c1: "committed req1 (rq_content_length req2)" "set (lengths fs) \<subseteq> {Inr (rq_content_length req2)}"
      using assms(2) h2 by (simp_all add: framed_def)
    show ?thesis
    proof (cases "rq_has_content_length req1")
      case True
      then have "rq_content_length req1 = rq_content_length req2" using c1(1) by (simp add: committed_def)
      with assms(1) True c1(2) show ?thesis by (subst set_lengths_Cons(1)) (simp add: framed_def)
    next
      case False
      with assms(1) have "\<not> rq_has_content_length req" "lengths [f] = []" by (simp_all add: framed_def)
      with c1(2) show ?thesis by (subst set_lengths_Cons(1)) (simp add: committed_def)
    qed
  qed
  have "rq_chunked req2 \<longleftrightarrow> rq_chunked req \<or> any_chunked (f # fs)"
    using assms unfolding framed_def any_chunked_def by auto
  moreover have "rq_keep_alive req2 = fold connection_step (f # fs) (rq_keep_alive req)"
    using assms by (simp add: framed_def)
  ultimately show ?thesis using h cl by (simp add: framed_def)
qed

lemma run_fields_framing:
  assumes "list_all field_ok fs" "length hdrs + length fs \<le> kMaxHeaders"
  shows "case run_fields pos hdrs req fs of
      None \<Rightarrow> \<not> (\<exists>n. committed req n \<and> set (lengths fs) \<subseteq> {Inr n})
    | Some (hdrs', req') \<Rightarrow> framed req fs req'"
  using assms
proof (induction fs arbitrary: pos hdrs req)
  case Nil
  then show ?case by (simp add: framed_def lengths_def any_chunked_def committed_def)
next
  case (Cons f fs)
  obtain st req1 where a: "apply_semantic_header (f_name f) (f_value f) req = (st, req1)" by fastforce
  have ok: "field_ok f" using Cons.prems(1) by simp
  note s = semantic_step [OF ok a]
  have n: "\<not> kMaxHeaders \<le> length hdrs" using Cons.prems(2) by simp
  show ?case
  proof (cases "st = PError")
    case True
    then have "run_fields pos hdrs req (f # fs) = None" using a n by simp
    moreover have "set (lengths [f]) \<subseteq> set (lengths (f # fs))" by (subst (2) set_lengths_Cons(1)) simp
    ultimately show ?thesis using s(1) [OF True] by auto
  next
    case False
    with s(3) have st: "st = PComplete" by blast
    let ?h = "hdrs @ [field_header pos f]"
    have r: "run_fields pos hdrs req (f # fs) = run_fields (pos + length (field_bytes f)) ?h req1 fs"
      using a n st by simp
    note IH = Cons.IH [of ?h req1 "pos + length (field_bytes f)"]
    show ?thesis
    proof (cases "run_fields (pos + length (field_bytes f)) ?h req1 fs")
      case None
      then have none: "\<not> (\<exists>n. committed req1 n \<and> set (lengths fs) \<subseteq> {Inr n})" using IH Cons.prems by simp
      have "\<not> (committed req n \<and> set (lengths (f # fs)) \<subseteq> {Inr n})" for n
      proof
        assume "committed req n \<and> set (lengths (f # fs)) \<subseteq> {Inr n}"
        then have n: "committed req n" "set (lengths [f]) \<subseteq> {Inr n}" "set (lengths fs) \<subseteq> {Inr n}"
          using set_lengths_Cons(1) [of f fs] by simp_all
        from framed_committed [OF s(2) [OF False] n(1,2)] none n(3) show False by blast
      qed
      then show ?thesis using r None by simp
    next
      case (Some p)
      obtain hdrs' req' where "p = (hdrs', req')" by (cases p)
      then have "framed req1 fs req'" using IH Cons.prems Some by simp
      from framed_Cons [OF s(2) [OF False] this] show ?thesis using r Some \<open>p = (hdrs', req')\<close> by simp
    qed
  qed
qed

section \<open>The verdict on a request\<close>

context byte_scanner
begin

lemma request_headers_reject:
  assumes "drop pos buf = fields_bytes fs @ CR # LF # rest" "list_all field_ok fs"
    "case run_fields pos hdrs req fs of None \<Rightarrow> True | Some (hdrs', req') \<Rightarrow> rq_chunked req' \<and> rq_has_content_length req'"
  shows "rr_status (request_headers S buf pos hdrs req) = PError"
  using assms
proof (induction fs arbitrary: pos hdrs req)
  case Nil
  then have "header_line S buf pos = LineEnd (pos + 2)" by (simp add: header_line_End fields_bytes_def)
  with Nil show ?case by (subst request_headers.simps) (simp add: Let_def)
next
  case (Cons f fs)
  have d: "drop pos buf = field_bytes f @ (fields_bytes fs @ CR # LF # rest)"
    using Cons.prems(1) by (simp add: fields_bytes_def)
  have f: "field_ok f" "list_all field_ok fs" using Cons.prems(2) by simp_all
  obtain st req1 where a: "apply_semantic_header (f_name f) (f_value f) req = (st, req1)" by fastforce
  note IH = Cons.IH [OF drop_append_eq [OF d] f(2), of "hdrs @ [field_header pos f]" req1]
  show ?case
  proof (cases "kMaxHeaders \<le> length hdrs \<or> st = PError")
    case True
    then show ?thesis unfolding request_headers_field [OF f(1) d] a by auto
  next
    case False
    then have n: "\<not> kMaxHeaders \<le> length hdrs" by blast
    have "run_fields pos hdrs req (f # fs) = run_fields (pos + length (field_bytes f)) (hdrs @ [field_header pos f]) req1 fs"
      using False a by (cases st) simp_all
    with IH Cons.prems(3) False show ?thesis
      unfolding request_headers_field [OF f(1) d] a prod.case if_not_P [OF n] by (cases st) simp_all
  qed
qed

lemma parse_request_reject:
  assumes "request_ok m u v fs" "request_value m u v fs = None"
  shows "rr_status (parse_request S (request_bytes m u v fs @ rest) req0) = PError"
proof -
  let ?buf = "request_bytes m u v fs @ rest"
  note sh = request_shape [OF assms(1), of rest]
  have v: "v \<noteq> UnknownVersion" "list_all field_ok fs" using assms(1) by (auto simp: request_ok_def)
  have r: "case run_fields (length (method_bytes m) + length u + 11) [] (line_request m u v) fs of
      None \<Rightarrow> True | Some (hdrs', req') \<Rightarrow> rq_chunked req' \<and> rq_has_content_length req'"
    using assms(2) by (auto simp: request_value_def split: option.splits if_splits)
  have len: "\<not> length ?buf < 4" using length_request_bytes [OF v(1)] by simp
  show ?thesis
    unfolding parse_request_def if_not_P [OF len] request_line_compute [OF sh] sum.case prod.case
    by (rule request_headers_reject [OF clean_line(2) [OF sh] v(2) r])
qed

end

lemma request_value_framing:
  assumes "request_ok m u v fs"
  shows "request_value m u v fs \<noteq> None \<longleftrightarrow> length fs \<le> kMaxHeaders \<and> framing_ok fs"
    "request_value m u v fs = Some q \<Longrightarrow> framed (line_request m u v) fs q"
proof -
  let ?r = "run_fields (length (method_bytes m) + length u + 11) [] (line_request m u v) fs"
  have ok: "list_all field_ok fs" using assms by (simp add: request_ok_def)
  have l: "\<not> rq_has_content_length (line_request m u v)" "\<not> rq_chunked (line_request m u v)"
    by (simp_all add: line_request_def rq_reset_def)
  have many: "?r = None" if "\<not> length fs \<le> kMaxHeaders" using that by (intro run_fields_too_many) simp_all
  note fr = run_fields_framing [OF ok, of "[]" "line_request m u v" "length (method_bytes m) + length u + 11"]
  have framed_headers: "framed q fs (r\<lparr>rq_headers := h\<rparr>) = framed q fs r" for q r h by (simp add: framed_def)
  show "framed (line_request m u v) fs q" if val: "request_value m u v fs = Some q"
  proof -
    obtain hdrs req where r: "?r = Some (hdrs, req)" "q = req\<lparr>rq_headers := hdrs\<rparr>"
      using val by (auto simp: request_value_def split: option.splits if_splits)
    have "length fs \<le> kMaxHeaders" using many r(1) by fastforce
    with fr r show ?thesis by (simp add: framed_headers)
  qed
  show "request_value m u v fs \<noteq> None \<longleftrightarrow> length fs \<le> kMaxHeaders \<and> framing_ok fs"
  proof (cases "length fs \<le> kMaxHeaders")
    case False
    with many show ?thesis by (simp add: request_value_def)
  next
    case True
    show ?thesis
    proof (cases ?r)
      case None
      with fr True l have "\<not> (\<exists>n. set (lengths fs) \<subseteq> {Inr n})" by (auto simp: committed_def)
      with None show ?thesis by (auto simp: request_value_def framing_ok_def)
    next
      case (Some p)
      obtain hdrs req where p: "p = (hdrs, req)" by (cases p)
      have f: "framed (line_request m u v) fs req" using fr True Some p by simp
      have "\<exists>n. set (lengths fs) \<subseteq> {Inr n}" using f l by (cases "lengths fs = []") (auto simp: framed_def)
      moreover have "rq_chunked req \<and> rq_has_content_length req \<longleftrightarrow> lengths fs \<noteq> [] \<and> any_chunked fs"
        using f l by (auto simp: framed_def)
      ultimately show ?thesis using Some p True by (simp add: request_value_def framing_ok_def)
    qed
  qed
qed

text \<open>
  C2: The framing of a request cannot be read in two ways.  A well-formed request is accepted exactly when it has at
  most 64 header lines, all its \<open>Content-Length\<close> lines are decimal numbers of one value, and it has none if some
  \<open>Transfer-Encoding\<close> line names \<open>chunked\<close>; every other one is an error.  The request returned
  then carries that length, that coding, and the keep-alive decision of its \<open>Connection\<close> lines in order,
  starting from the default of its version.  Names and tokens are compared without case.
\<close>

theorem request_framing:
  assumes "request_ok m u v fs"
  shows "rr_status (parse_request (backend_scanner b) (request_bytes m u v fs @ rest) req0) =
      (if length fs \<le> kMaxHeaders \<and> framing_ok fs then PComplete else PError) \<and>
    (length fs \<le> kMaxHeaders \<and> framing_ok fs \<longrightarrow>
      (let q = rr_req (parse_request (backend_scanner b) (request_bytes m u v fs @ rest) req0) in
       (rq_has_content_length q \<longleftrightarrow> lengths fs \<noteq> []) \<and> (\<forall>x \<in> set (lengths fs). x = Inr (rq_content_length q)) \<and>
       (rq_chunked q \<longleftrightarrow> any_chunked fs) \<and> rq_keep_alive q = fold connection_step fs (v = Http11)))"
proof (cases "request_value m u v fs")
  case None
  then have "\<not> (length fs \<le> kMaxHeaders \<and> framing_ok fs)" using request_value_framing(1) [OF assms] by blast
  with backend.parse_request_reject [OF assms None, of b rest req0] show ?thesis by auto
next
  case (Some q)
  then have ok: "length fs \<le> kMaxHeaders \<and> framing_ok fs" using request_value_framing(1) [OF assms] by blast
  have p: "parse_request (backend_scanner b) (request_bytes m u v fs @ rest) req0 = req_ret PComplete (length (request_bytes m u v fs)) q"
    by (rule backend.parse_request_complete [OF assms Some])
  have f: "framed (line_request m u v) fs q" by (rule request_value_framing(2) [OF assms Some])
  have l: "\<not> rq_has_content_length (line_request m u v)" "\<not> rq_chunked (line_request m u v)"
    "rq_keep_alive (line_request m u v) = (v = Http11)" by (simp_all add: line_request_def rq_reset_def)
  have "\<forall>x \<in> set (lengths fs). x = Inr (rq_content_length q)" using f by (cases "lengths fs = []") (auto simp: framed_def)
  then show ?thesis using ok f l by (simp add: p Let_def framed_def)
qed

theorem request_framing_witness:
  "let fs = [\<lparr>f_name = ascii ''content-LENGTH'', f_ows = [SP], f_value = ascii ''12'', f_trail = []\<rparr>,
             \<lparr>f_name = ascii ''Content-Length'', f_ows = [], f_value = ascii ''12'', f_trail = []\<rparr>];
       q = rr_req (parse_request (backend_scanner SSE2) (request_bytes POST (ascii ''/'') Http11 fs @ []) rq_reset) in
   request_ok POST (ascii ''/'') Http11 fs \<and> framing_ok fs \<and> rq_has_content_length q \<and> rq_content_length q = 12 \<and> \<not> rq_chunked q"
proof -
  let ?fs = "[\<lparr>f_name = ascii ''content-LENGTH'', f_ows = [SP], f_value = ascii ''12'', f_trail = []\<rparr>,
             \<lparr>f_name = ascii ''Content-Length'', f_ows = [], f_value = ascii ''12'', f_trail = []\<rparr>]"
  have ok: "request_ok POST (ascii ''/'') Http11 ?fs" by code_simp
  have l: "lengths ?fs = [Inr 12, Inr 12]" and c: "\<not> any_chunked ?fs" by code_simp+
  have f: "framing_ok ?fs" using l c by (auto simp: framing_ok_def)
  have n: "length ?fs \<le> kMaxHeaders" by (simp add: kMaxHeaders_def)
  from request_framing [OF ok, of SSE2 "[]" rq_reset] ok f n l c show ?thesis by (simp add: Let_def)
qed

end
