(* ===== verification/Pools.thy ===== *)
theory Pools
  imports Rut_Prelude
begin

text \<open>
  The three pools of a shard: \<open>SlabPool\<close> (slab_pool.h), \<open>SlicePool\<close> (slice_pool.h) and
  \<open>UpstreamPool\<close> (upstream_pool.h).  Each keeps a stack of free indices and one in-use flag
  per slot.  A pointer into the pool is the index of its slot, or an offset where the code
  checks the pointer.  The system calls (\<open>mmap\<close>, \<open>mprotect\<close>) are arguments: whether
  the call succeeds.  The locale \<open>slot_pool\<close> states what the event loop relies on; its
  lemmas hold for the three pools.
\<close>

section \<open>The interface of a pool\<close>

text \<open>
  The requests of a client and what it observes.  The flag of \<open>Alloc\<close> says whether the
  kernel grants memory the pool asks for.
\<close>

datatype pool_op = Alloc bool | Free nat

datatype pool_event = Got nat | Exhausted bool | Freed nat

text \<open>The abstract allocator: the set of slots in use.\<close>

fun abs_event :: "nat \<Rightarrow> nat set \<Rightarrow> pool_event \<Rightarrow> nat set option" where
  "abs_event cap U (Got i) = (if i < cap \<and> i \<notin> U then Some (insert i U) else None)"
| "abs_event cap U (Exhausted granted) = (if U = {..<cap} \<or> \<not> granted then Some U else None)"
| "abs_event cap U (Freed i) = Some (U - {i})"

fun abs_events :: "nat \<Rightarrow> nat set \<Rightarrow> pool_event list \<Rightarrow> nat set option" where
  "abs_events cap U [] = Some U"
| "abs_events cap U (e # es) = (case abs_event cap U e of None \<Rightarrow> None | Some U' \<Rightarrow> abs_events cap U' es)"

fun pool_event_of :: "(bool \<Rightarrow> 's \<Rightarrow> nat option \<times> 's) \<Rightarrow> (nat \<Rightarrow> 's \<Rightarrow> 's) \<Rightarrow> 's \<Rightarrow> pool_op \<Rightarrow> pool_event \<times> 's" where
  "pool_event_of alloc free s (Alloc g) = (case alloc g s of (None, s') \<Rightarrow> (Exhausted g, s') | (Some i, s') \<Rightarrow> (Got i, s'))"
| "pool_event_of alloc free s (Free i) = (Freed i, free i s)"

fun pool_run :: "(bool \<Rightarrow> 's \<Rightarrow> nat option \<times> 's) \<Rightarrow> (nat \<Rightarrow> 's \<Rightarrow> 's) \<Rightarrow> 's \<Rightarrow> pool_op list \<Rightarrow> pool_event list \<times> 's" where
  "pool_run alloc free s [] = ([], s)"
| "pool_run alloc free s (r # rs) =
     (let (e, s1) = pool_event_of alloc free s r; (es, s2) = pool_run alloc free s1 rs in (e # es, s2))"

locale slot_pool =
  fixes cap :: nat
    and pinv :: "'s \<Rightarrow> bool"
    and used :: "'s \<Rightarrow> nat set"
    and alloc :: "bool \<Rightarrow> 's \<Rightarrow> nat option \<times> 's"
    and free :: "nat \<Rightarrow> 's \<Rightarrow> 's"
  assumes used_bound: "pinv s \<Longrightarrow> used s \<subseteq> {..<cap}"
    and alloc_some: "pinv s \<Longrightarrow> alloc g s = (Some i, s') \<Longrightarrow>
      i < cap \<and> i \<notin> used s \<and> used s' = insert i (used s) \<and> pinv s'"
    and alloc_none: "pinv s \<Longrightarrow> alloc g s = (None, s') \<Longrightarrow>
      (used s = {..<cap} \<or> \<not> g) \<and> used s' = used s \<and> pinv s'"
    and free_used: "pinv s \<Longrightarrow> used (free i s) = used s - {i} \<and> pinv (free i s)"
begin

lemma event_sim:
  assumes i: "pinv s" and e: "pool_event_of alloc free s r = (e, s')"
  shows "abs_event cap (used s) e = Some (used s') \<and> pinv s'"
proof (cases r)
  case (Alloc g)
  obtain res s1 where a: "alloc g s = (res, s1)" by fastforce
  show ?thesis
  proof (cases res)
    case None
    then have "e = Exhausted g" "s' = s1" using e a Alloc by simp_all
    then show ?thesis using alloc_none [OF i a [unfolded None]] by simp
  next
    case (Some k)
    then have "e = Got k" "s' = s1" using e a Alloc by simp_all
    then show ?thesis using alloc_some [OF i a [unfolded Some]] by simp
  qed
next
  case (Free k)
  then have "e = Freed k" "s' = free k s" using e by simp_all
  then show ?thesis using free_used [OF i, of k] by simp
qed

text \<open>Every run of the pool is a run of the abstract allocator.\<close>

lemma run_sim:
  "pinv s \<Longrightarrow> pool_run alloc free s rs = (es, s') \<Longrightarrow>
     abs_events cap (used s) es = Some (used s') \<and> pinv s'"
proof (induction rs arbitrary: s es s')
  case (Cons r rs)
  obtain e s1 where e: "pool_event_of alloc free s r = (e, s1)" by fastforce
  obtain es1 s2 where r: "pool_run alloc free s1 rs = (es1, s2)" by fastforce
  from event_sim [OF Cons.prems(1) e] Cons.IH [OF _ r] Cons.prems(2) e r show ?case by auto
qed simp

lemma alloc_live: "pinv s \<Longrightarrow> g \<Longrightarrow> used s \<noteq> {..<cap} \<Longrightarrow> \<exists>i s'. alloc g s = (Some i, s')"
proof -
  assume a: "pinv s" "g" "used s \<noteq> {..<cap}"
  obtain res s' where r: "alloc g s = (res, s')" by fastforce
  with alloc_none [OF a(1), of g s'] a(2,3) have "res \<noteq> None" by auto
  with r show "\<exists>i s'. alloc g s = (Some i, s')" by auto
qed

end

section \<open>SlabPool\<close>

text \<open>
  The state of \<open>SlabPool<T, Cap>\<close>; \<open>None\<close> is a null pointer.  The objects themselves are not
  touched by the pool.
\<close>

record slab_pool =
  sp_objects :: bool
  sp_free_stack :: "nat list option"
  sp_in_use_map :: "bool list option"
  sp_free_top :: nat

definition slab_empty :: slab_pool where
  "slab_empty = \<lparr>sp_objects = False, sp_free_stack = None, sp_in_use_map = None, sp_free_top = 0\<rparr>"

text \<open>\<open>init\<close> with the outcome of the three calls of \<open>mmap\<close>; \<open>Inl\<close> is an error.\<close>

definition slab_init :: "nat \<Rightarrow> bool \<Rightarrow> bool \<Rightarrow> bool \<Rightarrow> slab_pool \<Rightarrow> slab_pool + slab_pool" where
  "slab_init cap m1 m2 m3 p =
     (let p = p\<lparr>sp_free_top := cap\<rparr> in
      if \<not> m1 then Inl (p\<lparr>sp_free_top := 0\<rparr>)
      else let p = p\<lparr>sp_objects := True\<rparr> in
      if \<not> m2 then Inl (p\<lparr>sp_objects := False, sp_free_top := 0\<rparr>)
      else let p = p\<lparr>sp_free_stack := Some (replicate cap 0)\<rparr> in
      if \<not> m3 then Inl (p\<lparr>sp_free_stack := None, sp_objects := False, sp_free_top := 0\<rparr>)
      else let p = p\<lparr>sp_in_use_map := Some (replicate cap False)\<rparr> in
      Inr (p\<lparr>sp_free_stack := Some [0..<cap]\<rparr>))"

definition mark :: "nat \<Rightarrow> bool \<Rightarrow> bool list option \<Rightarrow> bool list option" where
  "mark i b m = (case m of None \<Rightarrow> None | Some u \<Rightarrow> Some (u[i := b]))"

definition slab_alloc_with_id :: "slab_pool \<Rightarrow> nat option \<times> slab_pool" where
  "slab_alloc_with_id p =
     (if sp_free_top p = 0 then (None, p)
      else let tp = sp_free_top p - 1; idx = the (sp_free_stack p) ! tp in
        (Some idx, p\<lparr>sp_free_top := tp, sp_in_use_map := mark idx True (sp_in_use_map p)\<rparr>))"

definition slab_alloc :: "slab_pool \<Rightarrow> nat option \<times> slab_pool" where
  "slab_alloc p =
     (if sp_free_top p = 0 then (None, p)
      else let tp = sp_free_top p - 1; idx = the (sp_free_stack p) ! tp in
        (Some idx, p\<lparr>sp_free_top := tp, sp_in_use_map := mark idx True (sp_in_use_map p)\<rparr>))"

definition is_free :: "nat \<Rightarrow> bool list option \<Rightarrow> bool" where
  "is_free i m = (case m of None \<Rightarrow> False | Some u \<Rightarrow> \<not> u ! i)"

definition slab_free :: "nat \<Rightarrow> nat \<Rightarrow> slab_pool \<Rightarrow> slab_pool" where
  "slab_free cap idx p =
     (if idx \<ge> cap \<or> sp_free_top p \<ge> cap \<or> sp_free_stack p = None then p
      else if is_free idx (sp_in_use_map p) then p
      else p\<lparr>sp_in_use_map := mark idx False (sp_in_use_map p),
             sp_free_stack := Some ((the (sp_free_stack p))[sp_free_top p := idx]),
             sp_free_top := sp_free_top p + 1\<rparr>)"

text \<open>\<open>free(T* obj)\<close>: the pointer is null or the offset of its element from \<open>objects\<close>.\<close>

definition slab_free_ptr :: "nat \<Rightarrow> int option \<Rightarrow> slab_pool \<Rightarrow> slab_pool" where
  "slab_free_ptr cap obj p =
     (case obj of
        None \<Rightarrow> p
      | Some off \<Rightarrow>
          if \<not> sp_objects p \<or> off < 0 \<or> off \<ge> int cap then p
          else let idx = nat off in
            if sp_free_top p \<ge> cap then p
            else if is_free idx (sp_in_use_map p) then p
            else p\<lparr>sp_in_use_map := mark idx False (sp_in_use_map p),
                   sp_free_stack := Some ((the (sp_free_stack p))[sp_free_top p := idx]),
                   sp_free_top := sp_free_top p + 1\<rparr>)"

definition slab_available :: "slab_pool \<Rightarrow> nat" where
  "slab_available p = sp_free_top p"

definition slab_in_use :: "nat \<Rightarrow> slab_pool \<Rightarrow> nat" where
  "slab_in_use cap p = cap - sp_free_top p"

definition slab_destroy :: "slab_pool \<Rightarrow> slab_pool" where
  "slab_destroy p = p\<lparr>sp_in_use_map := None, sp_free_stack := None, sp_objects := False, sp_free_top := 0\<rparr>"

section \<open>The stack of free slots\<close>

text \<open>
  The first \<open>tp\<close> entries of the stack are the free slots among the first \<open>n\<close>, each once; the
  flags of all other slots among them are set.
\<close>

definition stack_ok :: "nat \<Rightarrow> nat list \<Rightarrow> nat \<Rightarrow> bool list \<Rightarrow> bool" where
  "stack_ok n fs tp um \<longleftrightarrow> tp \<le> n \<and> n \<le> length fs \<and> n \<le> length um \<and> distinct (take tp fs) \<and>
     set (take tp fs) = {i. i < n \<and> \<not> um ! i} \<and> (\<forall>i < length um. n \<le> i \<longrightarrow> \<not> um ! i)"

definition set_flags :: "bool list \<Rightarrow> nat set" where
  "set_flags um = {i. i < length um \<and> um ! i}"

lemma set_flags_replicate [simp]: "set_flags (replicate n False) = {}"
  by (auto simp: set_flags_def)

lemma set_flags_update:
  "i < length um \<Longrightarrow> set_flags (um[i := b]) = (if b then insert i (set_flags um) else set_flags um - {i})"
  by (auto simp: set_flags_def nth_list_update)

lemma stack_flags_bound: "stack_ok n fs tp um \<Longrightarrow> set_flags um \<subseteq> {..<n}"
proof
  fix i assume "stack_ok n fs tp um" "i \<in> set_flags um"
  then show "i \<in> {..<n}" unfolding stack_ok_def set_flags_def by (metis (mono_tags, lifting) lessThan_iff mem_Collect_eq not_le)
qed

lemma stack_full: "stack_ok n fs 0 um \<Longrightarrow> set_flags um = {..<n}"
proof -
  assume s: "stack_ok n fs 0 um"
  then have "{i. i < n \<and> \<not> um ! i} = {}" "n \<le> length um" by (auto simp: stack_ok_def)
  then have "{..<n} \<subseteq> set_flags um" by (auto simp: set_flags_def)
  with stack_flags_bound [OF s] show ?thesis by blast
qed

lemma stack_pop:
  assumes s: "stack_ok n fs tp um" and "tp \<noteq> 0"
  defines "i \<equiv> fs ! (tp - 1)"
  shows "i < n" "\<not> um ! i" "stack_ok n fs (tp - 1) (um[i := True])" "set_flags (um[i := True]) = insert i (set_flags um)"
    "i \<notin> set_flags um"
proof -
  obtain t where t: "tp = Suc t" using assms(2) by (cases tp) auto
  have l: "t < length fs" "n \<le> length um" using s by (auto simp: stack_ok_def t)
  have tk: "take tp fs = take t fs @ [i]" using l by (simp add: t i_def take_Suc_conv_app_nth)
  have st: "set (take tp fs) = {i. i < n \<and> \<not> um ! i}" "distinct (take tp fs)" using s by (auto simp: stack_ok_def)
  then have "i \<in> {i. i < n \<and> \<not> um ! i}" unfolding tk by auto
  then show i: "i < n" "\<not> um ! i" by auto
  then show "i \<notin> set_flags um" by (simp add: set_flags_def)
  show "set_flags (um[i := True]) = insert i (set_flags um)" using i l by (simp add: set_flags_update)
  have d: "distinct (take t fs)" "i \<notin> set (take t fs)" using st(2) unfolding tk by auto
  have "set (take t fs) = {j. j < n \<and> \<not> um[i := True] ! j}"
  proof -
    have "set (take t fs) = set (take tp fs) - {i}" using d(2) unfolding tk by auto
    then show ?thesis unfolding st(1) using i l by (auto simp: nth_list_update)
  qed
  with s d(1) i(1) show "stack_ok n fs (tp - 1) (um[i := True])"
    by (auto simp: stack_ok_def t nth_list_update)
qed

lemma stack_push:
  assumes s: "stack_ok n fs tp um" and i: "i < n" "um ! i"
  shows "tp < n" "stack_ok n (fs[tp := i]) (tp + 1) (um[i := False])"
    "set_flags (um[i := False]) = set_flags um - {i}"
proof -
  have st: "set (take tp fs) = {i. i < n \<and> \<not> um ! i}" "distinct (take tp fs)" "tp \<le> n" "n \<le> length fs" "n \<le> length um"
    using s by (auto simp: stack_ok_def)
  have "tp = card (set (take tp fs))" using st(2-4) by (simp add: distinct_card)
  also have "\<dots> < card {..<n}" unfolding st(1) using i by (intro psubset_card_mono) auto
  finally show tp: "tp < n" by simp
  show "set_flags (um[i := False]) = set_flags um - {i}" using i st(5) by (simp add: set_flags_update)
  have tk: "take (tp + 1) (fs[tp := i]) = take tp fs @ [i]"
    using tp st(4) by (simp add: take_Suc_conv_app_nth)
  have "i \<notin> set (take tp fs)" unfolding st(1) using i by simp
  then have d: "distinct (take (tp + 1) (fs[tp := i]))" unfolding tk using st(2) by simp
  have "set (take (tp + 1) (fs[tp := i])) = {j. j < n \<and> \<not> um[i := False] ! j}"
    unfolding tk using st(1,5) i by (auto simp: nth_list_update)
  with d s tp i(1) show "stack_ok n (fs[tp := i]) (tp + 1) (um[i := False])"
    by (auto simp: stack_ok_def nth_list_update)
qed

lemma stack_init: "stack_ok cap [0..<cap] cap (replicate cap False)"
  by (auto simp: stack_ok_def)

subsection \<open>SlabPool is a pool\<close>

definition slab_ok :: "nat \<Rightarrow> slab_pool \<Rightarrow> bool" where
  "slab_ok cap p \<longleftrightarrow> sp_objects p \<and>
     (case (sp_free_stack p, sp_in_use_map p) of
        (Some fs, Some um) \<Rightarrow> length fs = cap \<and> length um = cap \<and> stack_ok cap fs (sp_free_top p) um
      | _ \<Rightarrow> False)"

definition slab_used :: "slab_pool \<Rightarrow> nat set" where
  "slab_used p = (case sp_in_use_map p of None \<Rightarrow> {} | Some um \<Rightarrow> set_flags um)"

lemma slab_okE:
  assumes "slab_ok cap p"
  obtains fs um where "sp_objects p" "sp_free_stack p = Some fs" "sp_in_use_map p = Some um"
    "length fs = cap" "length um = cap" "stack_ok cap fs (sp_free_top p) um"
  using assms by (auto simp: slab_ok_def split: option.splits)

lemma slab_free_ok:
  assumes "slab_ok cap p"
  shows "slab_used (slab_free cap i p) = slab_used p - {i} \<and> slab_ok cap (slab_free cap i p)"
proof -
  from assms obtain fs um where p: "sp_objects p" "sp_free_stack p = Some fs" "sp_in_use_map p = Some um"
    "length fs = cap" "length um = cap" "stack_ok cap fs (sp_free_top p) um" by (rule slab_okE)
  show ?thesis
  proof (cases "i < cap \<and> um ! i")
    case True
    with stack_push [OF p(6)] p show ?thesis
      by (auto simp: slab_free_def slab_used_def slab_ok_def is_free_def mark_def)
  next
    case False
    then have "i \<notin> set_flags um" by (auto simp: set_flags_def p)
    moreover have "slab_free cap i p = p" using False p by (auto simp: slab_free_def is_free_def)
    ultimately show ?thesis using assms p by (simp add: slab_used_def)
  qed
qed

lemma slab_alloc_ok:
  assumes "slab_ok cap p"
  shows "slab_alloc p = (Some i, p') \<Longrightarrow>
      i < cap \<and> i \<notin> slab_used p \<and> slab_used p' = insert i (slab_used p) \<and> slab_ok cap p'"
    and "slab_alloc p = (None, p') \<Longrightarrow> slab_used p = {..<cap} \<and> p' = p"
proof -
  from assms obtain fs um where p: "sp_objects p" "sp_free_stack p = Some fs" "sp_in_use_map p = Some um"
    "length fs = cap" "length um = cap" "stack_ok cap fs (sp_free_top p) um" by (rule slab_okE)
  show "i < cap \<and> i \<notin> slab_used p \<and> slab_used p' = insert i (slab_used p) \<and> slab_ok cap p'"
    if "slab_alloc p = (Some i, p')"
  proof -
    have t: "sp_free_top p \<noteq> 0" "i = fs ! (sp_free_top p - 1)"
      "p' = p\<lparr>sp_free_top := sp_free_top p - 1, sp_in_use_map := mark i True (sp_in_use_map p)\<rparr>"
      using that p by (auto simp: slab_alloc_def Let_def split: if_splits)
    from stack_pop [OF p(6) t(1), folded t(2)] p show ?thesis
      by (simp add: slab_used_def slab_ok_def t(3) mark_def)
  qed
  show "slab_used p = {..<cap} \<and> p' = p" if "slab_alloc p = (None, p')"
    using that p stack_full [of cap fs um] by (auto simp: slab_alloc_def Let_def slab_used_def split: if_splits)
qed

interpretation slab: slot_pool cap "slab_ok cap" slab_used "\<lambda>_. slab_alloc" "slab_free cap" for cap
proof
  fix s assume "slab_ok cap s"
  then show "slab_used s \<subseteq> {..<cap}"
    by (elim slab_okE) (simp add: slab_used_def stack_flags_bound)
qed (use slab_alloc_ok slab_free_ok in blast)+

section \<open>SlicePool\<close>

text \<open>
  The slices are committed in steps of \<open>kGrowStep\<close>; the counters are 32-bit values and their
  sums wrap.
\<close>

definition kSliceSize :: nat where
  "kSliceSize = 16384"

definition kGrowStep :: nat where
  "kGrowStep = 256"

record slice_pool =
  sl_base :: bool
  sl_free_stack :: "nat list option"
  sl_in_use_map :: "bool list option"
  sl_free_top :: nat
  sl_count :: nat
  sl_max_count :: nat

definition slice_empty :: slice_pool where
  "slice_empty = \<lparr>sl_base = False, sl_free_stack = None, sl_in_use_map = None, sl_free_top = 0,
     sl_count = 0, sl_max_count = 0\<rparr>"

abbreviation add32 :: "nat \<Rightarrow> nat \<Rightarrow> nat" where
  "add32 a b \<equiv> (a + b) mod 2 ^ 32"

text \<open>The loop that pushes the indices \<open>is\<close>.\<close>

fun push_all :: "nat list \<Rightarrow> nat list \<times> nat \<Rightarrow> nat list \<times> nat" where
  "push_all [] st = st"
| "push_all (i # is) (fs, tp) = push_all is (fs[tp := i], tp + 1)"

text \<open>\<open>grow\<close>; \<open>granted\<close> is the outcome of \<open>mprotect\<close>.\<close>

definition slice_grow :: "bool \<Rightarrow> slice_pool \<Rightarrow> bool \<times> slice_pool" where
  "slice_grow granted p =
     (if sl_count p \<ge> sl_max_count p then (False, p)
      else
        let step = (if add32 (sl_count p) kGrowStep > sl_max_count p
                    then sl_max_count p - sl_count p else kGrowStep)
        in if \<not> granted then (False, p)
           else
             let (fs, tp) = push_all [sl_count p..<add32 (sl_count p) step]
                              (the (sl_free_stack p), sl_free_top p)
             in (True, p\<lparr>sl_free_stack := Some fs, sl_free_top := tp,
                         sl_count := add32 (sl_count p) step\<rparr>))"

definition slice_destroy :: "slice_pool \<Rightarrow> slice_pool" where
  "slice_destroy p = p\<lparr>sl_in_use_map := None, sl_free_stack := None, sl_base := False,
     sl_free_top := 0, sl_count := 0, sl_max_count := 0\<rparr>"

text \<open>The loop of \<open>init\<close> that commits \<open>prealloc\<close> slices, one flag of \<open>mprotect\<close> per step.\<close>

fun prealloc_loop :: "(nat \<Rightarrow> bool) \<Rightarrow> nat \<Rightarrow> nat \<Rightarrow> slice_pool \<Rightarrow> slice_pool + slice_pool" where
  "prealloc_loop granted s 0 p = Inr p"
| "prealloc_loop granted s (Suc k) p =
     (if sl_count p < sl_max_count p then
        (case slice_grow (granted s) p of
           (False, p') \<Rightarrow> Inl (slice_destroy p')
         | (True, p') \<Rightarrow> prealloc_loop granted (Suc s) k p')
      else Inr p)"

definition slice_init ::
  "bool \<Rightarrow> bool \<Rightarrow> bool \<Rightarrow> (nat \<Rightarrow> bool) \<Rightarrow> nat \<Rightarrow> nat \<Rightarrow> slice_pool \<Rightarrow> slice_pool + slice_pool" where
  "slice_init m1 m2 m3 granted n prealloc p =
     (let p = p\<lparr>sl_max_count := n, sl_count := 0, sl_free_top := 0\<rparr> in
      if \<not> m1 then Inl p
      else let p = p\<lparr>sl_base := True\<rparr> in
      if \<not> m2 then Inl (p\<lparr>sl_base := False\<rparr>)
      else let p = p\<lparr>sl_free_stack := Some (replicate n 0)\<rparr> in
      if \<not> m3 then Inl (p\<lparr>sl_free_stack := None, sl_base := False\<rparr>)
      else let p = p\<lparr>sl_in_use_map := Some (replicate n False)\<rparr> in
      if prealloc > 0 then
        let prealloc = (if prealloc > n then n else prealloc);
            steps = add32 prealloc (kGrowStep - 1) div kGrowStep
        in prealloc_loop granted 0 steps p
      else Inr p)"

definition slice_alloc :: "bool \<Rightarrow> slice_pool \<Rightarrow> nat option \<times> slice_pool" where
  "slice_alloc granted p =
     (case (if sl_free_top p = 0 then slice_grow granted p else (True, p)) of
        (False, p') \<Rightarrow> (None, p')
      | (True, p') \<Rightarrow>
          let tp = sl_free_top p' - 1; idx = the (sl_free_stack p') ! tp in
          (Some (idx * kSliceSize), p'\<lparr>sl_free_top := tp, sl_in_use_map := mark idx True (sl_in_use_map p')\<rparr>))"

text \<open>\<open>free\<close>: the pointer is null or its offset from \<open>base\<close>.\<close>

definition slice_free :: "int option \<Rightarrow> slice_pool \<Rightarrow> slice_pool" where
  "slice_free ptr p =
     (case ptr of
        None \<Rightarrow> p
      | Some off \<Rightarrow>
          if \<not> sl_base p \<or> sl_free_stack p = None \<or> sl_count p = 0 then p
          else if off < 0 \<or> off \<ge> int (sl_count p * kSliceSize) then p
          else if nat off mod kSliceSize \<noteq> 0 then p
          else if sl_free_top p \<ge> sl_max_count p then p
          else let idx = nat off div kSliceSize in
            if is_free idx (sl_in_use_map p) then p
            else p\<lparr>sl_in_use_map := mark idx False (sl_in_use_map p),
                   sl_free_stack := Some ((the (sl_free_stack p))[sl_free_top p := idx]),
                   sl_free_top := sl_free_top p + 1\<rparr>)"

definition slice_in_use :: "slice_pool \<Rightarrow> nat" where
  "slice_in_use p = sl_count p - sl_free_top p"

subsection \<open>SlicePool is a pool\<close>

text \<open>
  The pool for a maximal count that leaves room for one step below \<open>2^32\<close>: 2^32 - 256
  slices are 64 TiB.
\<close>

definition slice_ok :: "nat \<Rightarrow> slice_pool \<Rightarrow> bool" where
  "slice_ok n p \<longleftrightarrow> sl_base p \<and> sl_max_count p = n \<and> n + kGrowStep \<le> 2 ^ 32 \<and> sl_count p \<le> n \<and>
     (case (sl_free_stack p, sl_in_use_map p) of
        (Some fs, Some um) \<Rightarrow> length fs = n \<and> length um = n \<and> stack_ok (sl_count p) fs (sl_free_top p) um
      | _ \<Rightarrow> False)"

definition slice_used :: "slice_pool \<Rightarrow> nat set" where
  "slice_used p = (case sl_in_use_map p of None \<Rightarrow> {} | Some um \<Rightarrow> set_flags um)"

lemma slice_okE:
  assumes "slice_ok n p"
  obtains fs um where "sl_base p" "sl_max_count p = n" "n + kGrowStep \<le> 2 ^ 32" "sl_count p \<le> n"
    "sl_free_stack p = Some fs" "sl_in_use_map p = Some um"
    "length fs = n" "length um = n" "stack_ok (sl_count p) fs (sl_free_top p) um"
  using assms by (auto simp: slice_ok_def split: option.splits)

lemma push_all_eq:
  "tp + length is \<le> length fs \<Longrightarrow> push_all is (fs, tp) = (take tp fs @ is @ drop (tp + length is) fs, tp + length is)"
proof (induction "is" arbitrary: fs tp)
  case (Cons i "is")
  have "take (tp + 1) (fs[tp := i]) = take tp fs @ [i]" "drop (tp + 1 + length is) (fs[tp := i]) = drop (tp + 1 + length is) fs"
    using Cons.prems by (simp_all add: take_Suc_conv_app_nth)
  with Cons.IH [of "tp + 1" "fs[tp := i]"] Cons.prems show ?case by simp
qed simp

lemma stack_grow:
  assumes s: "stack_ok c fs tp um" and c: "c \<le> c'" "c' \<le> length fs" "c' \<le> length um"
  shows "push_all [c..<c'] (fs, tp) = (take tp fs @ [c..<c'] @ drop (tp + (c' - c)) fs, tp + (c' - c))"
    and "stack_ok c' (take tp fs @ [c..<c'] @ drop (tp + (c' - c)) fs) (tp + (c' - c)) um"
proof -
  have st: "set (take tp fs) = {i. i < c \<and> \<not> um ! i}" "distinct (take tp fs)" "tp \<le> c"
    "\<forall>i < length um. c \<le> i \<longrightarrow> \<not> um ! i"
    using s by (auto simp: stack_ok_def)
  then show "push_all [c..<c'] (fs, tp) = (take tp fs @ [c..<c'] @ drop (tp + (c' - c)) fs, tp + (c' - c))"
    using push_all_eq [of tp "[c..<c']" fs] c by simp
  have t: "take (tp + (c' - c)) (take tp fs @ [c..<c'] @ drop (tp + (c' - c)) fs) = take tp fs @ [c..<c']"
    using st(3) c by simp
  have "set (take tp fs @ [c..<c']) = {i. i < c' \<and> \<not> um ! i}" using st c by auto
  moreover have "distinct (take tp fs @ [c..<c'])" using st by auto
  ultimately show "stack_ok c' (take tp fs @ [c..<c'] @ drop (tp + (c' - c)) fs) (tp + (c' - c)) um"
    unfolding stack_ok_def t using st(3,4) c by auto
qed

lemma slice_grow_ok:
  assumes "slice_ok n p" "slice_grow g p = (b, p')"
  shows "slice_ok n p'" "slice_used p' = slice_used p" "b \<longleftrightarrow> g \<and> sl_count p < n"
    "b \<Longrightarrow> sl_free_top p' \<noteq> 0" "\<not> b \<Longrightarrow> p' = p"
proof -
  from assms(1) obtain fs um where p: "sl_base p" "sl_max_count p = n" "n + kGrowStep \<le> 2 ^ 32" "sl_count p \<le> n"
    "sl_free_stack p = Some fs" "sl_in_use_map p = Some um" "length fs = n" "length um = n"
    "stack_ok (sl_count p) fs (sl_free_top p) um" by (rule slice_okE)
  define step where "step = (if add32 (sl_count p) kGrowStep > sl_max_count p then sl_max_count p - sl_count p else kGrowStep)"
  show "b \<longleftrightarrow> g \<and> sl_count p < n" "\<not> b \<Longrightarrow> p' = p"
    using assms(2) p(2) by (auto simp: slice_grow_def Let_def split: if_splits prod.splits)
  have ok: "slice_ok n p' \<and> slice_used p' = slice_used p \<and> sl_free_top p' \<noteq> 0" if b: "b"
  proof -
    have lt: "sl_count p < n" using b \<open>b \<longleftrightarrow> g \<and> sl_count p < n\<close> by simp
    have a: "add32 (sl_count p) kGrowStep = sl_count p + kGrowStep" using lt p(3) by simp
    have st: "sl_count p + step \<le> n" "0 < step" using lt a p(2) by (auto simp: step_def kGrowStep_def)
    have a': "add32 (sl_count p) step = sl_count p + step" using st(1) p(3) by (simp add: kGrowStep_def)
    note gr = stack_grow [OF p(9), of "sl_count p + step", unfolded p(7,8)]
    have g: "g" "\<not> sl_max_count p \<le> sl_count p" using b lt p(2) \<open>b \<longleftrightarrow> g \<and> sl_count p < n\<close> by auto
    have "slice_grow g p = (True, p\<lparr>sl_free_stack := Some (take (sl_free_top p) fs @
          [sl_count p..<sl_count p + step] @ drop (sl_free_top p + step) fs),
        sl_free_top := sl_free_top p + step, sl_count := sl_count p + step\<rparr>)"
      unfolding slice_grow_def Let_def step_def [symmetric] a' p(5) option.sel if_not_P [OF g(2)]
      using g(1) gr(1) st by simp
    then have "p' = p\<lparr>sl_free_stack := Some (take (sl_free_top p) fs @
          [sl_count p..<sl_count p + step] @ drop (sl_free_top p + step) fs),
        sl_free_top := sl_free_top p + step, sl_count := sl_count p + step\<rparr>" using assms(2) by simp
    moreover have "sl_free_top p \<le> sl_count p" using p(9) by (simp add: stack_ok_def)
    ultimately show ?thesis
      using gr(2) st p by (simp add: slice_ok_def slice_used_def)
  qed
  show "slice_ok n p'" "slice_used p' = slice_used p"
    using ok \<open>\<not> b \<Longrightarrow> p' = p\<close> assms(1) by (cases b; simp)+
  show "sl_free_top p' \<noteq> 0" if b using ok that by simp
qed

lemma slice_alloc_ok:
  assumes ok: "slice_ok n p"
  shows "slice_alloc g p = (Some off, p') \<Longrightarrow>
      \<exists>i. off = i * kSliceSize \<and> i < n \<and> i \<notin> slice_used p \<and> slice_used p' = insert i (slice_used p) \<and> slice_ok n p'"
    and "slice_alloc g p = (None, p') \<Longrightarrow> (slice_used p = {..<n} \<or> \<not> g) \<and> slice_used p' = slice_used p \<and> slice_ok n p'"
proof -
  obtain b q where q: "(if sl_free_top p = 0 then slice_grow g p else (True, p)) = (b, q)" by fastforce
  have inv: "slice_ok n q" "slice_used q = slice_used p"
    using q ok slice_grow_ok(1,2) [OF ok, of g b q] by (auto split: if_splits)
  have pos: "b \<Longrightarrow> sl_free_top q \<noteq> 0" using q slice_grow_ok(4) [OF ok, of g b q] by (auto split: if_splits)
  from inv(1) obtain fs um where p: "sl_base q" "sl_max_count q = n" "n + kGrowStep \<le> 2 ^ 32" "sl_count q \<le> n"
    "sl_free_stack q = Some fs" "sl_in_use_map q = Some um" "length fs = n" "length um = n"
    "stack_ok (sl_count q) fs (sl_free_top q) um" by (rule slice_okE)
  show "\<exists>i. off = i * kSliceSize \<and> i < n \<and> i \<notin> slice_used p \<and> slice_used p' = insert i (slice_used p) \<and> slice_ok n p'"
    if "slice_alloc g p = (Some off, p')"
  proof -
    have b: "b" using that unfolding slice_alloc_def q by (cases b) simp_all
    let ?i = "fs ! (sl_free_top q - 1)"
    have r: "off = ?i * kSliceSize"
      "p' = q\<lparr>sl_free_top := sl_free_top q - 1, sl_in_use_map := mark ?i True (sl_in_use_map q)\<rparr>"
      using that b p unfolding slice_alloc_def q by (auto simp: Let_def)
    from stack_pop [OF p(9) pos [OF b]] p inv r show ?thesis
      by (intro exI [of _ ?i]) (auto simp: slice_used_def slice_ok_def mark_def)
  qed
  show "(slice_used p = {..<n} \<or> \<not> g) \<and> slice_used p' = slice_used p \<and> slice_ok n p'"
    if "slice_alloc g p = (None, p')"
  proof -
    have b: "\<not> b" "p' = q" using that unfolding slice_alloc_def q by (auto simp: Let_def split: if_splits bool.splits)
    then have z: "sl_free_top p = 0" "slice_grow g p = (b, q)" using q by (auto split: if_splits)
    have "q = p" "\<not> (g \<and> sl_count p < n)" using slice_grow_ok(3,5) [OF ok z(2)] b by auto
    moreover have "slice_used p = {..<sl_count p}"
      using p stack_full [of "sl_count p" fs um] z(1) \<open>q = p\<close> by (simp add: slice_used_def)
    ultimately show ?thesis using inv b(2) p(4) by auto
  qed
qed

lemma slice_free_ok:
  assumes ok: "slice_ok n p"
  shows "slice_used (slice_free (Some (int (i * kSliceSize))) p) = slice_used p - {i} \<and>
     slice_ok n (slice_free (Some (int (i * kSliceSize))) p)"
proof -
  from ok obtain fs um where p: "sl_base p" "sl_max_count p = n" "n + kGrowStep \<le> 2 ^ 32" "sl_count p \<le> n"
    "sl_free_stack p = Some fs" "sl_in_use_map p = Some um" "length fs = n" "length um = n"
    "stack_ok (sl_count p) fs (sl_free_top p) um" by (rule slice_okE)
  have k: "0 < kSliceSize" by (simp add: kSliceSize_def)
  then have ge: "(int (i * kSliceSize) \<ge> int (sl_count p * kSliceSize)) = (sl_count p \<le> i)"
    unfolding of_nat_le_iff by simp
  have idx: "nat (int (i * kSliceSize)) = i * kSliceSize" "i * kSliceSize div kSliceSize = i" "\<not> i * kSliceSize mod kSliceSize \<noteq> 0" "\<not> int (i * kSliceSize) < 0"
    using k of_nat_0_le_iff [of "i * kSliceSize", where 'a = int] by (simp_all only: nat_int) auto
  have red: "slice_free (Some (int (i * kSliceSize))) p =
      (if sl_count p \<le> i \<or> n \<le> sl_free_top p \<or> \<not> um ! i then p
       else p\<lparr>sl_in_use_map := Some (um[i := False]), sl_free_stack := Some (fs[sl_free_top p := i]),
              sl_free_top := sl_free_top p + 1\<rparr>)"
    unfolding slice_free_def option.case ge idx(1,2) Let_def if_not_P [OF idx(3)] is_free_def mark_def p(2,5,6) option.sel
    using p(1) idx(4) by (cases "sl_count p = 0") simp_all
  show ?thesis
  proof (cases "i < sl_count p \<and> um ! i")
    case True
    with stack_push [OF p(9)] have s: "sl_free_top p < sl_count p"
      "stack_ok (sl_count p) (fs[sl_free_top p := i]) (sl_free_top p + 1) (um[i := False])"
      "set_flags (um[i := False]) = set_flags um - {i}" by blast+
    then have "slice_free (Some (int (i * kSliceSize))) p =
        p\<lparr>sl_in_use_map := Some (um[i := False]), sl_free_stack := Some (fs[sl_free_top p := i]),
          sl_free_top := sl_free_top p + 1\<rparr>"
      unfolding red using True p(4) by auto
    with s p show ?thesis by (simp add: slice_used_def slice_ok_def)
  next
    case False
    then have "i \<notin> set_flags um" using stack_flags_bound [OF p(9)] by (auto simp: set_flags_def)
    moreover have "slice_free (Some (int (i * kSliceSize))) p = p"
      unfolding red using False by (auto simp: not_less)
    ultimately show ?thesis using ok p by (simp add: slice_used_def)
  qed
qed

text \<open>The slice at an offset, for the interface.\<close>

definition slice_alloc_idx :: "bool \<Rightarrow> slice_pool \<Rightarrow> nat option \<times> slice_pool" where
  "slice_alloc_idx g p = map_prod (map_option (\<lambda>off. off div kSliceSize)) id (slice_alloc g p)"

definition slice_free_idx :: "nat \<Rightarrow> slice_pool \<Rightarrow> slice_pool" where
  "slice_free_idx i p = slice_free (Some (int (i * kSliceSize))) p"

interpretation slice: slot_pool n "slice_ok n" slice_used slice_alloc_idx slice_free_idx for n
proof
  fix s assume "slice_ok n s"
  then obtain fs um where "sl_count s \<le> n" "sl_in_use_map s = Some um" "stack_ok (sl_count s) fs (sl_free_top s) um"
    by (rule slice_okE)
  then show "slice_used s \<subseteq> {..<n}" using stack_flags_bound [of "sl_count s" fs "sl_free_top s" um]
    by (auto simp: slice_used_def)
next
  fix s g i s' assume a: "slice_ok n s" "slice_alloc_idx g s = (Some i, s')"
  then obtain off where "slice_alloc g s = (Some off, s')" "i = off div kSliceSize"
    by (cases "slice_alloc g s") (auto simp: slice_alloc_idx_def)
  moreover from slice_alloc_ok(1) [OF a(1) this(1)] obtain j where
    "off = j * kSliceSize" "j < n \<and> j \<notin> slice_used s \<and> slice_used s' = insert j (slice_used s) \<and> slice_ok n s'" by blast
  moreover have "j * kSliceSize div kSliceSize = j" by (simp add: kSliceSize_def)
  ultimately show "i < n \<and> i \<notin> slice_used s \<and> slice_used s' = insert i (slice_used s) \<and> slice_ok n s'"
    by simp
next
  fix s g s' assume a: "slice_ok n s" "slice_alloc_idx g s = (None, s')"
  then have "slice_alloc g s = (None, s')" by (cases "slice_alloc g s") (auto simp: slice_alloc_idx_def)
  then show "(slice_used s = {..<n} \<or> \<not> g) \<and> slice_used s' = slice_used s \<and> slice_ok n s'"
    by (rule slice_alloc_ok(2) [OF a(1)])
next
  fix s i assume "slice_ok n s"
  then show "slice_used (slice_free_idx i s) = slice_used s - {i} \<and> slice_ok n (slice_free_idx i s)"
    unfolding slice_free_idx_def by (rule slice_free_ok)
qed

section \<open>UpstreamPool\<close>

text \<open>
  \<open>up_closed\<close> is the sequence of descriptors the pool has closed; the owner of a slot sets
  its descriptor and its upstream, which \<open>upstream_connect\<close> stands for.
\<close>

definition kMaxConns :: nat where
  "kMaxConns = 4096"

record upstream_conn =
  uc_fd :: int
  uc_upstream_id :: u16
  uc_idle :: bool
  uc_allocated :: bool

record upstream_pool =
  up_conns :: "upstream_conn list"
  up_free_stack :: "nat list"
  up_free_top :: nat
  up_closed :: "int list"

definition upstream_reset :: "upstream_conn" where
  "upstream_reset = \<lparr>uc_fd = - 1, uc_upstream_id = 0, uc_idle = False, uc_allocated = False\<rparr>"

definition upstream_zero :: upstream_pool where
  "upstream_zero = \<lparr>up_conns = [], up_free_stack = [], up_free_top = 0, up_closed = []\<rparr>"

definition upstream_init :: "upstream_pool \<Rightarrow> upstream_pool" where
  "upstream_init p = p\<lparr>up_free_top := kMaxConns, up_conns := replicate kMaxConns upstream_reset,
     up_free_stack := [0..<kMaxConns]\<rparr>"

definition upstream_alloc :: "upstream_pool \<Rightarrow> nat option \<times> upstream_pool" where
  "upstream_alloc p =
     (if up_free_top p = 0 then (None, p)
      else let tp = up_free_top p - 1; idx = up_free_stack p ! tp in
        (Some idx, p\<lparr>up_free_top := tp,
           up_conns := (up_conns p)[idx := \<lparr>uc_fd = - 1, uc_upstream_id = 0, uc_idle = False, uc_allocated = True\<rparr>]\<rparr>))"

definition close_fd :: "int \<Rightarrow> upstream_pool \<Rightarrow> upstream_pool" where
  "close_fd fd p = (if fd \<ge> 0 then p\<lparr>up_closed := up_closed p @ [fd]\<rparr> else p)"

definition upstream_free :: "int option \<Rightarrow> upstream_pool \<Rightarrow> upstream_pool" where
  "upstream_free c p =
     (case c of
        None \<Rightarrow> p
      | Some off \<Rightarrow>
          if off < 0 \<or> off \<ge> int kMaxConns then p
          else let idx = nat off; conn = up_conns p ! idx in
            if \<not> uc_allocated conn then p
            else
              let p = close_fd (uc_fd conn) p;
                  conn = (if uc_fd conn \<ge> 0 then conn\<lparr>uc_fd := - 1\<rparr> else conn);
                  p = p\<lparr>up_conns := (up_conns p)[idx := conn\<lparr>uc_idle := False, uc_allocated := False\<rparr>]\<rparr>
              in if up_free_top p \<ge> kMaxConns then p
                 else p\<lparr>up_free_stack := (up_free_stack p)[up_free_top p := idx],
                        up_free_top := up_free_top p + 1\<rparr>)"

definition find_idle :: "u16 \<Rightarrow> upstream_pool \<Rightarrow> nat option \<times> upstream_pool" where
  "find_idle uid p =
     (case find (\<lambda>i. uc_idle (up_conns p ! i) \<and> uc_upstream_id (up_conns p ! i) = uid \<and> uc_fd (up_conns p ! i) \<ge> 0)
             [0..<kMaxConns] of
        None \<Rightarrow> (None, p)
      | Some i \<Rightarrow> (Some i, p\<lparr>up_conns := (up_conns p)[i := (up_conns p ! i)\<lparr>uc_idle := False\<rparr>]\<rparr>))"

definition return_idle :: "int option \<Rightarrow> upstream_pool \<Rightarrow> upstream_pool" where
  "return_idle c p =
     (case c of
        None \<Rightarrow> p
      | Some off \<Rightarrow>
          if off < 0 \<or> off \<ge> int kMaxConns then p
          else let idx = nat off; conn = up_conns p ! idx in
            if \<not> uc_allocated conn \<or> uc_fd conn < 0 then p
            else p\<lparr>up_conns := (up_conns p)[idx := conn\<lparr>uc_idle := True\<rparr>]\<rparr>)"

definition upstream_shutdown :: "upstream_pool \<Rightarrow> upstream_pool" where
  "upstream_shutdown p =
     p\<lparr>up_closed := up_closed p @ filter (\<lambda>fd. fd \<ge> 0) (map uc_fd (up_conns p)),
       up_conns := map (\<lambda>c. c\<lparr>uc_fd := (if uc_fd c \<ge> 0 then - 1 else uc_fd c), uc_idle := False,
                             uc_allocated := False, uc_upstream_id := 0\<rparr>) (up_conns p),
       up_free_top := kMaxConns,
       up_free_stack := [0..<kMaxConns]\<rparr>"

definition upstream_connect :: "nat \<Rightarrow> int \<Rightarrow> u16 \<Rightarrow> upstream_pool \<Rightarrow> upstream_pool" where
  "upstream_connect i fd uid p =
     (if i < kMaxConns \<and> uc_allocated (up_conns p ! i) \<and> uc_fd (up_conns p ! i) < 0 then
        p\<lparr>up_conns := (up_conns p)[i := (up_conns p ! i)\<lparr>uc_fd := fd, uc_upstream_id := uid\<rparr>]\<rparr>
      else p)"

subsection \<open>UpstreamPool is a pool\<close>

text \<open>Only a slot in use has a descriptor, and only a slot with a descriptor is idle.\<close>

definition conn_ok :: "upstream_conn \<Rightarrow> bool" where
  "conn_ok c \<longleftrightarrow> (\<not> uc_allocated c \<longrightarrow> uc_fd c < 0) \<and> (uc_idle c \<longrightarrow> uc_allocated c \<and> uc_fd c \<ge> 0)"

definition upstream_ok :: "upstream_pool \<Rightarrow> bool" where
  "upstream_ok p \<longleftrightarrow> length (up_conns p) = kMaxConns \<and> length (up_free_stack p) = kMaxConns \<and>
     list_all conn_ok (up_conns p) \<and>
     stack_ok kMaxConns (up_free_stack p) (up_free_top p) (map uc_allocated (up_conns p))"

definition upstream_used :: "upstream_pool \<Rightarrow> nat set" where
  "upstream_used p = set_flags (map uc_allocated (up_conns p))"

definition upstream_free_idx :: "nat \<Rightarrow> upstream_pool \<Rightarrow> upstream_pool" where
  "upstream_free_idx i p = upstream_free (Some (int i)) p"

lemma list_all_update: "list_all P xs \<Longrightarrow> P x \<Longrightarrow> list_all P (xs[i := x])"
  using set_update_subset_insert [of xs i x] by (auto simp: list_all_iff)

lemma upstream_init_ok: "upstream_ok (upstream_init p)" "upstream_used (upstream_init p) = {}"
  using stack_init [of kMaxConns]
  by (simp_all add: upstream_ok_def upstream_init_def upstream_used_def upstream_reset_def conn_ok_def list_all_iff)

lemma upstream_alloc_ok:
  assumes ok: "upstream_ok p"
  shows "upstream_alloc p = (Some i, p') \<Longrightarrow>
      i < kMaxConns \<and> i \<notin> upstream_used p \<and> upstream_used p' = insert i (upstream_used p) \<and> upstream_ok p'"
    and "upstream_alloc p = (None, p') \<Longrightarrow> upstream_used p = {..<kMaxConns} \<and> p' = p"
proof -
  let ?um = "map uc_allocated (up_conns p)"
  have p: "length (up_conns p) = kMaxConns" "length (up_free_stack p) = kMaxConns" "list_all conn_ok (up_conns p)"
    "stack_ok kMaxConns (up_free_stack p) (up_free_top p) ?um" using ok by (auto simp: upstream_ok_def)
  show "i < kMaxConns \<and> i \<notin> upstream_used p \<and> upstream_used p' = insert i (upstream_used p) \<and> upstream_ok p'"
    if "upstream_alloc p = (Some i, p')"
  proof -
    have t: "up_free_top p \<noteq> 0" "i = up_free_stack p ! (up_free_top p - 1)"
      "p' = p\<lparr>up_free_top := up_free_top p - 1,
         up_conns := (up_conns p)[i := \<lparr>uc_fd = - 1, uc_upstream_id = 0, uc_idle = False, uc_allocated = True\<rparr>]\<rparr>"
      using that by (auto simp: upstream_alloc_def Let_def split: if_splits)
    from stack_pop [OF p(4) t(1), folded t(2)] p show ?thesis
      by (simp add: upstream_used_def upstream_ok_def t(3) map_update list_all_update conn_ok_def)
  qed
  show "upstream_used p = {..<kMaxConns} \<and> p' = p" if "upstream_alloc p = (None, p')"
    using that p stack_full [of kMaxConns "up_free_stack p" ?um]
    by (auto simp: upstream_alloc_def Let_def upstream_used_def split: if_splits)
qed

lemma upstream_free_eq:
  assumes ok: "upstream_ok p" and i: "i \<in> upstream_used p"
  shows "upstream_free_idx i p = (close_fd (uc_fd (up_conns p ! i)) p)
     \<lparr>up_conns := (up_conns p)[i := (up_conns p ! i)
         \<lparr>uc_fd := (if uc_fd (up_conns p ! i) \<ge> 0 then - 1 else uc_fd (up_conns p ! i)), uc_idle := False, uc_allocated := False\<rparr>],
      up_free_stack := (up_free_stack p)[up_free_top p := i], up_free_top := up_free_top p + 1\<rparr>"
proof -
  have p: "length (up_conns p) = kMaxConns"
    "stack_ok kMaxConns (up_free_stack p) (up_free_top p) (map uc_allocated (up_conns p))"
    using ok by (auto simp: upstream_ok_def)
  have a: "i < kMaxConns" "uc_allocated (up_conns p ! i)" using i p(1) by (auto simp: upstream_used_def set_flags_def)
  then have "up_free_top p < kMaxConns" using stack_push(1) [OF p(2) a(1)] p(1) by simp
  with a show ?thesis
    by (simp add: upstream_free_idx_def upstream_free_def close_fd_def Let_def)
qed

lemma upstream_free_ok:
  assumes ok: "upstream_ok p"
  shows "upstream_used (upstream_free_idx i p) = upstream_used p - {i} \<and> upstream_ok (upstream_free_idx i p)"
proof -
  have p: "length (up_conns p) = kMaxConns" "length (up_free_stack p) = kMaxConns" "list_all conn_ok (up_conns p)"
    "stack_ok kMaxConns (up_free_stack p) (up_free_top p) (map uc_allocated (up_conns p))"
    using ok by (auto simp: upstream_ok_def)
  show ?thesis
  proof (cases "i \<in> upstream_used p")
    case True
    then have a: "i < kMaxConns" "map uc_allocated (up_conns p) ! i" using p(1) by (auto simp: upstream_used_def set_flags_def)
    have c: "up_conns (close_fd fd p) = up_conns p" "up_free_top (close_fd fd p) = up_free_top p" for fd
      by (simp_all add: close_fd_def)
    from stack_push [OF p(4) a] p show ?thesis
      by (simp add: upstream_free_eq [OF ok True] upstream_used_def upstream_ok_def map_update list_all_update conn_ok_def c)
  next
    case False
    then have "upstream_free_idx i p = p"
      using p(1) by (auto simp: upstream_free_idx_def upstream_free_def Let_def upstream_used_def set_flags_def)
    with False ok show ?thesis by simp
  qed
qed

interpretation upstream: slot_pool kMaxConns upstream_ok upstream_used "\<lambda>_. upstream_alloc" upstream_free_idx
proof
  fix s assume "upstream_ok s"
  then show "upstream_used s \<subseteq> {..<kMaxConns}"
    unfolding upstream_ok_def upstream_used_def by (intro stack_flags_bound) blast
qed (use upstream_alloc_ok upstream_free_ok in blast)+

section \<open>Properties\<close>

lemma slab_init_ok: "slab_init cap m1 m2 m3 p0 = Inr p \<Longrightarrow> slab_ok cap p \<and> slab_used p = {}"
  using stack_init [of cap]
  by (auto simp: slab_init_def Let_def slab_ok_def slab_used_def split: if_splits)

lemma prealloc_loop_ok:
  "slice_ok n p \<Longrightarrow> slice_used p = {} \<Longrightarrow> prealloc_loop g s k p = Inr q \<Longrightarrow> slice_ok n q \<and> slice_used q = {}"
proof (induction k arbitrary: s p)
  case (Suc k)
  obtain b p' where gr: "slice_grow (g s) p = (b, p')" by fastforce
  note go = slice_grow_ok [OF Suc.prems(1) gr]
  show ?case
  proof (cases "sl_count p < sl_max_count p \<and> b")
    case True
    with Suc.prems(3) gr have "prealloc_loop g (Suc s) k p' = Inr q" by simp
    with Suc.IH [of p' "Suc s"] go(1,2) Suc.prems(2) show ?thesis by simp
  next
    case False
    with Suc.prems gr show ?thesis by (cases b) (auto split: if_splits)
  qed
qed simp

lemma slice_init_ok:
  assumes "slice_init m1 m2 m3 g n pre p0 = Inr p" "n + kGrowStep \<le> 2 ^ 32"
  shows "slice_ok n p \<and> slice_used p = {}"
proof -
  let ?p = "p0\<lparr>sl_max_count := n, sl_count := 0, sl_free_top := 0, sl_base := True,
      sl_free_stack := Some (replicate n 0), sl_in_use_map := Some (replicate n False)\<rparr>"
  have ok: "slice_ok n ?p" "slice_used ?p = {}"
    using assms(2) by (auto simp: slice_ok_def slice_used_def stack_ok_def)
  from assms(1) have "p = ?p \<or> (\<exists>k. prealloc_loop g 0 k ?p = Inr p)"
    by (auto simp: slice_init_def Let_def split: if_splits)
  with ok prealloc_loop_ok [OF ok] show ?thesis by blast
qed

text \<open>
  C9: From a successful \<open>init\<close>, whatever the sequence of allocations and frees (double
  frees and frees of slots never handed out included) and whatever the kernel answers, the
  three pools behave as the abstract allocator on a set of slots: a slot in use is never
  handed out again, a freed slot becomes free, and an allocation fails only when every slot is in
  use or the kernel refuses memory.  The in-use flags are exactly the abstract set.
\<close>

theorem pools_refine_allocator:
  assumes "slab_init cap m1 m2 m3 p0 = Inr p"
    and "slice_init m1' m2' m3' g n pre q0 = Inr q" "n + kGrowStep \<le> 2 ^ 32"
  shows "abs_events cap {} (fst (pool_run (\<lambda>_. slab_alloc) (slab_free cap) p rs)) =
           Some (slab_used (snd (pool_run (\<lambda>_. slab_alloc) (slab_free cap) p rs))) \<and>
         abs_events n {} (fst (pool_run slice_alloc_idx slice_free_idx q rs)) =
           Some (slice_used (snd (pool_run slice_alloc_idx slice_free_idx q rs))) \<and>
         abs_events kMaxConns {} (fst (pool_run (\<lambda>_. upstream_alloc) upstream_free_idx (upstream_init u) rs)) =
           Some (upstream_used (snd (pool_run (\<lambda>_. upstream_alloc) upstream_free_idx (upstream_init u) rs)))"
proof (intro conjI)
  note s = slab_init_ok [OF assms(1)] and l = slice_init_ok [OF assms(2,3)]
  show "abs_events cap {} (fst (pool_run (\<lambda>_. slab_alloc) (slab_free cap) p rs)) =
      Some (slab_used (snd (pool_run (\<lambda>_. slab_alloc) (slab_free cap) p rs)))"
    using slab.run_sim [of cap p rs] s by (metis prod.collapse)
  show "abs_events n {} (fst (pool_run slice_alloc_idx slice_free_idx q rs)) =
      Some (slice_used (snd (pool_run slice_alloc_idx slice_free_idx q rs)))"
    using slice.run_sim [of n q rs] l by (metis prod.collapse)
  show "abs_events kMaxConns {} (fst (pool_run (\<lambda>_. upstream_alloc) upstream_free_idx (upstream_init u) rs)) =
      Some (upstream_used (snd (pool_run (\<lambda>_. upstream_alloc) upstream_free_idx (upstream_init u) rs)))"
    using upstream.run_sim [of "upstream_init u" rs] upstream_init_ok by (metis prod.collapse)
qed

theorem pools_refine_allocator_witness:
  "\<exists>p. slab_init 2 True True True slab_empty = Inr p \<and>
     abs_events 2 {} (fst (pool_run (\<lambda>_. slab_alloc) (slab_free 2) p [Alloc True, Free 1, Free 1, Alloc True])) \<noteq> None"
proof -
  obtain q where l: "slice_init True True True (\<lambda>_. True) 3 0 slice_empty = Inr q" by (simp add: slice_init_def)
  obtain p where s: "slab_init 2 True True True slab_empty = Inr p" by (simp add: slab_init_def)
  have b: "(3 :: nat) + kGrowStep \<le> 2 ^ 32" by (simp add: kGrowStep_def)
  from pools_refine_allocator [OF s l b, of "[Alloc True, Free 1, Free 1, Alloc True]"] s show ?thesis by blast
qed

lemma slab_free_ignored:
  assumes "slab_ok cap p" "i \<notin> slab_used p"
  shows "slab_free cap i p = p" "slab_free_ptr cap (Some (int i)) p = p"
proof -
  from assms(1) obtain fs um where p: "sp_objects p" "sp_free_stack p = Some fs" "sp_in_use_map p = Some um"
    "length fs = cap" "length um = cap" "stack_ok cap fs (sp_free_top p) um" by (rule slab_okE)
  have "\<not> (i < cap \<and> um ! i)" using assms(2) p by (simp add: slab_used_def set_flags_def)
  then show "slab_free cap i p = p" "slab_free_ptr cap (Some (int i)) p = p"
    using p(1-3) by (auto simp: slab_free_def slab_free_ptr_def is_free_def Let_def)
qed

lemma slice_free_unused:
  assumes "slice_ok n q" "i \<notin> slice_used q"
  shows "slice_free (Some (int (i * kSliceSize))) q = q"
proof -
  from assms(1) obtain fs um where q: "sl_base q" "sl_max_count q = n" "n + kGrowStep \<le> 2 ^ 32" "sl_count q \<le> n"
    "sl_free_stack q = Some fs" "sl_in_use_map q = Some um" "length fs = n" "length um = n"
    "stack_ok (sl_count q) fs (sl_free_top q) um" by (rule slice_okE)
  have u: "i < sl_count q \<Longrightarrow> \<not> um ! i" using assms(2) q by (simp add: slice_used_def set_flags_def)
  have ge: "sl_count q \<le> i \<Longrightarrow> int (i * kSliceSize) \<ge> int (sl_count q * kSliceSize)"
    unfolding of_nat_le_iff by simp
  have idx: "nat (int (i * kSliceSize)) div kSliceSize = i" unfolding nat_int by (simp add: kSliceSize_def)
  show ?thesis
  proof (cases "i < sl_count q")
    case True
    then show ?thesis unfolding slice_free_def option.case Let_def is_free_def q(6) idx using u by simp
  next
    case False
    then have "int (i * kSliceSize) < 0 \<or> int (i * kSliceSize) \<ge> int (sl_count q * kSliceSize)" using ge by simp
    then show ?thesis unfolding slice_free_def option.case by (simp only: if_True if_cancel)
  qed
qed

lemma slice_free_unaligned: "off mod int kSliceSize \<noteq> 0 \<Longrightarrow> slice_free (Some off) q = q"
proof -
  assume o: "off mod int kSliceSize \<noteq> 0"
  show ?thesis
  proof (cases "off < 0")
    case False
    then obtain k where k: "off = int k" by (metis nonneg_int_cases not_less)
    have "k mod kSliceSize \<noteq> 0" using o unfolding k zmod_int [symmetric] by (simp only: of_nat_eq_0_iff not_False_eq_True)
    then show ?thesis unfolding slice_free_def option.case k nat_int by (simp only: if_True if_cancel not_False_eq_True)
  qed (simp add: slice_free_def)
qed

text \<open>
  C23: A free of a slot that is not in use, of a pointer outside the pool, of a null pointer
  or of a pointer inside a slice changes nothing, in each of the pools.
\<close>

theorem pool_free_ignored:
  assumes "slab_ok cap p" "slice_ok n q" "upstream_ok u"
    and "i \<notin> slab_used p" "j \<notin> slice_used q" "k \<notin> upstream_used u" "off mod int kSliceSize \<noteq> 0" "neg < 0"
  shows "slab_free cap i p = p \<and> slab_free_ptr cap (Some (int i)) p = p \<and>
     slice_free (Some (int (j * kSliceSize))) q = q \<and> slice_free (Some off) q = q \<and>
     upstream_free (Some (int k)) u = u \<and>
     slab_free_ptr cap (Some neg) p = p \<and> slice_free (Some neg) q = q \<and> upstream_free (Some neg) u = u \<and>
     slab_free_ptr cap None p = p \<and> slice_free None q = q \<and> upstream_free None u = u"
proof -
  have "upstream_free (Some (int k)) u = u"
    using assms(3,6) by (auto simp: upstream_ok_def upstream_free_def Let_def upstream_used_def set_flags_def)
  moreover have "slab_free_ptr cap (Some neg) p = p" "slice_free (Some neg) q = q" "upstream_free (Some neg) u = u"
    "slab_free_ptr cap None p = p" "slice_free None q = q" "upstream_free None u = u"
    using assms(8) by (simp_all add: slab_free_ptr_def slice_free_def upstream_free_def)
  ultimately show ?thesis
    using slab_free_ignored [OF assms(1,4)] slice_free_unused [OF assms(2,5)] slice_free_unaligned [OF assms(7), of q]
    by blast
qed

theorem pool_free_ignored_witness:
  "\<exists>p q. slab_init 2 True True True slab_empty = Inr p \<and> slice_init True True True (\<lambda>_. True) 3 0 slice_empty = Inr q \<and>
     slab_free 2 1 p = p \<and> slice_free (Some 7) q = q \<and> upstream_free (Some (int 5)) (upstream_init upstream_zero) = upstream_init upstream_zero"
proof -
  obtain q where l: "slice_init True True True (\<lambda>_. True) 3 0 slice_empty = Inr q" by (simp add: slice_init_def)
  obtain p where s: "slab_init 2 True True True slab_empty = Inr p" by (simp add: slab_init_def)
  have b: "(3 :: nat) + kGrowStep \<le> 2 ^ 32" by (simp add: kGrowStep_def)
  have o: "(7 :: int) mod int kSliceSize \<noteq> 0" "(- 1 :: int) < 0" by (simp_all add: kSliceSize_def)
  note so = slab_init_ok [OF s] and lo = slice_init_ok [OF l b]
  have e: "1 \<notin> slab_used p" "0 \<notin> slice_used q" "5 \<notin> upstream_used (upstream_init upstream_zero)"
    using so lo upstream_init_ok(2) by simp_all
  from pool_free_ignored [OF conjunct1 [OF so] conjunct1 [OF lo] upstream_init_ok(1) e o] s l show ?thesis by blast
qed

text \<open>The idle connections.\<close>

lemma find_idle_Some:
  assumes "find_idle uid p = (Some i, p')"
  shows "i < kMaxConns" "uc_idle (up_conns p ! i)" "uc_upstream_id (up_conns p ! i) = uid" "uc_fd (up_conns p ! i) \<ge> 0"
    "p' = p\<lparr>up_conns := (up_conns p)[i := (up_conns p ! i)\<lparr>uc_idle := False\<rparr>]\<rparr>"
  using assms by (auto simp: find_idle_def find_Some_iff split: option.splits)

lemma find_idle_None:
  "find_idle uid p = (None, p') \<Longrightarrow> i < kMaxConns \<Longrightarrow>
     \<not> (uc_idle (up_conns p ! i) \<and> uc_upstream_id (up_conns p ! i) = uid \<and> uc_fd (up_conns p ! i) \<ge> 0)"
  by (auto simp: find_idle_def find_None_iff split: option.splits)

lemma upstream_update_ok:
  assumes "upstream_ok p" "i < kMaxConns" "conn_ok c" "uc_allocated c = uc_allocated (up_conns p ! i)"
  shows "upstream_ok (p\<lparr>up_conns := (up_conns p)[i := c]\<rparr>)"
    "upstream_used (p\<lparr>up_conns := (up_conns p)[i := c]\<rparr>) = upstream_used p"
proof -
  have "map uc_allocated ((up_conns p)[i := c]) = map uc_allocated (up_conns p)"
    using assms(1,2,4) by (simp add: map_update upstream_ok_def list_update_same_conv)
  then show "upstream_ok (p\<lparr>up_conns := (up_conns p)[i := c]\<rparr>)"
    "upstream_used (p\<lparr>up_conns := (up_conns p)[i := c]\<rparr>) = upstream_used p"
    using assms by (simp_all add: upstream_ok_def upstream_used_def list_all_update)
qed

text \<open>
  The operations of the pool and of the owners of its slots, in any order; \<open>up_found\<close> is what
  the calls of \<open>find_idle\<close> among them hand out.
\<close>

datatype up_op =
  UpAlloc | UpFree "int option" | UpConnect nat int u16 | UpFind u16 | UpReturn "int option" | UpShutdown

definition up_step :: "up_op \<Rightarrow> upstream_pool \<Rightarrow> nat option \<times> upstream_pool" where
  "up_step x p =
     (case x of
        UpAlloc \<Rightarrow> (None, snd (upstream_alloc p))
      | UpFree c \<Rightarrow> (None, upstream_free c p)
      | UpConnect i fd uid \<Rightarrow> (None, upstream_connect i fd uid p)
      | UpFind uid \<Rightarrow> find_idle uid p
      | UpReturn c \<Rightarrow> (None, return_idle c p)
      | UpShutdown \<Rightarrow> (None, upstream_shutdown p))"

fun up_found :: "up_op list \<Rightarrow> upstream_pool \<Rightarrow> nat option list" where
  "up_found [] p = []"
| "up_found (x # xs) p = fst (up_step x p) # up_found xs (snd (up_step x p))"

text \<open>Only \<open>return_idle\<close> makes a connection idle.\<close>

definition busy :: "nat \<Rightarrow> upstream_pool \<Rightarrow> bool" where
  "busy i p \<longleftrightarrow> length (up_conns p) = kMaxConns \<and> i < kMaxConns \<and> \<not> uc_idle (up_conns p ! i)"

lemma nth_update_in: "j < length xs \<Longrightarrow> xs[i := x] ! j = (if i = j then x else xs ! j)"
  by auto

lemma up_step_busy:
  assumes "busy i p" "x \<noteq> UpReturn (Some (int i))"
  shows "busy i (snd (up_step x p)) \<and> fst (up_step x p) \<noteq> Some i"
proof (cases x)
  case UpAlloc
  then show ?thesis using assms(1) by (auto simp: busy_def up_step_def upstream_alloc_def Let_def nth_update_in)
next
  case (UpFree c)
  then show ?thesis
    using assms(1) by (auto simp: busy_def up_step_def upstream_free_def close_fd_def Let_def nth_update_in split: option.split)
next
  case (UpConnect j fd uid)
  then show ?thesis using assms(1) by (auto simp: busy_def up_step_def upstream_connect_def nth_update_in)
next
  case (UpFind uid)
  then show ?thesis
    using assms(1) by (auto simp: busy_def up_step_def find_idle_def find_Some_iff nth_update_in split: option.split)
next
  case (UpReturn c)
  then show ?thesis
    using assms by (auto simp: busy_def up_step_def return_idle_def Let_def nth_update_in split: option.split)
next
  case UpShutdown
  then show ?thesis using assms(1) by (auto simp: busy_def up_step_def upstream_shutdown_def)
qed

lemma up_found_busy:
  "busy i p \<Longrightarrow> UpReturn (Some (int i)) \<notin> set xs \<Longrightarrow> Some i \<notin> set (up_found xs p)"
proof (induction xs arbitrary: p)
  case (Cons x xs)
  then have "x \<noteq> UpReturn (Some (int i))" by auto
  from up_step_busy [OF Cons.prems(1) this] show ?case using Cons by auto
qed simp

text \<open>
  C24: \<open>find_idle\<close> hands out a connection that is in use, idle, open and of the upstream asked for,
  marks it busy and changes nothing else; it finds nothing exactly when there is no such
  connection.  A connection that was handed out is not handed out again before it is
  returned, whatever the pool and the owners of its slots do in between.
\<close>

theorem find_idle_exclusive:
  assumes "upstream_ok p" "find_idle uid p = (r, p')"
  shows "upstream_ok p' \<and>
     (case r of
        Some i \<Rightarrow> i \<in> upstream_used p \<and> uc_idle (up_conns p ! i) \<and> uc_fd (up_conns p ! i) \<ge> 0 \<and>
          uc_upstream_id (up_conns p ! i) = uid \<and>
          p' = p\<lparr>up_conns := (up_conns p)[i := (up_conns p ! i)\<lparr>uc_idle := False\<rparr>]\<rparr> \<and>
          (\<forall>ops. UpReturn (Some (int i)) \<notin> set ops \<longrightarrow> Some i \<notin> set (up_found ops p'))
      | None \<Rightarrow> p' = p \<and> (\<forall>i < kMaxConns. \<not> (uc_idle (up_conns p ! i) \<and> uc_upstream_id (up_conns p ! i) = uid)))"
proof (cases r)
  case None
  then have f: "find_idle uid p = (None, p')" using assms(2) by simp
  then have "p' = p" by (auto simp: find_idle_def split: option.splits)
  moreover have "\<not> (uc_idle (up_conns p ! i) \<and> uc_upstream_id (up_conns p ! i) = uid)" if i: "i < kMaxConns" for i
  proof -
    have "conn_ok (up_conns p ! i)" using assms(1) i by (simp add: upstream_ok_def list_all_length)
    with find_idle_None [OF f i] show ?thesis by (auto simp: conn_ok_def)
  qed
  ultimately show ?thesis using assms(1) None by simp
next
  case (Some i)
  note f = find_idle_Some [OF assms(2) [unfolded Some]]
  have l: "length (up_conns p) = kMaxConns" using assms(1) by (simp add: upstream_ok_def)
  have c: "conn_ok (up_conns p ! i)" using assms(1) f(1) by (simp add: upstream_ok_def list_all_length)
  then have c': "conn_ok ((up_conns p ! i)\<lparr>uc_idle := False\<rparr>)" and a: "uc_allocated (up_conns p ! i)"
    using f(2) by (auto simp: conn_ok_def)
  have "upstream_ok p'" using upstream_update_ok(1) [OF assms(1) f(1) c', folded f(5)] by simp
  moreover have "busy i p'" using f(1) l by (simp add: busy_def f(5))
  moreover have "i \<in> upstream_used p" using a f(1) l by (simp add: upstream_used_def set_flags_def)
  ultimately show ?thesis using f up_found_busy Some by simp
qed

lemma upstream_connect_ok:
  assumes "upstream_ok p" "i < kMaxConns" "uc_allocated (up_conns p ! i)" "uc_fd (up_conns p ! i) < 0" "fd \<ge> 0"
  shows "upstream_ok (upstream_connect i fd uid p)"
    "up_conns (upstream_connect i fd uid p) ! i = (up_conns p ! i)\<lparr>uc_fd := fd, uc_upstream_id := uid\<rparr>"
    "uc_idle (up_conns p ! i) = False"
proof -
  have "conn_ok (up_conns p ! i)" "length (up_conns p) = kMaxConns"
    using assms(1,2) by (simp_all add: upstream_ok_def list_all_length)
  moreover from this show "uc_idle (up_conns p ! i) = False" using assms(4) by (auto simp: conn_ok_def)
  ultimately show "upstream_ok (upstream_connect i fd uid p)"
    "up_conns (upstream_connect i fd uid p) ! i = (up_conns p ! i)\<lparr>uc_fd := fd, uc_upstream_id := uid\<rparr>"
    using assms upstream_update_ok(1) [OF assms(1,2), of "(up_conns p ! i)\<lparr>uc_fd := fd, uc_upstream_id := uid\<rparr>"]
    by (auto simp: upstream_connect_def conn_ok_def)
qed

lemma return_idle_ok:
  assumes "upstream_ok p" "i < kMaxConns"
  shows "upstream_ok (return_idle (Some (int i)) p)"
    "uc_allocated (up_conns p ! i) \<Longrightarrow> uc_fd (up_conns p ! i) \<ge> 0 \<Longrightarrow>
       up_conns (return_idle (Some (int i)) p) ! i = (up_conns p ! i)\<lparr>uc_idle := True\<rparr>"
proof -
  have l: "length (up_conns p) = kMaxConns" using assms(1) by (simp add: upstream_ok_def)
  show "upstream_ok (return_idle (Some (int i)) p)"
    using assms upstream_update_ok(1) [OF assms, of "(up_conns p ! i)\<lparr>uc_idle := True\<rparr>"]
    by (auto simp: return_idle_def Let_def conn_ok_def not_less)
  show "up_conns (return_idle (Some (int i)) p) ! i = (up_conns p ! i)\<lparr>uc_idle := True\<rparr>"
    if "uc_allocated (up_conns p ! i)" "uc_fd (up_conns p ! i) \<ge> 0"
    using that assms(2) l by (auto simp: return_idle_def Let_def)
qed

theorem find_idle_exclusive_witness:
  "\<exists>i p p'. upstream_ok p \<and> find_idle 3 p = (Some i, p') \<and> uc_idle (up_conns p ! i) \<and>
     Some i \<notin> set (up_found [UpFind 3, UpAlloc, UpFree (Some (int i)), UpFind 3] p')"
proof -
  obtain i p where a: "upstream_alloc (upstream_init upstream_zero) = (Some i, p)"
    by (simp add: upstream_alloc_def upstream_init_def kMaxConns_def Let_def)
  then have ok: "upstream_ok p" "i < kMaxConns" using upstream_alloc_ok(1) [OF upstream_init_ok(1) a] by simp_all
  have l: "length (up_conns (upstream_init upstream_zero)) = kMaxConns" by (simp add: upstream_init_def)
  then have c: "up_conns p ! i = \<lparr>uc_fd = - 1, uc_upstream_id = 0, uc_idle = False, uc_allocated = True\<rparr>"
    using a ok(2) by (auto simp: upstream_alloc_def Let_def split: if_splits)
  let ?q = "upstream_connect i 12 3 p" and ?r = "return_idle (Some (int i)) (upstream_connect i 12 3 p)"
  have q: "upstream_ok ?q" "up_conns ?q ! i = \<lparr>uc_fd = 12, uc_upstream_id = 3, uc_idle = False, uc_allocated = True\<rparr>"
    using upstream_connect_ok(1,2) [OF ok, of 12 3] c by simp_all
  have r: "upstream_ok ?r" "up_conns ?r ! i = \<lparr>uc_fd = 12, uc_upstream_id = 3, uc_idle = True, uc_allocated = True\<rparr>"
    using return_idle_ok [OF q(1) ok(2)] q(2) by simp_all
  obtain res s where f: "find_idle 3 ?r = (res, s)" by fastforce
  note e = find_idle_exclusive [OF r(1) f]
  have "res \<noteq> None"
  proof
    assume "res = None"
    with e r(2) ok(2) show False by auto
  qed
  then obtain k where k: "res = Some k" by blast
  have o: "UpReturn (Some (int k)) \<notin> set [UpFind 3, UpAlloc, UpFree (Some (int k)), UpFind 3]" by simp
  have x: "uc_idle (up_conns ?r ! k)" "\<forall>ops. UpReturn (Some (int k)) \<notin> set ops \<longrightarrow> Some k \<notin> set (up_found ops s)"
    using e unfolding k option.case by blast+
  have "Some k \<notin> set (up_found [UpFind 3, UpAlloc, UpFree (Some (int k)), UpFind 3] s)"
    using x(2) o by blast
  with x(1) k f r(1) show ?thesis by blast
qed

end
