(* ===== verification/Ring_Buffers.thy ===== *)
theory Ring_Buffers
  imports Rut_Prelude "HOL-Library.Sublist"
begin

text \<open>
  The single-producer single-consumer rings of a shard: \<open>AccessLogRing\<close> (access_log.h,
  access_log.cc) and \<open>CaptureRing\<close> (traffic_capture.h).  The operations as a whole, and
  the loads and stores of the two threads as a step relation whose runs are all their
  interleavings; the atomics order the steps (acquire loads, release stores).  The positions are
  32-bit values that wrap.
\<close>

section \<open>The operations\<close>

record 'a ring =
  write_pos :: u32
  read_pos :: u32
  entries :: "'a list"

text \<open>\<open>cap\<close> is \<open>kCapacity\<close>, and \<open>cap - 1\<close> is \<open>kMask\<close>.\<close>

definition ring_init :: "'a ring \<Rightarrow> 'a ring" where
  "ring_init r = r\<lparr>write_pos := 0, read_pos := 0\<rparr>"

definition ring_push :: "u32 \<Rightarrow> 'a \<Rightarrow> 'a ring \<Rightarrow> bool \<times> 'a ring" where
  "ring_push cap e r =
     (let wp = write_pos r; rp = read_pos r in
      if wp - rp \<ge> cap then (False, r)
      else (True, r\<lparr>entries := (entries r)[unat (wp AND (cap - 1)) := e], write_pos := wp + 1\<rparr>))"

definition ring_pop :: "u32 \<Rightarrow> 'a ring \<Rightarrow> 'a option \<times> 'a ring" where
  "ring_pop cap r =
     (let rp = read_pos r; wp = write_pos r in
      if rp = wp then (None, r)
      else (Some (entries r ! unat (rp AND (cap - 1))), r\<lparr>read_pos := rp + 1\<rparr>))"

definition ring_available :: "'a ring \<Rightarrow> u32" where
  "ring_available r = write_pos r - read_pos r"

definition access_cap :: u32 where
  "access_cap = 512"

definition access_init :: "'a ring \<Rightarrow> 'a ring" where
  "access_init r = r\<lparr>write_pos := 0, read_pos := 0\<rparr>"

definition access_push :: "'a \<Rightarrow> 'a ring \<Rightarrow> bool \<times> 'a ring" where
  "access_push e r =
     (let wp = write_pos r; rp = read_pos r in
      if wp - rp \<ge> access_cap then (False, r)
      else (True, r\<lparr>entries := (entries r)[unat (wp AND (access_cap - 1)) := e], write_pos := wp + 1\<rparr>))"

definition access_pop :: "'a ring \<Rightarrow> 'a option \<times> 'a ring" where
  "access_pop r =
     (let rp = read_pos r; wp = write_pos r in
      if rp = wp then (None, r)
      else (Some (entries r ! unat (rp AND (access_cap - 1))), r\<lparr>read_pos := rp + 1\<rparr>))"

definition access_available :: "'a ring \<Rightarrow> u32" where
  "access_available r = write_pos r - read_pos r"

definition capture_cap :: u32 where
  "capture_cap = 256"

lemma access_ring: "access_push = ring_push access_cap" "access_pop = ring_pop access_cap"
  by (simp_all add: access_push_def access_pop_def ring_push_def ring_pop_def fun_eq_iff)

section \<open>The threads\<close>

text \<open>Where the producer is inside \<open>push(e)\<close>, with the values it has loaded.\<close>

datatype 'a producer = PIdle | PWp 'a u32 | PRp 'a u32 u32 | PWrote 'a u32

text \<open>Where the consumer is inside \<open>pop(out)\<close>.\<close>

datatype 'a consumer = CIdle | CRp u32 | CWp u32 u32 | CRead u32 'a

text \<open>\<open>pushed\<close> and \<open>popped\<close> are the entries for which \<open>push\<close> and \<open>pop\<close> have returned true.\<close>

record 'a spsc =
  mem :: "'a ring"
  prod :: "'a producer"
  cons :: "'a consumer"
  pushed :: "'a list"
  popped :: "'a list"

inductive spsc_step :: "u32 \<Rightarrow> 'a spsc \<Rightarrow> 'a spsc \<Rightarrow> bool" for cap where
  push_load_wp: "prod s = PIdle \<Longrightarrow> spsc_step cap s (s\<lparr>prod := PWp e (write_pos (mem s))\<rparr>)"
| push_load_rp: "prod s = PWp e wp \<Longrightarrow> spsc_step cap s (s\<lparr>prod := PRp e wp (read_pos (mem s))\<rparr>)"
| push_full: "prod s = PRp e wp rp \<Longrightarrow> wp - rp \<ge> cap \<Longrightarrow> spsc_step cap s (s\<lparr>prod := PIdle\<rparr>)"
| push_write: "prod s = PRp e wp rp \<Longrightarrow> \<not> wp - rp \<ge> cap \<Longrightarrow>
    spsc_step cap s (s\<lparr>prod := PWrote e wp,
      mem := (mem s)\<lparr>entries := (entries (mem s))[unat (wp AND (cap - 1)) := e]\<rparr>\<rparr>)"
| push_store: "prod s = PWrote e wp \<Longrightarrow>
    spsc_step cap s (s\<lparr>prod := PIdle, mem := (mem s)\<lparr>write_pos := wp + 1\<rparr>, pushed := pushed s @ [e]\<rparr>)"
| pop_load_rp: "cons s = CIdle \<Longrightarrow> spsc_step cap s (s\<lparr>cons := CRp (read_pos (mem s))\<rparr>)"
| pop_load_wp: "cons s = CRp rp \<Longrightarrow> spsc_step cap s (s\<lparr>cons := CWp rp (write_pos (mem s))\<rparr>)"
| pop_empty: "cons s = CWp rp wp \<Longrightarrow> rp = wp \<Longrightarrow> spsc_step cap s (s\<lparr>cons := CIdle\<rparr>)"
| pop_read: "cons s = CWp rp wp \<Longrightarrow> rp \<noteq> wp \<Longrightarrow>
    spsc_step cap s (s\<lparr>cons := CRead rp (entries (mem s) ! unat (rp AND (cap - 1)))\<rparr>)"
| pop_store: "cons s = CRead rp v \<Longrightarrow>
    spsc_step cap s (s\<lparr>cons := CIdle, mem := (mem s)\<lparr>read_pos := rp + 1\<rparr>, popped := popped s @ [v]\<rparr>)"

definition spsc_start :: "'a list \<Rightarrow> 'a spsc" where
  "spsc_start es = \<lparr>mem = ring_init \<lparr>write_pos = 0, read_pos = 0, entries = es\<rparr>, prod = PIdle, cons = CIdle,
     pushed = [], popped = []\<rparr>"

text \<open>The slot a thread is about to write or to read.\<close>

definition writes_slot :: "u32 \<Rightarrow> 'a spsc \<Rightarrow> nat \<Rightarrow> bool" where
  "writes_slot cap s i \<longleftrightarrow> (case prod s of PRp e wp rp \<Rightarrow> \<not> wp - rp \<ge> cap \<and> i = unat (wp AND (cap - 1)) | _ \<Rightarrow> False)"

definition reads_slot :: "u32 \<Rightarrow> 'a spsc \<Rightarrow> nat \<Rightarrow> bool" where
  "reads_slot cap s i \<longleftrightarrow> (case cons s of CWp rp wp \<Rightarrow> rp \<noteq> wp \<and> i = unat (rp AND (cap - 1)) | _ \<Rightarrow> False)"

section \<open>The contract\<close>

locale ring_capacity =
  fixes cap :: u32 and k :: nat
  assumes cap: "unat cap = 2 ^ k" and k: "k < 32"
begin

lemma cap_mask: "cap - 1 = mask k"
proof -
  have "cap = of_nat (unat cap)" by simp
  then have "cap = 2 ^ k" unfolding cap by simp
  then show ?thesis by (simp add: mask_eq_decr_exp)
qed

lemma slot_index: "unat ((of_nat n :: u32) AND (cap - 1)) = n mod 2 ^ k"
proof -
  have "unat ((of_nat n :: u32) AND mask k) = take_bit k (n mod 2 ^ 32)"
    by (simp add: take_bit_eq_mask [symmetric] unsigned_take_bit_eq unat_of_nat)
  also have "\<dots> = n mod 2 ^ k"
    unfolding take_bit_eq_mod by (rule mod_mod_cancel) (use k in \<open>simp only: le_imp_power_dvd less_imp_le\<close>)
  finally show ?thesis unfolding cap_mask .
qed

lemma pos_diff: "j \<le> n \<Longrightarrow> n \<le> j + 2 ^ k \<Longrightarrow> unat ((of_nat n :: u32) - of_nat j) = n - j"
proof -
  assume a: "j \<le> n" "n \<le> j + 2 ^ k"
  have "(2 :: nat) ^ k < 2 ^ 32" using k by (rule power_strict_increasing) simp
  then have "n - j < 2 ^ 32" using a by linarith
  moreover have "(of_nat n :: u32) - of_nat j = of_nat (n - j)" using a by simp
  ultimately show ?thesis by (simp add: unat_of_nat)
qed

lemma slot_neq: "i < n \<Longrightarrow> n < i + 2 ^ k \<Longrightarrow> i mod 2 ^ k \<noteq> (n :: nat) mod 2 ^ k"
proof
  assume a: "i < n" "n < i + 2 ^ k" "i mod 2 ^ k = n mod 2 ^ k"
  then have "2 ^ k dvd n - i" using mod_eq_dvd_iff_nat [of i n "2 ^ k"] by (metis less_imp_le)
  then have "(n - i) mod 2 ^ k = 0" by simp
  then show False using a by simp
qed

end

section \<open>The invariant\<close>

definition mem_inv :: "nat \<Rightarrow> 'a spsc \<Rightarrow> bool" where
  "mem_inv c s \<longleftrightarrow>
     length (popped s) \<le> length (pushed s) \<and> length (pushed s) \<le> length (popped s) + c \<and>
     write_pos (mem s) = of_nat (length (pushed s)) \<and> read_pos (mem s) = of_nat (length (popped s)) \<and>
     length (entries (mem s)) = c \<and> popped s = take (length (popped s)) (pushed s) \<and>
     (\<forall>i. length (popped s) \<le> i \<longrightarrow> i < length (pushed s) \<longrightarrow> entries (mem s) ! (i mod c) = pushed s ! i)"

definition prod_inv :: "nat \<Rightarrow> 'a spsc \<Rightarrow> bool" where
  "prod_inv c s \<longleftrightarrow> (case prod s of
     PIdle \<Rightarrow> True
   | PWp e wp \<Rightarrow> wp = of_nat (length (pushed s))
   | PRp e wp rp \<Rightarrow> wp = of_nat (length (pushed s)) \<and>
       (\<exists>j. rp = of_nat j \<and> j \<le> length (popped s) \<and> length (pushed s) \<le> j + c)
   | PWrote e wp \<Rightarrow> wp = of_nat (length (pushed s)) \<and> length (pushed s) < length (popped s) + c \<and>
       entries (mem s) ! (length (pushed s) mod c) = e)"

definition cons_inv :: "'a spsc \<Rightarrow> bool" where
  "cons_inv s \<longleftrightarrow> (case cons s of
     CIdle \<Rightarrow> True
   | CRp rp \<Rightarrow> rp = of_nat (length (popped s))
   | CWp rp wp \<Rightarrow> rp = of_nat (length (popped s)) \<and>
       (\<exists>j. wp = of_nat j \<and> length (popped s) \<le> j \<and> j \<le> length (pushed s))
   | CRead rp v \<Rightarrow> rp = of_nat (length (popped s)) \<and> length (popped s) < length (pushed s) \<and>
       v = pushed s ! length (popped s))"

definition spsc_inv :: "nat \<Rightarrow> 'a spsc \<Rightarrow> bool" where
  "spsc_inv c s \<longleftrightarrow> mem_inv c s \<and> prod_inv c s \<and> cons_inv s"

lemma spsc_start_inv: "length es = c \<Longrightarrow> spsc_inv c (spsc_start es)"
  by (simp add: spsc_inv_def mem_inv_def prod_inv_def cons_inv_def spsc_start_def ring_init_def)

context ring_capacity
begin

lemma producer_room:
  assumes "mem_inv (2 ^ k) s" "prod_inv (2 ^ k) s" "prod s = PRp e wp rp" "\<not> wp - rp \<ge> cap"
  shows "wp = of_nat (length (pushed s))" "length (pushed s) < length (popped s) + 2 ^ k"
    "unat (wp AND (cap - 1)) = length (pushed s) mod 2 ^ k"
proof -
  from assms(2,3) obtain j where j: "wp = of_nat (length (pushed s))" "rp = of_nat j" "j \<le> length (popped s)"
    "length (pushed s) \<le> j + 2 ^ k" by (auto simp: prod_inv_def)
  have "length (popped s) \<le> length (pushed s)" using assms(1) by (simp add: mem_inv_def)
  then have "unat (wp - rp) = length (pushed s) - j" using j pos_diff [of j "length (pushed s)"] by simp
  moreover have "unat (wp - rp) < 2 ^ k" using assms(4) cap by (simp add: word_le_nat_alt)
  ultimately show "length (pushed s) < length (popped s) + 2 ^ k" using j by linarith
  show "wp = of_nat (length (pushed s))" by (rule j(1))
  then show "unat (wp AND (cap - 1)) = length (pushed s) mod 2 ^ k" by (simp add: slot_index)
qed

lemma consumer_data:
  assumes "mem_inv (2 ^ k) s" "cons_inv s" "cons s = CWp rp wp" "rp \<noteq> wp"
  shows "rp = of_nat (length (popped s))" "length (popped s) < length (pushed s)"
    "unat (rp AND (cap - 1)) = length (popped s) mod 2 ^ k"
proof -
  from assms(2,3) obtain j where j: "rp = of_nat (length (popped s))" "wp = of_nat j" "length (popped s) \<le> j"
    "j \<le> length (pushed s)" by (auto simp: cons_inv_def)
  then show "length (popped s) < length (pushed s)" using assms(4) by (cases "j = length (popped s)") auto
  show "rp = of_nat (length (popped s))" by (rule j(1))
  then show "unat (rp AND (cap - 1)) = length (popped s) mod 2 ^ k" by (simp add: slot_index)
qed

lemma write_keeps:
  assumes "mem_inv (2 ^ k) s" "length (pushed s) < length (popped s) + 2 ^ k" "length (popped s) \<le> i" "i < length (pushed s)"
  shows "(entries (mem s))[length (pushed s) mod 2 ^ k := e] ! (i mod 2 ^ k) = pushed s ! i"
proof -
  have "i mod 2 ^ k \<noteq> length (pushed s) mod 2 ^ k" using assms(2-4) by (intro slot_neq) linarith+
  then show ?thesis using assms(1,3,4) by (simp add: mem_inv_def)
qed

lemma spsc_step_inv: "spsc_step cap s t \<Longrightarrow> spsc_inv (2 ^ k) s \<Longrightarrow> spsc_inv (2 ^ k) t"
proof (induction rule: spsc_step.induct)
  case (push_load_rp s e wp)
  then show ?case by (auto simp: spsc_inv_def mem_inv_def prod_inv_def cons_inv_def split: producer.splits consumer.splits)
next
  case (push_write s e wp rp)
  then have i: "mem_inv (2 ^ k) s" "prod_inv (2 ^ k) s" "cons_inv s" by (auto simp: spsc_inv_def)
  note r = producer_room [OF i(1,2) push_write(1,2)] and w = write_keeps [OF i(1) producer_room(2) [OF i(1,2) push_write(1,2)]]
  let ?t = "s\<lparr>prod := PWrote e wp, mem := (mem s)\<lparr>entries := (entries (mem s))[length (pushed s) mod 2 ^ k := e]\<rparr>\<rparr>"
  have l: "length (entries (mem s)) = 2 ^ k" using i(1) by (simp add: mem_inv_def)
  have "mem_inv (2 ^ k) ?t" using i(1) w by (simp add: mem_inv_def)
  moreover have "prod_inv (2 ^ k) ?t" using r l by (simp add: prod_inv_def)
  moreover have "cons_inv ?t" using i(3) by (simp add: cons_inv_def split: consumer.splits)
  ultimately show ?case unfolding r(3) spsc_inv_def by blast
next
  case (push_store s e wp)
  then have i: "mem_inv (2 ^ k) s" "prod_inv (2 ^ k) s" "cons_inv s" by (auto simp: spsc_inv_def)
  let ?t = "s\<lparr>prod := PIdle, mem := (mem s)\<lparr>write_pos := wp + 1\<rparr>, pushed := pushed s @ [e]\<rparr>"
  have p: "wp = of_nat (length (pushed s))" "length (pushed s) < length (popped s) + 2 ^ k"
    "entries (mem s) ! (length (pushed s) mod 2 ^ k) = e"
    using i(2) push_store(1) by (auto simp: prod_inv_def)
  have "mem_inv (2 ^ k) ?t" using i(1) p by (auto simp: mem_inv_def nth_append less_Suc_eq)
  moreover have "cons_inv ?t" using i(3) by (auto simp: cons_inv_def nth_append split: consumer.splits)
  ultimately show ?case by (simp add: spsc_inv_def prod_inv_def)
next
  case (pop_load_wp s rp)
  then show ?case by (auto simp: spsc_inv_def mem_inv_def prod_inv_def cons_inv_def split: producer.splits)
next
  case (pop_read s rp wp)
  then have i: "mem_inv (2 ^ k) s" "prod_inv (2 ^ k) s" "cons_inv s" by (auto simp: spsc_inv_def)
  note r = consumer_data [OF i(1,3) pop_read(1,2)]
  have "entries (mem s) ! (length (popped s) mod 2 ^ k) = pushed s ! length (popped s)"
    using i(1) r(2) by (simp add: mem_inv_def)
  with i(1,2) r show ?case by (auto simp: spsc_inv_def mem_inv_def prod_inv_def cons_inv_def split: producer.splits)
next
  case (pop_store s rp v)
  then have i: "mem_inv (2 ^ k) s" "prod_inv (2 ^ k) s" "cons_inv s" by (auto simp: spsc_inv_def)
  let ?t = "s\<lparr>cons := CIdle, mem := (mem s)\<lparr>read_pos := rp + 1\<rparr>, popped := popped s @ [v]\<rparr>"
  have c: "rp = of_nat (length (popped s))" "length (popped s) < length (pushed s)" "v = pushed s ! length (popped s)"
    using i(3) pop_store(1) by (auto simp: cons_inv_def)
  have "popped s @ [v] = take (length (popped s @ [v])) (pushed s)"
  proof -
    have "popped s = take (length (popped s)) (pushed s)" using i(1) by (simp add: mem_inv_def)
    then show ?thesis using c(2,3) by (metis length_append_singleton take_Suc_conv_app_nth)
  qed
  then have "mem_inv (2 ^ k) ?t" using i(1) c by (simp add: mem_inv_def)
  moreover have "prod_inv (2 ^ k) ?t" using i(2) by (auto simp: prod_inv_def split: producer.splits)
  ultimately show ?case by (simp add: spsc_inv_def cons_inv_def)
qed (auto simp: spsc_inv_def mem_inv_def prod_inv_def cons_inv_def split: producer.splits consumer.splits)

lemma spsc_reach_inv: "(spsc_step cap)\<^sup>*\<^sup>* s t \<Longrightarrow> spsc_inv (2 ^ k) s \<Longrightarrow> spsc_inv (2 ^ k) t"
  by (induction rule: rtranclp_induct) (blast intro: spsc_step_inv)+

lemma spsc_race_free:
  assumes "spsc_inv (2 ^ k) s" "writes_slot cap s i" "reads_slot cap s j"
  shows "i \<noteq> j"
proof -
  from assms(2) obtain e wp rp where p: "prod s = PRp e wp rp" "\<not> wp - rp \<ge> cap" "i = unat (wp AND (cap - 1))"
    by (auto simp: writes_slot_def split: producer.splits)
  from assms(3) obtain rp' wp' where c: "cons s = CWp rp' wp'" "rp' \<noteq> wp'" "j = unat (rp' AND (cap - 1))"
    by (auto simp: reads_slot_def split: consumer.splits)
  have i: "mem_inv (2 ^ k) s" "prod_inv (2 ^ k) s" "cons_inv s" using assms(1) by (auto simp: spsc_inv_def)
  note r = producer_room [OF i(1,2) p(1,2)] and d = consumer_data [OF i(1,3) c(1,2)]
  from slot_neq [OF d(2) r(2)] show ?thesis unfolding p(3) c(3) r(3) d(3) by simp
qed

end

interpretation access: ring_capacity access_cap 9
  by unfold_locales (simp_all add: access_cap_def)

interpretation capture: ring_capacity capture_cap 8
  by unfold_locales (simp_all add: capture_cap_def)

section \<open>The operations run alone\<close>

lemma ring_push_steps:
  assumes "prod s = PIdle" "ring_push cap e (mem s) = (ok, m)"
  shows "(spsc_step cap)\<^sup>*\<^sup>* s (s\<lparr>mem := m, pushed := pushed s @ (if ok then [e] else [])\<rparr>)"
proof -
  let ?wp = "write_pos (mem s)" and ?rp = "read_pos (mem s)"
  let ?s1 = "s\<lparr>prod := PWp e ?wp\<rparr>" and ?s2 = "s\<lparr>prod := PRp e ?wp ?rp\<rparr>"
  have 1: "spsc_step cap s ?s1" using assms(1) by (rule spsc_step.push_load_wp)
  have 2: "spsc_step cap ?s1 ?s2" using spsc_step.push_load_rp [of ?s1 e ?wp cap] by simp
  have s2: "(spsc_step cap)\<^sup>*\<^sup>* s ?s2" by (rule converse_rtranclp_into_rtranclp [of "spsc_step cap", OF 1 r_into_rtranclp [of "spsc_step cap", OF 2]])
  show ?thesis
  proof (cases "?wp - ?rp \<ge> cap")
    case True
    then have r: "\<not> ok" "m = mem s" using assms(2) by (auto simp: ring_push_def Let_def)
    have "spsc_step cap ?s2 (?s2\<lparr>prod := PIdle\<rparr>)" using True by (intro spsc_step.push_full) simp_all
    moreover have "?s2\<lparr>prod := PIdle\<rparr> = s" using assms(1) by (cases s) simp
    ultimately show ?thesis using s2 r by simp
  next
    case False
    let ?s3 = "?s2\<lparr>prod := PWrote e ?wp, mem := (mem s)\<lparr>entries := (entries (mem s))[unat (?wp AND (cap - 1)) := e]\<rparr>\<rparr>"
    have r: "ok" "m = (mem s)\<lparr>entries := (entries (mem s))[unat (?wp AND (cap - 1)) := e], write_pos := ?wp + 1\<rparr>"
      using assms(2) False by (auto simp: ring_push_def Let_def)
    have 3: "spsc_step cap ?s2 ?s3" using spsc_step.push_write [of ?s2 e ?wp ?rp cap] False by simp
    have 4: "spsc_step cap ?s3 (s\<lparr>mem := m, pushed := pushed s @ [e]\<rparr>)"
      using spsc_step.push_store [of ?s3 e ?wp cap] assms(1) by (cases s) (simp add: r(2))
    show ?thesis using rtranclp.rtrancl_into_rtrancl [OF rtranclp.rtrancl_into_rtrancl [OF s2 3] 4] r(1) by simp
  qed
qed

lemma ring_pop_steps:
  assumes "cons s = CIdle" "ring_pop cap (mem s) = (r, m)"
  shows "(spsc_step cap)\<^sup>*\<^sup>* s (s\<lparr>mem := m, popped := popped s @ (case r of None \<Rightarrow> [] | Some v \<Rightarrow> [v])\<rparr>)"
proof -
  let ?wp = "write_pos (mem s)" and ?rp = "read_pos (mem s)"
  let ?s1 = "s\<lparr>cons := CRp ?rp\<rparr>" and ?s2 = "s\<lparr>cons := CWp ?rp ?wp\<rparr>"
  have 1: "spsc_step cap s ?s1" using assms(1) by (rule spsc_step.pop_load_rp)
  have 2: "spsc_step cap ?s1 ?s2" using spsc_step.pop_load_wp [of ?s1 ?rp cap] by simp
  have s2: "(spsc_step cap)\<^sup>*\<^sup>* s ?s2" by (rule converse_rtranclp_into_rtranclp [of "spsc_step cap", OF 1 r_into_rtranclp [of "spsc_step cap", OF 2]])
  show ?thesis
  proof (cases "?rp = ?wp")
    case True
    then have r: "r = None" "m = mem s" using assms(2) by (auto simp: ring_pop_def Let_def)
    have "spsc_step cap ?s2 (?s2\<lparr>cons := CIdle\<rparr>)" using True by (intro spsc_step.pop_empty) simp_all
    moreover have "?s2\<lparr>cons := CIdle\<rparr> = s" using assms(1) by (cases s) simp
    ultimately show ?thesis using s2 r by simp
  next
    case False
    let ?v = "entries (mem s) ! unat (?rp AND (cap - 1))"
    let ?s3 = "?s2\<lparr>cons := CRead ?rp ?v\<rparr>"
    have r: "r = Some ?v" "m = (mem s)\<lparr>read_pos := ?rp + 1\<rparr>"
      using assms(2) False by (auto simp: ring_pop_def Let_def)
    have 3: "spsc_step cap ?s2 ?s3" using spsc_step.pop_read [of ?s2 ?rp ?wp cap] False by simp
    have 4: "spsc_step cap ?s3 (s\<lparr>mem := m, popped := popped s @ [?v]\<rparr>)"
      using spsc_step.pop_store [of ?s3 ?rp ?v cap] assms(1) by (cases s) (simp add: r(2))
    show ?thesis using rtranclp.rtrancl_into_rtrancl [OF rtranclp.rtrancl_into_rtrancl [OF s2 3] 4] r(1) by simp
  qed
qed

section \<open>Properties\<close>

lemma ring_cap_inv:
  assumes "cap = access_cap \<or> cap = capture_cap" "length es = unat cap" "(spsc_step cap)\<^sup>*\<^sup>* (spsc_start es) s"
  shows "spsc_inv (unat cap) s"
proof -
  have "unat access_cap = 2 ^ 9" "unat capture_cap = 2 ^ 8" by (simp_all add: access_cap_def capture_cap_def)
  with assms spsc_start_inv [of es "unat cap"] access.spsc_reach_inv [of "spsc_start es" s]
    capture.spsc_reach_inv [of "spsc_start es" s] show ?thesis by auto
qed

text \<open>
  C10: However the loads and stores of the producer and of the consumer interleave, for both rings
  and also when the 32-bit positions wrap: the entries popped are the entries pushed, in order and
  none twice; at most \<open>kCapacity\<close> entries are in the ring; \<open>available\<close> is their
  number; and the two threads never access the same slot at the same time.
\<close>

theorem rings_fifo:
  assumes "cap = access_cap \<or> cap = capture_cap" "length es = unat cap" "(spsc_step cap)\<^sup>*\<^sup>* (spsc_start es) s"
  shows "prefix (popped s) (pushed s) \<and> length (pushed s) \<le> length (popped s) + unat cap \<and>
     unat (ring_available (mem s)) = length (pushed s) - length (popped s) \<and>
     \<not> (\<exists>i. writes_slot cap s i \<and> reads_slot cap s i)"
proof -
  note i = ring_cap_inv [OF assms]
  then have m: "mem_inv (unat cap) s" by (simp add: spsc_inv_def)
  have u: "unat access_cap = 2 ^ 9" "unat capture_cap = 2 ^ 8" by (simp_all add: access_cap_def capture_cap_def)
  have "unat (of_nat (length (pushed s)) - of_nat (length (popped s)) :: u32) = length (pushed s) - length (popped s)"
    using m assms(1) u access.pos_diff [of "length (popped s)" "length (pushed s)"]
      capture.pos_diff [of "length (popped s)" "length (pushed s)"] by (auto simp: mem_inv_def)
  moreover have "\<not> (\<exists>i. writes_slot cap s i \<and> reads_slot cap s i)"
    using assms(1)
  proof
    assume c: "cap = access_cap"
    then have "spsc_inv (2 ^ 9) s" using i u by simp
    from access.spsc_race_free [OF this] show ?thesis unfolding c by blast
  next
    assume c: "cap = capture_cap"
    then have "spsc_inv (2 ^ 8) s" using i u by simp
    from capture.spsc_race_free [OF this] show ?thesis unfolding c by blast
  qed
  moreover have "prefix (popped s) (pushed s)" using m by (metis mem_inv_def take_is_prefix)
  ultimately show ?thesis using m by (simp add: mem_inv_def ring_available_def)
qed

theorem rings_fifo_witness:
  "\<exists>s. (spsc_step capture_cap)\<^sup>*\<^sup>* (spsc_start (replicate 256 (0::nat))) s \<and> pushed s = [7] \<and>
     unat (ring_available (mem s)) = 1 \<and> prefix (popped s) [7]"
proof -
  let ?s = "spsc_start (replicate 256 (0::nat))"
  have l: "length (replicate 256 (0::nat)) = unat capture_cap" by (simp add: capture_cap_def)
  have "fst (ring_push capture_cap 7 (mem ?s))"
    by (simp add: ring_push_def spsc_start_def ring_init_def Let_def capture_cap_def)
  then have p: "ring_push capture_cap 7 (mem ?s) = (True, snd (ring_push capture_cap 7 (mem ?s)))"
    by (metis (full_types) prod.collapse)
  have "prod ?s = PIdle" by (simp add: spsc_start_def)
  note r = ring_push_steps [OF this p]
  define t where "t = ?s\<lparr>mem := snd (ring_push capture_cap 7 (mem ?s)), pushed := pushed ?s @ (if True then [7] else [])\<rparr>"
  have t: "pushed t = [7]" "popped t = []" by (simp_all add: t_def spsc_start_def)
  from rings_fifo [OF disjI2 [OF refl] l r, folded t_def] t
  have "(spsc_step capture_cap)\<^sup>*\<^sup>* ?s t \<and> pushed t = [7] \<and> unat (ring_available (mem t)) = 1 \<and> prefix (popped t) [7]"
    using r [folded t_def] by simp
  then show ?thesis by blast
qed

text \<open>
  C25: Run while the other thread is between operations, \<open>push\<close> succeeds exactly when fewer
  than \<open>kCapacity\<close> entries wait, and \<open>pop\<close> returns the oldest entry that waits, if there is one:
  the ring is a bounded queue.
\<close>

theorem rings_bounded_queue:
  assumes "cap = access_cap \<or> cap = capture_cap" "length es = unat cap" "(spsc_step cap)\<^sup>*\<^sup>* (spsc_start es) s"
  defines "waiting \<equiv> drop (length (popped s)) (pushed s)"
  shows "fst (ring_push cap e (mem s)) = (length waiting < unat cap) \<and>
     fst (ring_pop cap (mem s)) = (case waiting of [] \<Rightarrow> None | v # vs \<Rightarrow> Some v)"
proof -
  have m: "mem_inv (unat cap) s" using ring_cap_inv [OF assms(1-3)] by (simp add: spsc_inv_def)
  have u: "unat access_cap = 2 ^ 9" "unat capture_cap = 2 ^ 8" by (simp_all add: access_cap_def capture_cap_def)
  let ?n = "length (pushed s)" and ?m = "length (popped s)"
  have p: "write_pos (mem s) = of_nat ?n" "read_pos (mem s) = of_nat ?m" "?m \<le> ?n" "?n \<le> ?m + unat cap"
    "\<And>i. ?m \<le> i \<Longrightarrow> i < ?n \<Longrightarrow> entries (mem s) ! (i mod unat cap) = pushed s ! i"
    using m by (auto simp: mem_inv_def)
  have d: "unat (of_nat ?n - of_nat ?m :: u32) = ?n - ?m"
    using p(3,4) assms(1) u access.pos_diff [of ?m ?n] capture.pos_diff [of ?m ?n] by auto
  have ix: "unat ((of_nat ?m :: u32) AND (cap - 1)) = ?m mod unat cap"
    using assms(1) u access.slot_index [of ?m] capture.slot_index [of ?m] by auto
  have "fst (ring_push cap e (mem s)) = (length waiting < unat cap)"
    using d by (simp add: ring_push_def p(1,2) Let_def waiting_def word_le_nat_alt)
  moreover have "fst (ring_pop cap (mem s)) = (case waiting of [] \<Rightarrow> None | v # vs \<Rightarrow> Some v)"
  proof (cases "?m = ?n")
    case True
    then show ?thesis by (simp add: ring_pop_def p(1,2) waiting_def)
  next
    case False
    then have lt: "?m < ?n" using p(3) by simp
    then have "(of_nat ?m :: u32) \<noteq> of_nat ?n" using d by auto
    moreover have "waiting = pushed s ! ?m # drop (Suc ?m) (pushed s)"
      using lt by (simp add: waiting_def Cons_nth_drop_Suc)
    ultimately show ?thesis using p(5) [of ?m] lt by (simp add: ring_pop_def p(1,2) Let_def ix)
  qed
  ultimately show ?thesis by blast
qed

theorem rings_bounded_queue_witness:
  "fst (ring_push capture_cap 7 (mem (spsc_start (replicate 256 (0::nat)))))"
proof -
  have l: "length (replicate 256 (0::nat)) = unat capture_cap" by (simp add: capture_cap_def)
  from rings_bounded_queue [OF disjI2 [OF refl] l rtranclp.rtrancl_refl, of 7] show ?thesis
    by (simp add: spsc_start_def capture_cap_def)
qed

end
