(* ===== verification/Handler_Abi.thy ===== *)
theory Handler_Abi
  imports Rut_Prelude
begin

text \<open>
  The packed result of a JIT handler (handler_abi.h), the event kinds (io_event.h) and the
  translation of a result into what the event loop does next (jit_dispatch.h).  A handler is
  compiled code: it is the argument \<open>fn\<close> of \<open>invoke_jit_handler\<close>.
\<close>

unbundle bit_operations_syntax

section \<open>The packed result\<close>

text \<open>The enumerations have \<open>u8\<close> as underlying type; a value with no enumerator is kept.\<close>

datatype handler_action = ReturnStatus | Forward | Yield | OtherAction u8

datatype yield_kind =
  YHttpGet | YHttpPost | YForward | YTimer | YAny | YRecv | YSend | YUpstreamConnect
| YUpstreamRecv | YUpstreamSend | OtherYield u8

definition action_to_u8 :: "handler_action \<Rightarrow> u8" where
  "action_to_u8 a = (case a of ReturnStatus \<Rightarrow> 0 | Forward \<Rightarrow> 1 | Yield \<Rightarrow> 2 | OtherAction b \<Rightarrow> b)"

definition action_of_u8 :: "u8 \<Rightarrow> handler_action" where
  "action_of_u8 b = (if b = 0 then ReturnStatus else if b = 1 then Forward else if b = 2 then Yield else OtherAction b)"

definition yield_to_u8 :: "yield_kind \<Rightarrow> u8" where
  "yield_to_u8 y = (case y of YHttpGet \<Rightarrow> 0 | YHttpPost \<Rightarrow> 1 | YForward \<Rightarrow> 2 | YTimer \<Rightarrow> 3 | YAny \<Rightarrow> 4
     | YRecv \<Rightarrow> 5 | YSend \<Rightarrow> 6 | YUpstreamConnect \<Rightarrow> 7 | YUpstreamRecv \<Rightarrow> 8 | YUpstreamSend \<Rightarrow> 9 | OtherYield b \<Rightarrow> b)"

definition yield_of_u8 :: "u8 \<Rightarrow> yield_kind" where
  "yield_of_u8 b = (if b = 0 then YHttpGet else if b = 1 then YHttpPost else if b = 2 then YForward
     else if b = 3 then YTimer else if b = 4 then YAny else if b = 5 then YRecv else if b = 6 then YSend
     else if b = 7 then YUpstreamConnect else if b = 8 then YUpstreamRecv else if b = 9 then YUpstreamSend
     else OtherYield b)"

record handler_result =
  hr_action :: handler_action
  hr_status_code :: u16
  hr_upstream_id :: u16
  hr_next_state :: u16
  hr_yield_kind :: yield_kind

definition pack :: "handler_result \<Rightarrow> u64" where
  "pack r =
     0 OR ucast (action_to_u8 (hr_action r))
       OR push_bit 8 (ucast (hr_status_code r))
       OR push_bit 24 (ucast (hr_upstream_id r))
       OR push_bit 40 (ucast (hr_next_state r))
       OR push_bit 56 (ucast (yield_to_u8 (hr_yield_kind r)))"

definition unpack :: "u64 \<Rightarrow> handler_result" where
  "unpack v =
     \<lparr>hr_action = action_of_u8 (ucast (v AND 0xFF)),
      hr_status_code = ucast (drop_bit 8 v AND 0xFFFF),
      hr_upstream_id = ucast (drop_bit 24 v AND 0xFFFF),
      hr_next_state = ucast (drop_bit 40 v AND 0xFFFF),
      hr_yield_kind = yield_of_u8 (ucast (drop_bit 56 v AND 0xFF))\<rparr>"

definition make_status :: "u16 \<Rightarrow> handler_result" where
  "make_status code = \<lparr>hr_action = ReturnStatus, hr_status_code = code, hr_upstream_id = 0, hr_next_state = 0,
     hr_yield_kind = YHttpGet\<rparr>"

definition make_forward :: "u16 \<Rightarrow> handler_result" where
  "make_forward upstream = \<lparr>hr_action = Forward, hr_status_code = 0, hr_upstream_id = upstream, hr_next_state = 0,
     hr_yield_kind = YHttpGet\<rparr>"

definition make_yield :: "u16 \<Rightarrow> yield_kind \<Rightarrow> handler_result" where
  "make_yield state kind = \<lparr>hr_action = Yield, hr_status_code = 0, hr_upstream_id = 0, hr_next_state = state,
     hr_yield_kind = kind\<rparr>"

definition make_yield_payload :: "u16 \<Rightarrow> yield_kind \<Rightarrow> u32 \<Rightarrow> handler_result" where
  "make_yield_payload state kind payload =
     \<lparr>hr_action = Yield,
      hr_status_code = ucast (payload AND 0xFFFF),
      hr_upstream_id = ucast (drop_bit 16 payload AND 0xFFFF),
      hr_next_state = state,
      hr_yield_kind = kind\<rparr>"

definition yield_payload_u32 :: "handler_result \<Rightarrow> u32" where
  "yield_payload_u32 r = ucast (hr_status_code r) OR push_bit 16 (ucast (hr_upstream_id r))"

section \<open>Dispatch\<close>

datatype io_event_type =
  EvAccept | EvRecv | EvSend | EvUpstreamConnect | EvUpstreamRecv | EvUpstreamSend | EvTimeout | EvHandlerTimer

datatype outcome_kind = KReturnStatus | KForward | KTimerYield | KEventYield | KError

record jit_outcome =
  jo_kind :: outcome_kind
  jo_status_code :: u16
  jo_upstream_id :: u16
  jo_next_state :: u16
  jo_yield_kind :: yield_kind
  jo_timer_ms :: u32
  jo_response_body_idx :: u16
  jo_response_headers_idx :: u16

definition jit_outcome_default :: jit_outcome where
  "jit_outcome_default = \<lparr>jo_kind = KError, jo_status_code = 0, jo_upstream_id = 0, jo_next_state = 0,
     jo_yield_kind = YTimer, jo_timer_ms = 0, jo_response_body_idx = 0, jo_response_headers_idx = 0\<rparr>"

definition timer_seconds_from_ms :: "u32 \<Rightarrow> u32" where
  "timer_seconds_from_ms ms =
     (if ms = 0 then 0
      else let secs = ((ucast ms :: u64) + 999) div 1000 in
        if secs > 0xFFFFFFFF then 0xFFFFFFFF else ucast secs)"

definition yield_kind_matches_event :: "yield_kind \<Rightarrow> io_event_type \<Rightarrow> bool" where
  "yield_kind_matches_event kind type =
     (if kind = YAny then type = EvRecv \<or> type = EvTimeout \<or> type = EvHandlerTimer
      else if kind = YRecv then type = EvRecv
      else if kind = YSend then type = EvSend
      else if kind = YUpstreamConnect then type = EvUpstreamConnect
      else if kind = YUpstreamRecv then type = EvUpstreamRecv
      else if kind = YUpstreamSend then type = EvUpstreamSend
      else False)"

definition yield_kind_from_event :: "io_event_type \<Rightarrow> yield_kind" where
  "yield_kind_from_event type =
     (if type = EvRecv then YRecv
      else if type = EvSend then YSend
      else if type = EvUpstreamConnect then YUpstreamConnect
      else if type = EvUpstreamRecv then YUpstreamRecv
      else if type = EvUpstreamSend then YUpstreamSend
      else YTimer)"

text \<open>
  \<open>fn\<close> is the compiled handler, \<open>None\<close> the null pointer; it reads the request and updates
  the state \<open>env\<close> it is given (the connection, the context and the arena).
\<close>

definition invoke_jit_handler ::
  "('env \<Rightarrow> bytes \<Rightarrow> u64 \<times> 'env) option \<Rightarrow> 'env \<Rightarrow> bytes \<Rightarrow> jit_outcome \<times> 'env" where
  "invoke_jit_handler fn env req_data =
     (let out = jit_outcome_default in
      case fn of
        None \<Rightarrow> (out, env)
      | Some f \<Rightarrow>
          let (packed, env') = f env req_data; r = unpack packed in
          (case hr_action r of
             ReturnStatus \<Rightarrow>
               out\<lparr>jo_kind := KReturnStatus, jo_status_code := hr_status_code r,
                   jo_response_body_idx := hr_upstream_id r, jo_response_headers_idx := hr_next_state r\<rparr>
           | Forward \<Rightarrow> out\<lparr>jo_kind := KForward, jo_upstream_id := hr_upstream_id r\<rparr>
           | Yield \<Rightarrow>
               let out = out\<lparr>jo_next_state := hr_next_state r, jo_yield_kind := hr_yield_kind r\<rparr> in
               if hr_yield_kind r = YTimer then
                 out\<lparr>jo_kind := KTimerYield, jo_timer_ms := yield_payload_u32 r\<rparr>
               else if hr_yield_kind r = YAny \<or> hr_yield_kind r = YRecv \<or> hr_yield_kind r = YSend \<or>
                 hr_yield_kind r = YUpstreamConnect \<or> hr_yield_kind r = YUpstreamRecv \<or>
                 hr_yield_kind r = YUpstreamSend
               then out\<lparr>jo_kind := KEventYield, jo_timer_ms := yield_payload_u32 r\<rparr>
               else out
           | OtherAction b \<Rightarrow> out, env'))"

section \<open>Round trips\<close>

text \<open>An enumeration value in its usual form: the escape is not used for an enumerator.\<close>

definition result_wf :: "handler_result \<Rightarrow> bool" where
  "result_wf r \<longleftrightarrow> action_of_u8 (action_to_u8 (hr_action r)) = hr_action r \<and>
     yield_of_u8 (yield_to_u8 (hr_yield_kind r)) = hr_yield_kind r"

lemma action_u8: "action_to_u8 (action_of_u8 b) = b"
  by (simp add: action_of_u8_def action_to_u8_def)

lemma yield_u8: "yield_to_u8 (yield_of_u8 b) = b"
  by (simp add: yield_of_u8_def yield_to_u8_def)

lemma ff_masks: "(0xFF :: 'a::len word) = mask 8" "(0xFFFF :: 'a::len word) = mask 16"
  by (simp_all add: mask_eq_exp_minus_1)

lemma pack_bits:
  "bit (pack r) n \<longleftrightarrow> n < 64 \<and>
     (if n < 8 then bit (action_to_u8 (hr_action r)) n
      else if n < 24 then bit (hr_status_code r) (n - 8)
      else if n < 40 then bit (hr_upstream_id r) (n - 24)
      else if n < 56 then bit (hr_next_state r) (n - 40)
      else bit (yield_to_u8 (hr_yield_kind r)) (n - 56))"
  unfolding pack_def
  by (auto simp: bit_or_iff bit_push_bit_iff bit_ucast_iff dest: bit_imp_le_length)

lemma unpack_fields:
  "ucast (pack r AND 0xFF) = action_to_u8 (hr_action r)"
  "ucast (drop_bit 8 (pack r) AND 0xFFFF) = hr_status_code r"
  "ucast (drop_bit 24 (pack r) AND 0xFFFF) = hr_upstream_id r"
  "ucast (drop_bit 40 (pack r) AND 0xFFFF) = hr_next_state r"
  "ucast (drop_bit 56 (pack r) AND 0xFF) = yield_to_u8 (hr_yield_kind r)"
  unfolding ff_masks
  by (rule bit_word_eqI; auto simp: bit_ucast_iff bit_and_iff bit_mask_iff bit_drop_bit_eq pack_bits)+

lemma unpack_pack: "result_wf r \<Longrightarrow> unpack (pack r) = r"
  by (cases r) (simp add: unpack_def unpack_fields result_wf_def)

lemma pack_unpack: "pack (unpack v) = v"
proof (rule bit_word_eqI)
  fix n assume "n < LENGTH(64)"
  then show "bit (pack (unpack v)) n \<longleftrightarrow> bit v n"
    unfolding pack_bits unpack_def handler_result.simps action_u8 yield_u8 ff_masks
    by (auto simp: bit_ucast_iff bit_and_iff bit_mask_iff bit_drop_bit_eq)
qed

lemma payload_roundtrip: "yield_payload_u32 (make_yield_payload s y p) = p"
  unfolding ff_masks yield_payload_u32_def make_yield_payload_def handler_result.simps
  by (rule bit_word_eqI) (auto simp: bit_or_iff bit_push_bit_iff bit_ucast_iff bit_and_iff bit_mask_iff bit_drop_bit_eq)

lemma make_wf: "result_wf (make_status c)" "result_wf (make_forward u)"
  "result_wf (make_yield_payload s YTimer p)" "result_wf ((make_status c)\<lparr>hr_upstream_id := b, hr_next_state := h\<rparr>)"
  by (simp_all add: result_wf_def make_status_def make_forward_def make_yield_payload_def action_to_u8_def
      action_of_u8_def yield_to_u8_def yield_of_u8_def)

lemma timer_seconds_unat: "unat (timer_seconds_from_ms ms) = (unat ms + 999) div 1000"
proof -
  have m: "unat ms < 2 ^ 32" by (rule unat_u32_lt)
  have u: "unat (ucast ms :: u64) = unat ms" using m by (simp add: unsigned_ucast_eq take_bit_nat_eq_self)
  have s: "unat ((ucast ms :: u64) + 999) = unat ms + 999"
    using m u unat_word_ariths(1) [of "ucast ms :: u64" 999] by simp
  then have d: "unat (((ucast ms :: u64) + 999) div 1000) = (unat ms + 999) div 1000" by (simp add: unat_div)
  have lt: "(unat ms + 999) div 1000 < 2 ^ 32" using m by simp
  then have "\<not> (((ucast ms :: u64) + 999) div 1000 > 0xFFFFFFFF)" unfolding word_less_nat_alt d by simp
  then have "timer_seconds_from_ms ms = (if ms = 0 then 0 else ucast (((ucast ms :: u64) + 999) div 1000))"
    by (simp add: timer_seconds_from_ms_def Let_def)
  moreover have "unat (ucast (((ucast ms :: u64) + 999) div 1000) :: u32) = (unat ms + 999) div 1000"
    using d lt by (simp add: unsigned_ucast_eq take_bit_nat_eq_self)
  ultimately show ?thesis by (cases "ms = 0") simp_all
qed

section \<open>Properties\<close>

text \<open>
  C13: The packed word carries a handler result without loss in both directions: unpacking a packed
  result gives the result back, every word is the packing of what it unpacks to, and the
  32-bit payload of a yield survives the split over two 16-bit fields.
\<close>

theorem handler_result_roundtrip:
  assumes "result_wf r"
  shows "unpack (pack r) = r \<and> pack (unpack v) = v \<and>
     yield_payload_u32 (unpack (pack (make_yield_payload s YTimer p))) = p"
  using unpack_pack [OF assms] pack_unpack unpack_pack [OF make_wf(3)] payload_roundtrip by simp

theorem handler_result_roundtrip_witness:
  "unpack (pack (make_status 404)) = make_status 404"
  using handler_result_roundtrip [OF make_wf(1) [of 404], of 0 0 0] by simp

text \<open>The events a handler can wait for.\<close>

definition event_kinds :: "yield_kind set" where
  "event_kinds = {YAny, YRecv, YSend, YUpstreamConnect, YUpstreamRecv, YUpstreamSend}"

lemma event_wf: "k \<in> event_kinds \<Longrightarrow> result_wf (make_yield_payload s k p)"
  by (auto simp: event_kinds_def result_wf_def make_yield_payload_def action_to_u8_def action_of_u8_def
      yield_to_u8_def yield_of_u8_def)

lemma invoke_error_iff:
  "jo_kind (fst (invoke_jit_handler (Some f) env d)) = KError \<longleftrightarrow>
     (let r = unpack (fst (f env d)) in
        (\<exists>b. hr_action r = OtherAction b) \<or>
        hr_action r = Yield \<and> hr_yield_kind r \<noteq> YTimer \<and> hr_yield_kind r \<notin> event_kinds)"
proof -
  obtain packed env' where f: "f env d = (packed, env')" by fastforce
  show ?thesis
    unfolding invoke_jit_handler_def Let_def option.case f prod.case fst_conv
    by (cases "hr_action (unpack packed)"; cases "hr_yield_kind (unpack packed)")
       (simp_all add: jit_outcome_default_def event_kinds_def)
qed

text \<open>
  C26: What the event loop is told to do is what the handler returned, in every field of the
  outcome: a status with its response body and its header set, a forward with its upstream, a
  timed wait and a wait for an event each with the next state, the kind and the milliseconds; the
  handler's effects on its state are kept.  A wait for one kind of event is ended by exactly the events of that
  kind.  The outcome is an error exactly when there is no handler, the action is unknown, or
  the wait is of a kind the loop does not support.
\<close>

theorem invoke_jit_handler_outcome:
  assumes f: "f env d = (w, env')"
  shows "(w = pack ((make_status c)\<lparr>hr_upstream_id := b, hr_next_state := h\<rparr>) \<longrightarrow>
      invoke_jit_handler (Some f) env d =
        (\<lparr>jo_kind = KReturnStatus, jo_status_code = c, jo_upstream_id = 0, jo_next_state = 0, jo_yield_kind = YTimer,
          jo_timer_ms = 0, jo_response_body_idx = b, jo_response_headers_idx = h\<rparr>, env')) \<and>
    (w = pack (make_forward u) \<longrightarrow>
      invoke_jit_handler (Some f) env d =
        (\<lparr>jo_kind = KForward, jo_status_code = 0, jo_upstream_id = u, jo_next_state = 0, jo_yield_kind = YTimer,
          jo_timer_ms = 0, jo_response_body_idx = 0, jo_response_headers_idx = 0\<rparr>, env')) \<and>
    (w = pack (make_yield_payload s YTimer ms) \<longrightarrow>
      invoke_jit_handler (Some f) env d =
        (\<lparr>jo_kind = KTimerYield, jo_status_code = 0, jo_upstream_id = 0, jo_next_state = s, jo_yield_kind = YTimer,
          jo_timer_ms = ms, jo_response_body_idx = 0, jo_response_headers_idx = 0\<rparr>, env')) \<and>
    (k \<in> event_kinds \<and> w = pack (make_yield_payload s k ms) \<longrightarrow>
      invoke_jit_handler (Some f) env d =
        (\<lparr>jo_kind = KEventYield, jo_status_code = 0, jo_upstream_id = 0, jo_next_state = s, jo_yield_kind = k,
          jo_timer_ms = ms, jo_response_body_idx = 0, jo_response_headers_idx = 0\<rparr>, env')) \<and>
    (k \<in> event_kinds - {YAny} \<longrightarrow> yield_kind_matches_event k t = (yield_kind_from_event t = k)) \<and>
    (jo_kind (fst (invoke_jit_handler (Some f) env d)) = KError \<longleftrightarrow>
      (\<exists>x. hr_action (unpack w) = OtherAction x) \<or>
      hr_action (unpack w) = Yield \<and> hr_yield_kind (unpack w) \<noteq> YTimer \<and> hr_yield_kind (unpack w) \<notin> event_kinds) \<and>
    invoke_jit_handler (None :: ('env \<Rightarrow> bytes \<Rightarrow> u64 \<times> 'env) option) env d = (jit_outcome_default, env) \<and>
    jo_kind jit_outcome_default = KError"
proof (intro conjI impI)
  let ?r = "(make_status c)\<lparr>hr_upstream_id := b, hr_next_state := h\<rparr>"
  assume "w = pack ?r"
  then show "invoke_jit_handler (Some f) env d =
        (\<lparr>jo_kind = KReturnStatus, jo_status_code = c, jo_upstream_id = 0, jo_next_state = 0, jo_yield_kind = YTimer,
          jo_timer_ms = 0, jo_response_body_idx = b, jo_response_headers_idx = h\<rparr>, env')"
    unfolding invoke_jit_handler_def Let_def option.case f prod.case
    by (simp only: unpack_pack [OF make_wf(4)]) (simp add: make_status_def jit_outcome_default_def)
next
  assume "w = pack (make_forward u)"
  then show "invoke_jit_handler (Some f) env d =
        (\<lparr>jo_kind = KForward, jo_status_code = 0, jo_upstream_id = u, jo_next_state = 0, jo_yield_kind = YTimer,
          jo_timer_ms = 0, jo_response_body_idx = 0, jo_response_headers_idx = 0\<rparr>, env')"
    unfolding invoke_jit_handler_def Let_def option.case f prod.case
    by (simp only: unpack_pack [OF make_wf(2)]) (simp add: make_forward_def jit_outcome_default_def)
next
  assume "w = pack (make_yield_payload s YTimer ms)"
  then show "invoke_jit_handler (Some f) env d =
        (\<lparr>jo_kind = KTimerYield, jo_status_code = 0, jo_upstream_id = 0, jo_next_state = s, jo_yield_kind = YTimer,
          jo_timer_ms = ms, jo_response_body_idx = 0, jo_response_headers_idx = 0\<rparr>, env')"
    unfolding invoke_jit_handler_def Let_def option.case f prod.case
    by (simp only: unpack_pack [OF make_wf(3)] payload_roundtrip) (simp add: make_yield_payload_def jit_outcome_default_def)
next
  assume k: "k \<in> event_kinds \<and> w = pack (make_yield_payload s k ms)"
  then have kk: "k = YAny \<or> k = YRecv \<or> k = YSend \<or> k = YUpstreamConnect \<or> k = YUpstreamRecv \<or> k = YUpstreamSend" "k \<noteq> YTimer"
    by (auto simp: event_kinds_def)
  have n: "hr_action (make_yield_payload s k ms) = Yield" "hr_next_state (make_yield_payload s k ms) = s"
    "hr_yield_kind (make_yield_payload s k ms) = k" by (simp_all add: make_yield_payload_def)
  show "invoke_jit_handler (Some f) env d =
        (\<lparr>jo_kind = KEventYield, jo_status_code = 0, jo_upstream_id = 0, jo_next_state = s, jo_yield_kind = k,
          jo_timer_ms = ms, jo_response_body_idx = 0, jo_response_headers_idx = 0\<rparr>, env')"
    unfolding invoke_jit_handler_def Let_def option.case f prod.case conjunct2 [OF k]
      unpack_pack [OF event_wf [OF conjunct1 [OF k]]] payload_roundtrip n handler_action.case if_not_P [OF kk(2)] if_P [OF kk(1)]
    by (simp add: jit_outcome_default_def)
next
  assume "k \<in> event_kinds - {YAny}"
  then show "yield_kind_matches_event k t = (yield_kind_from_event t = k)"
    by (cases t) (auto simp: event_kinds_def yield_kind_matches_event_def yield_kind_from_event_def)
next
  show "jo_kind (fst (invoke_jit_handler (Some f) env d)) = KError \<longleftrightarrow>
      (\<exists>x. hr_action (unpack w) = OtherAction x) \<or>
      hr_action (unpack w) = Yield \<and> hr_yield_kind (unpack w) \<noteq> YTimer \<and> hr_yield_kind (unpack w) \<notin> event_kinds"
    unfolding invoke_error_iff f Let_def by simp
  show "invoke_jit_handler (None :: ('env \<Rightarrow> bytes \<Rightarrow> u64 \<times> 'env) option) env d = (jit_outcome_default, env)"
    "jo_kind jit_outcome_default = KError"
    by (simp_all add: invoke_jit_handler_def jit_outcome_default_def)
qed

theorem invoke_jit_handler_outcome_witness:
  "fst (invoke_jit_handler (Some (\<lambda>n d. (pack ((make_status 301)\<lparr>hr_upstream_id := 2, hr_next_state := 5\<rparr>), n + 1))) (0 :: nat) []) =
     \<lparr>jo_kind = KReturnStatus, jo_status_code = 301, jo_upstream_id = 0, jo_next_state = 0, jo_yield_kind = YTimer,
      jo_timer_ms = 0, jo_response_body_idx = 2, jo_response_headers_idx = 5\<rparr> \<and>
   fst (invoke_jit_handler (Some (\<lambda>n d. (pack (make_yield_payload 4 YRecv 1500), n + 1))) (0 :: nat) []) =
     \<lparr>jo_kind = KEventYield, jo_status_code = 0, jo_upstream_id = 0, jo_next_state = 4, jo_yield_kind = YRecv,
      jo_timer_ms = 1500, jo_response_body_idx = 0, jo_response_headers_idx = 0\<rparr>"
  using invoke_jit_handler_outcome [of "\<lambda>n d. (pack ((make_status 301)\<lparr>hr_upstream_id := 2, hr_next_state := 5\<rparr>), n + 1)" "0 :: nat" "[]", OF refl]
    invoke_jit_handler_outcome [of "\<lambda>n d. (pack (make_yield_payload 4 YRecv 1500), n + 1)" "0 :: nat" "[]", OF refl]
  by (simp add: event_kinds_def)

text \<open>
  C27: \<open>timer_seconds_from_ms\<close> rounds up to whole seconds for every 32-bit number of
  milliseconds, with no overflow: the wait is never shorter than asked for and less than a second
  longer.
\<close>

theorem timer_seconds_round_up:
  "unat ms \<le> 1000 * unat (timer_seconds_from_ms ms) \<and> 1000 * unat (timer_seconds_from_ms ms) < unat ms + 1000"
  unfolding timer_seconds_unat by linarith

end
