(* ===== verification/Metrics.thy ===== *)
theory Metrics
  imports Rut_Prelude
begin

text \<open>
  The counters of a shard (metrics.h) with their histogram and the aggregation over the shards,
  and the test that decides which connections a drain closes (drain.h).  The counters are
  64-bit words.
\<close>

section \<open>The histogram\<close>

definition kBucketCount :: nat where
  "kBucketCount = 11"

definition kBounds :: "u32 list" where
  "kBounds = [100, 500, 1000, 5000, 10000, 50000, 100000, 500000, 1000000, 5000000, 0xFFFFFFFF]"

record latency_histogram =
  lh_buckets :: "u64 list"
  lh_sum_us :: u64
  lh_count :: u64

definition lh_init :: latency_histogram where
  "lh_init = \<lparr>lh_buckets = replicate kBucketCount 0, lh_sum_us = 0, lh_count = 0\<rparr>"

definition find_bucket :: "u32 \<Rightarrow> nat" where
  "find_bucket d =
     (if d < 100 then 0
      else if d < 500 then 1
      else if d < 1000 then 2
      else if d < 5000 then 3
      else if d < 10000 then 4
      else if d < 50000 then 5
      else if d < 100000 then 6
      else if d < 500000 then 7
      else if d < 1000000 then 8
      else if d < 5000000 then 9
      else 10)"

definition lh_record :: "u32 \<Rightarrow> latency_histogram \<Rightarrow> latency_histogram" where
  "lh_record d h =
     (let bucket = find_bucket d in
      h\<lparr>lh_buckets := (lh_buckets h)[bucket := lh_buckets h ! bucket + 1],
        lh_sum_us := lh_sum_us h + ucast d,
        lh_count := lh_count h + 1\<rparr>)"

section \<open>The counters of a shard\<close>

record shard_metrics =
  requests_total :: u64
  requests_active :: u64
  connections_total :: u64
  connections_active :: u64
  connections_closed :: u64
  request_latency :: latency_histogram
  memory_arena_used :: u64
  memory_slices_used :: u64
  memory_slices_free :: u64
  memory_connections_used :: u64

definition metrics_init :: shard_metrics where
  "metrics_init = \<lparr>requests_total = 0, requests_active = 0, connections_total = 0, connections_active = 0,
     connections_closed = 0, request_latency = lh_init, memory_arena_used = 0, memory_slices_used = 0,
     memory_slices_free = 0, memory_connections_used = 0\<rparr>"

definition on_accept :: "shard_metrics \<Rightarrow> shard_metrics" where
  "on_accept m = m\<lparr>connections_total := connections_total m + 1, connections_active := connections_active m + 1\<rparr>"

definition on_close :: "shard_metrics \<Rightarrow> shard_metrics" where
  "on_close m =
     (let m = (if connections_active m > 0 then m\<lparr>connections_active := connections_active m - 1\<rparr> else m) in
      m\<lparr>connections_closed := connections_closed m + 1\<rparr>)"

definition on_request_start :: "shard_metrics \<Rightarrow> shard_metrics" where
  "on_request_start m = m\<lparr>requests_active := requests_active m + 1\<rparr>"

definition on_request_complete :: "u32 \<Rightarrow> shard_metrics \<Rightarrow> shard_metrics" where
  "on_request_complete d m =
     (let m = m\<lparr>requests_total := requests_total m + 1\<rparr>;
          m = (if requests_active m > 0 then m\<lparr>requests_active := requests_active m - 1\<rparr> else m)
      in m\<lparr>request_latency := lh_record d (request_latency m)\<rparr>)"

definition add_metrics :: "shard_metrics \<Rightarrow> shard_metrics \<Rightarrow> shard_metrics" where
  "add_metrics agg s =
     \<lparr>requests_total = requests_total agg + requests_total s,
      requests_active = requests_active agg + requests_active s,
      connections_total = connections_total agg + connections_total s,
      connections_active = connections_active agg + connections_active s,
      connections_closed = connections_closed agg + connections_closed s,
      request_latency =
        \<lparr>lh_buckets = map (\<lambda>b. lh_buckets (request_latency agg) ! b + lh_buckets (request_latency s) ! b) [0..<kBucketCount],
         lh_sum_us = lh_sum_us (request_latency agg) + lh_sum_us (request_latency s),
         lh_count = lh_count (request_latency agg) + lh_count (request_latency s)\<rparr>,
      memory_arena_used = memory_arena_used agg + memory_arena_used s,
      memory_slices_used = memory_slices_used agg + memory_slices_used s,
      memory_slices_free = memory_slices_free agg + memory_slices_free s,
      memory_connections_used = memory_connections_used agg + memory_connections_used s\<rparr>"

definition aggregate_metrics :: "shard_metrics list \<Rightarrow> shard_metrics" where
  "aggregate_metrics shards = foldl add_metrics metrics_init shards"

section \<open>Draining\<close>

definition should_drain_close :: "u32 \<Rightarrow> u64 \<Rightarrow> u64 \<Rightarrow> u32 \<Rightarrow> bool" where
  "should_drain_close conn_id drain_start now period_secs =
     (if period_secs = 0 then True
      else let elapsed = now - drain_start in
        if elapsed \<ge> ucast period_secs then True
        else let hash = conn_id * 2654435761; threshold = hash mod period_secs in
          threshold < ucast elapsed)"

section \<open>The events of a shard\<close>

datatype metric_event = MAccept | MClose | MStart | MComplete u32

definition metric_step :: "metric_event \<Rightarrow> shard_metrics \<Rightarrow> shard_metrics" where
  "metric_step e m = (case e of MAccept \<Rightarrow> on_accept m | MClose \<Rightarrow> on_close m | MStart \<Rightarrow> on_request_start m
     | MComplete d \<Rightarrow> on_request_complete d m)"

definition metric_run :: "metric_event list \<Rightarrow> shard_metrics" where
  "metric_run es = fold metric_step es metrics_init"

text \<open>The histogram counts each sample once, and the totals agree.\<close>

definition metrics_ok :: "shard_metrics \<Rightarrow> bool" where
  "metrics_ok m \<longleftrightarrow> length (lh_buckets (request_latency m)) = kBucketCount \<and>
     sum_list (lh_buckets (request_latency m)) = lh_count (request_latency m) \<and>
     requests_total m = lh_count (request_latency m)"

lemma find_bucket_lt: "find_bucket d < kBucketCount"
  by (simp add: find_bucket_def kBucketCount_def)

lemma sum_list_update_inc:
  "i < length xs \<Longrightarrow> sum_list (xs[i := xs ! i + c]) = sum_list xs + (c :: u64)"
  by (induction xs arbitrary: i) (auto split: nat.splits simp: add.assoc add.commute add.left_commute)

lemma sum_list_map2_add:
  "length xs = n \<Longrightarrow> length ys = n \<Longrightarrow> sum_list (map (\<lambda>b. xs ! b + ys ! b) [0..<n]) = sum_list xs + (sum_list ys :: u64)"
  by (simp add: sum_list_addf interv_sum_list_conv_sum_set_nat sum_list_sum_nth atLeast0LessThan sum.distrib)

lemma metrics_init_ok: "metrics_ok metrics_init"
  by (simp add: metrics_ok_def metrics_init_def lh_init_def sum_list_replicate)

lemma metric_step_ok: "metrics_ok m \<Longrightarrow> metrics_ok (metric_step e m)"
  using find_bucket_lt
  by (auto simp: metrics_ok_def metric_step_def on_accept_def on_close_def on_request_start_def
      on_request_complete_def lh_record_def Let_def sum_list_update_inc split: metric_event.split)

lemma metric_run_ok: "metrics_ok (metric_run es)"
proof -
  have "metrics_ok m \<Longrightarrow> metrics_ok (fold metric_step es m)" for m
    by (induction es arbitrary: m) (simp_all add: metric_step_ok)
  then show ?thesis by (simp add: metric_run_def metrics_init_ok)
qed

lemma add_metrics_ok: "metrics_ok a \<Longrightarrow> metrics_ok b \<Longrightarrow> metrics_ok (add_metrics a b)"
  by (simp add: metrics_ok_def add_metrics_def sum_list_map2_add)

text \<open>What a sequence of events amounts to: the completed durations, and the counts that go up and down.\<close>

definition durations :: "metric_event list \<Rightarrow> u32 list" where
  "durations es = List.map_filter (\<lambda>e. case e of MComplete d \<Rightarrow> Some d | _ \<Rightarrow> None) es"

definition is_complete :: "metric_event \<Rightarrow> bool" where
  "is_complete e \<longleftrightarrow> (case e of MComplete d \<Rightarrow> True | _ \<Rightarrow> False)"

text \<open>A count that is raised by one kind of event, lowered by another, and never below zero.\<close>

fun level :: "(metric_event \<Rightarrow> bool) \<Rightarrow> (metric_event \<Rightarrow> bool) \<Rightarrow> nat \<Rightarrow> metric_event list \<Rightarrow> nat" where
  "level up down n [] = n"
| "level up down n (e # es) = level up down (if up e then Suc n else if down e then n - 1 else n) es"

fun closes_covered :: "nat \<Rightarrow> metric_event list \<Rightarrow> bool" where
  "closes_covered n [] = True"
| "closes_covered n (MAccept # es) = closes_covered (Suc n) es"
| "closes_covered n (MClose # es) = (n > 0 \<and> closes_covered (n - 1) es)"
| "closes_covered n (e # es) = closes_covered n es"

lemma durations_simps [simp]:
  "durations [] = []" "durations (MComplete d # es) = d # durations es"
  "durations (MAccept # es) = durations es" "durations (MClose # es) = durations es"
  "durations (MStart # es) = durations es"
  by (simp_all add: durations_def List.map_filter_def)

definition tally :: "metric_event list \<Rightarrow> shard_metrics \<Rightarrow> shard_metrics \<Rightarrow> bool" where
  "tally es m m' \<longleftrightarrow>
     requests_total m' = requests_total m + of_nat (length (durations es)) \<and>
     connections_total m' = connections_total m + of_nat (count_list es MAccept) \<and>
     connections_closed m' = connections_closed m + of_nat (count_list es MClose) \<and>
     lh_count (request_latency m') = lh_count (request_latency m) + of_nat (length (durations es)) \<and>
     lh_sum_us (request_latency m') = lh_sum_us (request_latency m) + sum_list (map ucast (durations es)) \<and>
     length (lh_buckets (request_latency m')) = kBucketCount \<and>
     (\<forall>b < kBucketCount. lh_buckets (request_latency m') ! b =
        lh_buckets (request_latency m) ! b + of_nat (length (filter (\<lambda>d. find_bucket d = b) (durations es))))"

lemma fold_tally:
  "length (lh_buckets (request_latency m)) = kBucketCount \<Longrightarrow> tally es m (fold metric_step es m)"
proof (induction es arbitrary: m)
  case (Cons e es)
  have l: "length (lh_buckets (request_latency (metric_step e m))) = kBucketCount"
    using Cons.prems by (auto simp: metric_step_def on_accept_def on_close_def on_request_start_def
        on_request_complete_def lh_record_def Let_def split: metric_event.split)
  show ?case
    using Cons.IH [OF l] Cons.prems find_bucket_lt
    by (cases e) (auto simp: tally_def metric_step_def on_accept_def on_close_def on_request_start_def
        on_request_complete_def lh_record_def Let_def add.assoc nth_list_update)
qed (simp add: tally_def)

text \<open>The two levels, as long as they fit into a word.\<close>

lemma level_step:
  fixes w :: u64
  assumes "unat w = n" "n + 1 < 2 ^ 64"
  shows "unat (w + 1) = Suc n" "unat (if w > 0 then w - 1 else w) = n - 1"
proof -
  show "unat (w + 1) = Suc n" using assms by (simp add: unat_word_ariths)
  show "unat (if w > 0 then w - 1 else w) = n - 1"
    using assms(1) by (cases "w = 0") (auto simp: word_less_nat_alt unat_minus_one)
qed

lemma fold_levels:
  assumes "unat (connections_active m) = n" "unat (requests_active m) = k" "n + length es < 2 ^ 64" "k + length es < 2 ^ 64"
  shows "unat (connections_active (fold metric_step es m)) = level ((=) MAccept) ((=) MClose) n es \<and>
    unat (requests_active (fold metric_step es m)) = level ((=) MStart) is_complete k es"
  using assms
proof (induction es arbitrary: m n k)
  case (Cons e es)
  have s: "n + 1 < 2 ^ 64" "k + 1 < 2 ^ 64" using Cons.prems(3,4) by simp_all
  note c = level_step [OF Cons.prems(1) s(1)] level_step [OF Cons.prems(2) s(2)]
  let ?n = "if MAccept = e then Suc n else if MClose = e then n - 1 else n"
  let ?k = "if MStart = e then Suc k else if is_complete e then k - 1 else k"
  have "unat (connections_active (metric_step e m)) = ?n" "unat (requests_active (metric_step e m)) = ?k"
    using Cons.prems(1,2) c
    by (cases e; simp add: metric_step_def on_accept_def on_close_def on_request_start_def
        on_request_complete_def is_complete_def Let_def split: if_splits)+
  moreover have "?n + length es < 2 ^ 64" "?k + length es < 2 ^ 64" using Cons.prems(3,4) by auto
  ultimately show ?case using Cons.IH by simp
qed simp

lemma covered_level:
  "closes_covered n es \<Longrightarrow> level ((=) MAccept) ((=) MClose) n es + count_list es MClose = n + count_list es MAccept"
  by (induction n es rule: closes_covered.induct) auto

section \<open>Properties\<close>

text \<open>
  C28: The metrics of a shard are exact after every sequence of events: the totals are the
  numbers of accepted and closed connections and of completed requests, the sum of the
  histogram is the sum of the completed durations, each bucket holds the number of durations that fall
  into it, and the buckets sum up to the number of completed requests (all modulo the word).
  For fewer than \<open>2 ^ 64\<close> events the two gauges are the open connections and the running
  requests, where a surplus close or completion counts as none.  If moreover no close comes
  before its accept, the accepted connections are the open ones and the closed ones.
\<close>

theorem metrics_consistent:
  fixes es :: "metric_event list"
  defines "m \<equiv> metric_run es"
  shows "requests_total m = of_nat (length (durations es)) \<and>
     connections_total m = of_nat (count_list es MAccept) \<and>
     connections_closed m = of_nat (count_list es MClose) \<and>
     lh_sum_us (request_latency m) = sum_list (map ucast (durations es)) \<and>
     (\<forall>b < kBucketCount. lh_buckets (request_latency m) ! b =
        of_nat (length (filter (\<lambda>d. find_bucket d = b) (durations es)))) \<and>
     sum_list (lh_buckets (request_latency m)) = lh_count (request_latency m) \<and>
     lh_count (request_latency m) = requests_total m \<and>
     (length es < 2 ^ 64 \<longrightarrow>
        unat (connections_active m) = level ((=) MAccept) ((=) MClose) 0 es \<and>
        unat (requests_active m) = level ((=) MStart) is_complete 0 es) \<and>
     (length es < 2 ^ 64 \<and> closes_covered 0 es \<longrightarrow>
        connections_total m = connections_active m + connections_closed m)"
proof -
  have i: "length (lh_buckets (request_latency metrics_init)) = kBucketCount"
    by (simp add: metrics_init_def lh_init_def)
  have t: "tally es metrics_init m" unfolding m_def metric_run_def by (rule fold_tally [OF i])
  have z: "lh_buckets (request_latency metrics_init) ! b = 0" if "b < kBucketCount" for b
    using that by (simp add: metrics_init_def lh_init_def)
  have l: "unat (connections_active m) = level ((=) MAccept) ((=) MClose) 0 es \<and>
      unat (requests_active m) = level ((=) MStart) is_complete 0 es" if "length es < 2 ^ 64"
    unfolding m_def metric_run_def by (rule fold_levels) (use that in \<open>simp_all add: metrics_init_def\<close>)
  have "connections_total m = connections_active m + connections_closed m" if "length es < 2 ^ 64" "closes_covered 0 es"
  proof -
    have "connections_active m = of_nat (level ((=) MAccept) ((=) MClose) 0 es)"
      using l [OF that(1), THEN conjunct1, symmetric] by simp
    then have "connections_active m + connections_closed m =
        of_nat (level ((=) MAccept) ((=) MClose) 0 es + count_list es MClose)"
      using t by (simp add: tally_def metrics_init_def)
    then show ?thesis using covered_level [OF that(2)] t by (simp add: tally_def metrics_init_def)
  qed
  moreover have "metrics_ok m" unfolding m_def by (rule metric_run_ok)
  ultimately show ?thesis
    using t z l by (auto simp: tally_def metrics_ok_def metrics_init_def lh_init_def)
qed

theorem metrics_consistent_witness:
  "connections_total (metric_run [MAccept, MAccept, MStart, MComplete 250, MClose]) =
     connections_active (metric_run [MAccept, MAccept, MStart, MComplete 250, MClose]) +
     connections_closed (metric_run [MAccept, MAccept, MStart, MComplete 250, MClose]) \<and>
   unat (connections_active (metric_run [MAccept, MAccept, MStart, MComplete 250, MClose])) = 1 \<and>
   lh_buckets (request_latency (metric_run [MAccept, MAccept, MStart, MComplete 250, MClose])) ! 1 = 1"
proof -
  let ?es = "[MAccept, MAccept, MStart, MComplete 250, MClose]"
  have e: "length ?es < 2 ^ 64" "closes_covered 0 ?es" "(1 :: nat) < kBucketCount"
    "level ((=) MAccept) ((=) MClose) 0 ?es = 1" "length (filter (\<lambda>d. find_bucket d = 1) (durations ?es)) = 1"
    by (simp_all add: kBucketCount_def find_bucket_def)
  note m = metrics_consistent [of ?es]
  have "unat (connections_active (metric_run ?es)) = level ((=) MAccept) ((=) MClose) 0 ?es" using m e(1) by blast
  moreover have "lh_buckets (request_latency (metric_run ?es)) ! 1 =
      of_nat (length (filter (\<lambda>d. find_bucket d = 1) (durations ?es)))" using m e(3) by blast
  moreover have "connections_total (metric_run ?es) = connections_active (metric_run ?es) + connections_closed (metric_run ?es)"
    using m e(1,2) by blast
  ultimately show ?thesis unfolding e(4,5) by simp
qed

text \<open>
  C29: The aggregate over the shards is their sum in every field: each of the five request and
  connection counters, the four memory counters, the sum and the count of the histogram and each of its
  buckets (modulo the word).  When every shard is consistent, so is the aggregate.
\<close>

theorem aggregate_consistent:
  fixes shards :: "shard_metrics list"
  defines "a \<equiv> aggregate_metrics shards"
  shows "requests_total a = sum_list (map requests_total shards) \<and>
     requests_active a = sum_list (map requests_active shards) \<and>
     connections_total a = sum_list (map connections_total shards) \<and>
     connections_active a = sum_list (map connections_active shards) \<and>
     connections_closed a = sum_list (map connections_closed shards) \<and>
     memory_arena_used a = sum_list (map memory_arena_used shards) \<and>
     memory_slices_used a = sum_list (map memory_slices_used shards) \<and>
     memory_slices_free a = sum_list (map memory_slices_free shards) \<and>
     memory_connections_used a = sum_list (map memory_connections_used shards) \<and>
     lh_sum_us (request_latency a) = sum_list (map (\<lambda>s. lh_sum_us (request_latency s)) shards) \<and>
     lh_count (request_latency a) = sum_list (map (\<lambda>s. lh_count (request_latency s)) shards) \<and>
     (\<forall>b < kBucketCount. lh_buckets (request_latency a) ! b =
        sum_list (map (\<lambda>s. lh_buckets (request_latency s) ! b) shards)) \<and>
     (list_all metrics_ok shards \<longrightarrow> metrics_ok a)"
proof -
  have f: "F (foldl add_metrics x shards) = F x + sum_list (map F shards)"
    if "\<And>x y. F (add_metrics x y) = F x + F y" for F :: "shard_metrics \<Rightarrow> u64" and x
    by (induction shards arbitrary: x) (simp_all add: that add.assoc)
  have sum: "F a = sum_list (map F shards)"
    if "\<And>x y. F (add_metrics x y) = F x + F y" "F metrics_init = 0" for F :: "shard_metrics \<Rightarrow> u64"
    using f [of F metrics_init, OF that(1)] that(2) by (simp add: a_def aggregate_metrics_def)
  have "metrics_ok x \<Longrightarrow> list_all metrics_ok shards \<Longrightarrow> metrics_ok (foldl add_metrics x shards)" for x
    by (induction shards arbitrary: x) (simp_all add: add_metrics_ok)
  then have ok: "list_all metrics_ok shards \<longrightarrow> metrics_ok a"
    using metrics_init_ok by (simp add: a_def aggregate_metrics_def)
  show ?thesis
    by (intro conjI allI impI sum ok [rule_format]; simp add: add_metrics_def metrics_init_def lh_init_def)
qed

theorem aggregate_consistent_witness:
  "connections_closed (aggregate_metrics [metric_run [MAccept, MClose], metric_run [MAccept, MClose]]) = 2 \<and>
   metrics_ok (aggregate_metrics [metric_run [MAccept, MClose], metric_run [MAccept, MClose]])"
proof -
  have "connections_closed (metric_run [MAccept, MClose]) = 1"
    by (simp add: metric_run_def metric_step_def on_accept_def on_close_def metrics_init_def Let_def)
  then show ?thesis
    using aggregate_consistent [of "[metric_run [MAccept, MClose], metric_run [MAccept, MClose]]"] metric_run_ok by simp
qed

text \<open>
  C30: A bucket holds the durations between its bounds: the duration is below the bound of its
  bucket and not below the bound of the bucket before.
\<close>

theorem find_bucket_bounds:
  "find_bucket d < kBucketCount \<and> (find_bucket d < 10 \<longrightarrow> d < kBounds ! find_bucket d) \<and>
     (0 < find_bucket d \<longrightarrow> kBounds ! (find_bucket d - 1) \<le> d)"
  by (simp add: find_bucket_def kBounds_def kBucketCount_def word_less_nat_alt word_le_nat_alt)

theorem find_bucket_bounds_witness: "(700 :: u32) < kBounds ! find_bucket 700"
  using find_bucket_bounds [of 700] by (simp add: find_bucket_def)

text \<open>
  C31: A drain closes a connection once and for all and in time: at its start it closes none (for a
  period that is not zero), a connection it would close it would also close at any later
  time, and from the end of the period on it closes every one.
\<close>

theorem drain_monotone:
  assumes "drain_start \<le> t1" "t1 \<le> t2" "0 < period"
  shows "\<not> should_drain_close c drain_start drain_start period \<and>
     (should_drain_close c drain_start t1 period \<longrightarrow> should_drain_close c drain_start t2 period) \<and>
     (ucast period \<le> t2 - drain_start \<longrightarrow> should_drain_close c drain_start t2 period)"
proof -
  have p: "period \<noteq> 0" using assms(3) by auto
  have up: "unat (ucast period :: u64) = unat period"
    using unat_u32_lt [of period] by (simp add: unsigned_ucast_eq take_bit_nat_eq_self)
  have e: "unat (t1 - drain_start) \<le> unat (t2 - drain_start)"
    using assms(1,2) by (simp add: unat_sub word_le_nat_alt)
  have lo: "unat (ucast x :: u32) = unat x" if "\<not> (ucast period :: u64) \<le> x" for x :: u64
  proof -
    have "unat x < unat period" using that up by (simp add: word_le_nat_alt)
    then have "unat x < 2 ^ 32" using unat_u32_lt [of period] by linarith
    then show ?thesis by (simp add: unsigned_ucast_eq take_bit_nat_eq_self)
  qed
  have "\<not> should_drain_close c drain_start drain_start period"
    using p up by (simp add: should_drain_close_def Let_def word_le_nat_alt unat_eq_0)
  moreover have "should_drain_close c drain_start t2 period" if c: "should_drain_close c drain_start t1 period"
  proof (cases "(ucast period :: u64) \<le> t2 - drain_start")
    case True
    then show ?thesis by (simp add: should_drain_close_def Let_def)
  next
    case False
    then have "\<not> (ucast period :: u64) \<le> t1 - drain_start" using e by (simp add: word_le_nat_alt)
    then have "c * 2654435761 mod period < ucast (t1 - drain_start)" "unat (ucast (t1 - drain_start) :: u32) = unat (t1 - drain_start)"
      using c p lo by (auto simp: should_drain_close_def Let_def)
    then have "c * 2654435761 mod period < (ucast (t2 - drain_start) :: u32)"
      using lo [OF False] e by (simp add: word_less_nat_alt)
    then show ?thesis using p by (simp add: should_drain_close_def Let_def)
  qed
  ultimately show ?thesis by (auto simp: should_drain_close_def Let_def)
qed

theorem drain_monotone_witness: "should_drain_close 3 100 131 30"
  using drain_monotone [of 100 130 131 30 3] by (simp add: should_drain_close_def)

end
