(* ===== verification/Timer_Wheel.thy ===== *)
theory Timer_Wheel
  imports Rut_Prelude
begin

text \<open>
  The timer wheel (timer_wheel.h, timer_wheel.cc) on the intrusive doubly linked lists of
  types.h.  The memory is explicit: the \<open>prev\<close> and \<open>next\<close> pointers of every list node, the heads
  of the 64 slots and the \<open>timer_node\<close> of every connection.  The pointer operations are shown to
  implement operations on lists, and the wheel to fire a connection at the tick it was armed for.
\<close>

section \<open>ListNode\<close>

datatype node = Slot nat | Node nat

record links =
  nprev :: "node \<Rightarrow> node"
  nnext :: "node \<Rightarrow> node"

definition node_init :: "node \<Rightarrow> links \<Rightarrow> links" where
  "node_init n L = (let L = L\<lparr>nprev := (nprev L)(n := n)\<rparr> in L\<lparr>nnext := (nnext L)(n := n)\<rparr>)"

definition node_remove :: "node \<Rightarrow> links \<Rightarrow> links" where
  "node_remove n L =
     (let L = L\<lparr>nnext := (nnext L)(nprev L n := nnext L n)\<rparr>
      in L\<lparr>nprev := (nprev L)(nnext L n := nprev L n)\<rparr>)"

definition insert_after :: "node \<Rightarrow> node \<Rightarrow> links \<Rightarrow> links" where
  "insert_after this n L =
     (let L = L\<lparr>nprev := (nprev L)(n := this)\<rparr>;
          L = L\<lparr>nnext := (nnext L)(n := nnext L this)\<rparr>;
          L = L\<lparr>nprev := (nprev L)(nnext L this := n)\<rparr>
      in L\<lparr>nnext := (nnext L)(this := n)\<rparr>)"

definition node_empty :: "node \<Rightarrow> links \<Rightarrow> bool" where
  "node_empty n L \<longleftrightarrow> nnext L n = n"

section \<open>TimerWheel\<close>

definition kSlots :: nat where
  "kSlots = 64"

record wheel =
  w_links :: links
  w_cursor :: u32

definition tw_init :: "wheel \<Rightarrow> wheel" where
  "tw_init w = \<lparr>w_links = fold (\<lambda>i. node_init (Slot i)) [0..<kSlots] (w_links w), w_cursor = 0\<rparr>"

definition tw_slot :: "u32 \<Rightarrow> u32 \<Rightarrow> nat" where
  "tw_slot cursor seconds = unat ((cursor + seconds) AND (64 - 1))"

definition tw_add :: "nat \<Rightarrow> u32 \<Rightarrow> wheel \<Rightarrow> wheel" where
  "tw_add c seconds w = w\<lparr>w_links := insert_after (Slot (tw_slot (w_cursor w) seconds)) (Node c) (w_links w)\<rparr>"

definition tw_refresh :: "nat \<Rightarrow> u32 \<Rightarrow> wheel \<Rightarrow> wheel" where
  "tw_refresh c seconds w =
     tw_add c seconds (w\<lparr>w_links := node_init (Node c) (node_remove (Node c) (w_links w))\<rparr>)"

definition tw_remove :: "nat \<Rightarrow> wheel \<Rightarrow> wheel" where
  "tw_remove c w = w\<lparr>w_links := node_init (Node c) (node_remove (Node c) (w_links w))\<rparr>"

text \<open>
  What \<open>on_expire\<close> does to the timer of the connection it is called for: \<open>close_conn\<close> removes
  it, a resumed handler may arm it again.
\<close>

datatype expire_action = Untouched | Closed | Rearmed u32

definition on_expire :: "(nat \<Rightarrow> expire_action) \<Rightarrow> nat \<Rightarrow> wheel \<Rightarrow> wheel" where
  "on_expire act c w = (case act c of Untouched \<Rightarrow> w | Closed \<Rightarrow> tw_remove c w | Rearmed s \<Rightarrow> tw_refresh c s w)"

text \<open>The loop of \<open>tick\<close>; it returns the wheel, the count and the connections it called
  \<open>on_expire\<close> for.  A null result is a loop that does not end.\<close>

definition node_conn :: "node \<Rightarrow> nat" where
  "node_conn n = (case n of Node c \<Rightarrow> c | Slot i \<Rightarrow> i)"

partial_function (option) tick_loop ::
  "(nat \<Rightarrow> expire_action) \<Rightarrow> node \<Rightarrow> node \<Rightarrow> u32 \<Rightarrow> nat list \<Rightarrow> wheel \<Rightarrow> (u32 \<times> nat list \<times> wheel) option" where
  "tick_loop act hd_node n count fired w =
     (if n = hd_node then Some (count, fired, w)
      else
        let nx = nnext (w_links w) n;
            w = w\<lparr>w_links := node_init n (node_remove n (w_links w))\<rparr>;
            c = node_conn n;
            w = on_expire act c w
        in tick_loop act hd_node nx (count + 1) (fired @ [c]) w)"

definition tw_tick :: "(nat \<Rightarrow> expire_action) \<Rightarrow> wheel \<Rightarrow> (u32 \<times> nat list \<times> wheel) option" where
  "tw_tick act w =
     (let h = Slot (unat (w_cursor w AND (64 - 1))) in
      case tick_loop act h (nnext (w_links w) h) 0 [] w of
        None \<Rightarrow> None
      | Some (count, fired, w') \<Rightarrow> Some (count, fired, w'\<lparr>w_cursor := w_cursor w' + 1\<rparr>))"

section \<open>Lists\<close>

text \<open>\<open>dseg L a xs b\<close>: from \<open>a\<close> the pointers lead through \<open>xs\<close> to \<open>b\<close>, and back.\<close>

fun dseg :: "links \<Rightarrow> node \<Rightarrow> nat list \<Rightarrow> node \<Rightarrow> bool" where
  "dseg L a [] b \<longleftrightarrow> nnext L a = b \<and> nprev L b = a"
| "dseg L a (x # xs) b \<longleftrightarrow> nnext L a = Node x \<and> nprev L (Node x) = a \<and> dseg L (Node x) xs b"

lemma dseg_append: "dseg L a (xs @ y # ys) b \<longleftrightarrow> dseg L a xs (Node y) \<and> dseg L (Node y) ys b"
  by (induction xs arbitrary: a) auto

lemma dseg_frame:
  "dseg L a xs b \<Longrightarrow> (\<And>n. n \<in> insert a (Node ` set xs) \<Longrightarrow> nnext L' n = nnext L n) \<Longrightarrow>
   (\<And>n. n \<in> insert b (Node ` set xs) \<Longrightarrow> nprev L' n = nprev L n) \<Longrightarrow> dseg L' a xs b"
  by (induction xs arbitrary: a) auto

lemma dseg_ends: "dseg L a xs b \<Longrightarrow> nnext L a \<in> insert b (Node ` set xs) \<and> nprev L b \<in> insert a (Node ` set xs)"
  by (induction xs arbitrary: a) auto

text \<open>Unlinking the node between two segments joins them.\<close>

lemma dseg_join:
  assumes "dseg L a xs (Node y)" "dseg L (Node y) ys b"
    "distinct (xs @ y # ys)" "a \<notin> Node ` set (xs @ y # ys)" "b \<notin> Node ` set (xs @ y # ys)"
    "nnext L' = (nnext L)(nprev L (Node y) := nnext L (Node y))"
    "nprev L' = (nprev L)(nnext L (Node y) := nprev L (Node y))"
  shows "dseg L' a (xs @ ys) b"
  using assms
proof (induction xs arbitrary: a)
  case Nil
  then have a: "nnext L a = Node y" "nprev L (Node y) = a" by simp_all
  show ?case
  proof (cases ys)
    case Nil
    with a \<open>dseg L (Node y) ys b\<close> show ?thesis using Nil.prems by simp
  next
    case (Cons z zs)
    have z: "nnext L (Node y) = Node z" "nprev L (Node z) = Node y" "dseg L (Node z) zs b"
      using Nil.prems(2) Cons by simp_all
    have "dseg L' (Node z) zs b"
      by (rule dseg_frame [OF z(3)]) (use Nil.prems Cons a z in \<open>auto simp: image_iff\<close>)
    then show ?thesis using Nil.prems Cons a z by simp
  qed
next
  case (Cons x xs)
  have x: "nnext L a = Node x" "nprev L (Node x) = a" "dseg L (Node x) xs (Node y)" using Cons.prems(1) by simp_all
  have IH: "dseg L' (Node x) (xs @ ys) b"
    by (rule Cons.IH [OF x(3) Cons.prems(2)]) (use Cons.prems in \<open>auto simp: image_iff\<close>)
  have "nprev L (Node y) \<in> insert (Node x) (Node ` set xs)" using dseg_ends [OF x(3)] by simp
  then have "nnext L' a = Node x" using Cons.prems(4,6) x(1) by auto
  moreover have "nnext L (Node y) \<in> insert b (Node ` set ys)" using dseg_ends [OF Cons.prems(2)] by simp
  then have "nprev L' (Node x) = a" using Cons.prems(3,5,7) x(2) by auto
  ultimately show ?case using IH by simp
qed

lemma node_remove_links:
  assumes "nprev L n \<noteq> n"
  shows "nnext (node_remove n L) = (nnext L)(nprev L n := nnext L n)"
    "nprev (node_remove n L) = (nprev L)(nnext L n := nprev L n)"
  using assms by (simp_all add: node_remove_def Let_def)

lemma node_remove_single: "nprev L n = n \<Longrightarrow> nnext L n = n \<Longrightarrow> node_init n (node_remove n L) = L"
proof -
  assume "nprev L n = n" "nnext L n = n"
  moreover from this have "(nprev L)(n := n) = nprev L" "(nnext L)(n := n) = nnext L" by (simp_all add: fun_eq_iff)
  ultimately show ?thesis by (simp add: node_remove_def node_init_def Let_def)
qed

lemma node_init_links: "nnext (node_init n L) = (nnext L)(n := n)" "nprev (node_init n L) = (nprev L)(n := n)"
  by (simp_all add: node_init_def Let_def)

text \<open>Taking \<open>y\<close> out of its list leaves the rest linked, and \<open>y\<close> alone.\<close>

lemma dseg_unlink:
  assumes "dseg L h (xs @ y # ys) h" "distinct (xs @ y # ys)" "h \<notin> Node ` set (xs @ y # ys)"
  defines "L' \<equiv> node_init (Node y) (node_remove (Node y) L)"
  shows "dseg L' h (xs @ ys) h" "nnext L' (Node y) = Node y" "nprev L' (Node y) = Node y"
    and "n \<notin> insert h (Node ` set (xs @ y # ys)) \<Longrightarrow> nnext L' n = nnext L n \<and> nprev L' n = nprev L n"
proof -
  have s: "dseg L h xs (Node y)" "dseg L (Node y) ys h" using assms(1) by (simp_all add: dseg_append)
  have p: "nprev L (Node y) \<in> insert h (Node ` set xs)" "nnext L (Node y) \<in> insert h (Node ` set ys)"
    using dseg_ends [OF s(1)] dseg_ends [OF s(2)] by simp_all
  then have np: "nprev L (Node y) \<noteq> Node y" using assms(2,3) by auto
  note r = node_remove_links [OF np]
  have j: "dseg (node_remove (Node y) L) h (xs @ ys) h" by (rule dseg_join [OF s assms(2,3,3) r])
  show "dseg L' h (xs @ ys) h" unfolding L'_def
    by (rule dseg_frame [OF j]) (use assms(2,3) in \<open>auto simp: node_init_links\<close>)
  show "nnext L' (Node y) = Node y" "nprev L' (Node y) = Node y" by (simp_all add: L'_def node_init_links)
  assume "n \<notin> insert h (Node ` set (xs @ y # ys))"
  then show "nnext L' n = nnext L n \<and> nprev L' n = nprev L n"
    using p by (auto simp: L'_def node_init_links r)
qed

text \<open>Linking \<open>y\<close>, which is in no list, behind the head of a list.\<close>

lemma dseg_insert:
  assumes "dseg L h xs h" "Node y \<notin> insert h (Node ` set xs)" "h \<notin> Node ` set xs" "distinct xs"
  defines "L' \<equiv> insert_after h (Node y) L"
  shows "dseg L' h (y # xs) h"
    and "n \<notin> insert h (Node ` set (y # xs)) \<Longrightarrow> nnext L' n = nnext L n \<and> nprev L' n = nprev L n"
proof -
  have yh: "Node y \<noteq> h" using assms(2) by auto
  have l: "nnext L' = (nnext L)(Node y := nnext L h, h := Node y)"
    "nprev L' = (nprev L)(Node y := h, nnext L h := Node y)"
    using yh by (simp_all add: L'_def insert_after_def Let_def)
  have e: "nnext L h \<in> insert h (Node ` set xs)" using dseg_ends [OF assms(1)] by simp
  show "dseg L' h (y # xs) h"
  proof (cases xs)
    case Nil
    then have "nnext L h = h" using assms(1) by simp
    then show ?thesis using Nil yh l by simp
  next
    case (Cons z zs)
    then have z: "nnext L h = Node z" "dseg L (Node z) zs h" using assms(1) by simp_all
    have "dseg L' (Node z) zs h"
      by (rule dseg_frame [OF z(2)]) (use assms(2-4) Cons l z in auto)
    then show ?thesis using Cons yh l z assms(2) by auto
  qed
  assume "n \<notin> insert h (Node ` set (y # xs))"
  then show "nnext L' n = nnext L n \<and> nprev L' n = nprev L n" using e l by auto
qed

section \<open>The wheel as lists\<close>

text \<open>\<open>S i\<close> is the list of the connections in slot \<open>i\<close>; a connection is in at most one slot, and
  the node of a connection in none is linked to itself.\<close>

definition members :: "(nat \<Rightarrow> nat list) \<Rightarrow> nat set" where
  "members S = (\<Union>i<kSlots. set (S i))"

definition lists_ok :: "(nat \<Rightarrow> nat list) \<Rightarrow> bool" where
  "lists_ok S \<longleftrightarrow> (\<forall>i<kSlots. distinct (S i)) \<and> (\<forall>i<kSlots. \<forall>j<kSlots. i \<noteq> j \<longrightarrow> set (S i) \<inter> set (S j) = {})"

definition links_ok :: "links \<Rightarrow> (nat \<Rightarrow> nat list) \<Rightarrow> bool" where
  "links_ok L S \<longleftrightarrow> lists_ok S \<and> (\<forall>i<kSlots. dseg L (Slot i) (S i) (Slot i)) \<and>
     (\<forall>c. c \<notin> members S \<longrightarrow> nnext L (Node c) = Node c \<and> nprev L (Node c) = Node c)"

definition abs_remove :: "nat \<Rightarrow> (nat \<Rightarrow> nat list) \<Rightarrow> nat \<Rightarrow> nat list" where
  "abs_remove c S = (\<lambda>i. removeAll c (S i))"

definition abs_add :: "nat \<Rightarrow> nat \<Rightarrow> (nat \<Rightarrow> nat list) \<Rightarrow> nat \<Rightarrow> nat list" where
  "abs_add t c S = S(t := c # S t)"

lemma slot_not_Node [simp]: "Slot i \<notin> Node ` A"
  by auto

lemma members_remove: "members (abs_remove c S) = members S - {c}"
  by (auto simp: members_def abs_remove_def)

lemma members_add: "t < kSlots \<Longrightarrow> members (abs_add t c S) = insert c (members S)"
  by (auto simp: members_def abs_add_def split: if_splits)

lemma abs_remove_absent: "lists_ok S \<Longrightarrow> c \<notin> members S \<Longrightarrow> i < kSlots \<Longrightarrow> abs_remove c S i = S i"
  by (auto simp: members_def abs_remove_def)

lemma lists_ok_remove: "lists_ok S \<Longrightarrow> lists_ok (abs_remove c S)"
  by (auto simp: lists_ok_def abs_remove_def distinct_removeAll)

lemma lists_ok_add: "lists_ok S \<Longrightarrow> c \<notin> members S \<Longrightarrow> t < kSlots \<Longrightarrow> lists_ok (abs_add t c S)"
  by (auto simp: lists_ok_def abs_add_def members_def)

lemma links_ok_cong:
  "links_ok L S \<Longrightarrow> (\<And>i. i < kSlots \<Longrightarrow> T i = S i) \<Longrightarrow> links_ok L T"
proof -
  assume l: "links_ok L S" and e: "\<And>i. i < kSlots \<Longrightarrow> T i = S i"
  have "members T = members S" using e by (auto simp: members_def)
  with l e show ?thesis by (simp add: links_ok_def lists_ok_def)
qed

lemma removeAll_split: "distinct (xs @ c # ys) \<Longrightarrow> removeAll c (xs @ c # ys) = xs @ ys"
  by (simp add: removeAll_id)

lemma links_remove:
  assumes ok: "links_ok L S"
  shows "links_ok (node_init (Node c) (node_remove (Node c) L)) (abs_remove c S)"
proof (cases "c \<in> members S")
  case False
  then have "node_init (Node c) (node_remove (Node c) L) = L"
    using ok by (intro node_remove_single) (auto simp: links_ok_def)
  moreover have "links_ok L (abs_remove c S)"
    using ok by (rule links_ok_cong) (use ok False in \<open>simp add: abs_remove_absent links_ok_def\<close>)
  ultimately show ?thesis by simp
next
  case True
  let ?L = "node_init (Node c) (node_remove (Node c) L)"
  from True obtain i where i: "i < kSlots" "c \<in> set (S i)" by (auto simp: members_def)
  from i(2) obtain xs ys where s: "S i = xs @ c # ys" by (meson split_list)
  have l: "lists_ok S" "distinct (xs @ c # ys)" "dseg L (Slot i) (xs @ c # ys) (Slot i)"
    using ok i(1) unfolding s [symmetric] by (simp_all add: links_ok_def lists_ok_def)
  note u = dseg_unlink [OF l(3,2) slot_not_Node]
  have "dseg ?L (Slot j) (abs_remove c S j) (Slot j)" if j: "j < kSlots" for j
  proof (cases "j = i")
    case True
    then show ?thesis using u(1) removeAll_split [OF l(2)] by (simp add: abs_remove_def s)
  next
    case False
    then have d: "set (S j) \<inter> set (xs @ c # ys) = {}" using l(1) i(1) j s by (metis lists_ok_def)
    then have "abs_remove c S j = S j" by (auto simp: abs_remove_def)
    moreover have "dseg ?L (Slot j) (S j) (Slot j)"
    proof (rule dseg_frame)
      show "dseg L (Slot j) (S j) (Slot j)" using ok j by (simp add: links_ok_def)
      show "nnext ?L n = nnext L n" if "n \<in> insert (Slot j) (Node ` set (S j))" for n
        using u(4) [of n] that d False by auto
      show "nprev ?L n = nprev L n" if "n \<in> insert (Slot j) (Node ` set (S j))" for n
        using u(4) [of n] that d False by auto
    qed
    ultimately show ?thesis by simp
  qed
  moreover have "nnext ?L (Node x) = Node x \<and> nprev ?L (Node x) = Node x" if x: "x \<notin> members (abs_remove c S)" for x
  proof (cases "x = c")
    case True
    then show ?thesis using u(2,3) by simp
  next
    case False
    then have "x \<notin> members S" using x by (simp add: members_remove)
    then have "x \<notin> set (S i)" using i(1) by (auto simp: members_def)
    then have "Node x \<notin> insert (Slot i) (Node ` set (xs @ c # ys))" unfolding s by auto
    from u(4) [OF this] \<open>x \<notin> members S\<close> ok show ?thesis by (simp add: links_ok_def)
  qed
  ultimately show ?thesis using lists_ok_remove [OF l(1)] by (simp add: links_ok_def)
qed

lemma links_add:
  assumes ok: "links_ok L S" and c: "c \<notin> members S" and t: "t < kSlots"
  shows "links_ok (insert_after (Slot t) (Node c) L) (abs_add t c S)"
proof -
  let ?L = "insert_after (Slot t) (Node c) L"
  have l: "lists_ok S" "dseg L (Slot t) (S t) (Slot t)" "distinct (S t)" "c \<notin> set (S t)"
    using ok t c by (auto simp: links_ok_def lists_ok_def members_def)
  have n: "Node c \<notin> insert (Slot t) (Node ` set (S t))" using l(4) by auto
  note u = dseg_insert [OF l(2) n slot_not_Node l(3)]
  have "dseg ?L (Slot j) (abs_add t c S j) (Slot j)" if j: "j < kSlots" for j
  proof (cases "j = t")
    case True
    then show ?thesis using u(1) by (simp add: abs_add_def)
  next
    case False
    then have d: "set (S j) \<inter> set (c # S t) = {}" using l(1) t j c by (auto simp: lists_ok_def members_def)
    have "dseg ?L (Slot j) (S j) (Slot j)"
    proof (rule dseg_frame)
      show "dseg L (Slot j) (S j) (Slot j)" using ok j by (simp add: links_ok_def)
      show "nnext ?L n = nnext L n" if "n \<in> insert (Slot j) (Node ` set (S j))" for n
        using u(2) [of n] that d False by auto
      show "nprev ?L n = nprev L n" if "n \<in> insert (Slot j) (Node ` set (S j))" for n
        using u(2) [of n] that d False by auto
    qed
    with False show ?thesis by (simp add: abs_add_def)
  qed
  moreover have "nnext ?L (Node x) = Node x \<and> nprev ?L (Node x) = Node x" if x: "x \<notin> members (abs_add t c S)" for x
  proof -
    have "x \<notin> members S" "x \<noteq> c" using x t by (auto simp: members_add)
    then have "Node x \<notin> insert (Slot t) (Node ` set (c # S t))" using t by (auto simp: members_def)
    from u(2) [OF this] \<open>x \<notin> members S\<close> ok show ?thesis by (simp add: links_ok_def)
  qed
  ultimately show ?thesis using lists_ok_add [OF l(1) c t] by (simp add: links_ok_def)
qed

lemma tw_slot_lt: "tw_slot c s < kSlots"
proof -
  have "(c + s) AND (64 - 1) \<le> (64 - 1 :: u32)" by (rule word_and_le1)
  then show ?thesis by (simp add: tw_slot_def kSlots_def word_le_nat_alt)
qed

definition rep :: "wheel \<Rightarrow> (nat \<Rightarrow> nat list) \<Rightarrow> bool" where
  "rep w S \<longleftrightarrow> links_ok (w_links w) S"

lemma rep_remove: "rep w S \<Longrightarrow> rep (tw_remove c w) (abs_remove c S)"
  by (simp add: rep_def tw_remove_def links_remove)

lemma rep_add: "rep w S \<Longrightarrow> c \<notin> members S \<Longrightarrow> rep (tw_add c s w) (abs_add (tw_slot (w_cursor w) s) c S)"
  by (simp add: rep_def tw_add_def links_add tw_slot_lt)

lemma rep_refresh:
  "rep w S \<Longrightarrow> rep (tw_refresh c s w) (abs_add (tw_slot (w_cursor w) s) c (abs_remove c S))"
  using links_add [OF links_remove, of "w_links w" S c c "tw_slot (w_cursor w) s"]
  by (simp add: rep_def tw_refresh_def tw_add_def members_remove tw_slot_lt)

text \<open>What the callbacks of a tick do to the lists.\<close>

definition abs_expire :: "(nat \<Rightarrow> expire_action) \<Rightarrow> u32 \<Rightarrow> nat \<Rightarrow> (nat \<Rightarrow> nat list) \<Rightarrow> nat \<Rightarrow> nat list" where
  "abs_expire act cur c S = (case act c of Rearmed s \<Rightarrow> abs_add (tw_slot cur s) c S | _ \<Rightarrow> S)"

lemma rep_cong: "rep w S \<Longrightarrow> (\<And>i. i < kSlots \<Longrightarrow> T i = S i) \<Longrightarrow> rep w T"
  unfolding rep_def by (rule links_ok_cong)

lemma rep_expire:
  assumes "rep w S" "c \<notin> members S"
  shows "rep (on_expire act c w) (abs_expire act (w_cursor w) c S)" "w_cursor (on_expire act c w) = w_cursor w"
proof -
  have eq: "i < kSlots \<Longrightarrow> abs_remove c S i = S i" for i
    using assms by (simp add: abs_remove_absent rep_def links_ok_def)
  have "rep (tw_remove c w) S" by (rule rep_cong [OF rep_remove [OF assms(1)]]) (simp add: eq)
  moreover have "rep (tw_refresh c s w) (abs_add (tw_slot (w_cursor w) s) c S)" for s
    by (rule rep_cong [OF rep_refresh [OF assms(1)]]) (simp add: abs_add_def eq tw_slot_lt)
  ultimately show "rep (on_expire act c w) (abs_expire act (w_cursor w) c S)"
    using assms(1) by (simp add: on_expire_def abs_expire_def split: expire_action.split)
  show "w_cursor (on_expire act c w) = w_cursor w"
    by (simp add: on_expire_def tw_remove_def tw_refresh_def tw_add_def split: expire_action.split)
qed

text \<open>The loop: \<open>R\<close> are the lists without the rest \<open>cs\<close> of the slot that is still to be visited.\<close>

definition with_rest :: "nat \<Rightarrow> nat list \<Rightarrow> (nat \<Rightarrow> nat list) \<Rightarrow> nat \<Rightarrow> nat list" where
  "with_rest h cs R = R(h := R h @ cs)"

definition first_node :: "nat \<Rightarrow> nat list \<Rightarrow> node" where
  "first_node h cs = (case cs of [] \<Rightarrow> Slot h | c # _ \<Rightarrow> Node c)"

lemma dseg_next: "dseg L a (ys @ c # cs) (Slot h) \<Longrightarrow> nnext L (Node c) = first_node h cs"
  by (cases cs) (auto simp: dseg_append first_node_def)

lemma tick_loop_run:
  assumes "rep w (with_rest h cs R)" "h < kSlots"
  shows "\<exists>w'. tick_loop act (Slot h) (first_node h cs) n fired w =
       Some (n + of_nat (length cs), fired @ cs, w') \<and>
     rep w' (fold (abs_expire act (w_cursor w)) cs R) \<and> w_cursor w' = w_cursor w"
  using assms
proof (induction cs arbitrary: w R n fired)
  case Nil
  then show ?case by (subst tick_loop.simps) (simp add: first_node_def with_rest_def)
next
  case (Cons c cs)
  let ?w1 = "w\<lparr>w_links := node_init (Node c) (node_remove (Node c) (w_links w))\<rparr>"
  have ok: "lists_ok (with_rest h (c # cs) R)" "dseg (w_links w) (Slot h) (R h @ c # cs) (Slot h)"
  proof -
    have "dseg (w_links w) (Slot h) (with_rest h (c # cs) R h) (Slot h)"
      using Cons.prems unfolding rep_def links_ok_def by blast
    then show "dseg (w_links w) (Slot h) (R h @ c # cs) (Slot h)" by (simp add: with_rest_def)
  qed (use Cons.prems in \<open>unfold rep_def links_ok_def, blast\<close>)
  have dist: "distinct (R h @ c # cs)"
  proof -
    have "distinct (with_rest h (c # cs) R h)" using ok(1) Cons.prems(2) unfolding lists_ok_def by blast
    then show ?thesis by (simp add: with_rest_def)
  qed
  have nx: "nnext (w_links w) (Node c) = first_node h cs" by (rule dseg_next [OF ok(2)])
  have r: "abs_remove c (with_rest h (c # cs) R) i = with_rest h cs R i" if i: "i < kSlots" for i
  proof (cases "i = h")
    case True
    then show ?thesis using removeAll_split [OF dist] by (simp add: abs_remove_def with_rest_def)
  next
    case False
    then have "c \<notin> set (R i)" using ok(1) Cons.prems(2) i by (auto simp: lists_ok_def with_rest_def)
    with False show ?thesis by (simp add: abs_remove_def with_rest_def)
  qed
  have w1: "rep ?w1 (with_rest h cs R)"
    using rep_remove [OF Cons.prems(1), of c] r by (auto simp: tw_remove_def intro: rep_cong)
  have nm: "c \<notin> members (with_rest h cs R)"
  proof -
    have "members (with_rest h cs R) = members (abs_remove c (with_rest h (c # cs) R))"
      using r by (auto simp: members_def)
    then show ?thesis by (simp add: members_remove)
  qed
  note e = rep_expire [OF w1 nm, of act]
  have sw: "abs_expire act (w_cursor ?w1) c (with_rest h cs R) = with_rest h cs (abs_expire act (w_cursor w) c R)"
    by (auto simp: abs_expire_def with_rest_def abs_add_def fun_eq_iff split: expire_action.split)
  from Cons.IH [OF e(1) [unfolded sw] Cons.prems(2), of "n + 1" "fired @ [c]"] obtain w' where
    w': "tick_loop act (Slot h) (first_node h cs) (n + 1) (fired @ [c]) (on_expire act c ?w1) =
        Some (n + 1 + of_nat (length cs), (fired @ [c]) @ cs, w')"
      "rep w' (fold (abs_expire act (w_cursor (on_expire act c ?w1))) cs (abs_expire act (w_cursor w) c R))"
      "w_cursor w' = w_cursor (on_expire act c ?w1)" by blast
  have "tick_loop act (Slot h) (first_node h (c # cs)) n fired w =
      tick_loop act (Slot h) (first_node h cs) (n + 1) (fired @ [c]) (on_expire act c ?w1)"
    by (subst tick_loop.simps) (simp add: first_node_def [of h "c # cs"] nx node_conn_def Let_def)
  with w' e(2) show ?case by (intro exI [of _ w']) (simp add: add.assoc)
qed

lemma tw_tick_run:
  assumes "rep w S"
  defines "h \<equiv> tw_slot (w_cursor w) 0"
  shows "\<exists>w'. tw_tick act w = Some (of_nat (length (S h)), S h, w') \<and> w_cursor w' = w_cursor w + 1 \<and>
     rep w' (fold (abs_expire act (w_cursor w)) (S h) (S(h := [])))"
proof -
  have h: "h < kSlots" "unat (w_cursor w AND (64 - 1)) = h" by (simp_all add: h_def tw_slot_lt) (simp add: tw_slot_def)
  have "with_rest h (S h) (S(h := [])) = S" by (simp add: with_rest_def)
  then have r: "rep w (with_rest h (S h) (S(h := [])))" using assms(1) by simp
  have "dseg (w_links w) (Slot h) (S h) (Slot h)" using assms(1) h(1) by (simp add: rep_def links_ok_def)
  then have nx: "nnext (w_links w) (Slot h) = first_node h (S h)" by (cases "S h") (auto simp: first_node_def)
  from tick_loop_run [OF r h(1), of act 0 "[]"] obtain w' where
    "tick_loop act (Slot h) (first_node h (S h)) 0 [] w = Some (of_nat (length (S h)), S h, w')"
    "rep w' (fold (abs_expire act (w_cursor w)) (S h) (S(h := [])))" "w_cursor w' = w_cursor w" by auto
  then show ?thesis
    by (intro exI [of _ "w'\<lparr>w_cursor := w_cursor w' + 1\<rparr>"]) 
       (simp only: tw_tick_def h(2) nx Let_def option.case prod.case, simp add: rep_def)
qed

section \<open>Time\<close>

datatype tw_event = Refresh nat u32 | Remove nat | Tick "nat \<Rightarrow> expire_action"

definition tw_step :: "tw_event \<Rightarrow> wheel \<Rightarrow> (nat list \<times> wheel) option" where
  "tw_step e w = (case e of
     Refresh c s \<Rightarrow> Some ([], tw_refresh c s w)
   | Remove c \<Rightarrow> Some ([], tw_remove c w)
   | Tick act \<Rightarrow> (case tw_tick act w of None \<Rightarrow> None | Some (n, fired, w') \<Rightarrow> Some (fired, w')))"

fun tw_run :: "tw_event list \<Rightarrow> wheel \<Rightarrow> (nat list \<times> wheel) option" where
  "tw_run [] w = Some ([], w)"
| "tw_run (e # es) w =
     (case tw_step e w of None \<Rightarrow> None
      | Some (f, w') \<Rightarrow> (case tw_run es w' of None \<Rightarrow> None | Some (fs, w'') \<Rightarrow> Some (f @ fs, w'')))"

definition mentions :: "nat \<Rightarrow> tw_event \<Rightarrow> bool" where
  "mentions c e \<longleftrightarrow> (case e of Refresh x s \<Rightarrow> x = c | Remove x \<Rightarrow> x = c | Tick act \<Rightarrow> False)"

definition is_tick :: "tw_event \<Rightarrow> bool" where
  "is_tick e \<longleftrightarrow> (case e of Tick act \<Rightarrow> True | _ \<Rightarrow> False)"

definition ticks :: "tw_event list \<Rightarrow> nat" where
  "ticks es = length (filter is_tick es)"

lemma tw_slot_mod: "tw_slot c s = (unat c + unat s) mod 64"
proof -
  have "unat ((c + s) AND mask 6) = unat (take_bit 6 (c + s))" by (simp only: take_bit_eq_mask)
  also have "\<dots> = unat (c + s) mod 64" unfolding unsigned_take_bit_eq by (simp add: take_bit_eq_mod)
  also have "\<dots> = (unat c + unat s) mod 64" by (simp add: unat_word_ariths mod_mod_cancel)
  finally show ?thesis by (simp add: tw_slot_def mask_eq_exp_minus_1)
qed

lemma tw_slot_shift: "tw_slot (c + 1) (of_nat d) = tw_slot c (of_nat (Suc d))"
  by (simp add: tw_slot_def add.assoc)

lemma tw_slot_now: "0 < d \<Longrightarrow> d < 64 \<Longrightarrow> tw_slot c 0 \<noteq> tw_slot c (of_nat d)"
proof
  assume d: "0 < d" "d < 64" and eq: "tw_slot c 0 = tw_slot c (of_nat d)"
  have "unat (of_nat d :: u32) = d" using d by (simp add: unat_of_nat)
  with eq have "unat c mod 64 = (unat c + d) mod 64" by (simp add: tw_slot_mod)
  then have "64 dvd (unat c + d) - unat c" by (metis le_add1 mod_eq_dvd_iff_nat)
  with d show False by (simp add: nat_dvd_not_less)
qed

lemma tw_slot_wrap: "tw_slot c s = tw_slot c (of_nat (unat s mod 64))"
  by (simp add: tw_slot_mod unat_of_nat mod_simps)

lemma expire_keeps: "set (S i) \<subseteq> set (abs_expire act cur x S i)"
  by (auto simp: abs_expire_def abs_add_def split: expire_action.split)

lemma fold_expire_keeps: "set (S i) \<subseteq> set (fold (abs_expire act cur) xs S i)"
proof (induction xs arbitrary: S)
  case (Cons x xs)
  from Cons.IH [of "abs_expire act cur x S"] expire_keeps [of S i act cur x] show ?case by auto
qed simp

lemma tw_step_armed:
  assumes r: "rep w S" and c: "c \<in> set (S t)" "t < kSlots" and m: "\<not> mentions c e"
    and tk: "is_tick e \<Longrightarrow> tw_slot (w_cursor w) 0 \<noteq> t"
  shows "\<exists>fired w' S'. tw_step e w = Some (fired, w') \<and> rep w' S' \<and> c \<in> set (S' t) \<and> c \<notin> set fired \<and>
     w_cursor w' = w_cursor w + (if is_tick e then 1 else 0)"
proof (cases e)
  case (Refresh x s)
  then have "x \<noteq> c" using m by (simp add: mentions_def)
  then have "c \<in> set (abs_add (tw_slot (w_cursor w) s) x (abs_remove x S) t)"
    using c by (auto simp: abs_add_def abs_remove_def)
  with rep_refresh [OF r, of x s] Refresh show ?thesis
    by (intro exI [of _ "[]"] exI [of _ "tw_refresh x s w"] exI [of _ "abs_add (tw_slot (w_cursor w) s) x (abs_remove x S)"])
       (simp add: tw_step_def is_tick_def, simp add: tw_refresh_def tw_add_def)
next
  case (Remove x)
  then have "c \<in> set (abs_remove x S t)" using c m by (simp add: abs_remove_def mentions_def)
  with rep_remove [OF r, of x] Remove show ?thesis
    by (intro exI [of _ "[]"] exI [of _ "tw_remove x w"] exI [of _ "abs_remove x S"])
       (simp add: tw_step_def is_tick_def, simp add: tw_remove_def)
next
  case (Tick act)
  let ?h = "tw_slot (w_cursor w) 0"
  from tw_tick_run [OF r, of act] obtain w' where
    w': "tw_tick act w = Some (of_nat (length (S ?h)), S ?h, w')" "w_cursor w' = w_cursor w + 1"
      "rep w' (fold (abs_expire act (w_cursor w)) (S ?h) (S(?h := [])))" by blast
  have h: "?h \<noteq> t" using tk Tick by (simp add: is_tick_def)
  then have "c \<notin> set (S ?h)"
    using r c tw_slot_lt [of "w_cursor w" 0] by (auto simp: rep_def links_ok_def lists_ok_def)
  moreover have "c \<in> set (fold (abs_expire act (w_cursor w)) (S ?h) (S(?h := [])) t)"
    using fold_expire_keeps [of "S(?h := [])" t act "w_cursor w" "S ?h"] h c(1) by auto
  ultimately show ?thesis using w' Tick by (auto simp: tw_step_def is_tick_def)
qed

lemma tw_run_armed:
  assumes "rep w S" "c \<in> set (S t)" "t < kSlots" "list_all (\<lambda>e. \<not> mentions c e) es" "ticks es \<le> d" "d < 64"
    "tw_slot (w_cursor w) (of_nat d) = t"
  shows "\<exists>fired w' S'. tw_run es w = Some (fired, w') \<and> rep w' S' \<and> c \<in> set (S' t) \<and> c \<notin> set fired \<and>
     tw_slot (w_cursor w') (of_nat (d - ticks es)) = t"
  using assms
proof (induction es arbitrary: w S d)
  case Nil
  then show ?case by (auto simp: ticks_def)
next
  case (Cons e es)
  have m: "\<not> mentions c e" "list_all (\<lambda>e. \<not> mentions c e) es" using Cons.prems(4) by simp_all
  have tk: "tw_slot (w_cursor w) 0 \<noteq> t" if "is_tick e"
    using that Cons.prems(5-7) tw_slot_now [of d "w_cursor w"] by (auto simp: ticks_def)
  from tw_step_armed [OF Cons.prems(1-3) m(1) tk] obtain f w1 S1 where
    s: "tw_step e w = Some (f, w1)" "rep w1 S1" "c \<in> set (S1 t)" "c \<notin> set f"
      "w_cursor w1 = w_cursor w + (if is_tick e then 1 else 0)" by blast
  let ?d = "if is_tick e then d - 1 else d"
  have d: "ticks es \<le> ?d" "?d < 64" "?d - ticks es = d - ticks (e # es)"
    using Cons.prems(5,6) by (auto simp: ticks_def)
  have sl: "tw_slot (w_cursor w1) (of_nat ?d) = t"
  proof (cases "is_tick e")
    case True
    then have "d = Suc (d - 1)" using Cons.prems(5) by (simp add: ticks_def)
    then show ?thesis using True s(5) Cons.prems(7) tw_slot_shift [of "w_cursor w" "d - 1"] by simp
  qed (use s(5) Cons.prems(7) in simp)
  from Cons.IH [OF s(2,3) Cons.prems(3) m(2) d(1,2) sl] s(1,4) d(3) show ?case by auto
qed

section \<open>Properties\<close>

lemma fold_node_init:
  "nnext (fold (\<lambda>i. node_init (Slot i)) is L) = (\<lambda>n. if n \<in> Slot ` set is then n else nnext L n)"
  "nprev (fold (\<lambda>i. node_init (Slot i)) is L) = (\<lambda>n. if n \<in> Slot ` set is then n else nprev L n)"
  by (induction "is" arbitrary: L) (auto simp: node_init_links fun_eq_iff)

lemma tw_init_rep:
  assumes "\<And>c. nnext (w_links w) (Node c) = Node c \<and> nprev (w_links w) (Node c) = Node c"
  shows "rep (tw_init w) (\<lambda>_. [])"
  using assms by (auto simp: rep_def links_ok_def lists_ok_def tw_init_def fold_node_init members_def)

text \<open>
  C11: The pointer operations of the wheel implement lists: with the nodes of the connections
  linked into the slots \<open>S\<close>, removing a connection takes it out of its slot, refreshing it
  moves it to the front of the slot of its timeout, and a tick terminates, calls
  \<open>on_expire\<close> for exactly the connections of the slot under the cursor, in order, and leaves the
  slot with the connections the callbacks armed again.
\<close>

theorem timer_wheel_refines:
  assumes "rep w S"
  defines "h \<equiv> tw_slot (w_cursor w) 0"
  shows "rep (tw_remove c w) (abs_remove c S) \<and>
     rep (tw_refresh c s w) (abs_add (tw_slot (w_cursor w) s) c (abs_remove c S)) \<and>
     (\<exists>w'. tw_tick act w = Some (of_nat (length (S h)), S h, w') \<and> w_cursor w' = w_cursor w + 1 \<and>
        rep w' (fold (abs_expire act (w_cursor w)) (S h) (S(h := []))))"
  using rep_remove [OF assms(1)] rep_refresh [OF assms(1)] tw_tick_run [OF assms(1)] unfolding h_def by blast

definition blank_wheel :: wheel where
  "blank_wheel = \<lparr>w_links = \<lparr>nprev = id, nnext = id\<rparr>, w_cursor = 0\<rparr>"

theorem timer_wheel_refines_witness:
  "\<exists>w'. tw_tick (\<lambda>_. Closed) (tw_init blank_wheel) = Some (0, [], w')"
proof -
  have "rep (tw_init blank_wheel) (\<lambda>_. [])" by (rule tw_init_rep) (simp add: blank_wheel_def)
  from timer_wheel_refines [OF this, of 0 0 "\<lambda>_. Closed"] show ?thesis by auto
qed

text \<open>
  C32: A connection armed for \<open>s\<close> seconds fires on time: while \<open>s mod 64\<close> ticks pass, whatever
  the other connections do and whatever the callbacks do, it does not fire, and the next
  tick fires it.  The cursor may wrap; a timeout of 64 seconds or more is taken modulo 64.
\<close>

theorem timer_fires:
  assumes "rep w S" "list_all (\<lambda>e. \<not> mentions c e) es" "ticks es = unat s mod 64"
  shows "\<exists>fired w' n fired' w''. tw_run (Refresh c s # es) w = Some (fired, w') \<and> c \<notin> set fired \<and>
     tw_tick act w' = Some (n, fired', w'') \<and> c \<in> set fired'"
proof -
  let ?w = "tw_refresh c s w" and ?t = "tw_slot (w_cursor w) s"
  let ?S = "abs_add ?t c (abs_remove c S)"
  have r: "rep ?w ?S" by (rule rep_refresh [OF assms(1)])
  have c: "c \<in> set (?S ?t)" by (simp add: abs_add_def)
  have sl: "tw_slot (w_cursor ?w) (of_nat (unat s mod 64)) = ?t"
    by (simp add: tw_slot_wrap [of _ s, symmetric] tw_refresh_def tw_add_def)
  from tw_run_armed [OF r c tw_slot_lt assms(2) _ _ sl] assms(3) obtain fired w' S' where
    w': "tw_run es ?w = Some (fired, w')" "rep w' S'" "c \<in> set (S' ?t)" "c \<notin> set fired" "tw_slot (w_cursor w') 0 = ?t"
    by auto
  from tw_tick_run [OF w'(2), of act] w'(3,5) obtain w'' where
    "tw_tick act w' = Some (of_nat (length (S' ?t)), S' ?t, w'')" by auto
  with w' show ?thesis by (auto simp: tw_step_def)
qed

theorem timer_fires_witness:
  "\<exists>fired w' n fired' w''. tw_run [Refresh 5 2, Tick (\<lambda>_. Closed), Refresh 6 60, Tick (\<lambda>_. Rearmed 1)] (tw_init blank_wheel) = Some (fired, w') \<and>
     5 \<notin> set fired \<and> tw_tick (\<lambda>_. Closed) w' = Some (n, fired', w'') \<and> 5 \<in> set fired'"
proof -
  have "rep (tw_init blank_wheel) (\<lambda>_. [])" by (rule tw_init_rep) (simp add: blank_wheel_def)
  then show ?thesis by (rule timer_fires) (simp_all add: mentions_def ticks_def is_tick_def)
qed

end
