(* ===== verification/Route_Trie.thy ===== *)
theory Route_Trie
  imports Http_Parser "HOL-Library.Multiset" "HOL-Library.Product_Lexorder"
begin

text \<open>
  Route methods (route_method.h) and the segment trie of the route table (route_trie.h,
  route_trie.cc): tokenisation of a path, insertion with rollback, and the search with
  an explicit stack.  Segment views are the bytes they denote; node indices are positions in
  the node pool.
\<close>

section \<open>Route methods\<close>

datatype log_http_method =
  LGet | LPost | LPut | LDelete | LPatch | LHead | LOptions | LConnect | LTrace | LOther

definition kRouteMethodInvalid :: u8 where
  "kRouteMethodInvalid = 0xff"

definition kRouteMethodSlots :: nat where
  "kRouteMethodSlots = 10"

definition route_method_key :: "http_method \<Rightarrow> u8" where
  "route_method_key m = (case m of GET \<Rightarrow> 1 | POST \<Rightarrow> 2 | PUT \<Rightarrow> 3 | DELETE \<Rightarrow> 4 | PATCH \<Rightarrow> 5 | HEAD \<Rightarrow> 6
     | OPTIONS \<Rightarrow> 7 | CONNECT \<Rightarrow> 8 | TRACE \<Rightarrow> 9 | UnknownMethod \<Rightarrow> kRouteMethodInvalid)"

definition route_method_key_log :: "log_http_method \<Rightarrow> u8" where
  "route_method_key_log m = (case m of LGet \<Rightarrow> 1 | LPost \<Rightarrow> 2 | LPut \<Rightarrow> 3 | LDelete \<Rightarrow> 4 | LPatch \<Rightarrow> 5 | LHead \<Rightarrow> 6
     | LOptions \<Rightarrow> 7 | LConnect \<Rightarrow> 8 | LTrace \<Rightarrow> 9 | LOther \<Rightarrow> 0)"

definition route_method_key_from_legacy_char :: "u8 \<Rightarrow> u8" where
  "route_method_key_from_legacy_char m =
     (if m = 0 then 0
      else if m = of_char CHR ''G'' then 1
      else if m = of_char CHR ''P'' then 2
      else if m = of_char CHR ''D'' then 4
      else if m = of_char CHR ''H'' then 6
      else if m = of_char CHR ''O'' then 7
      else if m = of_char CHR ''C'' then 8
      else if m = of_char CHR ''T'' then 9
      else m)"

text \<open>\<open>None\<close> is \<open>kRouteMethodSlotInvalid\<close>.\<close>

definition route_method_slot_from_key :: "u8 \<Rightarrow> nat option" where
  "route_method_slot_from_key k = (if unat k < kRouteMethodSlots then Some (unat k) else None)"

definition route_method_slot :: "u8 \<Rightarrow> nat option" where
  "route_method_slot m = route_method_slot_from_key (route_method_key_from_legacy_char m)"

section \<open>Tokens\<close>

definition kMaxPathSegments :: nat where
  "kMaxPathSegments = 64"

function tok_loop :: "bytes \<Rightarrow> nat \<Rightarrow> nat \<Rightarrow> bytes list \<Rightarrow> nat \<times> bytes list" where
  "tok_loop path i start out =
     (if i \<le> length path then
        (let at_sep = (i = length path \<or> path ! i = 0x2F) in
         if \<not> at_sep then tok_loop path (i + 1) start out
         else if i > start then
           (case fv_push kMaxPathSegments out (slice path start i) of
              None \<Rightarrow> (kMaxPathSegments + 1, out)
            | Some out' \<Rightarrow> tok_loop path (i + 1) (i + 1) out')
         else tok_loop path (i + 1) (i + 1) out)
      else (length out, out))"
  by pat_completeness auto
termination by (relation "measure (\<lambda>(path, i, start, out). Suc (length path) - i)") auto

definition tokenize_segments :: "bytes \<Rightarrow> nat \<times> bytes list" where
  "tokenize_segments path = tok_loop path 0 0 []"

section \<open>The node pool\<close>

definition kMaxChildren :: nat where
  "kMaxChildren = 128"

definition kMaxNodes :: nat where
  "kMaxNodes = 4097"

definition kInvalidRoute :: u16 where
  "kInvalidRoute = 0xffff"

record trie_node =
  tn_segment :: bytes
  tn_children :: "nat list"
  tn_route :: "u16 list"

definition new_node :: "bytes \<Rightarrow> trie_node" where
  "new_node s = \<lparr>tn_segment = s, tn_children = [], tn_route = replicate kRouteMethodSlots kInvalidRoute\<rparr>"

definition trie_clear :: "trie_node list" where
  "trie_clear = [new_node []]"

text \<open>\<open>None\<close> is \<open>kInvalidNodeIdx\<close>.\<close>

definition find_child :: "trie_node list \<Rightarrow> nat \<Rightarrow> bytes \<Rightarrow> nat option" where
  "find_child t parent seg =
     (if seg = [] then None else find (\<lambda>c. tn_segment (t ! c) = seg) (tn_children (t ! parent)))"

definition is_param_segment :: "bytes \<Rightarrow> bool" where
  "is_param_segment seg \<longleftrightarrow> seg \<noteq> [] \<and> seg ! 0 = of_char CHR '':''"

text \<open>\<open>rollback\<close>: the children pushed in this insertion are popped in reverse order, then the
  nodes pushed.\<close>

definition pop_child :: "nat \<Rightarrow> trie_node list \<Rightarrow> trie_node list" where
  "pop_child p t = t[p := (t ! p)\<lparr>tn_children := butlast (tn_children (t ! p))\<rparr>]"

definition rollback :: "nat \<Rightarrow> nat list \<Rightarrow> trie_node list \<Rightarrow> trie_node list" where
  "rollback saved pushed t = take saved (fold pop_child (rev pushed) t)"

fun insert_loop ::
  "nat \<Rightarrow> bytes list \<Rightarrow> nat \<Rightarrow> trie_node list \<Rightarrow> nat list \<Rightarrow> trie_node list + (trie_node list \<times> nat)" where
  "insert_loop saved [] cur t pushed = Inr (t, cur)"
| "insert_loop saved (s # ss) cur t pushed =
     (case find_child t cur s of
        Some child \<Rightarrow> insert_loop saved ss child t pushed
      | None \<Rightarrow>
          if length t \<ge> kMaxNodes \<or> length (tn_children (t ! cur)) \<ge> kMaxChildren then Inl (rollback saved pushed t)
          else case fv_push kMaxNodes t (new_node s) of
            None \<Rightarrow> Inl (rollback saved pushed t)
          | Some t1 \<Rightarrow>
              let child = length t1 - 1 in
              case fv_push kMaxChildren (tn_children (t1 ! cur)) child of
                None \<Rightarrow> Inl (rollback saved pushed t1)
              | Some ch \<Rightarrow>
                  let t2 = t1[cur := (t1 ! cur)\<lparr>tn_children := ch\<rparr>] in
                  case fv_push kMaxPathSegments pushed cur of
                    None \<Rightarrow> Inl (rollback saved pushed t2)
                  | Some pushed' \<Rightarrow> insert_loop saved ss child t2 pushed')"

definition trie_insert :: "trie_node list \<Rightarrow> bytes \<Rightarrow> u8 \<Rightarrow> u16 \<Rightarrow> bool \<times> trie_node list" where
  "trie_insert t path method_char route_idx =
     (case route_method_slot method_char of
        None \<Rightarrow> (False, t)
      | Some slot \<Rightarrow>
          let (n, segs) = tokenize_segments path in
          if n > kMaxPathSegments then (False, t)
          else case insert_loop (length t) segs 0 t [] of
            Inl t' \<Rightarrow> (False, t')
          | Inr (t', cur) \<Rightarrow>
              if tn_route (t' ! cur) ! slot = kInvalidRoute
              then (True, t'[cur := (t' ! cur)\<lparr>tn_route := (tn_route (t' ! cur))[slot := route_idx]\<rparr>])
              else (True, t'))"

section \<open>Matching\<close>

definition kMaxRouteParams :: nat where
  "kMaxRouteParams = 16"

record candidate =
  ca_route_idx :: u16
  ca_depth :: nat
  ca_static_segments :: nat
  ca_static_mask :: u64
  ca_method_specific :: bool
  ca_params :: "(bytes \<times> bytes) list"

definition no_candidate :: candidate where
  "no_candidate = \<lparr>ca_route_idx = kInvalidRoute, ca_depth = 0, ca_static_segments = 0, ca_static_mask = 0,
     ca_method_specific = False, ca_params = []\<rparr>"

definition pick_terminal :: "trie_node \<Rightarrow> nat \<Rightarrow> u16 \<times> bool" where
  "pick_terminal node slot =
     (if slot \<noteq> 0 \<and> tn_route node ! slot \<noteq> kInvalidRoute then (tn_route node ! slot, True)
      else (tn_route node ! 0, False))"

record frame =
  fr_node :: nat
  fr_seg_i :: nat
  fr_depth :: nat
  fr_static_segments :: nat
  fr_static_mask :: u64
  fr_params :: "(bytes \<times> bytes) list"

definition first_frame :: frame where
  "first_frame = \<lparr>fr_node = 0, fr_seg_i = 0, fr_depth = 0, fr_static_segments = 0, fr_static_mask = 0, fr_params = []\<rparr>"

definition consider_terminal :: "u16 \<times> bool \<Rightarrow> frame \<Rightarrow> candidate \<Rightarrow> candidate" where
  "consider_terminal terminal f best =
     (if fst terminal = kInvalidRoute then best
      else if ca_route_idx best = kInvalidRoute \<or> fr_depth f > ca_depth best \<or>
        (fr_depth f = ca_depth best \<and> fr_static_segments f > ca_static_segments best) \<or>
        (fr_depth f = ca_depth best \<and> fr_static_segments f = ca_static_segments best \<and>
         fr_static_mask f > ca_static_mask best) \<or>
        (fr_depth f = ca_depth best \<and> fr_static_segments f = ca_static_segments best \<and>
         fr_static_mask f = ca_static_mask best \<and> snd terminal \<and> \<not> ca_method_specific best)
      then \<lparr>ca_route_idx = fst terminal, ca_depth = fr_depth f, ca_static_segments = fr_static_segments f,
            ca_static_mask = fr_static_mask f, ca_method_specific = snd terminal, ca_params = fr_params f\<rparr>
      else best)"

definition param_frame :: "trie_node list \<Rightarrow> bytes list \<Rightarrow> frame \<Rightarrow> nat \<Rightarrow> frame" where
  "param_frame t segs f c =
     f\<lparr>fr_node := c, fr_seg_i := fr_seg_i f + 1, fr_depth := fr_depth f + 1,
       fr_params := (if length (fr_params f) < kMaxRouteParams
                     then fr_params f @ [(drop 1 (tn_segment (t ! c)), segs ! fr_seg_i f)] else fr_params f)\<rparr>"

definition literal_frame :: "frame \<Rightarrow> nat \<Rightarrow> frame" where
  "literal_frame f c =
     (let depth = fr_depth f + 1 in
      f\<lparr>fr_node := c, fr_seg_i := fr_seg_i f + 1, fr_depth := depth,
        fr_static_segments := fr_static_segments f + 1,
        fr_static_mask := (if depth < 64 then fr_static_mask f OR push_bit (63 - depth) 1 else fr_static_mask f)\<rparr>)"

text \<open>The stack, its top first; a push on a full stack is dropped.\<close>

definition push_frame :: "frame \<Rightarrow> frame list \<Rightarrow> frame list" where
  "push_frame f stack = (if length stack < kMaxNodes then f # stack else stack)"

definition push_params :: "trie_node list \<Rightarrow> bytes list \<Rightarrow> frame \<Rightarrow> frame list \<Rightarrow> frame list" where
  "push_params t segs f stack =
     foldr (\<lambda>c st. if is_param_segment (tn_segment (t ! c)) then push_frame (param_frame t segs f c) st else st)
       (tn_children (t ! fr_node f)) stack"

definition push_literal :: "trie_node list \<Rightarrow> bytes list \<Rightarrow> frame \<Rightarrow> frame list \<Rightarrow> frame list" where
  "push_literal t segs f stack =
     (case find_child t (fr_node f) (segs ! fr_seg_i f) of
        None \<Rightarrow> stack
      | Some c \<Rightarrow> if \<not> is_param_segment (tn_segment (t ! c)) then push_frame (literal_frame f c) stack else stack)"

text \<open>Every frame a round pushes is one segment further.\<close>

definition extends :: "nat \<Rightarrow> frame list \<Rightarrow> frame list \<Rightarrow> bool" where
  "extends i st0 st \<longleftrightarrow> (\<exists>fs. st = fs @ st0 \<and> (\<forall>f \<in> set fs. fr_seg_i f = i))"

lemma extends_push_frame: "extends i st0 st \<Longrightarrow> fr_seg_i f = i \<Longrightarrow> extends i st0 (push_frame f st)"
  by (auto simp: extends_def push_frame_def)

lemma extends_push_params: "extends (fr_seg_i f + 1) st (push_params t segs f st)"
proof -
  have "extends (fr_seg_i f + 1) st (foldr (\<lambda>c st. if is_param_segment (tn_segment (t ! c))
      then push_frame (param_frame t segs f c) st else st) cs st)" for cs
    by (induction cs) (auto simp: extends_def intro!: extends_push_frame [unfolded extends_def] simp: param_frame_def)
  then show ?thesis by (simp add: push_params_def)
qed

lemma extends_push_literal: "extends (fr_seg_i f + 1) st st' \<Longrightarrow> extends (fr_seg_i f + 1) st (push_literal t segs f st')"
  by (auto simp: push_literal_def literal_frame_def Let_def intro!: extends_push_frame split: option.split)

text \<open>The search loop.\<close>

function match_loop :: "trie_node list \<Rightarrow> nat \<Rightarrow> bytes list \<Rightarrow> frame list \<Rightarrow> candidate \<Rightarrow> candidate" where
  "match_loop t slot segs [] best = best"
| "match_loop t slot segs (f # stack) best =
     (let best' = consider_terminal (pick_terminal (t ! fr_node f) slot) f best in
      if fr_seg_i f \<ge> length segs then match_loop t slot segs stack best'
      else match_loop t slot segs (push_literal t segs f (push_params t segs f stack)) best')"
  by pat_completeness auto
termination
proof (relation "inv_image (mult less_than) (\<lambda>(t, slot, segs, stack, best). mset (map (\<lambda>f. length segs - fr_seg_i f) stack))")
  show "wf (inv_image (mult less_than) (\<lambda>(t :: trie_node list, slot :: nat, segs :: bytes list, stack, best :: candidate).
      mset (map (\<lambda>f. length segs - fr_seg_i f) stack)))"
    by (intro wf_inv_image wf_mult wf_less_than)
next
  fix t :: "trie_node list" and slot :: nat and segs :: "bytes list" and f :: frame and stack and best x :: candidate
  show "((t, slot, segs, stack, x), (t, slot, segs, f # stack, best))
      \<in> inv_image (mult less_than) (\<lambda>(t, slot, segs, stack, best). mset (map (\<lambda>f. length segs - fr_seg_i f) stack))"
    using one_step_implies_mult [of "{#length segs - fr_seg_i f#}" "{#}" less_than "mset (map (\<lambda>f. length segs - fr_seg_i f) stack)"]
    by simp
next
  fix t :: "trie_node list" and slot :: nat and segs :: "bytes list" and f :: frame and stack and best x :: candidate
  assume n: "\<not> fr_seg_i f \<ge> length segs"
  have "extends (fr_seg_i f + 1) stack (push_literal t segs f (push_params t segs f stack))"
    by (intro extends_push_literal extends_push_params)
  then obtain fs where fs: "push_literal t segs f (push_params t segs f stack) = fs @ stack"
    "\<forall>g \<in> set fs. fr_seg_i g = fr_seg_i f + 1" by (auto simp: extends_def)
  let ?m = "\<lambda>f. length segs - fr_seg_i f"
  have "(mset (map ?m stack) + mset (map ?m fs), mset (map ?m stack) + {#?m f#}) \<in> mult less_than"
    by (rule one_step_implies_mult) (use fs(2) n in auto)
  then show "((t, slot, segs, push_literal t segs f (push_params t segs f stack), x), (t, slot, segs, f # stack, best))
      \<in> inv_image (mult less_than) (\<lambda>(t, slot, segs, stack, best). mset (map (\<lambda>f. length segs - fr_seg_i f) stack))"
    by (simp add: fs(1) add.commute)
qed

text \<open>\<open>match_key\<close> with the storage for the parameters; the result is the route and the parameters
  copied.\<close>

definition match_key :: "trie_node list \<Rightarrow> bytes \<Rightarrow> u8 \<Rightarrow> nat \<Rightarrow> u16 \<times> (bytes \<times> bytes) list" where
  "match_key t path method_key out_param_cap =
     (case route_method_slot_from_key method_key of
        None \<Rightarrow> (kInvalidRoute, [])
      | Some want_slot \<Rightarrow>
          let (n, segs) = tokenize_segments path;
              best = match_loop t want_slot segs (push_frame first_frame []) no_candidate
          in (ca_route_idx best, take out_param_cap (ca_params best)))"

definition trie_match :: "trie_node list \<Rightarrow> bytes \<Rightarrow> u8 \<Rightarrow> u16" where
  "trie_match t path method_char =
     (let want_slot = (case route_method_slot method_char of None \<Rightarrow> 0xff | Some s \<Rightarrow> of_nat s) in
      fst (match_key t path want_slot 0))"

section \<open>Tokenisation\<close>

fun split_path :: "bytes \<Rightarrow> bytes \<Rightarrow> bytes list" where
  "split_path acc [] = (if acc = [] then [] else [acc])"
| "split_path acc (b # bs) =
     (if b = 0x2F then (if acc = [] then [] else [acc]) @ split_path [] bs else split_path (acc @ [b]) bs)"

definition segments :: "bytes \<Rightarrow> bytes list" where
  "segments path = split_path [] path"

declare tok_loop.simps [simp del]

lemma slice_snoc: "s \<le> i \<Longrightarrow> i < length p \<Longrightarrow> slice p s (Suc i) = slice p s i @ [p ! i]"
  by (simp add: slice_def take_Suc_conv_app_nth)

lemma slice_nil [simp]: "slice p i i = []"
  by (simp add: slice_def)

lemma slice_neq_nil: "s < i \<Longrightarrow> i \<le> length p \<Longrightarrow> slice p s i \<noteq> []"
  by (simp add: slice_def)

lemma tok_loop_spec:
  "i \<le> length path \<Longrightarrow> start \<le> i \<Longrightarrow> length out \<le> kMaxPathSegments \<Longrightarrow>
   tok_loop path i start out =
     (let ts = out @ split_path (slice path start i) (drop i path) in
      if length ts \<le> kMaxPathSegments then (length ts, ts) else (kMaxPathSegments + 1, take kMaxPathSegments ts))"
proof (induction path i start out rule: tok_loop.induct)
  case (1 path i start out)
  let ?w = "slice path start i"
  show ?case
  proof (cases "i = length path")
    case True
    have "tok_loop path (i + 1) (i + 1) out' = (length out', out')" for out'
      using True by (subst tok_loop.simps) simp
    moreover have "?w = [] \<longleftrightarrow> \<not> start < i" using 1(4,5) True slice_neq_nil [of start i path] by (auto simp: slice_def)
    ultimately show ?thesis
      using True 1(6) by (subst tok_loop.simps) (auto simp: Let_def fv_push_def)
  next
    case False
    then have i: "i < length path" using 1(4) by simp
    then have d: "drop i path = path ! i # drop (Suc i) path" by (simp add: Cons_nth_drop_Suc)
    show ?thesis
    proof (cases "path ! i = 0x2F")
      case sep: True
      show ?thesis
      proof (cases "start < i")
        case True
        then have w: "?w \<noteq> []" using i by (intro slice_neq_nil) simp_all
        show ?thesis
        proof (cases "length out < kMaxPathSegments")
          case room: True
          have "tok_loop path i start out = tok_loop path (i + 1) (i + 1) (out @ [?w])"
            using i sep True room by (subst tok_loop.simps) (simp add: Let_def fv_push_def)
          with 1(2) [OF 1(4) refl _ True, of "out @ [?w]"] i sep room w show ?thesis
            by (simp add: d fv_push_def Let_def)
        next
          case full: False
          then have l: "length out = kMaxPathSegments" using 1(6) by simp
          have "tok_loop path i start out = (kMaxPathSegments + 1, out)"
            using i sep True full by (subst tok_loop.simps) (simp add: Let_def fv_push_def)
          with l w sep show ?thesis by (simp add: d Let_def)
        qed
      next
        case False
        then have s: "start = i" using 1(5) by simp
        have "tok_loop path i start out = tok_loop path (i + 1) (i + 1) out"
          using i sep False by (subst tok_loop.simps) (simp add: Let_def)
        with 1(3) [OF 1(4) refl _ False] i sep 1(6) s show ?thesis by (simp add: d)
      qed
    next
      case nosep: False
      have "tok_loop path i start out = tok_loop path (i + 1) start out"
        using i False nosep by (subst tok_loop.simps) (simp add: Let_def)
      with 1(1) [OF 1(4) refl] i False nosep 1(5,6) slice_snoc [OF 1(5) i] show ?thesis by (simp add: d)
    qed
  qed
qed

lemma tokenize_segments_spec:
  "tokenize_segments path =
     (if length (segments path) \<le> kMaxPathSegments then (length (segments path), segments path)
      else (kMaxPathSegments + 1, take kMaxPathSegments (segments path)))"
  using tok_loop_spec [of 0 path 0 "[]"] by (simp add: tokenize_segments_def segments_def Let_def kMaxPathSegments_def)

lemma split_path_nonempty: "s \<in> set (split_path acc p) \<Longrightarrow> s \<noteq> []"
  by (induction acc p rule: split_path.induct) (auto split: if_splits)

lemma segments_nonempty: "s \<in> set (segments path) \<Longrightarrow> s \<noteq> []"
  by (simp add: segments_def split_path_nonempty)

section \<open>The trie as a table\<close>

text \<open>
  The pool is a tree: children come after their parent, no node has two parents, and the
  children of a node have distinct, non-empty segments.
\<close>

definition trie_ok :: "trie_node list \<Rightarrow> bool" where
  "trie_ok t \<longleftrightarrow> 0 < length t \<and> length t \<le> kMaxNodes \<and>
     (\<forall>i < length t. length (tn_route (t ! i)) = kRouteMethodSlots \<and> distinct (tn_children (t ! i)) \<and>
        (\<forall>c \<in> set (tn_children (t ! i)). i < c \<and> c < length t \<and> tn_segment (t ! c) \<noteq> []) \<and>
        inj_on (\<lambda>c. tn_segment (t ! c)) (set (tn_children (t ! i)))) \<and>
     (\<forall>i < length t. \<forall>j < length t. i \<noteq> j \<longrightarrow> set (tn_children (t ! i)) \<inter> set (tn_children (t ! j)) = {})"

lemma trie_ok_child:
  "trie_ok t \<Longrightarrow> i < length t \<Longrightarrow> c \<in> set (tn_children (t ! i)) \<Longrightarrow> i < c \<and> c < length t \<and> tn_segment (t ! c) \<noteq> []"
  unfolding trie_ok_def by blast

lemma trie_ok_inj:
  "trie_ok t \<Longrightarrow> i < length t \<Longrightarrow> c \<in> set (tn_children (t ! i)) \<Longrightarrow> d \<in> set (tn_children (t ! i)) \<Longrightarrow>
     tn_segment (t ! c) = tn_segment (t ! d) \<Longrightarrow> c = d"
  unfolding trie_ok_def inj_on_def by blast

lemma trie_ok_parent:
  "trie_ok t \<Longrightarrow> i < length t \<Longrightarrow> j < length t \<Longrightarrow> c \<in> set (tn_children (t ! i)) \<Longrightarrow>
     c \<in> set (tn_children (t ! j)) \<Longrightarrow> i = j"
  unfolding trie_ok_def by blast

lemma trie_ok_routes: "trie_ok t \<Longrightarrow> i < length t \<Longrightarrow> length (tn_route (t ! i)) = kRouteMethodSlots"
  unfolding trie_ok_def by blast

lemma trie_clear_ok: "trie_ok trie_clear"
  by (simp add: trie_ok_def trie_clear_def new_node_def kMaxNodes_def)

lemma find_child_Some:
  assumes "trie_ok t" "n < length t"
  shows "find_child t n s = Some c \<longleftrightarrow> c \<in> set (tn_children (t ! n)) \<and> tn_segment (t ! c) = s"
proof
  assume "find_child t n s = Some c"
  then show "c \<in> set (tn_children (t ! n)) \<and> tn_segment (t ! c) = s"
    by (auto simp: find_child_def find_Some_iff split: if_splits)
next
  assume c: "c \<in> set (tn_children (t ! n)) \<and> tn_segment (t ! c) = s"
  then have s: "s \<noteq> []" using trie_ok_child [OF assms] by blast
  have "find (\<lambda>c. tn_segment (t ! c) = s) (tn_children (t ! n)) \<noteq> None"
    using c by (auto simp: find_None_iff)
  then obtain d where d: "find (\<lambda>c. tn_segment (t ! c) = s) (tn_children (t ! n)) = Some d" by blast
  then have "d \<in> set (tn_children (t ! n))" "tn_segment (t ! d) = s" by (auto simp: find_Some_iff)
  then have "d = c" using trie_ok_inj [OF assms] c by blast
  with d s show "find_child t n s = Some c" by (simp add: find_child_def)
qed

fun walk :: "trie_node list \<Rightarrow> nat \<Rightarrow> bytes list \<Rightarrow> nat option" where
  "walk t n [] = Some n"
| "walk t n (s # ss) = (case find_child t n s of None \<Rightarrow> None | Some c \<Rightarrow> walk t c ss)"

text \<open>The route stored for a path and a method slot.\<close>

definition route_at :: "trie_node list \<Rightarrow> bytes list \<Rightarrow> nat \<Rightarrow> u16 option" where
  "route_at t ps slot = (case walk t 0 ps of None \<Rightarrow> None
     | Some n \<Rightarrow> (let r = tn_route (t ! n) ! slot in if r = kInvalidRoute then None else Some r))"

lemma walk_append: "walk t n (ps @ qs) = (case walk t n ps of None \<Rightarrow> None | Some m \<Rightarrow> walk t m qs)"
  by (induction ps arbitrary: n) (auto split: option.split)

lemma walk_bound: "trie_ok t \<Longrightarrow> n < length t \<Longrightarrow> walk t n ps = Some m \<Longrightarrow> n + length ps \<le> m \<and> m < length t"
proof (induction ps arbitrary: n)
  case (Cons s ps)
  then obtain c where c: "find_child t n s = Some c" "walk t c ps = Some m" by (auto split: option.splits)
  then have "n < c" "c < length t" using Cons.prems trie_ok_child find_child_Some by blast+
  with Cons.IH [of c] Cons.prems(1) c(2) show ?case by simp
qed simp

lemma walk_last:
  assumes "trie_ok t" "walk t 0 (ps @ [s]) = Some m"
  obtains p where "walk t 0 ps = Some p" "p < length t" "m \<in> set (tn_children (t ! p))" "tn_segment (t ! m) = s"
proof -
  have l: "0 < length t" using assms(1) by (simp add: trie_ok_def)
  from assms(2) obtain p where p: "walk t 0 ps = Some p" "find_child t p s = Some m"
    by (auto simp: walk_append split: option.splits)
  then have "p < length t" using walk_bound [OF assms(1) l] by blast
  with p that find_child_Some [OF assms(1)] show ?thesis by blast
qed

text \<open>A node is reached by one path only.\<close>

lemma walk_inj: "trie_ok t \<Longrightarrow> walk t 0 ps = Some m \<Longrightarrow> walk t 0 qs = Some m \<Longrightarrow> ps = qs"
proof (induction ps arbitrary: qs m rule: rev_induct)
  case Nil
  have "0 < length t" using Nil.prems(1) by (simp add: trie_ok_def)
  then show ?case using walk_bound [OF Nil.prems(1) _ Nil.prems(3)] Nil.prems(2) by simp
next
  case (snoc s ps)
  from snoc.prems obtain p where p: "walk t 0 ps = Some p" "p < length t" "m \<in> set (tn_children (t ! p))" "tn_segment (t ! m) = s"
    by (elim walk_last)
  have m: "0 < m" using trie_ok_child [OF snoc.prems(1) p(2,3)] by simp
  then obtain qs' s' where q: "qs = qs' @ [s']" using snoc.prems(3) by (cases qs rule: rev_cases) auto
  from snoc.prems(1,3) obtain p' where p': "walk t 0 qs' = Some p'" "p' < length t" "m \<in> set (tn_children (t ! p'))" "tn_segment (t ! m) = s'"
    unfolding q by (elim walk_last)
  have "p = p'" using trie_ok_parent [OF snoc.prems(1) p(2) p'(2) p(3) p'(3)] .
  then have "ps = qs'" using snoc.IH [OF snoc.prems(1) p(1)] p'(1) by simp
  with p(4) p'(4) q show ?case by simp
qed

section \<open>Insertion\<close>

text \<open>One new node: a child of \<open>cur\<close> with no children and no routes.\<close>

definition add_child :: "trie_node list \<Rightarrow> nat \<Rightarrow> bytes \<Rightarrow> trie_node list" where
  "add_child t cur s = (t @ [new_node s])[cur := (t ! cur)\<lparr>tn_children := tn_children (t ! cur) @ [length t]\<rparr>]"

lemma add_child_nth:
  assumes "cur < length t"
  shows "length (add_child t cur s) = Suc (length t)"
    "add_child t cur s ! length t = new_node s"
    "add_child t cur s ! cur = (t ! cur)\<lparr>tn_children := tn_children (t ! cur) @ [length t]\<rparr>"
    "i < length t \<Longrightarrow> i \<noteq> cur \<Longrightarrow> add_child t cur s ! i = t ! i"
    "i < length t \<Longrightarrow> tn_segment (add_child t cur s ! i) = tn_segment (t ! i)"
    "i < length t \<Longrightarrow> tn_route (add_child t cur s ! i) = tn_route (t ! i)"
    "i < length t \<Longrightarrow> tn_children (add_child t cur s ! i) = tn_children (t ! i) @ (if i = cur then [length t] else [])"
  using assms by (auto simp: add_child_def nth_list_update nth_append)

lemma add_child_ok:
  assumes ok: "trie_ok t" and cur: "cur < length t" and s: "s \<noteq> []" "find_child t cur s = None" and room: "length t < kMaxNodes"
  shows "trie_ok (add_child t cur s)"
proof -
  let ?t = "add_child t cur s"
  note a = add_child_nth [OF cur, where s = s]
  have old: "\<And>i c. i < length t \<Longrightarrow> c \<in> set (tn_children (t ! i)) \<Longrightarrow> i < c \<and> c < length t \<and> tn_segment (t ! c) \<noteq> []"
    using trie_ok_child [OF ok] by blast
  have seg: "\<And>c. c \<in> set (tn_children (t ! cur)) \<Longrightarrow> tn_segment (t ! c) \<noteq> s"
    using s(2) find_child_Some [OF ok cur, of s] by (metis option.distinct(1))
  have node: "length (tn_route (?t ! i)) = kRouteMethodSlots \<and> distinct (tn_children (?t ! i)) \<and>
      (\<forall>c \<in> set (tn_children (?t ! i)). i < c \<and> c < length ?t \<and> tn_segment (?t ! c) \<noteq> []) \<and>
      inj_on (\<lambda>c. tn_segment (?t ! c)) (set (tn_children (?t ! i)))" if i: "i < length ?t" for i
  proof (cases "i = length t")
    case True
    then show ?thesis by (simp add: a(2) new_node_def)
  next
    case False
    then have i': "i < length t" using i a(1) by simp
    have d: "distinct (tn_children (t ! i))" "inj_on (\<lambda>c. tn_segment (t ! c)) (set (tn_children (t ! i)))"
      "length (tn_route (t ! i)) = kRouteMethodSlots"
      using ok i' unfolding trie_ok_def by blast+
    have n: "length t \<notin> set (tn_children (t ! i))" using old [OF i'] by blast
    have sg: "tn_segment (?t ! c) = tn_segment (t ! c)" if "c \<in> set (tn_children (t ! i))" for c
      using a(5) old [OF i' that] by blast
    have ns: "tn_segment (?t ! length t) = s" by (simp add: a(2) new_node_def)
    have inj: "inj_on (\<lambda>c. tn_segment (?t ! c)) (set (tn_children (t ! i)))"
      using d(2) sg by (simp add: inj_on_def)
    have ch: "set (tn_children (?t ! i)) = (if i = cur then insert (length t) (set (tn_children (t ! i))) else set (tn_children (t ! i)))"
      by (simp add: a(7) [OF i'])
    have "i = cur \<Longrightarrow> tn_segment (?t ! length t) \<notin> (\<lambda>c. tn_segment (?t ! c)) ` set (tn_children (t ! i))"
      unfolding ns image_iff using seg sg by metis
    then have "inj_on (\<lambda>c. tn_segment (?t ! c)) (set (tn_children (?t ! i)))"
      using inj n unfolding ch by (cases "i = cur") simp_all
    moreover have "i < c \<and> c < length ?t \<and> tn_segment (?t ! c) \<noteq> []" if "c \<in> set (tn_children (?t ! i))" for c
    proof (cases "c = length t")
      case True
      then show ?thesis using i' ns s(1) a(1) by simp
    next
      case False
      then have c: "c \<in> set (tn_children (t ! i))" using that unfolding ch by (cases "i = cur") simp_all
      show ?thesis using old [OF i' c] sg [OF c] a(1) by simp
    qed
    moreover have "distinct (tn_children (?t ! i))" using d(1) n by (auto simp: a(7) [OF i'])
    ultimately show ?thesis using d(3) a(6) [OF i'] by simp
  qed
  have disj: "set (tn_children (?t ! i)) \<inter> set (tn_children (?t ! j)) = {}" if ij: "i < length ?t" "j < length ?t" "i \<noteq> j" for i j
  proof -
    have n: "k < length t \<Longrightarrow> length t \<notin> set (tn_children (t ! k))" for k using old by blast
    have o: "k < length t \<Longrightarrow> l < length t \<Longrightarrow> k \<noteq> l \<Longrightarrow> set (tn_children (t ! k)) \<inter> set (tn_children (t ! l)) = {}" for k l
      using ok unfolding trie_ok_def by blast
    show ?thesis
    proof (cases "i = length t \<or> j = length t")
      case True
      then show ?thesis by (auto simp: a(2) new_node_def)
    next
      case False
      then have l: "i < length t" "j < length t" using ij a(1) by auto
      show ?thesis unfolding a(7) [OF l(1)] a(7) [OF l(2)]
        using o [OF l ij(3)] n [OF l(1)] n [OF l(2)] ij(3) by (cases "i = cur"; cases "j = cur") simp_all
    qed
  qed
  have "length ?t \<le> kMaxNodes" using room a(1) by simp
  moreover have "0 < length ?t" using a(1) by simp
  ultimately show ?thesis unfolding trie_ok_def using node disj by blast
qed

lemma option_eqI: "(\<And>c. a = Some c \<longleftrightarrow> b = Some c) \<Longrightarrow> a = b"
  by (cases a; cases b) auto

lemma add_child_find:
  assumes ok: "trie_ok t" and cur: "cur < length t" and s: "s \<noteq> []" "find_child t cur s = None" and room: "length t < kMaxNodes"
    and n: "n < length t"
  shows "find_child (add_child t cur s) n x =
     (if n = cur \<and> x = s then Some (length t) else find_child t n x)"
proof -
  let ?t = "add_child t cur s"
  note a = add_child_nth [OF cur, where s = s]
  have ok': "trie_ok ?t" by (rule add_child_ok [OF ok cur s room])
  have n': "n < length ?t" using n a(1) by simp
  have ns: "tn_segment (?t ! length t) = s" by (simp add: a(2) new_node_def)
  have "find_child ?t n x = Some c \<longleftrightarrow> (if n = cur \<and> x = s then Some (length t) else find_child t n x) = Some c" for c
  proof -
    have sg: "d \<in> set (tn_children (t ! n)) \<Longrightarrow> tn_segment (?t ! d) = tn_segment (t ! d)" for d
      using a(5) trie_ok_child [OF ok n] by blast
    have "find_child ?t n x = Some c \<longleftrightarrow>
        c \<in> set (tn_children (t ! n)) \<and> tn_segment (t ! c) = x \<or> n = cur \<and> c = length t \<and> x = s"
      unfolding find_child_Some [OF ok' n'] using sg ns by (auto simp: a(7) [OF n])
    also have "\<dots> \<longleftrightarrow> find_child t n x = Some c \<or> n = cur \<and> c = length t \<and> x = s"
      by (simp add: find_child_Some [OF ok n])
    also have "\<dots> \<longleftrightarrow> (if n = cur \<and> x = s then Some (length t) else find_child t n x) = Some c" using s(2) by auto
    finally show ?thesis .
  qed
  then show ?thesis by (intro option_eqI) blast
qed

lemma add_child_leaf:
  "cur < length t \<Longrightarrow> find_child (add_child t cur s) (length t) x = None"
  by (simp add: find_child_def add_child_nth new_node_def)

text \<open>Paths to old nodes are kept, and the new node is the only new end.\<close>

lemma add_child_walk:
  assumes ok: "trie_ok t" and cur: "cur < length t" and s: "s \<noteq> []" "find_child t cur s = None" and room: "length t < kMaxNodes"
    and n: "n < length t"
  shows "walk t n ps = Some m \<Longrightarrow> walk (add_child t cur s) n ps = Some m"
    and "walk (add_child t cur s) n ps = Some m \<Longrightarrow> m = length t \<or> walk t n ps = Some m"
proof -
  note f = add_child_find [OF ok cur s room]
  show "walk (add_child t cur s) n ps = Some m" if "walk t n ps = Some m" using n that
  proof (induction ps arbitrary: n)
    case (Cons x ps)
    then obtain c where c: "find_child t n x = Some c" "walk t c ps = Some m" by (auto split: option.splits)
    then have "c < length t" using trie_ok_child [OF ok Cons.prems(1)] find_child_Some [OF ok Cons.prems(1)] by blast
    then have "walk (add_child t cur s) c ps = Some m" using Cons.IH c(2) by blast
    moreover have "find_child (add_child t cur s) n x = Some c" using f [OF Cons.prems(1)] c(1) s(2) by auto
    ultimately show ?case by simp
  qed simp
  show "m = length t \<or> walk t n ps = Some m" if "walk (add_child t cur s) n ps = Some m" using n that
  proof (induction ps arbitrary: n)
    case (Cons x ps)
    from Cons.prems(2) obtain c where c: "find_child (add_child t cur s) n x = Some c" "walk (add_child t cur s) c ps = Some m"
      by (auto split: option.splits)
    show ?case
    proof (cases "n = cur \<and> x = s")
      case True
      then have "c = length t" using c(1) f [OF Cons.prems(1)] by simp
      then show ?thesis using c(2) add_child_leaf [OF cur] by (cases ps) auto
    next
      case False
      have "find_child t n x = Some c" using c(1) unfolding f [OF Cons.prems(1)] if_not_P [OF False] .
      moreover from this have "c < length t"
        using trie_ok_child [OF ok Cons.prems(1)] find_child_Some [OF ok Cons.prems(1)] by blast
      ultimately show ?thesis using Cons.IH c(2) by auto
    qed
  qed simp
qed

lemma add_child_route_at:
  assumes ok: "trie_ok t" and cur: "cur < length t" and s: "s \<noteq> []" "find_child t cur s = None" and room: "length t < kMaxNodes"
    and slot: "slot < kRouteMethodSlots"
  shows "route_at (add_child t cur s) ps slot = route_at t ps slot"
proof -
  have l: "0 < length t" using cur by linarith
  note w = add_child_walk [OF ok cur s room l]
  show ?thesis
  proof (cases "walk t 0 ps")
    case (Some m)
    then have "m < length t" using walk_bound [OF ok l] by blast
    with Some w(1) [OF Some] show ?thesis by (simp add: route_at_def add_child_nth [OF cur])
  next
    case None
    show ?thesis
    proof (cases "walk (add_child t cur s) 0 ps")
      case (Some m)
      then have "m = length t" using w(2) [OF Some] None by simp
      with Some None slot show ?thesis by (simp add: route_at_def add_child_nth [OF cur] new_node_def)
    qed (simp add: route_at_def None)
  qed
qed

text \<open>The insertion loop on a well-formed trie.\<close>

lemma insert_loop_add:
  assumes "find_child t cur s = None" "length t < kMaxNodes" "length (tn_children (t ! cur)) < kMaxChildren"
    "length pushed < kMaxPathSegments" "cur < length t"
  shows "insert_loop saved (s # ss) cur t pushed = insert_loop saved ss (length t) (add_child t cur s) (pushed @ [cur])"
  using assms by (simp add: fv_push_def Let_def add_child_def nth_append)

lemma insert_loop_run:
  assumes "trie_ok t" "walk t 0 ps = Some cur" "\<forall>s \<in> set ss. s \<noteq> []" "length pushed + length ss \<le> kMaxPathSegments"
    "insert_loop saved ss cur t pushed = Inr (t', cur')"
  shows "trie_ok t' \<and> walk t' 0 (ps @ ss) = Some cur' \<and>
     (\<forall>qs slot. slot < kRouteMethodSlots \<longrightarrow> route_at t' qs slot = route_at t qs slot)"
  using assms
proof (induction ss arbitrary: t ps cur pushed)
  case Nil
  then show ?case by simp
next
  case (Cons s ss)
  have l: "0 < length t" using Cons.prems(1) by (simp add: trie_ok_def)
  have cur: "cur < length t" using walk_bound [OF Cons.prems(1) l Cons.prems(2)] by simp
  show ?case
  proof (cases "find_child t cur s")
    case (Some c)
    then have "walk t 0 (ps @ [s]) = Some c" using Cons.prems(2) by (simp add: walk_append)
    from Cons.IH [OF Cons.prems(1) this, of pushed] Cons.prems(3-5) Some show ?thesis by simp
  next
    case None
    have room: "length t < kMaxNodes" "length (tn_children (t ! cur)) < kMaxChildren" "length pushed < kMaxPathSegments"
      using Cons.prems(4,5) None by (auto split: if_splits)
    have s: "s \<noteq> []" using Cons.prems(3) by simp
    let ?t = "add_child t cur s"
    have ok: "trie_ok ?t" by (rule add_child_ok [OF Cons.prems(1) cur s None room(1)])
    have "walk ?t 0 (ps @ [s]) = Some (length t)"
      using add_child_walk(1) [OF Cons.prems(1) cur s None room(1) l Cons.prems(2)]
        add_child_find [OF Cons.prems(1) cur s None room(1) cur, of s] by (simp add: walk_append)
    from Cons.IH [OF ok this, of "pushed @ [cur]"] Cons.prems(3-5)
      insert_loop_add [OF None room cur, of saved ss] add_child_route_at [OF Cons.prems(1) cur s None room(1)]
    show ?thesis by simp
  qed
qed

text \<open>Undoing: the pushes of a failed insertion are taken back.\<close>

lemma pop_child_append: "p < length t \<Longrightarrow> pop_child p (t @ u) = pop_child p t @ u"
  by (simp add: pop_child_def nth_append list_update_append)

lemma fold_pop_append: "\<forall>p \<in> set ps. p < length t \<Longrightarrow> fold pop_child ps (t @ u) = fold pop_child ps t @ u"
proof (induction ps arbitrary: t)
  case (Cons p ps)
  have "length (pop_child p t) = length t" by (simp add: pop_child_def)
  with Cons show ?case by (simp add: pop_child_append)
qed simp

lemma fold_pop_length: "length (fold pop_child ps t) = length t"
  by (induction ps arbitrary: t) (simp_all add: pop_child_def)

lemma pop_add_child: "cur < length t \<Longrightarrow> pop_child cur (add_child t cur s) = t @ [new_node s]"
  by (simp add: pop_child_def add_child_def nth_append list_update_same_conv)

lemma insert_loop_undo:
  assumes "rollback saved pushed t = t0" "saved \<le> length t" "\<forall>p \<in> set pushed. p < length t" "cur < length t" "trie_ok t"
    "\<forall>s \<in> set ss. s \<noteq> []" "length pushed + length ss \<le> kMaxPathSegments" "insert_loop saved ss cur t pushed = Inl t'"
  shows "t' = t0"
  using assms
proof (induction ss arbitrary: t cur pushed)
  case (Cons s ss)
  show ?case
  proof (cases "find_child t cur s")
    case (Some c)
    then have "c < length t" using trie_ok_child [OF Cons.prems(5,4)] find_child_Some [OF Cons.prems(5,4)] by blast
    with Cons.IH [OF Cons.prems(1-3), of c] Cons.prems(5-8) Some show ?thesis by simp
  next
    case None
    show ?thesis
    proof (cases "length t < kMaxNodes \<and> length (tn_children (t ! cur)) < kMaxChildren")
      case False
      then have "length t \<ge> kMaxNodes \<or> length (tn_children (t ! cur)) \<ge> kMaxChildren" by auto
      with Cons.prems(1,8) None show ?thesis by simp
    next
      case True
      then have room: "length t < kMaxNodes" "length (tn_children (t ! cur)) < kMaxChildren" "length pushed < kMaxPathSegments"
        using Cons.prems(7) by auto
      let ?t = "add_child t cur s"
      have s: "s \<noteq> []" using Cons.prems(6) by simp
      have ok: "trie_ok ?t" by (rule add_child_ok [OF Cons.prems(5,4) s None room(1)])
      have len: "length ?t = Suc (length t)" by (rule add_child_nth(1) [OF Cons.prems(4)])
      have "rollback saved (pushed @ [cur]) ?t = take saved (fold pop_child (rev pushed) t @ [new_node s])"
        using Cons.prems(3) fold_pop_append [of "rev pushed" t "[new_node s]"]
        by (simp add: rollback_def pop_add_child [OF Cons.prems(4)])
      then have rb: "rollback saved (pushed @ [cur]) ?t = t0"
        using Cons.prems(1,2) by (simp add: rollback_def fold_pop_length)
      show ?thesis
        by (rule Cons.IH [OF rb, of "length t"])
           (use Cons.prems ok len insert_loop_add [OF None room Cons.prems(4), of saved ss] in \<open>auto simp: less_Suc_eq\<close>)
    qed
  qed
qed simp

text \<open>Recording a route at the node of a path.\<close>

lemma set_route_ok:
  assumes "trie_ok t" "cur < length t" "length rs = kRouteMethodSlots"
  shows "trie_ok (t[cur := (t ! cur)\<lparr>tn_route := rs\<rparr>])"
proof -
  let ?t = "t[cur := (t ! cur)\<lparr>tn_route := rs\<rparr>]"
  have e: "tn_children (?t ! i) = tn_children (t ! i)" "tn_segment (?t ! i) = tn_segment (t ! i)"
    "length (tn_route (?t ! i)) = (if i = cur then kRouteMethodSlots else length (tn_route (t ! i)))" if "i < length t" for i
    using that assms(2,3) by (cases "i = cur"; simp)+
  have len: "length ?t = length t" by simp
  have seg: "c \<in> set (tn_children (t ! i)) \<Longrightarrow> tn_segment (?t ! c) = tn_segment (t ! c)" if "i < length t" for i c
    using e(2) trie_ok_child [OF assms(1) that] by blast
  have node: "length (tn_route (?t ! i)) = kRouteMethodSlots \<and> distinct (tn_children (?t ! i)) \<and>
      (\<forall>c \<in> set (tn_children (?t ! i)). i < c \<and> c < length ?t \<and> tn_segment (?t ! c) \<noteq> []) \<and>
      inj_on (\<lambda>c. tn_segment (?t ! c)) (set (tn_children (?t ! i)))" if i: "i < length ?t" for i
  proof -
    have i': "i < length t" using i by simp
    have "distinct (tn_children (t ! i))" "inj_on (\<lambda>c. tn_segment (t ! c)) (set (tn_children (t ! i)))"
      using assms(1) i' unfolding trie_ok_def by blast+
    moreover from this seg [OF i'] have "inj_on (\<lambda>c. tn_segment (?t ! c)) (set (tn_children (t ! i)))"
      by (simp add: inj_on_def)
    ultimately show ?thesis
      unfolding e(1) [OF i'] len using e(3) [OF i'] trie_ok_routes [OF assms(1) i'] trie_ok_child [OF assms(1) i'] seg [OF i']
      by simp
  qed
  have disj: "set (tn_children (?t ! i)) \<inter> set (tn_children (?t ! j)) = {}"
    if ij: "i < length ?t" "j < length ?t" "i \<noteq> j" for i j
  proof -
    have l: "i < length t" "j < length t" using ij by simp_all
    show ?thesis unfolding e(1) [OF l(1)] e(1) [OF l(2)] using assms(1) l ij(3) unfolding trie_ok_def by blast
  qed
  have "0 < length ?t" "length ?t \<le> kMaxNodes" using assms(1) unfolding trie_ok_def len by blast+
  then show ?thesis unfolding trie_ok_def using node disj by blast
qed

lemma set_route_walk:
  assumes "cur < length t" "trie_ok t" "n < length t"
  shows "walk (t[cur := (t ! cur)\<lparr>tn_route := rs\<rparr>]) n ps = walk t n ps"
  using assms(3)
proof (induction ps arbitrary: n)
  case (Cons s ps)
  let ?t = "t[cur := (t ! cur)\<lparr>tn_route := rs\<rparr>]"
  have "find_child ?t n s = find_child t n s"
  proof -
    have "tn_children (?t ! n) = tn_children (t ! n)" using assms(1) Cons.prems by (auto simp: nth_list_update)
    moreover have "tn_segment (?t ! c) = tn_segment (t ! c)" if "c \<in> set (tn_children (t ! n))" for c
      using trie_ok_child [OF assms(2) Cons.prems that] assms(1) by (auto simp: nth_list_update)
    ultimately show ?thesis by (auto simp: find_child_def cong: find_cong)
  qed
  moreover have "find_child t n s = Some c \<Longrightarrow> c < length t" for c
    using trie_ok_child [OF assms(2) Cons.prems] find_child_Some [OF assms(2) Cons.prems] by blast
  ultimately show ?case using Cons.IH by (auto split: option.split)
qed simp

lemma set_route_at:
  assumes "trie_ok t" "walk t 0 ps = Some cur" "slot < kRouteMethodSlots" "q < kRouteMethodSlots" "idx \<noteq> kInvalidRoute"
  shows "route_at (t[cur := (t ! cur)\<lparr>tn_route := (tn_route (t ! cur))[slot := idx]\<rparr>]) qs q =
     (if qs = ps \<and> q = slot then Some idx else route_at t qs q)"
proof -
  have l: "0 < length t" using assms(1) by (simp add: trie_ok_def)
  have cur: "cur < length t" using walk_bound [OF assms(1) l assms(2)] by simp
  have len: "length (tn_route (t ! cur)) = kRouteMethodSlots" by (rule trie_ok_routes [OF assms(1) cur])
  note w = set_route_walk [OF cur assms(1) l, of "(tn_route (t ! cur))[slot := idx]" qs]
  show ?thesis
  proof (cases "walk t 0 qs")
    case None
    then have "qs \<noteq> ps" using assms(2) by auto
    with None w show ?thesis by (simp add: route_at_def)
  next
    case (Some m)
    have m: "m < length t" using walk_bound [OF assms(1) l Some] by simp
    have inj: "m = cur \<Longrightarrow> qs = ps" by (rule walk_inj [OF assms(1), of _ m]) (simp_all add: Some assms(2))
    show ?thesis
    proof (cases "qs = ps")
      case True
      then have "m = cur" using Some assms(2) by simp
      with Some w cur len assms(3-5) True show ?thesis by (simp add: route_at_def Let_def)
    next
      case False
      then have "m \<noteq> cur" using inj by blast
      with Some w False show ?thesis by (simp add: route_at_def Let_def)
    qed
  qed
qed

text \<open>The abstract table: a route per path and method slot; the first insertion at a key wins.\<close>

type_synonym route_map = "bytes list \<Rightarrow> nat \<Rightarrow> u16 option"

definition trie_table :: "trie_node list \<Rightarrow> route_map" where
  "trie_table t = (\<lambda>ps slot. if slot < kRouteMethodSlots then route_at t ps slot else None)"

definition table_insert :: "'k \<Rightarrow> nat \<Rightarrow> u16 \<Rightarrow> ('k \<Rightarrow> nat \<Rightarrow> u16 option) \<Rightarrow> 'k \<Rightarrow> nat \<Rightarrow> u16 option" where
  "table_insert ps slot idx m = (\<lambda>qs q. if qs = ps \<and> q = slot \<and> m qs q = None then Some idx else m qs q)"

lemma trie_table_eqI: "(\<And>ps q. q < kRouteMethodSlots \<Longrightarrow> route_at u ps q = route_at t ps q) \<Longrightarrow> trie_table u = trie_table t"
  by (simp add: trie_table_def fun_eq_iff)

lemma set_route_table:
  assumes "trie_ok t" "walk t 0 ps = Some cur" "slot < kRouteMethodSlots" "idx \<noteq> kInvalidRoute"
    "tn_route (t ! cur) ! slot = kInvalidRoute"
  shows "trie_table (t[cur := (t ! cur)\<lparr>tn_route := (tn_route (t ! cur))[slot := idx]\<rparr>]) = table_insert ps slot idx (trie_table t)"
proof -
  have none: "route_at t ps slot = None" using assms(2,5) by (simp add: route_at_def)
  show ?thesis
    by (rule ext, rule ext) (simp add: trie_table_def table_insert_def set_route_at [OF assms(1,2,3) _ assms(4)] none assms(3))
qed

lemma table_insert_same: "m ps slot \<noteq> None \<Longrightarrow> table_insert ps slot idx m = m"
  by (simp add: table_insert_def fun_eq_iff)

lemma route_method_slot_bound: "route_method_slot m = Some slot \<Longrightarrow> slot < kRouteMethodSlots"
  by (simp add: route_method_slot_def route_method_slot_from_key_def split: if_splits)

lemma insert_loop_table:
  assumes ok: "trie_ok t" and len: "length (segments path) \<le> kMaxPathSegments"
    and run: "insert_loop (length t) (segments path) 0 t [] = Inr (u, cur)"
  shows "trie_ok u" "walk u 0 (segments path) = Some cur" "trie_table u = trie_table t" "cur < length u"
proof -
  have ne: "\<forall>s \<in> set (segments path). s \<noteq> []" using segments_nonempty by blast
  have r: "trie_ok u \<and> walk u 0 ([] @ segments path) = Some cur \<and>
      (\<forall>qs slot. slot < kRouteMethodSlots \<longrightarrow> route_at u qs slot = route_at t qs slot)"
    by (rule insert_loop_run [OF ok _ ne _ run]) (use len in simp_all)
  show u: "trie_ok u" "walk u 0 (segments path) = Some cur" using r by simp_all
  show "trie_table u = trie_table t" by (rule trie_table_eqI) (use r in blast)
  have "0 < length u" using u(1) by (simp add: trie_ok_def)
  then show "cur < length u" using walk_bound [OF u(1) _ u(2)] by blast
qed

lemma insert_loop_failed:
  assumes ok: "trie_ok t" and len: "length (segments path) \<le> kMaxPathSegments"
    and run: "insert_loop (length t) (segments path) 0 t [] = Inl u"
  shows "u = t"
proof (rule insert_loop_undo [OF _ _ _ _ ok _ _ run])
  show "rollback (length t) [] t = t" by (simp add: rollback_def)
  show "0 < length t" using ok by (simp add: trie_ok_def)
  show "\<forall>s \<in> set (segments path). s \<noteq> []" using segments_nonempty by blast
qed (use len in simp_all)

text \<open>With room for the new nodes and the new children the insertion goes through.\<close>

lemma insert_loop_room:
  assumes "trie_ok t" "cur < length t" "\<forall>s \<in> set ss. s \<noteq> []" "length pushed + length ss \<le> kMaxPathSegments"
    "length t + length ss \<le> kMaxNodes" "\<And>n. cur \<le> n \<Longrightarrow> n < length t \<Longrightarrow> length (tn_children (t ! n)) < kMaxChildren"
  shows "\<exists>r. insert_loop saved ss cur t pushed = Inr r"
  using assms
proof (induction ss arbitrary: t cur pushed)
  case (Cons s ss)
  note p = Cons.prems
  show ?case
  proof (cases "find_child t cur s")
    case (Some c)
    then have c: "cur < c" "c < length t" using find_child_Some [OF p(1,2)] trie_ok_child [OF p(1,2)] by blast+
    have "\<exists>r. insert_loop saved ss c t pushed = Inr r"
      by (rule Cons.IH [OF p(1) c(2)]) (use p(3-5) c p(6) in simp_all)
    with Some show ?thesis by simp
  next
    case None
    have room: "length t < kMaxNodes" "length (tn_children (t ! cur)) < kMaxChildren" "length pushed < kMaxPathSegments"
      using p(4,5) p(6) [OF order_refl p(2)] by simp_all
    note a = add_child_nth [OF p(2), where s = s]
    have "\<exists>r. insert_loop saved ss (length t) (add_child t cur s) (pushed @ [cur]) = Inr r"
    proof (rule Cons.IH)
      show "trie_ok (add_child t cur s)" by (rule add_child_ok [OF p(1,2) _ None room(1)]) (use p(3) in simp)
      fix n assume "length t \<le> n" "n < length (add_child t cur s)"
      then have "n = length t" by (simp add: a(1))
      then show "length (tn_children (add_child t cur s ! n)) < kMaxChildren"
        by (simp add: a(2) new_node_def kMaxChildren_def)
    qed (use p(3-5) in \<open>simp_all add: a(1)\<close>)
    then show ?thesis using insert_loop_add [OF None room p(2)] by simp
  qed
qed simp

lemma trie_insert_spec:
  assumes ok: "trie_ok t" and idx: "idx \<noteq> kInvalidRoute" and ins: "trie_insert t path m idx = (b, t')"
  shows "trie_ok t' \<and> (\<not> b \<longrightarrow> t' = t) \<and>
    (b \<longrightarrow> (\<exists>slot. route_method_slot m = Some slot \<and> trie_table t' = table_insert (segments path) slot idx (trie_table t))) \<and>
    (route_method_slot m \<noteq> None \<and> length (segments path) \<le> kMaxPathSegments \<and> length t + length (segments path) \<le> kMaxNodes \<and>
       (\<forall>n < length t. length (tn_children (t ! n)) < kMaxChildren) \<longrightarrow> b)"
proof (cases "route_method_slot m = None \<or> \<not> length (segments path) \<le> kMaxPathSegments")
  case True
  then have "\<not> b" "t' = t" using ins
    by (auto simp: trie_insert_def tokenize_segments_spec Let_def split: option.splits if_splits)
  with True ok show ?thesis by (elim disjE) simp_all
next
  case False
  then obtain slot where slot: "route_method_slot m = Some slot" and len: "length (segments path) \<le> kMaxPathSegments" by auto
  show ?thesis
  proof (cases "insert_loop (length t) (segments path) 0 t []")
    case (Inl u)
    then have r: "\<not> b" "t' = t"
      using ins slot len insert_loop_failed [OF ok len Inl] by (simp_all add: trie_insert_def tokenize_segments_spec)
    have "0 < length t" using ok by (simp add: trie_ok_def)
    then have "\<not> (length t + length (segments path) \<le> kMaxNodes \<and> (\<forall>n < length t. length (tn_children (t ! n)) < kMaxChildren))"
      using insert_loop_room [OF ok, of 0 "segments path" "[]" "length t"] segments_nonempty len Inl by auto
    with r ok show ?thesis by simp
  next
    case (Inr p)
    then obtain u cur where run: "insert_loop (length t) (segments path) 0 t [] = Inr (u, cur)" by (cases p) simp
    note u = insert_loop_table [OF ok len run]
    let ?u = "u[cur := (u ! cur)\<lparr>tn_route := (tn_route (u ! cur))[slot := idx]\<rparr>]"
    show ?thesis
    proof (cases "tn_route (u ! cur) ! slot = kInvalidRoute")
      case True
      then have r: "b" "t' = ?u" using ins slot len run by (simp_all add: trie_insert_def tokenize_segments_spec)
      have "trie_ok ?u" by (rule set_route_ok [OF u(1,4)]) (simp add: trie_ok_routes [OF u(1,4)])
      moreover have "trie_table ?u = table_insert (segments path) slot idx (trie_table t)"
        using set_route_table [OF u(1,2) route_method_slot_bound [OF slot] idx True] by (simp add: u(3))
      ultimately show ?thesis using r slot by blast
    next
      case False
      then have r: "b" "t' = u" using ins slot len run by (simp_all add: trie_insert_def tokenize_segments_spec)
      have "trie_table u (segments path) slot \<noteq> None"
        using False u(2) route_method_slot_bound [OF slot] by (simp add: trie_table_def route_at_def Let_def)
      then have "trie_table u = table_insert (segments path) slot idx (trie_table t)"
        using table_insert_same [of "trie_table t"] u(3) by simp
      then show ?thesis using r slot u(1) by blast
    qed
  qed
qed

text \<open>
  C12: \<open>RouteTrie::insert\<close> refines insertion into a table keyed by the segments of the path and
  the method slot, where the first route stored at a key stays: it keeps the pool a tree, an insertion that fails
  leaves the pool exactly as it was (the rollback is complete), an insertion that succeeds changes the table at that key
  only, and it does succeed whenever the method is known, the path has at most 64 segments and there is
  room for the new nodes and children.
\<close>

theorem trie_insert_refines:
  assumes ok: "trie_ok t" and idx: "idx \<noteq> kInvalidRoute" and ins: "trie_insert t path m idx = (b, t')"
  shows "trie_ok t' \<and> (\<not> b \<longrightarrow> t' = t) \<and>
    (b \<longrightarrow> (\<exists>slot. route_method_slot m = Some slot \<and> trie_table t' = table_insert (segments path) slot idx (trie_table t))) \<and>
    (route_method_slot m \<noteq> None \<and> length (segments path) \<le> kMaxPathSegments \<and> length t + length (segments path) \<le> kMaxNodes \<and>
       (\<forall>n < length t. length (tn_children (t ! n)) < kMaxChildren) \<longrightarrow> b)"
  using assms by (rule trie_insert_spec)

theorem trie_insert_refines_witness:
  "\<exists>t'. trie_insert trie_clear (ascii ''/api/:id'') (of_char CHR ''G'') 7 = (True, t') \<and> trie_ok t' \<and>
     trie_table t' = table_insert (segments (ascii ''/api/:id'')) 1 7 (trie_table trie_clear)"
proof -
  obtain b t' where i: "trie_insert trie_clear (ascii ''/api/:id'') (of_char CHR ''G'') 7 = (b, t')" by fastforce
  have s: "route_method_slot (of_char CHR ''G'') = Some 1" by code_simp
  have "length (segments (ascii ''/api/:id'')) = 2" by code_simp
  moreover have "(7 :: u16) \<noteq> kInvalidRoute" by code_simp
  ultimately show ?thesis
    using trie_insert_refines [OF trie_clear_ok _ i] i s
    by (simp add: kMaxPathSegments_def kMaxNodes_def kMaxChildren_def trie_clear_def new_node_def)
qed

section \<open>The search\<close>

text \<open>The frames a round pushes, and the frames visited below a frame, in the order of the search.\<close>

definition next_frames :: "trie_node list \<Rightarrow> bytes list \<Rightarrow> frame \<Rightarrow> frame list" where
  "next_frames t segs f =
     (case find_child t (fr_node f) (segs ! fr_seg_i f) of None \<Rightarrow> []
      | Some c \<Rightarrow> if is_param_segment (tn_segment (t ! c)) then [] else [literal_frame f c]) @
     map (param_frame t segs f) (filter (\<lambda>c. is_param_segment (tn_segment (t ! c))) (tn_children (t ! fr_node f)))"

lemma fr_seg_i_next: "g \<in> set (next_frames t segs f) \<Longrightarrow> fr_seg_i g = Suc (fr_seg_i f)"
  by (auto simp: next_frames_def literal_frame_def param_frame_def Let_def split: option.splits if_splits)

function visits :: "trie_node list \<Rightarrow> bytes list \<Rightarrow> frame \<Rightarrow> frame list" where
  "visits t segs f =
     f # (if fr_seg_i f \<ge> length segs then [] else concat (map (visits t segs) (next_frames t segs f)))"
  by pat_completeness auto
termination by (relation "measure (\<lambda>(t, segs, f). length segs - fr_seg_i f)") (auto dest: fr_seg_i_next)

declare visits.simps [simp del]

text \<open>A push is dropped only on a full stack.\<close>

lemma push_params_eq:
  assumes "length (filter (\<lambda>c. is_param_segment (tn_segment (t ! c))) (tn_children (t ! fr_node f))) + length st \<le> kMaxNodes"
  shows "push_params t segs f st =
     map (param_frame t segs f) (filter (\<lambda>c. is_param_segment (tn_segment (t ! c))) (tn_children (t ! fr_node f))) @ st"
proof -
  have "length (filter (\<lambda>c. is_param_segment (tn_segment (t ! c))) cs) + length st \<le> kMaxNodes \<Longrightarrow>
     foldr (\<lambda>c st. if is_param_segment (tn_segment (t ! c)) then push_frame (param_frame t segs f c) st else st) cs st =
     map (param_frame t segs f) (filter (\<lambda>c. is_param_segment (tn_segment (t ! c))) cs) @ st" for cs
  proof (induction cs)
    case (Cons c cs)
    then have "length (filter (\<lambda>c. is_param_segment (tn_segment (t ! c))) cs) + length st \<le> kMaxNodes"
      by (simp split: if_splits)
    from Cons.IH [OF this] Cons.prems show ?case by (auto simp: push_frame_def split: if_splits)
  qed simp
  with assms show ?thesis by (simp add: push_params_def)
qed

lemma push_frames_eq:
  assumes "length (next_frames t segs f) + length st \<le> kMaxNodes"
  shows "push_literal t segs f (push_params t segs f st) = next_frames t segs f @ st"
proof -
  have "length (filter (\<lambda>c. is_param_segment (tn_segment (t ! c))) (tn_children (t ! fr_node f))) + length st \<le> kMaxNodes"
    using assms by (simp add: next_frames_def)
  from push_params_eq [OF this, of segs] assms show ?thesis
    by (auto simp: push_literal_def next_frames_def push_frame_def split: option.split)
qed

text \<open>The nodes on the stack are the roots of disjoint subtrees, so the stack cannot outgrow the pool.\<close>

definition below :: "trie_node list \<Rightarrow> nat \<Rightarrow> nat \<Rightarrow> bool" where
  "below t a b \<longleftrightarrow> (\<exists>ps. walk t a ps = Some b)"

definition apart :: "trie_node list \<Rightarrow> nat \<Rightarrow> nat \<Rightarrow> bool" where
  "apart t a b \<longleftrightarrow> \<not> below t a b \<and> \<not> below t b a"

definition stack_ok :: "trie_node list \<Rightarrow> nat list \<Rightarrow> bool" where
  "stack_ok t ns \<longleftrightarrow> (\<forall>n \<in> set ns. n < length t) \<and> sorted_wrt (apart t) ns"

lemma below_refl [simp]: "below t a a"
  unfolding below_def by (rule exI [of _ "[]"]) simp

lemma below_child:
  assumes "trie_ok t" "n < length t" "c \<in> set (tn_children (t ! n))" "below t c m"
  shows "below t n m"
proof -
  from assms(4) obtain ps where "walk t c ps = Some m" by (auto simp: below_def)
  moreover have "find_child t n (tn_segment (t ! c)) = Some c" using find_child_Some [OF assms(1,2)] assms(3) by blast
  ultimately have "walk t n (tn_segment (t ! c) # ps) = Some m" by simp
  then show ?thesis unfolding below_def by blast
qed

lemma below_parent:
  assumes "trie_ok t" "n < length t" "c \<in> set (tn_children (t ! n))" "a < length t" "below t a c" "a \<noteq> c"
  shows "below t a n"
proof -
  from assms(5) obtain ps where ps: "walk t a ps = Some c" by (auto simp: below_def)
  with assms(6) obtain qs s where q: "ps = qs @ [s]" by (cases ps rule: rev_cases) auto
  with ps obtain p where p: "walk t a qs = Some p" "find_child t p s = Some c" by (auto simp: walk_append split: option.splits)
  have "p < length t" using walk_bound [OF assms(1,4) p(1)] by simp
  then have "p = n" using find_child_Some [OF assms(1)] p(2) trie_ok_parent [OF assms(1) _ assms(2) _ assms(3)] by blast
  with p(1) show ?thesis unfolding below_def by blast
qed

lemma below_le: "trie_ok t \<Longrightarrow> a < length t \<Longrightarrow> below t a b \<Longrightarrow> a \<le> b"
  unfolding below_def using walk_bound by fastforce

lemma apart_children:
  assumes "trie_ok t" "n < length t" "c \<in> set (tn_children (t ! n))" "d \<in> set (tn_children (t ! n))" "c \<noteq> d"
  shows "apart t c d"
proof -
  have *: "\<not> below t x y" if "x \<in> set (tn_children (t ! n))" "y \<in> set (tn_children (t ! n))" "x \<noteq> y" for x y
  proof
    assume b: "below t x y"
    have x: "n < x" "x < length t" using trie_ok_child [OF assms(1,2) that(1)] by auto
    have "below t x n" by (rule below_parent [OF assms(1,2) that(2) x(2) b that(3)])
    then show False using below_le [OF assms(1) x(2)] x(1) by fastforce
  qed
  show ?thesis unfolding apart_def using *[OF assms(3,4,5)] *[OF assms(4,3)] assms(5) by blast
qed

lemma apart_child:
  assumes "trie_ok t" "n < length t" "c \<in> set (tn_children (t ! n))" "g < length t" "apart t n g"
  shows "apart t c g"
  using assms(5) below_child [OF assms(1-3), of g] below_parent [OF assms(1-3), of g] assms(4)
    below_child [OF assms(1-3) below_refl] unfolding apart_def by blast

definition next_nodes :: "trie_node list \<Rightarrow> bytes list \<Rightarrow> frame \<Rightarrow> nat list" where
  "next_nodes t segs f = map fr_node (next_frames t segs f)"

lemma next_nodes_eq: "next_nodes t segs f =
     (case find_child t (fr_node f) (segs ! fr_seg_i f) of None \<Rightarrow> []
      | Some c \<Rightarrow> if is_param_segment (tn_segment (t ! c)) then [] else [c]) @
     filter (\<lambda>c. is_param_segment (tn_segment (t ! c))) (tn_children (t ! fr_node f))"
  by (auto simp: next_nodes_def next_frames_def literal_frame_def param_frame_def Let_def o_def split: option.splits)

lemma next_nodes_children:
  assumes "trie_ok t" "fr_node f < length t"
  shows "set (next_nodes t segs f) \<subseteq> set (tn_children (t ! fr_node f))" "distinct (next_nodes t segs f)"
proof -
  have d: "distinct (tn_children (t ! fr_node f))" using assms unfolding trie_ok_def by blast
  show "set (next_nodes t segs f) \<subseteq> set (tn_children (t ! fr_node f))"
  proof (cases "find_child t (fr_node f) (segs ! fr_seg_i f)")
    case (Some c)
    then have "c \<in> set (tn_children (t ! fr_node f))" using find_child_Some [OF assms] by blast
    with Some show ?thesis by (auto simp: next_nodes_eq)
  qed (auto simp: next_nodes_eq)
  show "distinct (next_nodes t segs f)" using d by (auto simp: next_nodes_eq split: option.split)
qed

lemma sorted_wrt_distinct:
  "distinct xs \<Longrightarrow> (\<And>x y. x \<in> set xs \<Longrightarrow> y \<in> set xs \<Longrightarrow> x \<noteq> y \<Longrightarrow> P x y) \<Longrightarrow> sorted_wrt P xs"
  by (induction xs) auto

lemma stack_ok_next:
  assumes "trie_ok t" "stack_ok t (fr_node f # map fr_node st)"
  shows "stack_ok t (next_nodes t segs f @ map fr_node st)"
proof -
  let ?n = "fr_node f"
  have n: "?n < length t" and st: "\<And>g. g \<in> set (map fr_node st) \<Longrightarrow> g < length t \<and> apart t ?n g"
    and sst: "sorted_wrt (apart t) (map fr_node st)" using assms(2) by (auto simp: stack_ok_def)
  note ch = next_nodes_children [OF assms(1) n, of segs]
  have "sorted_wrt (apart t) (next_nodes t segs f)"
    by (rule sorted_wrt_distinct [OF ch(2)]) (use ch(1) apart_children [OF assms(1) n] in blast)
  moreover have "apart t c g" if "c \<in> set (next_nodes t segs f)" "g \<in> set (map fr_node st)" for c g
    using apart_child [OF assms(1) n] ch(1) st that by blast
  moreover have "c < length t" if "c \<in> set (next_nodes t segs f)" for c
    using trie_ok_child [OF assms(1) n] ch(1) that by blast
  ultimately show ?thesis using sst st by (auto simp: stack_ok_def sorted_wrt_append)
qed

lemma sorted_apart_distinct: "sorted_wrt (apart t) ns \<Longrightarrow> distinct ns"
  by (induction ns) (auto simp: apart_def)

lemma stack_ok_length:
  assumes "stack_ok t ns"
  shows "length ns \<le> length t"
proof -
  have "distinct ns" "set ns \<subseteq> {0..<length t}" using assms sorted_apart_distinct by (auto simp: stack_ok_def)
  then show ?thesis using card_mono [of "{0..<length t}" "set ns"] by (simp add: distinct_card)
qed

text \<open>The search never drops a frame.\<close>

lemma push_frames_all:
  assumes "trie_ok t" "stack_ok t (map fr_node (f # st))"
  shows "push_literal t segs f (push_params t segs f st) = next_frames t segs f @ st"
proof (rule push_frames_eq)
  have "length (next_nodes t segs f @ map fr_node st) \<le> length t"
    by (rule stack_ok_length) (use stack_ok_next [OF assms(1), of f st] assms(2) in simp)
  moreover have "length t \<le> kMaxNodes" using assms(1) by (simp add: trie_ok_def)
  ultimately show "length (next_frames t segs f) + length st \<le> kMaxNodes" by (simp add: next_nodes_def)
qed

definition examine :: "trie_node list \<Rightarrow> nat \<Rightarrow> frame \<Rightarrow> candidate \<Rightarrow> candidate" where
  "examine t slot f best = consider_terminal (pick_terminal (t ! fr_node f) slot) f best"

lemma stack_ok_tail: "stack_ok t (n # ns) \<Longrightarrow> stack_ok t ns"
  by (simp add: stack_ok_def)

lemma match_loop_visits:
  "trie_ok t \<Longrightarrow> stack_ok t (map fr_node st) \<Longrightarrow>
   match_loop t slot segs st best = fold (examine t slot) (concat (map (visits t segs) st)) best"
proof (induction t slot segs st best rule: match_loop.induct)
  case (2 t slot segs f st best)
  show ?case
  proof (cases "fr_seg_i f \<ge> length segs")
    case True
    have v: "visits t segs f = [f]" using True by (subst visits.simps) simp
    have "stack_ok t (map fr_node st)" using 2(4) by (auto intro: stack_ok_tail)
    from 2(1) [OF refl True 2(3) this] True show ?thesis by (simp add: Let_def v examine_def)
  next
    case False
    have v: "visits t segs f = f # concat (map (visits t segs) (next_frames t segs f))"
      using False by (subst visits.simps) simp
    have p: "push_literal t segs f (push_params t segs f st) = next_frames t segs f @ st"
      by (rule push_frames_all [OF 2(3,4)])
    have "stack_ok t (map fr_node (push_literal t segs f (push_params t segs f st)))"
      using stack_ok_next [OF 2(3), of f st segs] 2(4) by (simp add: p next_nodes_def)
    from 2(2) [OF refl False 2(3) this] False show ?thesis by (simp add: Let_def v p examine_def)
  qed
qed simp

text \<open>
  A pattern matches a prefix of the request when every segment of it is a parameter or the segment of the
  request.  The frame that reaches the pattern carries its length, its static segments and its bindings.
\<close>

definition pat_matches :: "bytes list \<Rightarrow> bytes list \<Rightarrow> bool" where
  "pat_matches ps segs \<longleftrightarrow> length ps \<le> length segs \<and> (\<forall>i < length ps. is_param_segment (ps ! i) \<or> ps ! i = segs ! i)"

fun mask_from :: "nat \<Rightarrow> bytes list \<Rightarrow> u64" where
  "mask_from i [] = 0"
| "mask_from i (p # ps) =
     (if \<not> is_param_segment p \<and> i + 1 < 64 then push_bit (63 - (i + 1)) 1 else 0) OR mask_from (i + 1) ps"

definition bindings :: "bytes list \<Rightarrow> bytes list \<Rightarrow> (bytes \<times> bytes) list" where
  "bindings ps segs = map (\<lambda>(p, s). (drop 1 p, s)) (filter (\<lambda>(p, s). is_param_segment p) (zip ps segs))"

definition pat_frame :: "bytes list \<Rightarrow> nat \<Rightarrow> bytes list \<Rightarrow> frame" where
  "pat_frame segs n ps = \<lparr>fr_node = n, fr_seg_i = length ps, fr_depth = length ps,
     fr_static_segments = length (filter (\<lambda>p. \<not> is_param_segment p) ps), fr_static_mask = mask_from 0 ps,
     fr_params = take kMaxRouteParams (bindings ps segs)\<rparr>"

lemma mask_from_snoc: "mask_from i (ps @ [p]) =
    mask_from i ps OR (if \<not> is_param_segment p \<and> i + length ps + 1 < 64 then push_bit (63 - (i + length ps + 1)) 1 else 0)"
  by (induction ps arbitrary: i) (auto simp: or.assoc)

lemma bindings_snoc: "length ps < length segs \<Longrightarrow> bindings (ps @ [p]) segs =
    bindings ps segs @ (if is_param_segment p then [(drop 1 p, segs ! length ps)] else [])"
proof (induction ps arbitrary: segs)
  case Nil
  then show ?case by (cases segs) (simp_all add: bindings_def)
next
  case (Cons q ps)
  then obtain s ss where "segs = s # ss" by (cases segs) auto
  with Cons.IH [of ss] Cons.prems show ?case by (simp add: bindings_def)
qed

lemma pat_matches_snoc:
  "pat_matches (ps @ [s]) segs \<longleftrightarrow> pat_matches ps segs \<and> length ps < length segs \<and> (is_param_segment s \<or> s = segs ! length ps)"
  by (auto simp: pat_matches_def nth_append less_Suc_eq)

lemma pat_matches_prefix:
  assumes "pat_matches (ps @ qs) segs"
  shows "pat_matches ps segs"
proof -
  have "is_param_segment (ps ! i) \<or> ps ! i = segs ! i" if "i < length ps" for i
    using assms [unfolded pat_matches_def, THEN conjunct2, rule_format, of i] that by (simp add: nth_append)
  moreover have "length ps \<le> length segs" using assms by (simp add: pat_matches_def)
  ultimately show ?thesis by (simp add: pat_matches_def)
qed

lemma take_append_one: "take k (xs @ [x]) = (if length (take k xs) < k then take k xs @ [x] else take k xs)"
  by auto

lemma param_frame_pat:
  assumes "length ps < length segs" "is_param_segment (tn_segment (t ! c))"
  shows "param_frame t segs (pat_frame segs n ps) c = pat_frame segs c (ps @ [tn_segment (t ! c)])"
  using assms by (simp add: param_frame_def pat_frame_def bindings_snoc mask_from_snoc take_append_one)

lemma literal_frame_pat:
  assumes "length ps < length segs" "\<not> is_param_segment s"
  shows "literal_frame (pat_frame segs n ps) c = pat_frame segs c (ps @ [s])"
  using assms by (simp add: literal_frame_def pat_frame_def bindings_snoc mask_from_snoc Let_def)

lemma next_frames_pat:
  assumes "trie_ok t" "n < length t" "pat_matches ps segs" "length ps < length segs"
  shows "set (next_frames t segs (pat_frame segs n ps)) =
     {pat_frame segs c (ps @ [s]) |c s. find_child t n s = Some c \<and> pat_matches (ps @ [s]) segs}" (is "?L = ?R")
proof -
  have node: "fr_node (pat_frame segs n ps) = n" "fr_seg_i (pat_frame segs n ps) = length ps" by (simp_all add: pat_frame_def)
  have lit: "set (case find_child t n (segs ! length ps) of None \<Rightarrow> []
      | Some c \<Rightarrow> if is_param_segment (tn_segment (t ! c)) then [] else [literal_frame (pat_frame segs n ps) c]) =
      {pat_frame segs c (ps @ [s]) |c s. find_child t n s = Some c \<and> s = segs ! length ps \<and> \<not> is_param_segment s}"
  proof (cases "find_child t n (segs ! length ps)")
    case (Some c)
    then have "tn_segment (t ! c) = segs ! length ps" using find_child_Some [OF assms(1,2)] by blast
    with Some show ?thesis using literal_frame_pat [OF assms(4)] by auto
  qed simp
  have par: "param_frame t segs (pat_frame segs n ps) ` {c \<in> set (tn_children (t ! n)). is_param_segment (tn_segment (t ! c))} =
      {pat_frame segs c (ps @ [s]) |c s. find_child t n s = Some c \<and> is_param_segment s}"
    using param_frame_pat [OF assms(4), of t _ n] by (auto simp: find_child_Some [OF assms(1,2)] image_iff)
  have "?L = {pat_frame segs c (ps @ [s]) |c s. find_child t n s = Some c \<and> s = segs ! length ps \<and> \<not> is_param_segment s} \<union>
      {pat_frame segs c (ps @ [s]) |c s. find_child t n s = Some c \<and> is_param_segment s}"
    unfolding next_frames_def node set_append lit set_map set_filter par ..
  also have "\<dots> = ?R" using assms(3,4) by (auto simp: pat_matches_snoc)
  finally show ?thesis .
qed

definition reached :: "trie_node list \<Rightarrow> bytes list \<Rightarrow> nat \<Rightarrow> bytes list \<Rightarrow> frame set" where
  "reached t segs n ps = {pat_frame segs m (ps @ qs) |m qs. walk t n qs = Some m \<and> pat_matches (ps @ qs) segs}"

lemma reachedI: "walk t n qs = Some m \<Longrightarrow> pat_matches (ps @ qs) segs \<Longrightarrow> pat_frame segs m (ps @ qs) \<in> reached t segs n ps"
  unfolding reached_def by blast

lemma reached_split:
  assumes "pat_matches ps segs"
  shows "reached t segs n ps = insert (pat_frame segs n ps)
     (\<Union>{reached t segs c (ps @ [s]) |c s. find_child t n s = Some c \<and> pat_matches (ps @ [s]) segs})" (is "_ = insert _ ?U")
proof (rule set_eqI, rule iffI)
  fix x assume "x \<in> reached t segs n ps"
  then obtain m qs where x: "x = pat_frame segs m (ps @ qs)" "walk t n qs = Some m" "pat_matches (ps @ qs) segs"
    unfolding reached_def by blast
  show "x \<in> insert (pat_frame segs n ps) ?U"
  proof (cases qs)
    case Nil
    with x(1,2) show ?thesis by simp
  next
    case (Cons s rs)
    with x(2) obtain c where c: "find_child t n s = Some c" "walk t c rs = Some m" by (auto split: option.splits)
    have p: "pat_matches ((ps @ [s]) @ rs) segs" using x(3) Cons by simp
    have "x \<in> reached t segs c (ps @ [s])" using reachedI [OF c(2) p] x(1) Cons by simp
    then show ?thesis using c(1) pat_matches_prefix [OF p] by blast
  qed
next
  fix x assume "x \<in> insert (pat_frame segs n ps) ?U"
  then show "x \<in> reached t segs n ps"
  proof
    assume "x = pat_frame segs n ps"
    then show ?thesis using reachedI [of t n "[]" n ps segs] assms by simp
  next
    assume "x \<in> ?U"
    then obtain c s where c: "find_child t n s = Some c" "x \<in> reached t segs c (ps @ [s])" by blast
    then obtain m rs where x: "x = pat_frame segs m ((ps @ [s]) @ rs)" "walk t c rs = Some m" "pat_matches ((ps @ [s]) @ rs) segs"
      unfolding reached_def by blast
    have "walk t n (s # rs) = Some m" using c(1) x(2) by simp
    from reachedI [OF this, of ps segs] x(1,3) show ?thesis by simp
  qed
qed

lemma visits_pat:
  assumes "trie_ok t" "n < length t" "pat_matches ps segs"
  shows "set (visits t segs (pat_frame segs n ps)) = reached t segs n ps"
  using assms
proof (induction "length segs - length ps" arbitrary: n ps rule: less_induct)
  case less
  let ?f = "pat_frame segs n ps"
  have i: "fr_seg_i ?f = length ps" by (simp add: pat_frame_def)
  show ?case
  proof (cases "length ps < length segs")
    case False
    then have "\<not> pat_matches (ps @ [s]) segs" for s by (simp add: pat_matches_snoc)
    moreover have "visits t segs ?f = [?f]" using False by (subst visits.simps) (simp add: i)
    ultimately show ?thesis by (simp add: reached_split [OF less.prems(3)])
  next
    case True
    have v: "visits t segs ?f = ?f # concat (map (visits t segs) (next_frames t segs ?f))"
      using True by (subst visits.simps) (simp add: i)
    have IH: "set (visits t segs (pat_frame segs c (ps @ [s]))) = reached t segs c (ps @ [s])"
      if "find_child t n s = Some c" "pat_matches (ps @ [s]) segs" for c s
    proof -
      have "c < length t" using find_child_Some [OF less.prems(1,2)] trie_ok_child [OF less.prems(1,2)] that(1) by blast
      from less.hyps [OF _ less.prems(1) this that(2)] True show ?thesis by simp
    qed
    have "(\<lambda>g. set (visits t segs g)) ` set (next_frames t segs ?f) =
        {set (visits t segs (pat_frame segs c (ps @ [s]))) |c s. find_child t n s = Some c \<and> pat_matches (ps @ [s]) segs}"
      unfolding next_frames_pat [OF less.prems True] by blast
    also have "\<dots> = {reached t segs c (ps @ [s]) |c s. find_child t n s = Some c \<and> pat_matches (ps @ [s]) segs}"
      by (intro Collect_cong ex_cong1) (auto simp: IH)
    finally show ?thesis by (simp add: v reached_split [OF less.prems(3)])
  qed
qed

text \<open>The rank of a candidate, compared lexicographically.\<close>

definition cand_rank :: "candidate \<Rightarrow> nat \<times> nat \<times> u64 \<times> bool" where
  "cand_rank b = (ca_depth b, ca_static_segments b, ca_static_mask b, ca_method_specific b)"

definition frame_rank :: "trie_node list \<Rightarrow> nat \<Rightarrow> frame \<Rightarrow> nat \<times> nat \<times> u64 \<times> bool" where
  "frame_rank t slot f = (fr_depth f, fr_static_segments f, fr_static_mask f, snd (pick_terminal (t ! fr_node f) slot))"

definition frame_cand :: "trie_node list \<Rightarrow> nat \<Rightarrow> frame \<Rightarrow> candidate" where
  "frame_cand t slot f = (let tm = pick_terminal (t ! fr_node f) slot in
     \<lparr>ca_route_idx = fst tm, ca_depth = fr_depth f, ca_static_segments = fr_static_segments f,
      ca_static_mask = fr_static_mask f, ca_method_specific = snd tm, ca_params = fr_params f\<rparr>)"

definition has_route :: "trie_node list \<Rightarrow> nat \<Rightarrow> frame \<Rightarrow> bool" where
  "has_route t slot f \<longleftrightarrow> fst (pick_terminal (t ! fr_node f) slot) \<noteq> kInvalidRoute"

lemma lex4_less:
  fixes a a' :: "'a :: linorder" and b b' :: "'b :: linorder" and c c' :: "'c :: linorder"
  shows "(a, b, c, d) < (a', b', c', d') \<longleftrightarrow> a' > a \<or> (a' = a \<and> b' > b) \<or> (a' = a \<and> b' = b \<and> c' > c) \<or>
    (a' = a \<and> b' = b \<and> c' = c \<and> d' \<and> \<not> d)"
  by (auto simp: less_prod_def)

lemma examine_eq: "examine t slot f best =
    (if has_route t slot f \<and> (ca_route_idx best = kInvalidRoute \<or> cand_rank best < frame_rank t slot f)
     then frame_cand t slot f else best)"
  unfolding examine_def consider_terminal_def has_route_def cand_rank_def frame_rank_def frame_cand_def Let_def lex4_less
  by simp

lemma frame_cand_simps:
  "ca_route_idx (frame_cand t slot f) = fst (pick_terminal (t ! fr_node f) slot)" "ca_params (frame_cand t slot f) = fr_params f"
  "cand_rank (frame_cand t slot f) = frame_rank t slot f"
  by (simp_all add: frame_cand_def cand_rank_def frame_rank_def Let_def)

lemma fold_examine:
  "let r = fold (examine t slot) fs best in
   (ca_route_idx r = kInvalidRoute \<longleftrightarrow> ca_route_idx best = kInvalidRoute \<and> (\<forall>f \<in> set fs. \<not> has_route t slot f)) \<and>
   (r = best \<or> (\<exists>f \<in> set fs. has_route t slot f \<and> r = frame_cand t slot f)) \<and>
   (\<forall>f \<in> set fs. has_route t slot f \<longrightarrow> frame_rank t slot f \<le> cand_rank r) \<and>
   (ca_route_idx best \<noteq> kInvalidRoute \<longrightarrow> cand_rank best \<le> cand_rank r)"
proof (induction fs arbitrary: best)
  case (Cons f fs)
  let ?b = "examine t slot f best"
  let ?r = "fold (examine t slot) fs ?b"
  note IH = Cons.IH [of ?b, unfolded Let_def]
  show ?case
  proof (cases "has_route t slot f \<and> (ca_route_idx best = kInvalidRoute \<or> cand_rank best < frame_rank t slot f)")
    case True
    then have b: "?b = frame_cand t slot f" and v: "ca_route_idx (frame_cand t slot f) \<noteq> kInvalidRoute"
      by (simp_all add: examine_eq frame_cand_simps has_route_def)
    have le: "frame_rank t slot f \<le> cand_rank ?r" using IH v by (simp add: b frame_cand_simps)
    then have "ca_route_idx best \<noteq> kInvalidRoute \<longrightarrow> cand_rank best \<le> cand_rank ?r" using True by auto
    with IH v le True show ?thesis by (auto simp: b Let_def)
  next
    case False
    then have b: "?b = best" by (auto simp: examine_eq)
    have "has_route t slot f \<Longrightarrow> ca_route_idx best \<noteq> kInvalidRoute \<and> frame_rank t slot f \<le> cand_rank best"
      using False by auto
    with IH show ?thesis by (auto simp: b Let_def)
  qed
qed simp

text \<open>The route a table offers for a pattern: the slot of the method before the slot for any method.\<close>

definition best_route :: "('k \<Rightarrow> nat \<Rightarrow> u16 option) \<Rightarrow> 'k \<Rightarrow> nat \<Rightarrow> (u16 \<times> bool) option" where
  "best_route m ps slot =
     (case if slot = 0 then None else m ps slot of
        Some r \<Rightarrow> Some (r, True)
      | None \<Rightarrow> (case m ps 0 of Some r \<Rightarrow> Some (r, False) | None \<Rightarrow> None))"

definition rank :: "bytes list \<Rightarrow> bool \<Rightarrow> nat \<times> nat \<times> u64 \<times> bool" where
  "rank ps spec = (length ps, length (filter (\<lambda>p. \<not> is_param_segment p) ps), mask_from 0 ps, spec)"

lemma best_route_walk:
  assumes "walk t 0 ps = Some n" "slot < kRouteMethodSlots"
  shows "best_route (trie_table t) ps slot =
     (if fst (pick_terminal (t ! n) slot) = kInvalidRoute then None else Some (pick_terminal (t ! n) slot))"
  using assms by (simp add: best_route_def trie_table_def route_at_def pick_terminal_def Let_def kRouteMethodSlots_def)

lemma best_route_no_walk: "walk t 0 ps = None \<Longrightarrow> best_route (trie_table t) ps slot = None"
  by (simp add: best_route_def trie_table_def route_at_def)

lemma has_route_pat:
  assumes "walk t 0 ps = Some n" "slot < kRouteMethodSlots"
  shows "has_route t slot (pat_frame segs n ps) \<longleftrightarrow> best_route (trie_table t) ps slot \<noteq> None"
    "has_route t slot (pat_frame segs n ps) \<Longrightarrow>
       best_route (trie_table t) ps slot = Some (pick_terminal (t ! n) slot)"
    "frame_rank t slot (pat_frame segs n ps) = rank ps (snd (pick_terminal (t ! n) slot))"
  by (simp_all add: best_route_walk [OF assms] has_route_def pat_frame_def frame_rank_def rank_def)

lemma match_loop_frames:
  assumes "trie_ok t"
  shows "match_loop t slot segs (push_frame first_frame []) best =
      fold (examine t slot) (visits t segs (pat_frame segs 0 [])) best"
    "set (visits t segs (pat_frame segs 0 [])) = {pat_frame segs m ps |m ps. walk t 0 ps = Some m \<and> pat_matches ps segs}"
proof -
  have f: "push_frame first_frame [] = [pat_frame segs 0 []]"
    by (simp add: push_frame_def first_frame_def pat_frame_def bindings_def kMaxNodes_def)
  have l: "0 < length t" using assms by (simp add: trie_ok_def)
  have "stack_ok t (map fr_node [pat_frame segs 0 []])" using l by (simp add: stack_ok_def pat_frame_def)
  from match_loop_visits [OF assms this] show "match_loop t slot segs (push_frame first_frame []) best =
      fold (examine t slot) (visits t segs (pat_frame segs 0 [])) best" by (simp add: f)
  show "set (visits t segs (pat_frame segs 0 [])) = {pat_frame segs m ps |m ps. walk t 0 ps = Some m \<and> pat_matches ps segs}"
    using visits_pat [OF assms l, of "[]"] by (simp add: pat_matches_def reached_def)
qed

lemma visits_none:
  assumes ok: "trie_ok t" and sl: "slot < kRouteMethodSlots"
  shows "(\<forall>f \<in> set (visits t segs (pat_frame segs 0 [])). \<not> has_route t slot f) \<longleftrightarrow>
    (\<forall>ps. pat_matches ps segs \<longrightarrow> best_route (trie_table t) ps slot = None)" (is "?A \<longleftrightarrow> ?B")
proof
  assume A: ?A
  show ?B
  proof (intro allI impI)
    fix ps assume p: "pat_matches ps segs"
    show "best_route (trie_table t) ps slot = None"
    proof (cases "walk t 0 ps")
      case (Some n)
      then have "\<not> has_route t slot (pat_frame segs n ps)" using A p unfolding match_loop_frames(2) [OF ok] by blast
      then show ?thesis using has_route_pat(1) [OF Some sl] by blast
    qed (rule best_route_no_walk)
  qed
next
  assume B: ?B
  show ?A
  proof
    fix f assume "f \<in> set (visits t segs (pat_frame segs 0 []))"
    then obtain n ps where f: "f = pat_frame segs n ps" "walk t 0 ps = Some n" "pat_matches ps segs"
      unfolding match_loop_frames(2) [OF ok] by blast
    then show "\<not> has_route t slot f" using B has_route_pat(1) [OF f(2) sl, of segs] by simp
  qed
qed

lemma tokenize_snd: "snd (tokenize_segments path) = take kMaxPathSegments (segments path)"
  by (simp add: tokenize_segments_spec)

lemma match_key_spec:
  assumes ok: "trie_ok t" and slot: "route_method_slot_from_key k = Some slot" and run: "match_key t path k cap = (r, params)"
    and segs: "segs = take kMaxPathSegments (segments path)"
  shows "(r = kInvalidRoute \<longleftrightarrow> (\<forall>ps. pat_matches ps segs \<longrightarrow> best_route (trie_table t) ps slot = None)) \<and>
    (r \<noteq> kInvalidRoute \<longrightarrow> (\<exists>ps spec. pat_matches ps segs \<and> best_route (trie_table t) ps slot = Some (r, spec) \<and>
       params = take cap (take kMaxRouteParams (bindings ps segs)) \<and>
       (\<forall>qs r' spec'. pat_matches qs segs \<and> best_route (trie_table t) qs slot = Some (r', spec') \<longrightarrow> rank qs spec' \<le> rank ps spec)))"
proof -
  let ?m = "trie_table t"
  let ?fs = "visits t segs (pat_frame segs 0 [])"
  define b where "b = fold (examine t slot) ?fs no_candidate"
  have sl: "slot < kRouteMethodSlots" using slot by (simp add: route_method_slot_from_key_def split: if_splits)
  have rp: "r = ca_route_idx b" "params = take cap (ca_params b)"
    using run by (simp_all add: match_key_def slot case_prod_unfold Let_def tokenize_snd b_def segs match_loop_frames(1) [OF ok])
  have F: "(ca_route_idx b = kInvalidRoute \<longleftrightarrow> (\<forall>f \<in> set ?fs. \<not> has_route t slot f))"
    "b = no_candidate \<or> (\<exists>f \<in> set ?fs. has_route t slot f \<and> b = frame_cand t slot f)"
    "\<forall>f \<in> set ?fs. has_route t slot f \<longrightarrow> frame_rank t slot f \<le> cand_rank b"
    using fold_examine [of t slot ?fs no_candidate] by (simp_all add: b_def Let_def no_candidate_def)
  have vis: "\<And>ps n. walk t 0 ps = Some n \<Longrightarrow> pat_matches ps segs \<Longrightarrow> pat_frame segs n ps \<in> set ?fs"
    unfolding match_loop_frames(2) [OF ok] by blast
  have vis': "\<And>f. f \<in> set ?fs \<Longrightarrow> \<exists>n ps. f = pat_frame segs n ps \<and> walk t 0 ps = Some n \<and> pat_matches ps segs"
    unfolding match_loop_frames(2) [OF ok] by blast
  note none = visits_none [OF ok sl, of segs]
  have some: "\<exists>ps spec. pat_matches ps segs \<and> best_route ?m ps slot = Some (r, spec) \<and>
       params = take cap (take kMaxRouteParams (bindings ps segs)) \<and>
       (\<forall>qs r' spec'. pat_matches qs segs \<and> best_route ?m qs slot = Some (r', spec') \<longrightarrow> rank qs spec' \<le> rank ps spec)"
    if ne: "r \<noteq> kInvalidRoute"
  proof -
    have "b \<noteq> no_candidate" using ne by (auto simp: rp no_candidate_def)
    with F(2) obtain f where f: "f \<in> set ?fs" "has_route t slot f" "b = frame_cand t slot f" by blast
    then obtain n ps where p: "f = pat_frame segs n ps" "walk t 0 ps = Some n" "pat_matches ps segs" using vis' by blast
    let ?tm = "pick_terminal (t ! n) slot"
    have br: "best_route ?m ps slot = Some (r, snd ?tm)"
      using has_route_pat(2) [OF p(2) sl] f(2) p(1) by (simp add: rp f(3) frame_cand_simps pat_frame_def)
    have rk: "cand_rank b = rank ps (snd ?tm)" using has_route_pat(3) [OF p(2) sl] by (simp add: f(3) frame_cand_simps p(1))
    have "rank qs spec' \<le> rank ps (snd ?tm)" if q: "pat_matches qs segs" "best_route ?m qs slot = Some (r', spec')" for qs r' spec'
    proof -
      obtain n' where w: "walk t 0 qs = Some n'" using q(2) best_route_no_walk [of t qs slot] by (cases "walk t 0 qs") auto
      have h: "has_route t slot (pat_frame segs n' qs)" using has_route_pat(1) [OF w sl] q(2) by simp
      have "frame_rank t slot (pat_frame segs n' qs) \<le> cand_rank b" using F(3) vis [OF w q(1)] h by blast
      moreover have "spec' = snd (pick_terminal (t ! n') slot)" using has_route_pat(2) [OF w sl h] q(2)
        by (cases "pick_terminal (t ! n') slot") simp
      ultimately show ?thesis using has_route_pat(3) [OF w sl] rk by simp
    qed
    moreover have "params = take cap (take kMaxRouteParams (bindings ps segs))"
      by (simp add: rp f(3) frame_cand_simps p(1) pat_frame_def)
    ultimately show ?thesis using p(3) br by blast
  qed
  show ?thesis using F(1) none some rp(1) by simp
qed

text \<open>
  C8: \<open>RouteTrie::match_key\<close> is exact and picks the best route.  The search finds a route exactly
  when some stored pattern matches a prefix of the request's first 64 segments; the route found belongs to a
  matching pattern of the highest rank, first by length, then by the number of static segments, then by how early
  the static segments stand, then a route for the method before a route for any method; and the parameters returned are the
  first bindings of that pattern.  The bounded stack never drops a frame.
\<close>

theorem match_key_best:
  assumes ok: "trie_ok t" and slot: "route_method_slot_from_key k = Some slot" and run: "match_key t path k cap = (r, params)"
    and segs: "segs = take kMaxPathSegments (segments path)"
  shows "(r = kInvalidRoute \<longleftrightarrow> (\<forall>ps. pat_matches ps segs \<longrightarrow> best_route (trie_table t) ps slot = None)) \<and>
    (r \<noteq> kInvalidRoute \<longrightarrow> (\<exists>ps spec. pat_matches ps segs \<and> best_route (trie_table t) ps slot = Some (r, spec) \<and>
       params = take cap (take kMaxRouteParams (bindings ps segs)) \<and>
       (\<forall>qs r' spec'. pat_matches qs segs \<and> best_route (trie_table t) qs slot = Some (r', spec') \<longrightarrow> rank qs spec' \<le> rank ps spec)))"
  using assms by (rule match_key_spec)

definition example_trie :: "trie_node list" where
  "example_trie = (let t1 = snd (trie_insert trie_clear (ascii ''/api/:id'') 0 7) in
     snd (trie_insert t1 (ascii ''/api/users/'') (of_char CHR ''G'') 8))"

theorem match_key_best_witness:
  "trie_ok example_trie \<and> route_method_slot_from_key 1 = Some 1 \<and> match_key example_trie (ascii ''/api/42/x'') 1 16 =
     (7, [(ascii ''id'', ascii ''42'')]) \<and>
   (\<exists>ps spec. pat_matches ps (take kMaxPathSegments (segments (ascii ''/api/42/x''))) \<and>
      best_route (trie_table example_trie) ps 1 = Some (7, spec))"
proof -
  have e: "example_trie =
      [\<lparr>tn_segment = [], tn_children = [1], tn_route = replicate 10 0xffff\<rparr>,
       \<lparr>tn_segment = ascii ''api'', tn_children = [2, 3], tn_route = replicate 10 0xffff\<rparr>,
       \<lparr>tn_segment = ascii '':id'', tn_children = [], tn_route = (replicate 10 0xffff)[0 := 7]\<rparr>,
       \<lparr>tn_segment = ascii ''users'', tn_children = [], tn_route = (replicate 10 0xffff)[1 := 8]\<rparr>]" by code_simp
  have ok: "trie_ok example_trie"
    unfolding e by (simp add: trie_ok_def kMaxNodes_def kRouteMethodSlots_def All_less_Suc numeral_eq_Suc ascii_def)
  have k: "route_method_slot_from_key 1 = Some 1" by code_simp
  have m: "match_key example_trie (ascii ''/api/42/x'') 1 16 = (7, [(ascii ''id'', ascii ''42'')])" by code_simp
  have "(7 :: u16) \<noteq> kInvalidRoute" by code_simp
  with ok k m match_key_best [OF ok k m refl] show ?thesis by blast
qed

end
