(* ===== verification/Route_Art.thy ===== *)
theory Route_Art
  imports Route_Trie
begin

text \<open>
  The adaptive radix tree of the route table (route_art.h, route_art.cc): four pools of nodes
  with 4, 16, 48 and 256 children, packed references between them, insertion with node
  upgrades and edge splits, and the search for the longest byte prefix.  Edges are the bytes
  they denote.  The arrays keep their sizes; a pool is the list of its allocated nodes.
\<close>

unbundle bit_operations_syntax

section \<open>References\<close>

datatype art_node_type = ArtN4 | ArtN16 | ArtN48 | ArtN256

definition kArtInvalidChildRef :: u16 where
  "kArtInvalidChildRef = 0xffff"

definition kArtIdxMask :: u16 where
  "kArtIdxMask = push_bit 14 1 - 1"

definition art_type_num :: "art_node_type \<Rightarrow> u16" where
  "art_type_num t = (case t of ArtN4 \<Rightarrow> 0 | ArtN16 \<Rightarrow> 1 | ArtN48 \<Rightarrow> 2 | ArtN256 \<Rightarrow> 3)"

definition art_pack :: "art_node_type \<Rightarrow> u16 \<Rightarrow> u16" where
  "art_pack t idx = push_bit 14 (art_type_num t) OR (idx AND kArtIdxMask)"

definition art_type :: "u16 \<Rightarrow> art_node_type" where
  "art_type ref = (let n = drop_bit 14 ref in
     if n = 0 then ArtN4 else if n = 1 then ArtN16 else if n = 2 then ArtN48 else ArtN256)"

definition art_idx :: "u16 \<Rightarrow> nat" where
  "art_idx ref = unat (ref AND kArtIdxMask)"

section \<open>Nodes\<close>

record art_header =
  ah_edge :: bytes
  ah_route :: "u16 list"

definition new_header :: art_header where
  "new_header = \<lparr>ah_edge = [], ah_route = replicate kRouteMethodSlots kInvalidRoute\<rparr>"

text \<open>\<open>ArtNode4\<close> and \<open>ArtNode16\<close> differ in the size of their arrays and in the initial
  child references.\<close>

record art_linear =
  al_hdr :: art_header
  al_keys :: "u8 list"
  al_children :: "u16 list"
  al_count :: nat

definition new_n4 :: art_linear where
  "new_n4 = \<lparr>al_hdr = new_header, al_keys = replicate 4 0, al_children = replicate 4 kArtInvalidChildRef, al_count = 0\<rparr>"

definition new_n16 :: art_linear where
  "new_n16 = \<lparr>al_hdr = new_header, al_keys = replicate 16 0, al_children = replicate 16 0, al_count = 0\<rparr>"

record art_node48 =
  a48_hdr :: art_header
  a48_index :: "u8 list"
  a48_children :: "u16 list"
  a48_count :: nat

definition new_n48 :: art_node48 where
  "new_n48 = \<lparr>a48_hdr = new_header, a48_index = replicate 256 0, a48_children = replicate 48 0, a48_count = 0\<rparr>"

record art_node256 =
  a256_hdr :: art_header
  a256_children :: "u16 list"
  a256_count :: nat

definition new_n256 :: art_node256 where
  "new_n256 = \<lparr>a256_hdr = new_header, a256_children = replicate 256 kArtInvalidChildRef, a256_count = 0\<rparr>"

record art_trie =
  at_n4 :: "art_linear list"
  at_n16 :: "art_linear list"
  at_n48 :: "art_node48 list"
  at_n256 :: "art_node256 list"
  at_root :: u16
  at_uniform :: bool

definition kMaxN4 :: nat where "kMaxN4 = 256"
definition kMaxN16 :: nat where "kMaxN16 = 64"
definition kMaxN48 :: nat where "kMaxN48 = 32"
definition kMaxN256 :: nat where "kMaxN256 = 8"

definition art_clear :: art_trie where
  "art_clear = \<lparr>at_n4 = [new_n4], at_n16 = [], at_n48 = [], at_n256 = [], at_root = art_pack ArtN4 0, at_uniform = True\<rparr>"

definition art_header_of :: "art_trie \<Rightarrow> u16 \<Rightarrow> art_header" where
  "art_header_of a ref =
     (case art_type ref of
        ArtN4 \<Rightarrow> al_hdr (at_n4 a ! art_idx ref)
      | ArtN16 \<Rightarrow> al_hdr (at_n16 a ! art_idx ref)
      | ArtN48 \<Rightarrow> a48_hdr (at_n48 a ! art_idx ref)
      | ArtN256 \<Rightarrow> a256_hdr (at_n256 a ! art_idx ref))"

text \<open>Writing through the reference \<open>header\<close> returns.\<close>

definition set_header :: "u16 \<Rightarrow> art_header \<Rightarrow> art_trie \<Rightarrow> art_trie" where
  "set_header ref h a =
     (let i = art_idx ref in
      case art_type ref of
        ArtN4 \<Rightarrow> a\<lparr>at_n4 := (at_n4 a)[i := (at_n4 a ! i)\<lparr>al_hdr := h\<rparr>]\<rparr>
      | ArtN16 \<Rightarrow> a\<lparr>at_n16 := (at_n16 a)[i := (at_n16 a ! i)\<lparr>al_hdr := h\<rparr>]\<rparr>
      | ArtN48 \<Rightarrow> a\<lparr>at_n48 := (at_n48 a)[i := (at_n48 a ! i)\<lparr>a48_hdr := h\<rparr>]\<rparr>
      | ArtN256 \<Rightarrow> a\<lparr>at_n256 := (at_n256 a)[i := (at_n256 a ! i)\<lparr>a256_hdr := h\<rparr>]\<rparr>)"

definition find_linear :: "art_linear \<Rightarrow> u8 \<Rightarrow> u16" where
  "find_linear n b =
     (case find (\<lambda>i. al_keys n ! i = b) [0..<al_count n] of None \<Rightarrow> kArtInvalidChildRef | Some i \<Rightarrow> al_children n ! i)"

definition find_in_n48 :: "art_node48 \<Rightarrow> u8 \<Rightarrow> u16" where
  "find_in_n48 n b =
     (let idx_1based = a48_index n ! unat b in
      if idx_1based = 0 then kArtInvalidChildRef else a48_children n ! (unat idx_1based - 1))"

definition find_in_n256 :: "art_node256 \<Rightarrow> u8 \<Rightarrow> u16" where
  "find_in_n256 n b = a256_children n ! unat b"

definition art_find_child :: "art_trie \<Rightarrow> u16 \<Rightarrow> u8 \<Rightarrow> u16" where
  "art_find_child a parent b =
     (let i = art_idx parent in
      case art_type parent of
        ArtN4 \<Rightarrow> find_linear (at_n4 a ! i) b
      | ArtN16 \<Rightarrow> find_linear (at_n16 a ! i) b
      | ArtN48 \<Rightarrow> find_in_n48 (at_n48 a ! i) b
      | ArtN256 \<Rightarrow> find_in_n256 (at_n256 a ! i) b)"

definition art_pick_terminal :: "art_header \<Rightarrow> nat \<Rightarrow> u16" where
  "art_pick_terminal h slot =
     (if slot \<noteq> 0 \<and> ah_route h ! slot \<noteq> kInvalidRoute then ah_route h ! slot else ah_route h ! 0)"

section \<open>Allocation\<close>

definition alloc_n4 :: "art_trie \<Rightarrow> u16 \<times> art_trie" where
  "alloc_n4 a = (if length (at_n4 a) \<ge> kMaxN4 then (kArtInvalidChildRef, a)
     else (art_pack ArtN4 (of_nat (length (at_n4 a))), a\<lparr>at_n4 := at_n4 a @ [new_n4]\<rparr>))"

definition alloc_n16 :: "art_trie \<Rightarrow> u16 \<times> art_trie" where
  "alloc_n16 a = (if length (at_n16 a) \<ge> kMaxN16 then (kArtInvalidChildRef, a)
     else (art_pack ArtN16 (of_nat (length (at_n16 a))), a\<lparr>at_n16 := at_n16 a @ [new_n16], at_uniform := False\<rparr>))"

definition alloc_n48 :: "art_trie \<Rightarrow> u16 \<times> art_trie" where
  "alloc_n48 a = (if length (at_n48 a) \<ge> kMaxN48 then (kArtInvalidChildRef, a)
     else (art_pack ArtN48 (of_nat (length (at_n48 a))), a\<lparr>at_n48 := at_n48 a @ [new_n48], at_uniform := False\<rparr>))"

definition alloc_n256 :: "art_trie \<Rightarrow> u16 \<times> art_trie" where
  "alloc_n256 a = (if length (at_n256 a) \<ge> kMaxN256 then (kArtInvalidChildRef, a)
     else (art_pack ArtN256 (of_nat (length (at_n256 a))), a\<lparr>at_n256 := at_n256 a @ [new_n256], at_uniform := False\<rparr>))"

section \<open>Adding a child\<close>

definition append_linear :: "u8 \<Rightarrow> u16 \<Rightarrow> art_linear \<Rightarrow> art_linear" where
  "append_linear b child n =
     n\<lparr>al_keys := (al_keys n)[al_count n := b], al_children := (al_children n)[al_count n := child], al_count := al_count n + 1\<rparr>"

definition upgrade_n4 :: "u8 \<Rightarrow> u16 \<Rightarrow> art_linear \<Rightarrow> art_linear" where
  "upgrade_n4 b child n =
     \<lparr>al_hdr = al_hdr n, al_keys = take 4 (al_keys n) @ b # drop 5 (al_keys new_n16),
      al_children = take 4 (al_children n) @ child # drop 5 (al_children new_n16), al_count = 5\<rparr>"

definition upgrade_n16 :: "u8 \<Rightarrow> u16 \<Rightarrow> art_linear \<Rightarrow> art_node48" where
  "upgrade_n16 b child n =
     \<lparr>a48_hdr = al_hdr n,
      a48_index = (fold (\<lambda>k ix. ix[unat (al_keys n ! k) := of_nat (k + 1)]) [0..<16] (a48_index new_n48))[unat b := 17],
      a48_children = take 16 (al_children n) @ child # drop 17 (a48_children new_n48), a48_count = 17\<rparr>"

definition append_n48 :: "u8 \<Rightarrow> u16 \<Rightarrow> art_node48 \<Rightarrow> art_node48" where
  "append_n48 b child n =
     n\<lparr>a48_children := (a48_children n)[a48_count n := child],
       a48_index := (a48_index n)[unat b := of_nat (a48_count n + 1)], a48_count := a48_count n + 1\<rparr>"

definition upgrade_n48 :: "u8 \<Rightarrow> u16 \<Rightarrow> art_node48 \<Rightarrow> art_node256" where
  "upgrade_n48 b child n =
     \<lparr>a256_hdr = a48_hdr n,
      a256_children = (map (\<lambda>byte. let slot1 = a48_index n ! byte in
         if slot1 \<noteq> 0 then a48_children n ! (unat slot1 - 1) else a256_children new_n256 ! byte) [0..<256])[unat b := child],
      a256_count = 49\<rparr>"

definition append_n256 :: "u8 \<Rightarrow> u16 \<Rightarrow> art_node256 \<Rightarrow> art_node256" where
  "append_n256 b child n = n\<lparr>a256_children := (a256_children n)[unat b := child], a256_count := a256_count n + 1\<rparr>"

definition art_add_child :: "art_trie \<Rightarrow> u16 \<Rightarrow> u8 \<Rightarrow> u16 \<Rightarrow> u16 \<times> art_trie" where
  "art_add_child a parent b child =
     (let pi = art_idx parent in
      case art_type parent of
        ArtN4 \<Rightarrow>
          (let n = at_n4 a ! pi in
           if al_count n < 4 then (parent, a\<lparr>at_n4 := (at_n4 a)[pi := append_linear b child n]\<rparr>)
           else let (new_ref, a1) = alloc_n16 a in
             if new_ref = kArtInvalidChildRef then (kArtInvalidChildRef, a1)
             else (new_ref, a1\<lparr>at_n16 := (at_n16 a1)[art_idx new_ref := upgrade_n4 b child n]\<rparr>))
      | ArtN16 \<Rightarrow>
          (let n = at_n16 a ! pi in
           if al_count n < 16 then (parent, a\<lparr>at_n16 := (at_n16 a)[pi := append_linear b child n]\<rparr>)
           else let (new_ref, a1) = alloc_n48 a in
             if new_ref = kArtInvalidChildRef then (kArtInvalidChildRef, a1)
             else (new_ref, a1\<lparr>at_n48 := (at_n48 a1)[art_idx new_ref := upgrade_n16 b child n]\<rparr>))
      | ArtN48 \<Rightarrow>
          (let n = at_n48 a ! pi in
           if a48_count n < 48 then (parent, a\<lparr>at_n48 := (at_n48 a)[pi := append_n48 b child n]\<rparr>)
           else let (new_ref, a1) = alloc_n256 a in
             if new_ref = kArtInvalidChildRef then (kArtInvalidChildRef, a1)
             else (new_ref, a1\<lparr>at_n256 := (at_n256 a1)[art_idx new_ref := upgrade_n48 b child n]\<rparr>))
      | ArtN256 \<Rightarrow> (parent, a\<lparr>at_n256 := (at_n256 a)[pi := append_n256 b child (at_n256 a ! pi)]\<rparr>))"

section \<open>Insertion\<close>

text \<open>A patch site: the place that holds the reference to the current node.\<close>

datatype patch_site = RootSite | Site4 nat nat | Site16 nat nat | Site48 nat nat | Site256 nat nat | NoSite

definition write_site :: "patch_site \<Rightarrow> u16 \<Rightarrow> art_trie \<Rightarrow> art_trie" where
  "write_site s r a =
     (case s of
        RootSite \<Rightarrow> a\<lparr>at_root := r\<rparr>
      | Site4 i j \<Rightarrow> a\<lparr>at_n4 := (at_n4 a)[i := (at_n4 a ! i)\<lparr>al_children := (al_children (at_n4 a ! i))[j := r]\<rparr>]\<rparr>
      | Site16 i j \<Rightarrow> a\<lparr>at_n16 := (at_n16 a)[i := (at_n16 a ! i)\<lparr>al_children := (al_children (at_n16 a ! i))[j := r]\<rparr>]\<rparr>
      | Site48 i j \<Rightarrow> a\<lparr>at_n48 := (at_n48 a)[i := (at_n48 a ! i)\<lparr>a48_children := (a48_children (at_n48 a ! i))[j := r]\<rparr>]\<rparr>
      | Site256 i j \<Rightarrow> a\<lparr>at_n256 := (at_n256 a)[i := (at_n256 a ! i)\<lparr>a256_children := (a256_children (at_n256 a ! i))[j := r]\<rparr>]\<rparr>
      | NoSite \<Rightarrow> a)"

definition child_site :: "art_trie \<Rightarrow> u16 \<Rightarrow> u8 \<Rightarrow> patch_site" where
  "child_site a cur b =
     (let ci = art_idx cur in
      case art_type cur of
        ArtN4 \<Rightarrow> (let n = at_n4 a ! ci in
          case find (\<lambda>j. al_keys n ! j = b) [0..<al_count n] of None \<Rightarrow> NoSite | Some j \<Rightarrow> Site4 ci j)
      | ArtN16 \<Rightarrow> (let n = at_n16 a ! ci in
          case find (\<lambda>j. al_keys n ! j = b) [0..<al_count n] of None \<Rightarrow> NoSite | Some j \<Rightarrow> Site16 ci j)
      | ArtN48 \<Rightarrow> Site48 ci (unat (a48_index (at_n48 a ! ci) ! unat b) - 1)
      | ArtN256 \<Rightarrow> Site256 ci (unat b))"

text \<open>The pairs of a node, in the order the split visits them.\<close>

definition art_pairs :: "art_trie \<Rightarrow> u16 \<Rightarrow> (u8 \<times> u16) list" where
  "art_pairs a ref =
     (let i = art_idx ref in
      case art_type ref of
        ArtN4 \<Rightarrow> (let n = at_n4 a ! i in map (\<lambda>j. (al_keys n ! j, al_children n ! j)) [0..<al_count n])
      | ArtN16 \<Rightarrow> (let n = at_n16 a ! i in map (\<lambda>j. (al_keys n ! j, al_children n ! j)) [0..<al_count n])
      | ArtN48 \<Rightarrow> (let n = at_n48 a ! i in
          map (\<lambda>byte. (of_nat byte, a48_children n ! (unat (a48_index n ! byte) - 1))) (filter (\<lambda>byte. a48_index n ! byte \<noteq> 0) [0..<256]))
      | ArtN256 \<Rightarrow> (let n = at_n256 a ! i in
          map (\<lambda>byte. (of_nat byte, a256_children n ! byte)) (filter (\<lambda>byte. a256_children n ! byte \<noteq> kArtInvalidChildRef) [0..<256])))"

text \<open>\<open>None\<close> is a failed allocation.\<close>

fun add_children :: "(u8 \<times> u16) list \<Rightarrow> u16 \<Rightarrow> art_trie \<Rightarrow> (u16 \<times> art_trie) option" where
  "add_children [] tail_ref a = Some (tail_ref, a)"
| "add_children ((b, c) # ps) tail_ref a =
     (let (r, a') = art_add_child a tail_ref b c in
      if r = kArtInvalidChildRef then None else add_children ps r a')"

definition reset_node :: "u16 \<Rightarrow> bytes \<Rightarrow> art_trie \<Rightarrow> art_trie" where
  "reset_node ref e a =
     (let i = art_idx ref; h = new_header\<lparr>ah_edge := e\<rparr> in
      case art_type ref of
        ArtN4 \<Rightarrow> a\<lparr>at_n4 := (at_n4 a)[i := new_n4\<lparr>al_hdr := h\<rparr>]\<rparr>
      | ArtN16 \<Rightarrow> a\<lparr>at_n16 := (at_n16 a)[i := new_n16\<lparr>al_hdr := h\<rparr>]\<rparr>
      | ArtN48 \<Rightarrow> a\<lparr>at_n48 := (at_n48 a)[i := new_n48\<lparr>a48_hdr := h\<rparr>]\<rparr>
      | ArtN256 \<Rightarrow> a\<lparr>at_n256 := (at_n256 a)[i := new_n256\<lparr>a256_hdr := h\<rparr>]\<rparr>)"

definition common_len :: "bytes \<Rightarrow> bytes \<Rightarrow> nat" where
  "common_len e p = length (takeWhile (\<lambda>(x, y). x = y) (zip e p))"

text \<open>The split of the edge of \<open>child\<close> at \<open>k\<close>; \<open>None\<close> is a failed allocation.\<close>

definition art_split :: "u16 \<Rightarrow> nat \<Rightarrow> patch_site \<Rightarrow> art_trie \<Rightarrow> (u16 \<times> art_trie) option" where
  "art_split child k site a =
     (let e = ah_edge (art_header_of a child);
          (tail, a1) = alloc_n4 a
      in if tail = kArtInvalidChildRef then None
         else
           let a2 = set_header tail \<lparr>ah_edge = drop k e, ah_route = ah_route (art_header_of a child)\<rparr> a1
           in case add_children (art_pairs a2 child) tail a2 of
                None \<Rightarrow> None
              | Some (tail_ref, a3) \<Rightarrow>
                  let a4 = reset_node child (take k e) a3;
                      (new_child_ref, a5) = art_add_child a4 child (e ! k) tail_ref
                  in if new_child_ref = kArtInvalidChildRef then None
                     else Some (new_child_ref, if new_child_ref \<noteq> child then write_site site new_child_ref a5 else a5))"

text \<open>The descent.  \<open>Inl\<close> is the failure that rolls back; a null result is a loop that does not end.\<close>

partial_function (option) art_insert_loop ::
  "bytes \<Rightarrow> art_trie \<Rightarrow> u16 \<Rightarrow> patch_site \<Rightarrow> nat \<Rightarrow> (unit + art_trie \<times> u16) option" where
  "art_insert_loop p a cur site i =
     (if i < length p then
        let b = p ! i; child = art_find_child a cur b in
        if child = kArtInvalidChildRef then
          let (leaf, a1) = alloc_n4 a in
          if leaf = kArtInvalidChildRef then Some (Inl ())
          else
            let a2 = set_header leaf ((art_header_of a1 leaf)\<lparr>ah_edge := drop i p\<rparr>) a1;
                (new_parent, a3) = art_add_child a2 cur b leaf
            in if new_parent = kArtInvalidChildRef then Some (Inl ())
               else Some (Inr (if new_parent \<noteq> cur then write_site site new_parent a3 else a3, leaf))
        else
          let e = ah_edge (art_header_of a child); k = common_len e (drop i p) in
          if k = length e then art_insert_loop p a child (child_site a cur b) (i + k)
          else case art_split child k site a of
            None \<Rightarrow> Some (Inl ())
          | Some (cur', a') \<Rightarrow> art_insert_loop p a' cur' site (i + k)
      else Some (Inr (a, cur)))"

definition art_insert :: "art_trie \<Rightarrow> bytes \<Rightarrow> u8 \<Rightarrow> u16 \<Rightarrow> (bool \<times> art_trie) option" where
  "art_insert a path method_char route_idx =
     (case route_method_slot method_char of
        None \<Rightarrow> Some (False, a)
      | Some slot \<Rightarrow>
          let (lo, n) = finalize_path_canonical path; p = take n (drop lo path) in
          case art_insert_loop p a (at_root a) RootSite 0 of
            None \<Rightarrow> None
          | Some (Inl _) \<Rightarrow> Some (False, a)
          | Some (Inr (a', cur)) \<Rightarrow>
              let h = art_header_of a' cur in
              if ah_route h ! slot = kInvalidRoute
              then Some (True, set_header cur (h\<lparr>ah_route := (ah_route h)[slot := route_idx]\<rparr>) a')
              else Some (True, a'))"

section \<open>Matching\<close>

text \<open>The loop over a pool of \<open>ArtNode4\<close> only, then the loop over all node types.\<close>

partial_function (option) art_match_n4 :: "art_trie \<Rightarrow> nat \<Rightarrow> bytes \<Rightarrow> nat \<Rightarrow> nat \<Rightarrow> u16 \<Rightarrow> u16 option" where
  "art_match_n4 a want_slot p cur_idx i best =
     (if i < length p then
        let child = find_linear (at_n4 a ! cur_idx) (p ! i) in
        if child = kArtInvalidChildRef then Some best
        else
          let h = al_hdr (at_n4 a ! art_idx child); e = ah_edge h in
          if i + length e > length p then Some best
          else if \<not> list_all (\<lambda>k. e ! k = p ! (i + k)) [0..<length e] then Some best
          else
            let cand = art_pick_terminal h want_slot
            in art_match_n4 a want_slot p (art_idx child) (i + length e) (if cand \<noteq> kInvalidRoute then cand else best)
      else Some best)"

partial_function (option) art_match_loop :: "art_trie \<Rightarrow> nat \<Rightarrow> bytes \<Rightarrow> u16 \<Rightarrow> nat \<Rightarrow> u16 \<Rightarrow> u16 option" where
  "art_match_loop a want_slot p cur i best =
     (if i < length p then
        let child = art_find_child a cur (p ! i) in
        if child = kArtInvalidChildRef then Some best
        else
          let h = art_header_of a child; e = ah_edge h in
          if i + length e > length p then Some best
          else if \<not> list_all (\<lambda>k. e ! k = p ! (i + k)) [0..<length e] then Some best
          else
            let cand = art_pick_terminal h want_slot
            in art_match_loop a want_slot p child (i + length e) (if cand \<noteq> kInvalidRoute then cand else best)
      else Some best)"

definition art_match_canonical_key :: "art_trie \<Rightarrow> bytes \<Rightarrow> u8 \<Rightarrow> u16 option" where
  "art_match_canonical_key a p method_key =
     (case route_method_slot_from_key method_key of
        None \<Rightarrow> Some kInvalidRoute
      | Some want_slot \<Rightarrow>
          if at_uniform a then
            let root = at_n4 a ! art_idx (at_root a)
            in art_match_n4 a want_slot p (art_idx (at_root a)) 0 (art_pick_terminal (al_hdr root) want_slot)
          else art_match_loop a want_slot p (at_root a) 0 (art_pick_terminal (art_header_of a (at_root a)) want_slot))"

definition art_match_canonical :: "art_trie \<Rightarrow> bytes \<Rightarrow> u8 \<Rightarrow> u16 option" where
  "art_match_canonical a p method_char =
     (let want_slot = (case route_method_slot method_char of None \<Rightarrow> 0xff | Some s \<Rightarrow> of_nat s) in
      art_match_canonical_key a p want_slot)"

definition art_match :: "art_trie \<Rightarrow> bytes \<Rightarrow> u8 \<Rightarrow> u16 option" where
  "art_match a path method_char =
     (if path = [] \<or> path ! 0 \<noteq> 0x2F then Some kInvalidRoute
      else let (lo, n) = canonicalize_request path in art_match_canonical a (take n (drop lo path)) method_char)"

end
