(* ===== verification/Route_Art_Nodes.thy ===== *)
theory Route_Art_Nodes
  imports Route_Art
begin

text \<open>
  The nodes of the adaptive radix tree one at a time: references determine a pool and an
  index, and every operation of the tree changes one node, whose keys and children are those of a finite map.
\<close>

section \<open>References\<close>

lemma art_idx_mod: "art_idx r = unat r mod 2 ^ 14"
proof -
  have "kArtIdxMask = mask 14" by (simp add: kArtIdxMask_def mask_eq_exp_minus_1)
  then have "r AND kArtIdxMask = take_bit 14 r" by (simp add: take_bit_eq_mask)
  then show ?thesis by (simp add: art_idx_def take_bit_eq_mod unat_mod)
qed

lemma unat_drop_bit14: "unat (drop_bit 14 (r :: u16)) = unat r div 2 ^ 14"
  by (simp add: drop_bit_eq_div unat_div)

lemma art_type_div: "art_type r = (case unat r div 2 ^ 14 of 0 \<Rightarrow> ArtN4 | Suc 0 \<Rightarrow> ArtN16 | Suc (Suc 0) \<Rightarrow> ArtN48 | _ \<Rightarrow> ArtN256)"
proof -
  have "(drop_bit 14 r = 0) = (unat r div 2 ^ 14 = 0)" "(drop_bit 14 r = 1) = (unat r div 2 ^ 14 = 1)"
    "(drop_bit 14 r = 2) = (unat r div 2 ^ 14 = 2)"
    unfolding unat_drop_bit14 [symmetric] by (simp_all add: word_unat_eq_iff)
  then show ?thesis by (auto simp: art_type_def Let_def split: nat.splits)
qed

lemma unat_art_pack: "i < 2 ^ 14 \<Longrightarrow> unat (art_pack t (of_nat i)) = unat (art_type_num t) * 2 ^ 14 + i"
proof -
  assume i: "i < 2 ^ 14"
  have m: "kArtIdxMask = mask 14" by (simp add: kArtIdxMask_def mask_eq_exp_minus_1)
  have iw: "unat (of_nat i AND kArtIdxMask :: u16) = i"
    using i by (simp add: m take_bit_eq_mask [symmetric] take_bit_eq_mod unat_mod unat_of_nat)
  have "push_bit 14 (art_type_num t) AND (of_nat i AND kArtIdxMask) = 0"
    by (rule bit_word_eqI) (auto simp: m bit_and_iff bit_push_bit_iff bit_mask_iff)
  from disjunctive_add_eq_or [OF this] have "art_pack t (of_nat i) = push_bit 14 (art_type_num t) + (of_nat i AND kArtIdxMask)"
    unfolding art_pack_def by (rule sym)
  moreover have "unat (push_bit 14 (art_type_num t)) = unat (art_type_num t) * 2 ^ 14"
    by (cases t) (simp_all add: art_type_num_def)
  moreover have "unat (art_type_num t) \<le> 3" by (cases t) (simp_all add: art_type_num_def)
  ultimately show ?thesis using iw i by (simp add: unat_plus_if')
qed

lemma art_pack_inv:
  assumes "i < 2 ^ 14"
  shows "art_type (art_pack t (of_nat i)) = t" "art_idx (art_pack t (of_nat i)) = i"
proof -
  have "unat (art_pack t (of_nat i)) div 2 ^ 14 = unat (art_type_num t)" using assms by (simp add: unat_art_pack)
  then show "art_type (art_pack t (of_nat i)) = t" by (cases t) (simp_all add: art_type_div art_type_num_def)
  show "art_idx (art_pack t (of_nat i)) = i" using assms by (simp add: unat_art_pack art_idx_mod)
qed

lemma art_type_cases:
  "unat r div 2 ^ 14 = (case art_type r of ArtN4 \<Rightarrow> 0 | ArtN16 \<Rightarrow> 1 | ArtN48 \<Rightarrow> 2 | ArtN256 \<Rightarrow> 3)"
proof -
  have "unat r div 2 ^ 14 < 4" using unsigned_less [of r, where 'a = nat] by auto
  then consider "unat r div 2 ^ 14 = 0" | "unat r div 2 ^ 14 = 1" | "unat r div 2 ^ 14 = 2" | "unat r div 2 ^ 14 = 3" by linarith
  then show ?thesis by cases (simp_all add: art_type_div numeral_2_eq_2 numeral_3_eq_3)
qed

lemma art_ref_eqI: "art_type r = art_type r' \<Longrightarrow> art_idx r = art_idx r' \<Longrightarrow> r = r'"
proof -
  assume t: "art_type r = art_type r'" and i: "art_idx r = art_idx r'"
  have "unat r div 2 ^ 14 = unat r' div 2 ^ 14" unfolding art_type_cases t ..
  with i have "unat r = unat r'" by (metis art_idx_mod div_mult_mod_eq)
  then show ?thesis by (simp add: word_unat_eq_iff)
qed

section \<open>One node\<close>

datatype art_node = Linear art_linear | Indexed art_node48 | Full art_node256

definition art_node :: "art_trie \<Rightarrow> u16 \<Rightarrow> art_node" where
  "art_node a r = (case art_type r of
     ArtN4 \<Rightarrow> Linear (at_n4 a ! art_idx r) | ArtN16 \<Rightarrow> Linear (at_n16 a ! art_idx r)
   | ArtN48 \<Rightarrow> Indexed (at_n48 a ! art_idx r) | ArtN256 \<Rightarrow> Full (at_n256 a ! art_idx r))"

definition art_valid :: "art_trie \<Rightarrow> u16 \<Rightarrow> bool" where
  "art_valid a r = (case art_type r of
     ArtN4 \<Rightarrow> art_idx r < length (at_n4 a) | ArtN16 \<Rightarrow> art_idx r < length (at_n16 a)
   | ArtN48 \<Rightarrow> art_idx r < length (at_n48 a) | ArtN256 \<Rightarrow> art_idx r < length (at_n256 a))"

definition node_hdr :: "art_node \<Rightarrow> art_header" where
  "node_hdr n = (case n of Linear l \<Rightarrow> al_hdr l | Indexed m \<Rightarrow> a48_hdr m | Full f \<Rightarrow> a256_hdr f)"

definition node_kid :: "art_node \<Rightarrow> u8 \<Rightarrow> u16" where
  "node_kid n b = (case n of Linear l \<Rightarrow> find_linear l b | Indexed m \<Rightarrow> find_in_n48 m b | Full f \<Rightarrow> find_in_n256 f b)"

lemma header_node: "art_header_of a r = node_hdr (art_node a r)"
  by (simp add: art_header_of_def art_node_def node_hdr_def split: art_node_type.split)

lemma find_child_node: "art_find_child a r b = node_kid (art_node a r) b"
  by (simp add: art_find_child_def art_node_def node_kid_def Let_def split: art_node_type.split)

definition lin_ok :: "nat \<Rightarrow> art_linear \<Rightarrow> bool" where
  "lin_ok sz n \<longleftrightarrow> length (al_keys n) = sz \<and> length (al_children n) = sz \<and> al_count n \<le> sz \<and>
     distinct (take (al_count n) (al_keys n)) \<and> (\<forall>j < al_count n. al_children n ! j \<noteq> kArtInvalidChildRef)"

definition idx_ok :: "art_node48 \<Rightarrow> bool" where
  "idx_ok n \<longleftrightarrow> length (a48_index n) = 256 \<and> length (a48_children n) = 48 \<and> a48_count n \<le> 48 \<and>
     (\<forall>b < 256. unat (a48_index n ! b) \<le> a48_count n) \<and>
     (\<forall>b < 256. \<forall>c < 256. a48_index n ! b \<noteq> 0 \<longrightarrow> a48_index n ! b = a48_index n ! c \<longrightarrow> b = c) \<and>
     (\<forall>j < a48_count n. a48_children n ! j \<noteq> kArtInvalidChildRef)"

text \<open>A node fits its type.\<close>

definition node_ok :: "art_node_type \<Rightarrow> art_node \<Rightarrow> bool" where
  "node_ok t n = (length (ah_route (node_hdr n)) = kRouteMethodSlots \<and>
     (case (t, n) of (ArtN4, Linear l) \<Rightarrow> lin_ok 4 l | (ArtN16, Linear l) \<Rightarrow> lin_ok 16 l
      | (ArtN48, Indexed m) \<Rightarrow> idx_ok m | (ArtN256, Full f) \<Rightarrow> length (a256_children f) = 256 | _ \<Rightarrow> False))"

definition set_node :: "u16 \<Rightarrow> art_node \<Rightarrow> art_trie \<Rightarrow> art_trie" where
  "set_node r n a = (case (art_type r, n) of
     (ArtN4, Linear l) \<Rightarrow> a\<lparr>at_n4 := (at_n4 a)[art_idx r := l]\<rparr>
   | (ArtN16, Linear l) \<Rightarrow> a\<lparr>at_n16 := (at_n16 a)[art_idx r := l]\<rparr>
   | (ArtN48, Indexed m) \<Rightarrow> a\<lparr>at_n48 := (at_n48 a)[art_idx r := m]\<rparr>
   | (ArtN256, Full f) \<Rightarrow> a\<lparr>at_n256 := (at_n256 a)[art_idx r := f]\<rparr>
   | _ \<Rightarrow> a)"

lemma set_node_valid [simp]: "art_valid (set_node r n a) r' = art_valid a r'"
  by (simp add: art_valid_def set_node_def split: art_node_type.split art_node.split prod.split)

lemma set_node_root [simp]: "at_root (set_node r n a) = at_root a" "at_uniform (set_node r n a) = at_uniform a"
  by (simp_all add: set_node_def split: art_node_type.split art_node.split)

lemma node_set:
  assumes "art_valid a r" "node_ok (art_type r) n"
  shows "art_node (set_node r n a) r' = (if r' = r then n else art_node a r')"
proof (cases "r' = r")
  case True
  with assms show ?thesis
    by (auto simp: art_node_def set_node_def art_valid_def node_ok_def split: art_node_type.splits art_node.splits)
next
  case False
  then have "art_type r' \<noteq> art_type r \<or> art_idx r' \<noteq> art_idx r" using art_ref_eqI by blast
  with False show ?thesis
    by (auto simp: art_node_def set_node_def split: art_node_type.splits art_node.splits)
qed

lemma set_header_node: "set_header r h a = set_node r (case art_node a r of
    Linear l \<Rightarrow> Linear (l\<lparr>al_hdr := h\<rparr>) | Indexed m \<Rightarrow> Indexed (m\<lparr>a48_hdr := h\<rparr>) | Full f \<Rightarrow> Full (f\<lparr>a256_hdr := h\<rparr>)) a"
  by (simp add: set_header_def set_node_def art_node_def Let_def split: art_node_type.split)

text \<open>The tree's storage is sound: the pools are within bounds and every node in them fits its type.\<close>

definition store_ok :: "art_trie \<Rightarrow> bool" where
  "store_ok a \<longleftrightarrow> length (at_n4 a) \<le> kMaxN4 \<and> length (at_n16 a) \<le> kMaxN16 \<and> length (at_n48 a) \<le> kMaxN48 \<and>
     length (at_n256 a) \<le> kMaxN256 \<and> (\<forall>r. art_valid a r \<longrightarrow> node_ok (art_type r) (art_node a r)) \<and>
     (at_uniform a \<longrightarrow> at_n16 a = [] \<and> at_n48 a = [] \<and> at_n256 a = [])"

lemma store_okD: "store_ok a \<Longrightarrow> art_valid a r \<Longrightarrow> node_ok (art_type r) (art_node a r)"
  by (simp add: store_ok_def)

lemma set_node_lengths [simp]: "length (at_n4 (set_node r n a)) = length (at_n4 a)" "length (at_n16 (set_node r n a)) = length (at_n16 a)"
  "length (at_n48 (set_node r n a)) = length (at_n48 a)" "length (at_n256 (set_node r n a)) = length (at_n256 a)"
  by (simp_all add: set_node_def split: art_node_type.split art_node.split)

lemma store_ok_set:
  assumes "store_ok a" "art_valid a r" "node_ok (art_type r) n"
  shows "store_ok (set_node r n a)"
proof -
  have "node_ok (art_type r') (art_node (set_node r n a) r')" if "art_valid a r'" for r'
    using store_okD [OF assms(1) that] assms(3) by (simp add: node_set [OF assms(2,3)])
  moreover have "at_uniform a \<longrightarrow> at_n16 (set_node r n a) = [] \<and> at_n48 (set_node r n a) = [] \<and> at_n256 (set_node r n a) = []"
    using assms(1) by (auto simp: store_ok_def set_node_def split: art_node_type.split art_node.split)
  ultimately show ?thesis using assms(1) by (simp add: store_ok_def)
qed

lemma invalid_not_valid: "store_ok a \<Longrightarrow> \<not> art_valid a kArtInvalidChildRef"
proof -
  assume s: "store_ok a"
  have "art_type kArtInvalidChildRef = ArtN256" "art_idx kArtInvalidChildRef = 16383" by (code_simp, simp add: art_idx_mod kArtInvalidChildRef_def)
  then show ?thesis using s by (simp add: store_ok_def art_valid_def kMaxN256_def)
qed

section \<open>Children of a node\<close>

lemma find_linear_at: "lin_ok sz n \<Longrightarrow> i < al_count n \<Longrightarrow> al_keys n ! i = b \<Longrightarrow> find_linear n b = al_children n ! i"
proof -
  assume ok: "lin_ok sz n" and i: "i < al_count n" "al_keys n ! i = b"
  have "find (\<lambda>i. al_keys n ! i = b) [0..<al_count n] = Some j \<Longrightarrow> j = i" for j
  proof -
    assume "find (\<lambda>i. al_keys n ! i = b) [0..<al_count n] = Some j"
    then have j: "j < al_count n" "al_keys n ! j = b" by (auto simp: find_Some_iff)
    then have "take (al_count n) (al_keys n) ! j = take (al_count n) (al_keys n) ! i" using i by simp
    moreover have "distinct (take (al_count n) (al_keys n))" "al_count n \<le> length (al_keys n)" using ok by (simp_all add: lin_ok_def)
    ultimately show "j = i" using i(1) j(1) nth_eq_iff_index_eq [of "take (al_count n) (al_keys n)" j i] by simp
  qed
  moreover have "find (\<lambda>i. al_keys n ! i = b) [0..<al_count n] \<noteq> None" using i by (auto simp: find_None_iff)
  ultimately show ?thesis by (auto simp: find_linear_def split: option.split)
qed

lemma find_linear_none: "(\<And>i. i < al_count n \<Longrightarrow> al_keys n ! i \<noteq> b) \<Longrightarrow> find_linear n b = kArtInvalidChildRef"
proof -
  assume "\<And>i. i < al_count n \<Longrightarrow> al_keys n ! i \<noteq> b"
  then have "find (\<lambda>i. al_keys n ! i = b) [0..<al_count n] = None" by (auto simp: find_None_iff)
  then show ?thesis by (simp add: find_linear_def)
qed

lemma find_linear_absent:
  assumes "lin_ok sz n" "find_linear n b = kArtInvalidChildRef" "i < al_count n"
  shows "al_keys n ! i \<noteq> b"
proof
  assume "al_keys n ! i = b"
  from find_linear_at [OF assms(1,3) this] assms(2) have "al_children n ! i = kArtInvalidChildRef" by simp
  with assms(1,3) show False unfolding lin_ok_def by blast
qed

lemma append_linear_ok:
  assumes ok: "lin_ok sz n" and room: "al_count n < sz" and new: "find_linear n b = kArtInvalidChildRef" and c: "child \<noteq> kArtInvalidChildRef"
  shows "lin_ok sz (append_linear b child n)"
    "find_linear (append_linear b child n) b' = (if b' = b then child else find_linear n b')"
proof -
  let ?n = "append_linear b child n" and ?c = "al_count n"
  have l: "length (al_keys n) = sz" "length (al_children n) = sz" using ok by (simp_all add: lin_ok_def)
  have t: "take (Suc ?c) ((al_keys n)[?c := b]) = take ?c (al_keys n) @ [b]"
    using l room by (simp add: take_Suc_conv_app_nth)
  have "b \<notin> set (take ?c (al_keys n))"
    using find_linear_absent [OF ok new] l(1) room by (auto simp: in_set_conv_nth)
  then show ok': "lin_ok sz ?n"
    using ok room c t by (auto simp: lin_ok_def append_linear_def nth_list_update less_Suc_eq)
  have k: "\<And>i. i < ?c \<Longrightarrow> al_keys ?n ! i = al_keys n ! i \<and> al_children ?n ! i = al_children n ! i"
    "al_keys ?n ! ?c = b" "al_children ?n ! ?c = child" "al_count ?n = Suc ?c" using l room by (simp_all add: append_linear_def)
  show "find_linear ?n b' = (if b' = b then child else find_linear n b')"
  proof (cases "b' = b")
    case True
    then show ?thesis using find_linear_at [OF ok', of ?c b] k by simp
  next
    case False
    show ?thesis
    proof (cases "\<exists>i < ?c. al_keys n ! i = b'")
      case True
      then obtain i where i: "i < ?c" "al_keys n ! i = b'" by blast
      then show ?thesis using find_linear_at [OF ok i] find_linear_at [OF ok', of i b'] k False by simp
    next
      case none: False
      have "find_linear n b' = kArtInvalidChildRef" using none by (intro find_linear_none) blast
      moreover have "find_linear ?n b' = kArtInvalidChildRef"
        by (rule find_linear_none) (use none k False in \<open>auto simp: less_Suc_eq\<close>)
      ultimately show ?thesis using False by simp
    qed
  qed
qed

lemma upgrade_n4_eq:
  assumes "lin_ok 4 n" "al_count n = 4"
  shows "upgrade_n4 b child n = append_linear b child
    \<lparr>al_hdr = al_hdr n, al_keys = al_keys n @ replicate 12 0, al_children = al_children n @ replicate 12 0, al_count = 4\<rparr>"
  using assms by (simp add: upgrade_n4_def append_linear_def lin_ok_def new_n16_def list_update_append numeral_eq_Suc)

lemma widen_ok:
  assumes "lin_ok 4 n" "al_count n = 4"
  shows "lin_ok 16 \<lparr>al_hdr = al_hdr n, al_keys = al_keys n @ replicate 12 0, al_children = al_children n @ replicate 12 0, al_count = 4\<rparr>"
    "find_linear \<lparr>al_hdr = al_hdr n, al_keys = al_keys n @ replicate 12 0, al_children = al_children n @ replicate 12 0, al_count = 4\<rparr> = find_linear n"
proof -
  have k: "length (al_keys n) = 4" "length (al_children n) = 4" using assms by (simp_all add: lin_ok_def)
  show "lin_ok 16 \<lparr>al_hdr = al_hdr n, al_keys = al_keys n @ replicate 12 0, al_children = al_children n @ replicate 12 0, al_count = 4\<rparr>"
    using assms k by (simp add: lin_ok_def nth_append)
  have f: "find (\<lambda>i. (al_keys n @ replicate 12 0) ! i = b) [0..<4] = find (\<lambda>i. al_keys n ! i = b) [0..<4]" for b
    using k by (intro find_cong) (simp_all add: nth_append)
  show "find_linear \<lparr>al_hdr = al_hdr n, al_keys = al_keys n @ replicate 12 0, al_children = al_children n @ replicate 12 0, al_count = 4\<rparr> = find_linear n"
  proof (rule ext)
    fix b
    show "find_linear \<lparr>al_hdr = al_hdr n, al_keys = al_keys n @ replicate 12 0, al_children = al_children n @ replicate 12 0, al_count = 4\<rparr> b = find_linear n b"
    proof (cases "find (\<lambda>i. al_keys n ! i = b) [0..<4]")
      case None
      with f assms(2) show ?thesis by (simp add: find_linear_def)
    next
      case (Some i)
      then have "i < 4" by (auto simp: find_Some_iff)
      with Some f assms(2) k show ?thesis by (simp add: find_linear_def nth_append)
    qed
  qed
qed

text \<open>The widest linear node becomes an indexed node.\<close>

lemma find_append: "find P (xs @ ys) = (case find P xs of None \<Rightarrow> find P ys | Some x \<Rightarrow> Some x)"
  by (induction xs) simp_all

lemma fold_index:
  fixes ks :: "u8 list"
  assumes "distinct (take m ks)" "m \<le> length ks" "m < 255"
  shows "length (fold (\<lambda>k ix. ix[unat (ks ! k) := of_nat (k + 1)]) [0..<m] (replicate 256 (0 :: u8))) = 256"
    "b < 256 \<Longrightarrow> fold (\<lambda>k ix. ix[unat (ks ! k) := of_nat (k + 1)]) [0..<m] (replicate 256 (0 :: u8)) ! b =
      (case find (\<lambda>k. unat (ks ! k) = b) [0..<m] of None \<Rightarrow> 0 | Some k \<Rightarrow> of_nat (k + 1))"
proof -
  have u: "unat (ks ! k) < 256" for k :: nat using unsigned_less [of "ks ! k", where 'a = nat] by simp
  show l: "length (fold (\<lambda>k ix. ix[unat (ks ! k) := of_nat (k + 1)]) [0..<m] (replicate 256 (0 :: u8))) = 256" for m
    by (induction m) simp_all
  show "b < 256 \<Longrightarrow> fold (\<lambda>k ix. ix[unat (ks ! k) := of_nat (k + 1)]) [0..<m] (replicate 256 (0 :: u8)) ! b =
      (case find (\<lambda>k. unat (ks ! k) = b) [0..<m] of None \<Rightarrow> 0 | Some k \<Rightarrow> of_nat (k + 1))"
    using assms
  proof (induction m)
    case (Suc m)
    have d: "distinct (take m ks)" "ks ! m \<notin> set (take m ks)" using Suc.prems(2,3) by (simp_all add: take_Suc_conv_app_nth)
    have IH: "fold (\<lambda>k ix. ix[unat (ks ! k) := of_nat (k + 1)]) [0..<m] (replicate 256 (0 :: u8)) ! b =
        (case find (\<lambda>k. unat (ks ! k) = b) [0..<m] of None \<Rightarrow> 0 | Some k \<Rightarrow> of_nat (k + 1))"
      using Suc.IH Suc.prems d by simp
    show ?case
    proof (cases "unat (ks ! m) = b")
      case True
      have "find (\<lambda>k. unat (ks ! k) = b) [0..<m] = None"
      proof -
        have "unat (ks ! k) \<noteq> b" if "k < m" for k
        proof
          assume "unat (ks ! k) = b"
          then have "ks ! k = ks ! m" using True by (simp add: word_unat_eq_iff)
          then show False using d(2) that Suc.prems(3) by (force simp: in_set_conv_nth)
        qed
        then show ?thesis by (auto simp: find_None_iff)
      qed
      then show ?thesis using True l [of m] u [of m] by (simp add: find_append)
    next
      case False
      then show ?thesis using IH by (simp add: find_append split: option.split)
    qed
  qed simp
qed

lemma upgrade_n16_ok:
  assumes ok: "lin_ok 16 n" and full: "al_count n = 16" and new: "find_linear n b = kArtInvalidChildRef" and c: "child \<noteq> kArtInvalidChildRef"
  shows "idx_ok (upgrade_n16 b child n)"
    "find_in_n48 (upgrade_n16 b child n) b' = (if b' = b then child else find_linear n b')"
proof -
  define F where "F = fold (\<lambda>k ix. ix[unat (al_keys n ! k) := of_nat (k + 1)]) [0..<16] (replicate 256 (0 :: u8))"
  let ?find = "\<lambda>x. find (\<lambda>k. unat (al_keys n ! k) = x) [0..<16]"
  have ks: "distinct (take 16 (al_keys n))" "16 \<le> length (al_keys n)" "length (al_children n) = 16"
    using ok full by (auto simp: lin_ok_def)
  note FF = fold_index [OF ks(1,2)]
  have Fl: "length F = 256" unfolding F_def by (rule FF(1)) simp
  have Fn: "x < 256 \<Longrightarrow> F ! x = (case ?find x of None \<Rightarrow> 0 | Some k \<Rightarrow> of_nat (k + 1))" for x unfolding F_def by (rule FF(2)) simp_all
  have ub: "unat b < 256" using unsigned_less [of b, where 'a = nat] by simp
  have I: "a48_index (upgrade_n16 b child n) = F[unat b := 17]" by (simp add: upgrade_n16_def new_n48_def F_def)
  have C: "a48_children (upgrade_n16 b child n) = al_children n @ child # replicate 31 0" "a48_count (upgrade_n16 b child n) = 17"
    using ks(3) by (simp_all add: upgrade_n16_def new_n48_def)
  have fk: "?find x = Some k \<Longrightarrow> k < 16 \<and> unat (al_keys n ! k) = x" for x k by (auto simp: find_Some_iff)
  have un: "k < 16 \<Longrightarrow> unat (1 + word_of_nat k :: u8) = k + 1" for k :: nat
    by (simp add: unat_word_ariths unat_of_nat)
  have val: "unat (F ! x) \<le> 16 \<and> (F ! x \<noteq> 0 \<longrightarrow> unat (al_keys n ! (unat (F ! x) - 1)) = x)" if "x < 256" for x
    using fk [of x] un by (cases "?find x") (auto simp: Fn [OF that])
  show "idx_ok (upgrade_n16 b child n)"
  proof -
    have le: "unat ((F[unat b := 17]) ! x) \<le> 17" if "x < 256" for x using val [OF that] Fl that by (cases "x = unat b") auto
    have inj: "x = y" if xy: "x < 256" "y < 256" "(F[unat b := 17]) ! x \<noteq> 0" "(F[unat b := 17]) ! x = (F[unat b := 17]) ! y" for x y
    proof (cases "x = unat b \<or> y = unat b")
      case True
      have "F ! z \<noteq> 17" if "z < 256" for z using val [OF that] by (auto simp: word_unat_eq_iff)
      with True xy Fl ub show ?thesis by (cases "x = unat b"; cases "y = unat b") auto
    next
      case False
      with xy have e: "F ! x = F ! y" "F ! x \<noteq> 0" by auto
      then have "unat (al_keys n ! (unat (F ! x) - 1)) = x" "unat (al_keys n ! (unat (F ! y) - 1)) = y"
        using val [OF xy(1)] val [OF xy(2)] by auto
      then show ?thesis unfolding e(1) by simp
    qed
    have ch: "(al_children n @ child # replicate 31 0) ! j \<noteq> kArtInvalidChildRef" if "j < 17" for j
      using that ok full c ks(3) by (auto simp: lin_ok_def nth_append nth_Cons')
    show ?thesis unfolding idx_ok_def I C using Fl ks(3) le inj ch by simp
  qed
  show "find_in_n48 (upgrade_n16 b child n) b' = (if b' = b then child else find_linear n b')"
  proof (cases "b' = b")
    case True
    then show ?thesis using Fl ub ks(3) by (simp add: find_in_n48_def I C nth_append)
  next
    case False
    then have nb: "unat b' \<noteq> unat b" by (simp add: word_unat_eq_iff)
    have ub': "unat b' < 256" using unsigned_less [of b', where 'a = nat] by simp
    have fe: "find (\<lambda>k. al_keys n ! k = b') [0..<16] = ?find (unat b')" by (intro find_cong) (simp_all add: word_unat_eq_iff)
    show ?thesis
    proof (cases "?find (unat b')")
      case None
      then show ?thesis using False nb Fl ub' full fe by (simp add: find_in_n48_def I Fn find_linear_def)
    next
      case (Some k)
      then have k: "k < 16" using fk by blast
      then have "1 + word_of_nat k \<noteq> (0 :: u8)" using un [OF k] by (metis add_is_0 unat_0 zero_neq_one)
      then show ?thesis using Some False nb Fl ub' full fe un [OF k] k ks(3)
        by (simp add: find_in_n48_def I C Fn find_linear_def nth_append)
    qed
  qed
qed

lemma append_n48_ok:
  assumes ok: "idx_ok n" and room: "a48_count n < 48" and new: "find_in_n48 n b = kArtInvalidChildRef" and c: "child \<noteq> kArtInvalidChildRef"
  shows "idx_ok (append_n48 b child n)"
    "find_in_n48 (append_n48 b child n) b' = (if b' = b then child else find_in_n48 n b')"
proof -
  let ?c = "a48_count n"
  define w where "w = (of_nat (a48_count n + 1) :: u8)"
  have l: "length (a48_index n) = 256" "length (a48_children n) = 48" using ok by (simp_all add: idx_ok_def)
  have le: "x < 256 \<Longrightarrow> unat (a48_index n ! x) \<le> ?c" for x using ok by (simp add: idx_ok_def)
  have w: "unat w = ?c + 1" using room unfolding w_def by (subst unat_of_nat) simp
  then have w0: "w \<noteq> 0" by (intro notI) simp
  have ub: "unat x < 256" for x :: u8 using unsigned_less [of x, where 'a = nat] by simp
  have nw: "a48_index n ! x \<noteq> w" if "x < 256" for x using le [OF that] w by auto
  have ci: "j < ?c \<Longrightarrow> a48_children n ! j \<noteq> kArtInvalidChildRef" for j using ok unfolding idx_ok_def by blast
  have inj: "x < 256 \<Longrightarrow> y < 256 \<Longrightarrow> a48_index n ! x \<noteq> 0 \<Longrightarrow> a48_index n ! x = a48_index n ! y \<Longrightarrow> x = y" for x y
    using ok unfolding idx_ok_def by blast
  have I: "a48_index (append_n48 b child n) = (a48_index n)[unat b := w]" "a48_children (append_n48 b child n) = (a48_children n)[?c := child]"
    "a48_count (append_n48 b child n) = ?c + 1" by (simp_all add: append_n48_def w_def)
  have nth: "(a48_index n)[unat b := w] ! x = (if x = unat b then w else a48_index n ! x)" if "x < 256" for x using l that by simp
  have le': "unat ((a48_index n)[unat b := w] ! x) \<le> ?c + 1" if "x < 256" for x
    using le [OF that] w by (simp add: nth [OF that])
  have inj': "x = y" if "x < 256" "y < 256" "(a48_index n)[unat b := w] ! x \<noteq> 0" "(a48_index n)[unat b := w] ! x = (a48_index n)[unat b := w] ! y" for x y
    using that(3,4) nw [OF that(1)] nw [OF that(2)] inj [OF that(1,2)] unfolding nth [OF that(1)] nth [OF that(2)]
    by (cases "x = unat b"; cases "y = unat b") simp_all
  have ci': "(a48_children n)[?c := child] ! j \<noteq> kArtInvalidChildRef" if "j < ?c + 1" for j
    using that ci c l room by (cases "j = ?c") auto
  show "idx_ok (append_n48 b child n)" unfolding idx_ok_def I using l room le' inj' ci' by simp
  show "find_in_n48 (append_n48 b child n) b' = (if b' = b then child else find_in_n48 n b')"
  proof (cases "b' = b")
    case True
    have "(a48_index n)[unat b := w] ! unat b' = w" using True nth [OF ub] by simp
    with w w0 True l room show ?thesis unfolding find_in_n48_def I Let_def by simp
  next
    case False
    then have "(a48_index n)[unat b := w] ! unat b' = a48_index n ! unat b'" using nth [OF ub, of b'] by (simp add: word_unat_eq_iff)
    moreover have "?c \<noteq> unat (a48_index n ! unat b') - 1" if "a48_index n ! unat b' \<noteq> 0"
    proof -
      have "0 < unat (a48_index n ! unat b')" using that by (simp add: unat_gt_0)
      with le [OF ub, of b'] show ?thesis by linarith
    qed
    ultimately show ?thesis using False unfolding find_in_n48_def I Let_def
      by (cases "a48_index n ! unat b' = 0") simp_all
  qed
qed

lemma upgrade_n48_ok:
  assumes ok: "idx_ok n" and new: "find_in_n48 n b = kArtInvalidChildRef"
  shows "length (a256_children (upgrade_n48 b child n)) = 256"
    "find_in_n256 (upgrade_n48 b child n) b' = (if b' = b then child else find_in_n48 n b')"
proof -
  have ub: "unat x < 256" for x :: u8 using unsigned_less [of x, where 'a = nat] by simp
  show "length (a256_children (upgrade_n48 b child n)) = 256" by (simp add: upgrade_n48_def)
  show "find_in_n256 (upgrade_n48 b child n) b' = (if b' = b then child else find_in_n48 n b')"
    using ub [of b] ub [of b']
    by (auto simp: find_in_n256_def find_in_n48_def upgrade_n48_def new_n256_def Let_def nth_list_update word_unat_eq_iff simp del: upt_Suc)
qed

lemma append_n256_ok:
  assumes "length (a256_children n) = 256"
  shows "length (a256_children (append_n256 b child n)) = 256"
    "find_in_n256 (append_n256 b child n) b' = (if b' = b then child else find_in_n256 n b')"
proof -
  have ub: "unat x < 256" for x :: u8 using unsigned_less [of x, where 'a = nat] by simp
  show "length (a256_children (append_n256 b child n)) = 256" using assms by (simp add: append_n256_def)
  show "find_in_n256 (append_n256 b child n) b' = (if b' = b then child else find_in_n256 n b')"
    using ub [of b] ub [of b'] assms by (auto simp: find_in_n256_def append_n256_def nth_list_update word_unat_eq_iff)
qed

section \<open>Operations on the store\<close>

text \<open>The nodes of \<open>a\<close> other than \<open>x\<close> are untouched in \<open>a'\<close>.\<close>

definition keeps :: "art_trie \<Rightarrow> art_trie \<Rightarrow> u16 set \<Rightarrow> bool" where
  "keeps a a' X \<longleftrightarrow> (\<forall>r. art_valid a r \<longrightarrow> art_valid a' r) \<and>
     (\<forall>r. art_valid a r \<longrightarrow> r \<notin> X \<longrightarrow> art_node a' r = art_node a r)"

lemma keepsD: "keeps a a' X \<Longrightarrow> art_valid a r \<Longrightarrow> art_valid a' r" "keeps a a' X \<Longrightarrow> art_valid a r \<Longrightarrow> r \<notin> X \<Longrightarrow> art_node a' r = art_node a r"
  unfolding keeps_def by blast+

lemma keeps_trans: "keeps a a' X \<Longrightarrow> keeps a' a'' Y \<Longrightarrow> (\<And>r. art_valid a r \<Longrightarrow> r \<in> X \<or> r \<in> Y \<Longrightarrow> r \<in> Z) \<Longrightarrow> keeps a a'' Z"
  unfolding keeps_def by metis

lemma keeps_set: "art_valid a r \<Longrightarrow> node_ok (art_type r) n \<Longrightarrow> keeps a (set_node r n a) {r}"
  by (simp add: keeps_def node_set)

text \<open>A fresh node: it was not there, it is there now with the content given, and nothing else changed.\<close>

definition fresh :: "art_trie \<Rightarrow> u16 \<Rightarrow> art_trie \<Rightarrow> art_node \<Rightarrow> bool" where
  "fresh a r a' n \<longleftrightarrow> \<not> art_valid a r \<and> art_valid a' r \<and> art_node a' r = n \<and> keeps a a' {} \<and> store_ok a' \<and> at_root a' = at_root a \<and>
     r \<noteq> kArtInvalidChildRef"

lemma new_nodes_ok:
  "node_ok ArtN4 (Linear new_n4)" "node_ok ArtN16 (Linear new_n16)" "node_ok ArtN48 (Indexed new_n48)" "node_ok ArtN256 (Full new_n256)"
  by (simp_all add: node_ok_def node_hdr_def lin_ok_def idx_ok_def new_n4_def new_n16_def new_n48_def new_n256_def new_header_def)

lemma alloc_fresh:
  assumes ok: "store_ok a"
  shows "alloc_n4 a = (r, a') \<Longrightarrow> r \<noteq> kArtInvalidChildRef \<Longrightarrow> fresh a r a' (Linear new_n4) \<and> art_type r = ArtN4 \<and> at_uniform a' = at_uniform a"
    "alloc_n16 a = (r, a') \<Longrightarrow> r \<noteq> kArtInvalidChildRef \<Longrightarrow> fresh a r a' (Linear new_n16) \<and> art_type r = ArtN16"
    "alloc_n48 a = (r, a') \<Longrightarrow> r \<noteq> kArtInvalidChildRef \<Longrightarrow> fresh a r a' (Indexed new_n48) \<and> art_type r = ArtN48"
    "alloc_n256 a = (r, a') \<Longrightarrow> r \<noteq> kArtInvalidChildRef \<Longrightarrow> fresh a r a' (Full new_n256) \<and> art_type r = ArtN256"
proof -
  have b: "length (at_n4 a) \<le> 256" "length (at_n16 a) \<le> 64" "length (at_n48 a) \<le> 32" "length (at_n256 a) \<le> 8"
    using ok by (simp_all add: store_ok_def kMaxN4_def kMaxN16_def kMaxN48_def kMaxN256_def)
  have n: "\<And>r. art_valid a r \<Longrightarrow> node_ok (art_type r) (art_node a r)" using store_okD [OF ok] .
  have u: "at_uniform a \<Longrightarrow> at_n16 a = [] \<and> at_n48 a = [] \<and> at_n256 a = []" using ok by (simp add: store_ok_def)
  note d = fresh_def keeps_def store_ok_def art_valid_def art_node_def kMaxN4_def kMaxN16_def kMaxN48_def kMaxN256_def nth_append
  { assume e: "alloc_n4 a = (r, a')" "r \<noteq> kArtInvalidChildRef"
    then have l: "length (at_n4 a) < 256" and r: "r = art_pack ArtN4 (of_nat (length (at_n4 a)))" and a': "a' = a\<lparr>at_n4 := at_n4 a @ [new_n4]\<rparr>"
      by (auto simp: alloc_n4_def kMaxN4_def split: if_splits)
    have t: "art_type r = ArtN4" "art_idx r = length (at_n4 a)" using art_pack_inv [of "length (at_n4 a)" ArtN4] l by (simp_all add: r)
    have o: "node_ok (art_type x) (art_node a' x)" if "art_valid a' x" for x
      using that n [of x] new_nodes_ok(1) by (auto simp: a' art_valid_def art_node_def nth_append split: art_node_type.splits)
    show "fresh a r a' (Linear new_n4) \<and> art_type r = ArtN4 \<and> at_uniform a' = at_uniform a"
      unfolding fresh_def store_ok_def using t b l e(2) u o
      by (auto simp: a' keeps_def art_valid_def art_node_def nth_append kMaxN4_def kMaxN16_def kMaxN48_def kMaxN256_def split: art_node_type.splits) }
  { assume e: "alloc_n16 a = (r, a')" "r \<noteq> kArtInvalidChildRef"
    then have l: "length (at_n16 a) < 64" and r: "r = art_pack ArtN16 (of_nat (length (at_n16 a)))" and a': "a' = a\<lparr>at_n16 := at_n16 a @ [new_n16], at_uniform := False\<rparr>"
      by (auto simp: alloc_n16_def kMaxN16_def split: if_splits)
    have t: "art_type r = ArtN16" "art_idx r = length (at_n16 a)" using art_pack_inv [of "length (at_n16 a)" ArtN16] l by (simp_all add: r)
    have o: "node_ok (art_type x) (art_node a' x)" if "art_valid a' x" for x
      using that n [of x] new_nodes_ok(2) by (auto simp: a' art_valid_def art_node_def nth_append split: art_node_type.splits)
    show "fresh a r a' (Linear new_n16) \<and> art_type r = ArtN16"
      unfolding fresh_def store_ok_def using t b l e(2) o
      by (auto simp: a' keeps_def art_valid_def art_node_def nth_append kMaxN4_def kMaxN16_def kMaxN48_def kMaxN256_def split: art_node_type.splits) }
  { assume e: "alloc_n48 a = (r, a')" "r \<noteq> kArtInvalidChildRef"
    then have l: "length (at_n48 a) < 32" and r: "r = art_pack ArtN48 (of_nat (length (at_n48 a)))" and a': "a' = a\<lparr>at_n48 := at_n48 a @ [new_n48], at_uniform := False\<rparr>"
      by (auto simp: alloc_n48_def kMaxN48_def split: if_splits)
    have t: "art_type r = ArtN48" "art_idx r = length (at_n48 a)" using art_pack_inv [of "length (at_n48 a)" ArtN48] l by (simp_all add: r)
    have o: "node_ok (art_type x) (art_node a' x)" if "art_valid a' x" for x
      using that n [of x] new_nodes_ok(3) by (auto simp: a' art_valid_def art_node_def nth_append split: art_node_type.splits)
    show "fresh a r a' (Indexed new_n48) \<and> art_type r = ArtN48"
      unfolding fresh_def store_ok_def using t b l e(2) o
      by (auto simp: a' keeps_def art_valid_def art_node_def nth_append kMaxN4_def kMaxN16_def kMaxN48_def kMaxN256_def split: art_node_type.splits) }
  { assume e: "alloc_n256 a = (r, a')" "r \<noteq> kArtInvalidChildRef"
    then have l: "length (at_n256 a) < 8" and r: "r = art_pack ArtN256 (of_nat (length (at_n256 a)))" and a': "a' = a\<lparr>at_n256 := at_n256 a @ [new_n256], at_uniform := False\<rparr>"
      by (auto simp: alloc_n256_def kMaxN256_def split: if_splits)
    have t: "art_type r = ArtN256" "art_idx r = length (at_n256 a)" using art_pack_inv [of "length (at_n256 a)" ArtN256] l by (simp_all add: r)
    have o: "node_ok (art_type x) (art_node a' x)" if "art_valid a' x" for x
      using that n [of x] new_nodes_ok(4) by (auto simp: a' art_valid_def art_node_def nth_append split: art_node_type.splits)
    show "fresh a r a' (Full new_n256) \<and> art_type r = ArtN256"
      unfolding fresh_def store_ok_def using t b l e(2) o
      by (auto simp: a' keeps_def art_valid_def art_node_def nth_append kMaxN4_def kMaxN16_def kMaxN48_def kMaxN256_def split: art_node_type.splits) }
qed

definition has_room :: "art_node_type \<Rightarrow> art_node \<Rightarrow> bool" where
  "has_room t n = (case (t, n) of (ArtN4, Linear l) \<Rightarrow> al_count l < 4 | (ArtN16, Linear l) \<Rightarrow> al_count l < 16
     | (ArtN48, Indexed m) \<Rightarrow> a48_count m < 48 | _ \<Rightarrow> True)"

definition node_append :: "u8 \<Rightarrow> u16 \<Rightarrow> art_node \<Rightarrow> art_node" where
  "node_append b c n = (case n of Linear l \<Rightarrow> Linear (append_linear b c l) | Indexed m \<Rightarrow> Indexed (append_n48 b c m)
     | Full f \<Rightarrow> Full (append_n256 b c f))"

lemma node_append_ok:
  assumes "node_ok t n" "has_room t n" "node_kid n b = kArtInvalidChildRef" "c \<noteq> kArtInvalidChildRef"
  shows "node_ok t (node_append b c n)" "node_hdr (node_append b c n) = node_hdr n" "node_kid (node_append b c n) = (node_kid n)(b := c)"
proof -
  have "node_ok t (node_append b c n) \<and> node_hdr (node_append b c n) = node_hdr n \<and> node_kid (node_append b c n) = (node_kid n)(b := c)"
  proof (cases n)
    case (Linear l)
    then obtain sz where sz: "lin_ok sz l" "al_count l < sz" "t = ArtN4 \<and> sz = 4 \<or> t = ArtN16 \<and> sz = 16"
      using assms(1,2) by (auto simp: node_ok_def has_room_def split: art_node_type.splits)
    note a = append_linear_ok [OF sz(1,2) _ assms(4), of b]
    have nb: "find_linear l b = kArtInvalidChildRef" using assms(3) Linear by (simp add: node_kid_def)
    have h: "al_hdr (append_linear b c l) = al_hdr l" by (simp add: append_linear_def)
    show ?thesis using a(1) [OF nb] a(2) [OF nb] sz(3) assms(1) h
      by (auto simp: Linear node_append_def node_ok_def node_hdr_def node_kid_def fun_eq_iff)
  next
    case (Indexed m)
    then have m: "idx_ok m" "a48_count m < 48" "t = ArtN48"
      using assms(1,2) by (auto simp: node_ok_def has_room_def split: art_node_type.splits)
    have nb: "find_in_n48 m b = kArtInvalidChildRef" using assms(3) Indexed by (simp add: node_kid_def)
    note a = append_n48_ok [OF m(1,2) nb assms(4)]
    have h: "a48_hdr (append_n48 b c m) = a48_hdr m" by (simp add: append_n48_def)
    show ?thesis using a m(3) assms(1) h by (auto simp: Indexed node_append_def node_ok_def node_hdr_def node_kid_def fun_eq_iff)
  next
    case (Full f)
    then have f: "length (a256_children f) = 256" "t = ArtN256"
      using assms(1) by (auto simp: node_ok_def split: art_node_type.splits)
    have h: "a256_hdr (append_n256 b c f) = a256_hdr f" by (simp add: append_n256_def)
    show ?thesis using append_n256_ok [OF f(1)] f(2) assms(1) h
      by (auto simp: Full node_append_def node_ok_def node_hdr_def node_kid_def fun_eq_iff)
  qed
  then show "node_ok t (node_append b c n)" "node_hdr (node_append b c n) = node_hdr n" "node_kid (node_append b c n) = (node_kid n)(b := c)"
    by blast+
qed

lemma add_child_room:
  assumes "node_ok (art_type p) (art_node a p)" "has_room (art_type p) (art_node a p)"
  shows "art_add_child a p b c = (p, set_node p (node_append b c (art_node a p)) a)"
  using assms by (auto simp: art_add_child_def has_room_def node_ok_def art_node_def node_append_def set_node_def Let_def split: art_node_type.splits)

text \<open>What an addition does, with or without an upgrade of the parent.\<close>

definition added :: "art_trie \<Rightarrow> u16 \<Rightarrow> u8 \<Rightarrow> u16 \<Rightarrow> u16 \<Rightarrow> art_trie \<Rightarrow> bool" where
  "added a p b c p' a' \<longleftrightarrow> store_ok a' \<and> art_valid a' p' \<and> p' \<noteq> kArtInvalidChildRef \<and>
     node_hdr (art_node a' p') = node_hdr (art_node a p) \<and> node_kid (art_node a' p') = (node_kid (art_node a p))(b := c) \<and>
     (p' = p \<or> \<not> art_valid a p') \<and> keeps a a' {p'} \<and> at_root a' = at_root a"

lemma added_room:
  assumes "store_ok a" "art_valid a p" "has_room (art_type p) (art_node a p)" "art_find_child a p b = kArtInvalidChildRef"
    "c \<noteq> kArtInvalidChildRef"
  shows "added a p b c p (set_node p (node_append b c (art_node a p)) a)"
proof -
  note ok = store_okD [OF assms(1,2)]
  note n = node_append_ok [OF ok assms(3) _ assms(5), of b]
  have k: "node_kid (art_node a p) b = kArtInvalidChildRef" using assms(4) by (simp add: find_child_node)
  have "p \<noteq> kArtInvalidChildRef" using invalid_not_valid [OF assms(1)] assms(2) by auto
  then show ?thesis
    using n [OF k] assms(2) store_ok_set [OF assms(1,2) n(1) [OF k]] keeps_set [OF assms(2) n(1) [OF k]]
    by (simp add: added_def node_set [OF assms(2) n(1) [OF k]])
qed

lemma added_upgrade:
  assumes f: "fresh a r a1 n0" and p: "art_valid a p" and ok: "node_ok (art_type r) n" and h: "node_hdr n = node_hdr (art_node a p)"
    and k: "node_kid n = (node_kid (art_node a p))(b := c)"
  shows "added a p b c r (set_node r n a1)"
proof -
  have v: "art_valid a1 r" "store_ok a1" "keeps a a1 {}" "\<not> art_valid a r" "r \<noteq> kArtInvalidChildRef" "at_root a1 = at_root a"
    using f by (simp_all add: fresh_def)
  have "keeps a (set_node r n a1) {r}" by (rule keeps_trans [OF v(3) keeps_set [OF v(1) ok]]) simp
  then show ?thesis using v store_ok_set [OF v(2,1) ok] h k by (simp add: added_def node_set [OF v(1) ok])
qed

lemma upgrade_hdr [simp]: "al_hdr (upgrade_n4 b c l) = al_hdr l" "a48_hdr (upgrade_n16 b c l) = al_hdr l" "a256_hdr (upgrade_n48 b c m) = a48_hdr m"
  by (simp_all add: upgrade_n4_def upgrade_n16_def upgrade_n48_def)

lemma add_child_added:
  assumes ok: "store_ok a" and p: "art_valid a p" and new: "art_find_child a p b = kArtInvalidChildRef" and c: "c \<noteq> kArtInvalidChildRef"
    and add: "art_add_child a p b c = (p', a')" "p' \<noteq> kArtInvalidChildRef"
  shows "added a p b c p' a'"
proof (cases "has_room (art_type p) (art_node a p)")
  case True
  then show ?thesis using added_room [OF ok p True new c] add_child_room [OF store_okD [OF ok p] True, of b c] add by simp
next
  case False
  note n = store_okD [OF ok p]
  have k: "node_kid (art_node a p) b = kArtInvalidChildRef" using new by (simp add: find_child_node)
  show ?thesis
  proof (cases "art_type p")
    case ArtN4
    let ?l = "at_n4 a ! art_idx p"
    have l: "art_node a p = Linear ?l" "lin_ok 4 ?l" "al_count ?l = 4" "length (ah_route (al_hdr ?l)) = kRouteMethodSlots"
      using n False ArtN4 by (auto simp: art_node_def node_ok_def node_hdr_def has_room_def lin_ok_def)
    have nb: "find_linear ?l b = kArtInvalidChildRef" using k l(1) by (simp add: node_kid_def)
    obtain a1 where al: "alloc_n16 a = (p', a1)" and a': "a' = a1\<lparr>at_n16 := (at_n16 a1)[art_idx p' := upgrade_n4 b c ?l]\<rparr>"
      using add False ArtN4 l by (auto simp: art_add_child_def Let_def has_room_def split: prod.splits if_splits)
    note fr = alloc_fresh(2) [OF ok al add(2)]
    let ?w = "\<lparr>al_hdr = al_hdr ?l, al_keys = al_keys ?l @ replicate 12 0, al_children = al_children ?l @ replicate 12 0, al_count = 4\<rparr>"
    have up: "lin_ok 16 (upgrade_n4 b c ?l)" "find_linear (upgrade_n4 b c ?l) = (find_linear ?l)(b := c)"
      using append_linear_ok [OF widen_ok(1) [OF l(2,3)] _ _ c, of b] widen_ok(2) [OF l(2,3)] nb
      by (simp_all add: upgrade_n4_eq [OF l(2,3)] fun_eq_iff)
    have "a' = set_node p' (Linear (upgrade_n4 b c ?l)) a1" using fr by (simp add: a' set_node_def)
    moreover have "added a p b c p' (set_node p' (Linear (upgrade_n4 b c ?l)) a1)"
      by (rule added_upgrade [OF conjunct1 [OF fr] p])
         (use fr up l in \<open>simp_all add: node_ok_def node_hdr_def node_kid_def fun_eq_iff\<close>)
    ultimately show ?thesis by simp
  next
    case ArtN16
    let ?l = "at_n16 a ! art_idx p"
    have l: "art_node a p = Linear ?l" "lin_ok 16 ?l" "al_count ?l = 16" "length (ah_route (al_hdr ?l)) = kRouteMethodSlots"
      using n False ArtN16 by (auto simp: art_node_def node_ok_def node_hdr_def has_room_def lin_ok_def)
    have nb: "find_linear ?l b = kArtInvalidChildRef" using k l(1) by (simp add: node_kid_def)
    obtain a1 where al: "alloc_n48 a = (p', a1)" and a': "a' = a1\<lparr>at_n48 := (at_n48 a1)[art_idx p' := upgrade_n16 b c ?l]\<rparr>"
      using add False ArtN16 l by (auto simp: art_add_child_def Let_def has_room_def split: prod.splits if_splits)
    note fr = alloc_fresh(3) [OF ok al add(2)] and up = upgrade_n16_ok [OF l(2,3) nb c]
    have "a' = set_node p' (Indexed (upgrade_n16 b c ?l)) a1" using fr by (simp add: a' set_node_def)
    moreover have "added a p b c p' (set_node p' (Indexed (upgrade_n16 b c ?l)) a1)"
      by (rule added_upgrade [OF conjunct1 [OF fr] p])
         (use fr up l in \<open>simp_all add: node_ok_def node_hdr_def node_kid_def fun_eq_iff\<close>)
    ultimately show ?thesis by simp
  next
    case ArtN48
    let ?l = "at_n48 a ! art_idx p"
    have l: "art_node a p = Indexed ?l" "idx_ok ?l" "length (ah_route (a48_hdr ?l)) = kRouteMethodSlots"
      using n False ArtN48 by (auto simp: art_node_def node_ok_def node_hdr_def)
    have nb: "find_in_n48 ?l b = kArtInvalidChildRef" using k l(1) by (simp add: node_kid_def)
    obtain a1 where al: "alloc_n256 a = (p', a1)" and a': "a' = a1\<lparr>at_n256 := (at_n256 a1)[art_idx p' := upgrade_n48 b c ?l]\<rparr>"
      using add False ArtN48 l by (auto simp: art_add_child_def Let_def has_room_def split: prod.splits if_splits)
    note fr = alloc_fresh(4) [OF ok al add(2)] and up = upgrade_n48_ok [OF l(2) nb]
    have "a' = set_node p' (Full (upgrade_n48 b c ?l)) a1" using fr by (simp add: a' set_node_def)
    moreover have "added a p b c p' (set_node p' (Full (upgrade_n48 b c ?l)) a1)"
      by (rule added_upgrade [OF conjunct1 [OF fr] p])
         (use fr up l in \<open>simp_all add: node_ok_def node_hdr_def node_kid_def fun_eq_iff\<close>)
    ultimately show ?thesis by simp
  next
    case ArtN256
    with False n show ?thesis by (auto simp: has_room_def node_ok_def split: art_node.splits)
  qed
qed

section \<open>Patch sites\<close>

lemma lin_put:
  assumes ok: "lin_ok sz l" and j: "j < al_count l" "al_keys l ! j = b" and r: "r \<noteq> kArtInvalidChildRef"
  shows "lin_ok sz (l\<lparr>al_children := (al_children l)[j := r]\<rparr>)"
    "find_linear (l\<lparr>al_children := (al_children l)[j := r]\<rparr>) = (find_linear l)(b := r)"
proof -
  let ?l = "l\<lparr>al_children := (al_children l)[j := r]\<rparr>"
  have len: "j < length (al_children l)" using ok j(1) by (simp add: lin_ok_def)
  show ok': "lin_ok sz ?l" using ok r len by (auto simp: lin_ok_def nth_list_update)
  show "find_linear ?l = (find_linear l)(b := r)"
  proof (rule ext)
    fix b'
    show "find_linear ?l b' = ((find_linear l)(b := r)) b'"
    proof (cases "\<exists>i < al_count l. al_keys l ! i = b'")
      case True
      then obtain i where i: "i < al_count l" "al_keys l ! i = b'" by blast
      have "find_linear l b' = al_children l ! i" "find_linear ?l b' = (al_children l)[j := r] ! i"
        using find_linear_at [OF ok i] find_linear_at [OF ok', of i b'] i by simp_all
      moreover have "b' = b \<Longrightarrow> i = j"
      proof -
        assume "b' = b"
        then have "take (al_count l) (al_keys l) ! i = take (al_count l) (al_keys l) ! j" using i j by simp
        moreover have "distinct (take (al_count l) (al_keys l))" "al_count l \<le> length (al_keys l)" using ok by (simp_all add: lin_ok_def)
        ultimately show "i = j" using i(1) j(1) nth_eq_iff_index_eq [of "take (al_count l) (al_keys l)" i j] by simp
      qed
      moreover have "i = j \<Longrightarrow> b' = b" using i(2) j(2) by simp
      ultimately show ?thesis using len by (cases "i = j"; cases "b' = b") auto
    next
      case False
      then have "find_linear l b' = kArtInvalidChildRef" "find_linear ?l b' = kArtInvalidChildRef"
        by (intro find_linear_none; auto)+
      moreover have "b' \<noteq> b" using False j by blast
      ultimately show ?thesis by simp
    qed
  qed
qed

lemma idx_put:
  assumes ok: "idx_ok m" and j: "a48_index m ! unat b \<noteq> 0" and r: "r \<noteq> kArtInvalidChildRef"
  shows "idx_ok (m\<lparr>a48_children := (a48_children m)[unat (a48_index m ! unat b) - 1 := r]\<rparr>)"
    "find_in_n48 (m\<lparr>a48_children := (a48_children m)[unat (a48_index m ! unat b) - 1 := r]\<rparr>) = (find_in_n48 m)(b := r)"
proof -
  have ub: "unat x < 256" for x :: u8 using unsigned_less [of x, where 'a = nat] by simp
  have l: "length (a48_children m) = 48" "a48_count m \<le> 48" using ok by (simp_all add: idx_ok_def)
  have le: "unat (a48_index m ! unat x) \<le> a48_count m" for x :: u8 using ok ub [of x] by (simp add: idx_ok_def)
  have pos: "0 < unat (a48_index m ! unat b)" using j by (simp add: unat_gt_0)
  have lt: "unat (a48_index m ! unat b) - 1 < 48" using le [of b] l(2) pos by linarith
  have ch: "i < a48_count m \<Longrightarrow> a48_children m ! i \<noteq> kArtInvalidChildRef" for i using ok unfolding idx_ok_def by blast
  have "(a48_children m)[unat (a48_index m ! unat b) - 1 := r] ! i \<noteq> kArtInvalidChildRef" if "i < a48_count m" for i
    using ch [OF that] r lt l by (cases "i = unat (a48_index m ! unat b) - 1") simp_all
  then show "idx_ok (m\<lparr>a48_children := (a48_children m)[unat (a48_index m ! unat b) - 1 := r]\<rparr>)"
    using ok by (simp add: idx_ok_def)
  have inj: "x = b" if "a48_index m ! unat x = a48_index m ! unat b" for x
    using ok that j ub [of x] ub [of b] unfolding idx_ok_def by (metis word_unat_eq_iff)
  show "find_in_n48 (m\<lparr>a48_children := (a48_children m)[unat (a48_index m ! unat b) - 1 := r]\<rparr>) = (find_in_n48 m)(b := r)"
  proof (rule ext)
    fix x
    show "find_in_n48 (m\<lparr>a48_children := (a48_children m)[unat (a48_index m ! unat b) - 1 := r]\<rparr>) x = ((find_in_n48 m)(b := r)) x"
    proof (cases "x = b")
      case True
      then show ?thesis using j lt l by (simp add: find_in_n48_def)
    next
      case False
      then have ne: "a48_index m ! unat x \<noteq> a48_index m ! unat b" using inj by blast
      have "unat (a48_index m ! unat b) - 1 \<noteq> unat (a48_index m ! unat x) - 1" if "a48_index m ! unat x \<noteq> 0"
      proof -
        have "0 < unat (a48_index m ! unat x)" using that by (simp add: unat_gt_0)
        moreover have "unat (a48_index m ! unat x) \<noteq> unat (a48_index m ! unat b)" using ne by (simp add: word_unat_eq_iff)
        ultimately show ?thesis using pos by linarith
      qed
      then show ?thesis using False by (cases "a48_index m ! unat x = 0") (simp_all add: find_in_n48_def Let_def)
    qed
  qed
qed

lemma write_child_site:
  assumes n: "art_node a' m = art_node a m" and ok: "store_ok a'" and v: "art_valid a' m"
    and b: "art_find_child a m b \<noteq> kArtInvalidChildRef" and r: "r \<noteq> kArtInvalidChildRef"
  shows "\<exists>n'. write_site (child_site a m b) r a' = set_node m n' a' \<and> node_ok (art_type m) n' \<and>
    node_hdr n' = node_hdr (art_node a' m) \<and> node_kid n' = (node_kid (art_node a' m))(b := r)"
proof -
  note nok = store_okD [OF ok v]
  have k: "node_kid (art_node a' m) b \<noteq> kArtInvalidChildRef" using b n by (simp add: find_child_node)
  have lin: "\<exists>j. find (\<lambda>j. al_keys l ! j = b) [0..<al_count l] = Some j \<and> j < al_count l \<and> al_keys l ! j = b"
    if "find_linear l b \<noteq> kArtInvalidChildRef" for l
    using that by (auto simp: find_linear_def find_Some_iff split: option.splits)
  show ?thesis
  proof (cases "art_type m")
    case ArtN4
    let ?l = "at_n4 a' ! art_idx m"
    have l: "art_node a' m = Linear ?l" "at_n4 a ! art_idx m = ?l" "lin_ok 4 ?l" "length (ah_route (al_hdr ?l)) = kRouteMethodSlots"
      using n nok ArtN4 by (simp_all add: art_node_def node_ok_def node_hdr_def)
    obtain j where j: "find (\<lambda>j. al_keys ?l ! j = b) [0..<al_count ?l] = Some j" "j < al_count ?l" "al_keys ?l ! j = b"
      using lin [of ?l] k l(1) by (auto simp: node_kid_def)
    show ?thesis
      by (rule exI [of _ "Linear (?l\<lparr>al_children := (al_children ?l)[j := r]\<rparr>)"])
         (use lin_put [OF l(3) j(2,3) r] l j(1) ArtN4 in \<open>simp add: child_site_def write_site_def set_node_def node_ok_def node_hdr_def node_kid_def fun_eq_iff Let_def\<close>)
  next
    case ArtN16
    let ?l = "at_n16 a' ! art_idx m"
    have l: "art_node a' m = Linear ?l" "at_n16 a ! art_idx m = ?l" "lin_ok 16 ?l" "length (ah_route (al_hdr ?l)) = kRouteMethodSlots"
      using n nok ArtN16 by (simp_all add: art_node_def node_ok_def node_hdr_def)
    obtain j where j: "find (\<lambda>j. al_keys ?l ! j = b) [0..<al_count ?l] = Some j" "j < al_count ?l" "al_keys ?l ! j = b"
      using lin [of ?l] k l(1) by (auto simp: node_kid_def)
    show ?thesis
      by (rule exI [of _ "Linear (?l\<lparr>al_children := (al_children ?l)[j := r]\<rparr>)"])
         (use lin_put [OF l(3) j(2,3) r] l j(1) ArtN16 in \<open>simp add: child_site_def write_site_def set_node_def node_ok_def node_hdr_def node_kid_def fun_eq_iff Let_def\<close>)
  next
    case ArtN48
    let ?l = "at_n48 a' ! art_idx m"
    have l: "art_node a' m = Indexed ?l" "at_n48 a ! art_idx m = ?l" "idx_ok ?l" "length (ah_route (a48_hdr ?l)) = kRouteMethodSlots"
      using n nok ArtN48 by (simp_all add: art_node_def node_ok_def node_hdr_def)
    have j: "a48_index ?l ! unat b \<noteq> 0" using k l(1) by (auto simp: node_kid_def find_in_n48_def)
    show ?thesis
      by (rule exI [of _ "Indexed (?l\<lparr>a48_children := (a48_children ?l)[unat (a48_index ?l ! unat b) - 1 := r]\<rparr>)"])
         (use idx_put [OF l(3) j r] l ArtN48 in \<open>simp add: child_site_def write_site_def set_node_def node_ok_def node_hdr_def node_kid_def fun_eq_iff Let_def\<close>)
  next
    case ArtN256
    let ?l = "at_n256 a' ! art_idx m"
    have l: "art_node a' m = Full ?l" "at_n256 a ! art_idx m = ?l" "length (a256_children ?l) = 256" "length (ah_route (a256_hdr ?l)) = kRouteMethodSlots"
      using n nok ArtN256 by (simp_all add: art_node_def node_ok_def node_hdr_def)
    have ub: "unat x < 256" for x :: u8 using unsigned_less [of x, where 'a = nat] by simp
    have "find_in_n256 (?l\<lparr>a256_children := (a256_children ?l)[unat b := r]\<rparr>) = (find_in_n256 ?l)(b := r)"
      using l(3) ub [of b] by (auto simp: find_in_n256_def fun_eq_iff nth_list_update word_unat_eq_iff)
    then show ?thesis
      by (intro exI [of _ "Full (?l\<lparr>a256_children := (a256_children ?l)[unat b := r]\<rparr>)"])
         (use l ArtN256 in \<open>simp add: child_site_def write_site_def set_node_def node_ok_def node_hdr_def node_kid_def fun_eq_iff Let_def\<close>)
  qed
qed

section \<open>Headers, resets and moves of children\<close>

definition node_with_hdr :: "art_header \<Rightarrow> art_node \<Rightarrow> art_node" where
  "node_with_hdr h n = (case n of Linear l \<Rightarrow> Linear (l\<lparr>al_hdr := h\<rparr>) | Indexed m \<Rightarrow> Indexed (m\<lparr>a48_hdr := h\<rparr>) | Full f \<Rightarrow> Full (f\<lparr>a256_hdr := h\<rparr>))"

lemma find_linear_with_hdr [simp]: "find_linear (l\<lparr>al_hdr := h\<rparr>) = find_linear l"
  by (rule ext) (simp add: find_linear_def split: option.split)

lemma find_in_n48_with_hdr [simp]: "find_in_n48 (m\<lparr>a48_hdr := h\<rparr>) = find_in_n48 m"
  by (rule ext) (simp add: find_in_n48_def Let_def)

lemma find_in_n256_with_hdr [simp]: "find_in_n256 (f\<lparr>a256_hdr := h\<rparr>) = find_in_n256 f"
  by (rule ext) (simp add: find_in_n256_def)

lemma node_hdr_with_hdr [simp]: "node_hdr (node_with_hdr h n) = h"
  by (cases n) (simp_all add: node_with_hdr_def node_hdr_def)

lemma node_kid_with_hdr [simp]: "node_kid (node_with_hdr h n) = node_kid n"
  by (cases n) (simp_all add: node_with_hdr_def node_kid_def fun_eq_iff)

lemma node_with_hdr_ok: "node_ok t n \<Longrightarrow> length (ah_route h) = kRouteMethodSlots \<Longrightarrow> node_ok t (node_with_hdr h n)"
  by (cases n; cases t) (simp_all add: node_with_hdr_def node_ok_def node_hdr_def lin_ok_def idx_ok_def)

lemma set_header_eq: "set_header r h a = set_node r (node_with_hdr h (art_node a r)) a"
  by (simp add: set_header_node node_with_hdr_def)

definition reset_to :: "art_node_type \<Rightarrow> bytes \<Rightarrow> art_node" where
  "reset_to t e = node_with_hdr (new_header\<lparr>ah_edge := e\<rparr>)
     (case t of ArtN4 \<Rightarrow> Linear new_n4 | ArtN16 \<Rightarrow> Linear new_n16 | ArtN48 \<Rightarrow> Indexed new_n48 | ArtN256 \<Rightarrow> Full new_n256)"

lemma reset_node_eq: "reset_node r e a = set_node r (reset_to (art_type r) e) a"
  by (cases "art_type r") (simp_all add: reset_node_def reset_to_def set_node_def node_with_hdr_def Let_def)

lemma reset_to_ok:
  "node_ok t (reset_to t e)" "node_hdr (reset_to t e) = new_header\<lparr>ah_edge := e\<rparr>" "node_kid (reset_to t e) = (\<lambda>_. kArtInvalidChildRef)"
  "has_room t (reset_to t e)" "has_room t (node_append b c (reset_to t e))"
proof -
  show "node_ok t (reset_to t e)" unfolding reset_to_def
    by (rule node_with_hdr_ok) (cases t; simp_all add: new_nodes_ok new_header_def)+
  show "node_hdr (reset_to t e) = new_header\<lparr>ah_edge := e\<rparr>" by (simp add: reset_to_def)
  have ub: "unat x < 256" for x :: u8 using unsigned_less [of x, where 'a = nat] by simp
  show "node_kid (reset_to t e) = (\<lambda>_. kArtInvalidChildRef)" unfolding reset_to_def node_kid_with_hdr
    by (cases t) (simp_all add: node_kid_def fun_eq_iff find_linear_def find_in_n48_def find_in_n256_def new_n4_def new_n16_def new_n48_def new_n256_def ub)
  show "has_room t (reset_to t e)" "has_room t (node_append b c (reset_to t e))"
    by (cases t; simp add: has_room_def reset_to_def node_with_hdr_def node_append_def new_n4_def new_n16_def new_n48_def append_linear_def append_n48_def)+
qed

lemma art_pairs_kid:
  assumes "node_ok (art_type r) (art_node a r)"
  shows "distinct (map fst (art_pairs a r))" "(b, c) \<in> set (art_pairs a r) \<longleftrightarrow> node_kid (art_node a r) b = c \<and> c \<noteq> kArtInvalidChildRef"
proof -
  have ub: "unat x < 256" for x :: u8 using unsigned_less [of x, where 'a = nat] by simp
  have lin: "distinct (map fst (map (\<lambda>j. (al_keys l ! j, al_children l ! j)) [0..<al_count l])) \<and>
      ((b, c) \<in> set (map (\<lambda>j. (al_keys l ! j, al_children l ! j)) [0..<al_count l]) \<longleftrightarrow> find_linear l b = c \<and> c \<noteq> kArtInvalidChildRef)"
    if ok: "lin_ok sz l" for l sz
  proof
    have "map fst (map (\<lambda>j. (al_keys l ! j, al_children l ! j)) [0..<al_count l]) = take (al_count l) (al_keys l)"
      using ok by (intro nth_equalityI) (simp_all add: lin_ok_def)
    then show "distinct (map fst (map (\<lambda>j. (al_keys l ! j, al_children l ! j)) [0..<al_count l]))" using ok by (simp only: lin_ok_def)
    show "(b, c) \<in> set (map (\<lambda>j. (al_keys l ! j, al_children l ! j)) [0..<al_count l]) \<longleftrightarrow> find_linear l b = c \<and> c \<noteq> kArtInvalidChildRef"
    proof
      assume "(b, c) \<in> set (map (\<lambda>j. (al_keys l ! j, al_children l ! j)) [0..<al_count l])"
      then obtain j where j: "j < al_count l" "al_keys l ! j = b" "al_children l ! j = c" by auto
      have "c \<noteq> kArtInvalidChildRef" using ok j unfolding lin_ok_def by blast
      with find_linear_at [OF ok j(1,2)] j(3) show "find_linear l b = c \<and> c \<noteq> kArtInvalidChildRef" by simp
    next
      assume f: "find_linear l b = c \<and> c \<noteq> kArtInvalidChildRef"
      then obtain j where j: "j < al_count l" "al_keys l ! j = b" using find_linear_none [of l b] by blast
      then have "al_children l ! j = c" using find_linear_at [OF ok j] f by simp
      with j show "(b, c) \<in> set (map (\<lambda>j. (al_keys l ! j, al_children l ! j)) [0..<al_count l])" by (force simp: image_iff)
    qed
  qed
  have byte: "byte < 256 \<Longrightarrow> unat (of_nat byte :: u8) = byte" for byte by (simp add: unat_of_nat)
  have dist: "distinct (map (\<lambda>byte. of_nat byte :: u8) (filter P [0..<256]))" for P
    unfolding distinct_map by (auto intro!: inj_onI dest: arg_cong [of _ _ unat] simp: byte)
  show "distinct (map fst (art_pairs a r))" "(b, c) \<in> set (art_pairs a r) \<longleftrightarrow> node_kid (art_node a r) b = c \<and> c \<noteq> kArtInvalidChildRef"
  proof -
    have "distinct (map fst (art_pairs a r)) \<and> ((b, c) \<in> set (art_pairs a r) \<longleftrightarrow> node_kid (art_node a r) b = c \<and> c \<noteq> kArtInvalidChildRef)"
    proof (cases "art_type r")
      case ArtN4
      then show ?thesis using lin [of 4] assms by (simp add: art_pairs_def art_node_def node_ok_def node_kid_def Let_def)
    next
      case ArtN16
      then show ?thesis using lin [of 16] assms by (simp add: art_pairs_def art_node_def node_ok_def node_kid_def Let_def)
    next
      case ArtN48
      let ?m = "at_n48 a ! art_idx r"
      have ok: "idx_ok ?m" using ArtN48 assms by (simp add: art_node_def node_ok_def)
      have ch: "a48_children ?m ! (unat (a48_index ?m ! x) - 1) \<noteq> kArtInvalidChildRef" if "x < 256" "a48_index ?m ! x \<noteq> 0" for x
      proof -
        have "0 < unat (a48_index ?m ! x)" "unat (a48_index ?m ! x) \<le> a48_count ?m" using ok that by (simp_all add: idx_ok_def unat_gt_0)
        then have "unat (a48_index ?m ! x) - 1 < a48_count ?m" by linarith
        then show ?thesis using ok unfolding idx_ok_def by blast
      qed
      have e: "art_pairs a r = map (\<lambda>byte. (of_nat byte, a48_children ?m ! (unat (a48_index ?m ! byte) - 1))) (filter (\<lambda>byte. a48_index ?m ! byte \<noteq> 0) [0..<256])"
        using ArtN48 by (simp add: art_pairs_def Let_def)
      have "(b, c) \<in> set (art_pairs a r) \<longleftrightarrow> a48_index ?m ! unat b \<noteq> 0 \<and> c = a48_children ?m ! (unat (a48_index ?m ! unat b) - 1)"
        unfolding e using ub [of b] byte by (auto simp: image_iff intro!: bexI [of _ "unat b"])
      moreover have "node_kid (art_node a r) b = find_in_n48 ?m b" using ArtN48 by (simp add: art_node_def node_kid_def)
      ultimately show ?thesis using dist ch [OF ub, of b] unfolding e by (auto simp: find_in_n48_def Let_def o_def)
    next
      case ArtN256
      let ?m = "at_n256 a ! art_idx r"
      have e: "art_pairs a r = map (\<lambda>byte. (of_nat byte, a256_children ?m ! byte)) (filter (\<lambda>byte. a256_children ?m ! byte \<noteq> kArtInvalidChildRef) [0..<256])"
        using ArtN256 by (simp add: art_pairs_def Let_def)
      have "(b, c) \<in> set (art_pairs a r) \<longleftrightarrow> c = a256_children ?m ! unat b \<and> c \<noteq> kArtInvalidChildRef"
        unfolding e using ub [of b] byte by (auto simp: image_iff intro!: bexI [of _ "unat b"])
      moreover have "node_kid (art_node a r) b = find_in_n256 ?m b" using ArtN256 by (simp add: art_node_def node_kid_def)
      ultimately show ?thesis using dist unfolding e by (auto simp: find_in_n256_def o_def)
    qed
    then show "distinct (map fst (art_pairs a r))" "(b, c) \<in> set (art_pairs a r) \<longleftrightarrow> node_kid (art_node a r) b = c \<and> c \<noteq> kArtInvalidChildRef"
      by blast+
  qed
qed

text \<open>The children moved to the tail of a split.\<close>

lemma add_children_added:
  assumes "store_ok a" "art_valid a r" "distinct (map fst ps)" "\<And>b c. (b, c) \<in> set ps \<Longrightarrow> node_kid (art_node a r) b = kArtInvalidChildRef \<and> c \<noteq> kArtInvalidChildRef"
    "add_children ps r a = Some (r', a')"
  shows "store_ok a' \<and> art_valid a' r' \<and> node_hdr (art_node a' r') = node_hdr (art_node a r) \<and>
    (\<forall>b. node_kid (art_node a' r') b = (case map_of ps b of None \<Rightarrow> node_kid (art_node a r) b | Some c \<Rightarrow> c)) \<and>
    (r' = r \<or> \<not> art_valid a r') \<and> keeps a a' {r} \<and> at_root a' = at_root a"
  using assms
proof (induction ps arbitrary: r a)
  case Nil
  then show ?case by (simp add: keeps_def)
next
  case (Cons p ps)
  obtain b c where p: "p = (b, c)" by (cases p)
  obtain r1 a1 where add: "art_add_child a r b c = (r1, a1)" by fastforce
  have r1: "r1 \<noteq> kArtInvalidChildRef" and rest: "add_children ps r1 a1 = Some (r', a')"
    using Cons.prems(5) add by (auto simp: p split: if_splits)
  have b: "art_find_child a r b = kArtInvalidChildRef" "c \<noteq> kArtInvalidChildRef"
    using Cons.prems(4) [of b c] by (simp_all add: p find_child_node)
  note ad = add_child_added [OF Cons.prems(1,2) b add r1, unfolded added_def]
  have nb: "b \<notin> fst ` set ps" and dps: "distinct (map fst ps)" using Cons.prems(3) by (simp_all add: p)
  have kid: "node_kid (art_node a1 r1) b' = kArtInvalidChildRef \<and> c' \<noteq> kArtInvalidChildRef" if "(b', c') \<in> set ps" for b' c'
  proof -
    have "b' \<noteq> b" using nb that by force
    then show ?thesis using ad Cons.prems(4) [of b' c'] that by (simp add: p)
  qed
  note IH = Cons.IH [OF _ _ dps kid rest]
  have R: "store_ok a' \<and> art_valid a' r' \<and> node_hdr (art_node a' r') = node_hdr (art_node a1 r1) \<and>
    (\<forall>b. node_kid (art_node a' r') b = (case map_of ps b of None \<Rightarrow> node_kid (art_node a1 r1) b | Some c \<Rightarrow> c)) \<and>
    (r' = r1 \<or> \<not> art_valid a1 r') \<and> keeps a1 a' {r1} \<and> at_root a' = at_root a1" using IH ad by blast
  have "map_of ps b = None" using nb by (simp add: map_of_eq_None_iff)
  then have "node_kid (art_node a' r') x = (case map_of (p # ps) x of None \<Rightarrow> node_kid (art_node a r) x | Some c \<Rightarrow> c)" for x
    using R ad by (auto simp: p split: option.split)
  moreover have "keeps a a' {r}" by (rule keeps_trans [of a a1 "{r1}" a' "{r1}"]) (use R ad in auto)
  moreover have "r' = r \<or> \<not> art_valid a r'" using R ad keepsD(1) by blast
  ultimately show ?case using R ad by simp
qed

end
