(* ===== verification/Route_Art_Table.thy ===== *)
theory Route_Art_Table
  imports Route_Art_Nodes
begin

text \<open>
  The adaptive radix tree as a table of routes: the nodes reached from the root along their
  edges, the table of routes they hold, and the effect of adding a leaf on the paths.
\<close>

section \<open>Paths\<close>

abbreviation kid :: "art_trie \<Rightarrow> u16 \<Rightarrow> u8 \<Rightarrow> u16" where
  "kid a n \<equiv> node_kid (art_node a n)"

abbreviation edge :: "art_trie \<Rightarrow> u16 \<Rightarrow> bytes" where
  "edge a n \<equiv> ah_edge (node_hdr (art_node a n))"

abbreviation routes :: "art_trie \<Rightarrow> u16 \<Rightarrow> u16 list" where
  "routes a n \<equiv> ah_route (node_hdr (art_node a n))"

abbreviation none :: u16 where
  "none \<equiv> kArtInvalidChildRef"

function art_walk :: "art_trie \<Rightarrow> u16 \<Rightarrow> bytes \<Rightarrow> u16 option" where
  "art_walk a n [] = Some n"
| "art_walk a n (b # p) =
     (let c = kid a n b; e = edge a c in
      if c = none \<or> e = [] \<or> take (length e) (b # p) \<noteq> e then None else art_walk a c (drop (length e) (b # p)))"
  by pat_completeness auto
termination by (relation "measure (\<lambda>(a, n, p). length p)") (auto simp: Let_def neq_Nil_conv)

declare art_walk.simps(2) [simp del]

lemma art_walk_step:
  assumes "c = kid a n b" "c \<noteq> none" "edge a c \<noteq> []" "hd (edge a c) = b"
  shows "art_walk a n (edge a c @ q) = art_walk a c q"
proof -
  obtain e' where e: "edge a c = b # e'" using assms(3,4) by (cases "edge a c") auto
  show ?thesis unfolding e append_Cons
    by (subst art_walk.simps(2)) (use assms e in \<open>simp add: Let_def\<close>)
qed

lemma art_walk_Cons:
  assumes "art_walk a n (b # p) = Some m"
  obtains q where "kid a n b \<noteq> none" "edge a (kid a n b) \<noteq> []" "b # p = edge a (kid a n b) @ q" "art_walk a (kid a n b) q = Some m"
proof -
  let ?e = "edge a (kid a n b)"
  have *: "kid a n b \<noteq> none" "?e \<noteq> []" "take (length ?e) (b # p) = ?e" "art_walk a (kid a n b) (drop (length ?e) (b # p)) = Some m"
    using assms by (auto simp: art_walk.simps(2) Let_def split: if_splits)
  have "b # p = ?e @ drop (length ?e) (b # p)" using *(3) by (metis append_take_drop_id)
  with * that show thesis by blast
qed

lemma art_walk_append: "art_walk a n p = Some m \<Longrightarrow> art_walk a n (p @ q) = art_walk a m q"
proof (induction a n p rule: art_walk.induct)
  case (2 a n b p)
  then obtain p' where p': "kid a n b \<noteq> none" "edge a (kid a n b) \<noteq> []" "b # p = edge a (kid a n b) @ p'" "art_walk a (kid a n b) p' = Some m"
    by (elim art_walk_Cons)
  let ?e = "edge a (kid a n b)"
  have hd: "hd ?e = b" using p'(2,3) by (metis hd_append2 list.sel(1))
  have d: "drop (length ?e) (b # p) = p'" using p'(3) by simp
  have "art_walk a n ((b # p) @ q) = art_walk a n (?e @ p' @ q)" using p'(3) by simp
  also have "\<dots> = art_walk a (kid a n b) (p' @ q)" by (rule art_walk_step) (use p' hd in simp_all)
  also have "\<dots> = art_walk a m q" using 2(1) [OF refl refl] p' d by simp
  finally show ?case .
qed simp

text \<open>The tree: what the root reaches.\<close>

abbreviation reach :: "art_trie \<Rightarrow> bytes \<Rightarrow> u16 option" where
  "reach a p \<equiv> art_walk a (at_root a) p"

definition art_ok :: "art_trie \<Rightarrow> bool" where
  "art_ok a \<longleftrightarrow> store_ok a \<and> art_valid a (at_root a) \<and>
     (\<forall>p n b. reach a p = Some n \<longrightarrow> kid a n b \<noteq> none \<longrightarrow> art_valid a (kid a n b) \<and> edge a (kid a n b) \<noteq> [] \<and> hd (edge a (kid a n b)) = b) \<and>
     (\<forall>p q n. reach a p = Some n \<longrightarrow> reach a q = Some n \<longrightarrow> p = q)"

lemma art_okD:
  assumes "art_ok a"
  shows "store_ok a" "art_valid a (at_root a)" "reach a p = Some n \<Longrightarrow> reach a q = Some n \<Longrightarrow> p = q"
    "reach a p = Some n \<Longrightarrow> kid a n b \<noteq> none \<Longrightarrow> art_valid a (kid a n b)"
    "reach a p = Some n \<Longrightarrow> kid a n b \<noteq> none \<Longrightarrow> edge a (kid a n b) \<noteq> []"
    "reach a p = Some n \<Longrightarrow> kid a n b \<noteq> none \<Longrightarrow> hd (edge a (kid a n b)) = b"
  using assms unfolding art_ok_def by blast+

lemma reach_kid:
  assumes "art_ok a" "reach a p = Some n" "kid a n b \<noteq> none"
  shows "reach a (p @ edge a (kid a n b)) = Some (kid a n b)"
  using art_walk_append [OF assms(2), of "edge a (kid a n b)"] art_walk_step [of "kid a n b" a n b "[]"] art_okD(5,6) [OF assms] assms(3)
  by simp

text \<open>A node is the root or the child of a node.\<close>

lemma art_walk_last:
  "art_walk a n p = Some m \<Longrightarrow> p \<noteq> [] \<Longrightarrow> \<exists>p' k b. art_walk a n p' = Some k \<and> kid a k b = m \<and> m \<noteq> none \<and> p = p' @ edge a m"
proof (induction a n p rule: art_walk.induct)
  case (2 a n b p)
  from 2(2) obtain q where q: "kid a n b \<noteq> none" "edge a (kid a n b) \<noteq> []" "b # p = edge a (kid a n b) @ q" "art_walk a (kid a n b) q = Some m"
    by (elim art_walk_Cons)
  show ?case
  proof (cases "q = []")
    case True
    then have "m = kid a n b" "b # p = [] @ edge a (kid a n b)" using q by simp_all
    moreover have "art_walk a n [] = Some n" by simp
    ultimately show ?thesis using q(1) by blast
  next
    case False
    have d: "drop (length (edge a (kid a n b))) (b # p) = q" "take (length (edge a (kid a n b))) (b # p) = edge a (kid a n b)"
      using q(3) by simp_all
    obtain p' k b' where k: "art_walk a (kid a n b) p' = Some k" "kid a k b' = m" "m \<noteq> none" "q = p' @ edge a m"
      using 2(1) [OF refl refl] q(1,2,4) d False by auto
    have "hd (edge a (kid a n b)) = b" using q(2,3) by (metis hd_append2 list.sel(1))
    then have "art_walk a n (edge a (kid a n b) @ p') = Some k" using art_walk_step [OF refl q(1,2)] k(1) by simp
    moreover have "b # p = (edge a (kid a n b) @ p') @ edge a m" using q(3) k(4) by simp
    ultimately show ?thesis using k(2,3) by blast
  qed
qed simp

lemma reach_valid:
  assumes "art_ok a" "reach a p = Some n"
  shows "art_valid a n" "n \<noteq> none"
proof -
  show v: "art_valid a n"
  proof (cases "p = []")
    case True
    then show ?thesis using assms(2) art_okD(2) [OF assms(1)] by simp
  next
    case False
    then obtain p' k b where "reach a p' = Some k" "kid a k b = n" "n \<noteq> none" using art_walk_last [OF assms(2)] by blast
    then show ?thesis using art_okD(4) [OF assms(1)] by blast
  qed
  show "n \<noteq> none" using v invalid_not_valid [OF art_okD(1) [OF assms(1)]] by blast
qed

lemma kid_unique:
  assumes "art_ok a" "reach a p = Some n" "reach a q = Some m" "kid a n b = kid a m b'" "kid a n b \<noteq> none"
  shows "n = m" "b = b'"
proof -
  have "p @ edge a (kid a n b) = q @ edge a (kid a n b)"
    using reach_kid [OF assms(1,2,5)] reach_kid [OF assms(1,3)] assms(4,5) art_okD(3) [OF assms(1)] by metis
  then have "p = q" by simp
  then show "n = m" using assms(2,3) by simp
  show "b = b'" using art_okD(6) [OF assms(1,2,5)] art_okD(6) [OF assms(1,3)] assms(4,5) by metis
qed

lemma kid_not_root:
  assumes "art_ok a" "reach a p = Some n" "kid a n b \<noteq> none"
  shows "kid a n b \<noteq> at_root a"
proof
  assume "kid a n b = at_root a"
  then have "reach a (p @ edge a (kid a n b)) = Some (at_root a)" using reach_kid [OF assms] by simp
  moreover have "reach a [] = Some (at_root a)" by simp
  ultimately have "p @ edge a (kid a n b) = []" by (rule art_okD(3) [OF assms(1)])
  then show False using art_okD(5) [OF assms] by simp
qed

section \<open>A new leaf\<close>

text \<open>Where a path that leaves the tree below \<open>cur\<close> meets another path.\<close>

lemma path_split:
  assumes "art_ok a" "reach a pc = Some cur" "reach a pn = Some n" "pn @ q = pc @ rest" "q \<noteq> []"
    "\<And>z. z \<noteq> [] \<Longrightarrow> pn = pc @ z \<Longrightarrow> art_walk a cur z \<noteq> Some n"
  shows "(pn = pc \<and> n = cur \<and> q = rest) \<or> (\<exists>z. z \<noteq> [] \<and> pc = pn @ z \<and> q = z @ rest \<and> art_walk a n z = Some cur)"
proof -
  from assms(4) obtain z where "(pn = pc @ z \<and> z @ q = rest) \<or> (pn @ z = pc \<and> q = z @ rest)"
    unfolding append_eq_append_conv2 by blast
  then show ?thesis
  proof
    assume z: "pn = pc @ z \<and> z @ q = rest"
    show ?thesis
    proof (cases "z = []")
      case True
      with z assms(2,3) show ?thesis by simp
    next
      case False
      have "art_walk a cur z = Some n" using art_walk_append [OF assms(2), of z] assms(3) z by simp
      with assms(6) [OF False] z show ?thesis by blast
    qed
  next
    assume z: "pn @ z = pc \<and> q = z @ rest"
    show ?thesis
    proof (cases "z = []")
      case True
      with z assms(2,3) show ?thesis by simp
    next
      case False
      have "art_walk a n z = Some cur" using art_walk_append [OF assms(3), of z] assms(2) z by simp
      with False z show ?thesis by blast
    qed
  qed
qed

text \<open>
  The tree \<open>a'\<close> is the tree \<open>a\<close> with \<open>cur\<close> renamed to \<open>cur'\<close> and a leaf below it.
\<close>

definition leafed :: "art_trie \<Rightarrow> bytes \<Rightarrow> u16 \<Rightarrow> bytes \<Rightarrow> u16 \<Rightarrow> u16 \<Rightarrow> art_trie \<Rightarrow> bool" where
  "leafed a pc cur rest cur' leaf a' \<longleftrightarrow>
     (let f = \<lambda>n. if n = cur then cur' else n in
      store_ok a' \<and> reach a pc = Some cur \<and> rest \<noteq> [] \<and> kid a cur (hd rest) = none \<and> at_root a' = f (at_root a) \<and>
      (cur' = cur \<or> \<not> art_valid a cur') \<and> \<not> art_valid a leaf \<and> leaf \<noteq> cur' \<and> leaf \<noteq> none \<and> cur' \<noteq> none \<and> art_valid a' leaf \<and> edge a' leaf = rest \<and>
      routes a' leaf = replicate kRouteMethodSlots kInvalidRoute \<and> kid a' leaf = (\<lambda>_. none) \<and>
      (\<forall>p n. reach a p = Some n \<longrightarrow> art_valid a' (f n) \<and> node_hdr (art_node a' (f n)) = node_hdr (art_node a n) \<and>
         (\<forall>x. kid a' (f n) x = (if n = cur \<and> x = hd rest then leaf else f (kid a n x)))))"

lemma leafed_walk:
  assumes ok: "art_ok a" and L: "leafed a pc cur rest cur' leaf a'" and n: "reach a pn = Some n"
  shows "art_walk a' (if n = cur then cur' else n) q =
    (case art_walk a n q of Some m \<Rightarrow> Some (if m = cur then cur' else m) | None \<Rightarrow> if pn @ q = pc @ rest then Some leaf else None)"
  using n
proof (induction "length q" arbitrary: q n pn rule: less_induct)
  case less
  define f where "f = (\<lambda>n. if n = cur then cur' else n)"
  have L': "reach a pc = Some cur" "rest \<noteq> []" "kid a cur (hd rest) = none" "edge a' leaf = rest" "kid a' leaf = (\<lambda>_. none)" "leaf \<noteq> none"
    using L by (simp_all add: leafed_def Let_def)
  have cn: "cur \<noteq> none" by (rule reach_valid(2) [OF ok L'(1)])
  have N: "node_hdr (art_node a' (f m)) = node_hdr (art_node a m)" "kid a' (f m) x = (if m = cur \<and> x = hd rest then leaf else f (kid a m x))"
    if "reach a p = Some m" for p m x using L that unfolding leafed_def Let_def f_def by blast+
  have fn: "f x = none \<longleftrightarrow> x = none" for x using L cn by (auto simp: f_def leafed_def Let_def)
  have nolong: "art_walk a cur z \<noteq> Some m" if z: "z \<noteq> []" "pn @ q = pc @ rest" "pn = pc @ z" for z m
  proof -
    have "z @ q = rest" using z(2,3) by simp
    then obtain z' where "z = hd rest # z'" using z(1) by (cases z) auto
    with L'(3) show ?thesis by (simp add: art_walk.simps(2) Let_def)
  qed
  show ?case
  proof (cases q)
    case Nil
    then show ?thesis by simp
  next
    case (Cons x q')
    then have q: "q \<noteq> []" "hd q = x" by simp_all
    let ?c = "kid a n x"
    have split: "(pn = pc \<and> n = cur \<and> q = rest) \<or> (\<exists>z. z \<noteq> [] \<and> pc = pn @ z \<and> q = z @ rest \<and> art_walk a n z = Some cur)"
      if e: "pn @ q = pc @ rest"
      by (rule path_split [OF ok L'(1) less.prems e q(1)]) (use nolong e in blast)
    show ?thesis
    proof (cases "?c = none")
      case True
      then have w: "art_walk a n q = None" by (simp add: Cons art_walk.simps(2))
      show ?thesis
      proof (cases "n = cur \<and> x = hd rest")
        case at: True
        have k: "kid a' (f n) x = leaf" using N(2) [OF less.prems] at by simp
        have pn: "pn = pc" using art_okD(3) [OF ok less.prems] L'(1) at by simp
        have "art_walk a' (f n) q = (if take (length rest) q = rest then art_walk a' leaf (drop (length rest) q) else None)"
          using L'(2,4,6) k by (simp add: Cons art_walk.simps(2) Let_def)
        also have "\<dots> = (if q = rest then Some leaf else None)"
        proof (cases "drop (length rest) q")
          case Nil
          then show ?thesis by simp
        next
          case (Cons y ys)
          then have "art_walk a' leaf (drop (length rest) q) = None" using L'(5) by (simp add: art_walk.simps(2))
          then show ?thesis using Cons by auto
        qed
        finally show ?thesis using w pn by (simp add: f_def)
      next
        case no: False
        have "kid a' (f n) x = none" using N(2) [OF less.prems, of x] no True fn by auto
        then have "art_walk a' (f n) q = None" by (simp add: Cons art_walk.simps(2))
        moreover have "pn @ q \<noteq> pc @ rest"
        proof
          assume e: "pn @ q = pc @ rest"
          from split [OF e] e show False
          proof (elim disjE exE conjE)
            assume "n = cur" "q = rest" with no q show False by simp
          next
            fix z assume "z \<noteq> []" "q = z @ rest" "art_walk a n z = Some cur"
            then show False using True Cons by (cases z) (simp_all add: art_walk.simps(2))
          qed
        qed
        ultimately show ?thesis using w by (simp add: f_def)
      qed
    next
      case False
      let ?e = "edge a ?c"
      have ne: "?e \<noteq> []" by (rule art_okD(5) [OF ok less.prems False])
      have rc: "reach a (pn @ ?e) = Some ?c" by (rule reach_kid [OF ok less.prems False])
      have nn: "\<not> (n = cur \<and> x = hd rest)" using False L'(3) by auto
      have k: "kid a' (f n) x = f ?c" unfolding N(2) [OF less.prems] if_not_P [OF nn] ..
      have ke: "edge a' (f ?c) = ?e" using N(1) [OF rc] by simp
      note k = k ke
      show ?thesis
      proof (cases "take (length ?e) q = ?e")
        case True
        have w: "art_walk a n q = art_walk a ?c (drop (length ?e) q)" "art_walk a' (f n) q = art_walk a' (f ?c) (drop (length ?e) q)"
          using False ne True k fn by (simp_all add: Cons art_walk.simps(2) Let_def)
        have lt: "length (drop (length ?e) q) < length q" using ne q by (cases ?e) auto
        have "q = ?e @ drop (length ?e) q" using append_take_drop_id [of "length ?e" q] True by simp
        then have pq: "(pn @ ?e) @ drop (length ?e) q = pn @ q" unfolding append_assoc by (simp only: same_append_eq)
        show ?thesis using less.hyps [OF lt rc] w unfolding pq f_def by simp
      next
        case np: False
        have w: "art_walk a n q = None" "art_walk a' (f n) q = None"
          using False np k fn by (simp_all add: Cons art_walk.simps(2) Let_def)
        have "pn @ q \<noteq> pc @ rest"
        proof
          assume e: "pn @ q = pc @ rest"
          from split [OF e] e show False
          proof (elim disjE exE conjE)
            assume "n = cur" "q = rest" with False L'(3) q show False by simp
          next
            fix z assume z: "z \<noteq> []" "q = z @ rest" "art_walk a n z = Some cur"
            then obtain z' where "z = x # z'" using q by (cases z) auto
            with z(3) obtain r where "z = ?e @ r" by (metis art_walk_Cons)
            with z(2) np show False by simp
          qed
        qed
        with w show ?thesis by (simp add: f_def)
      qed
    qed
  qed
qed

definition art_table :: "art_trie \<Rightarrow> bytes \<Rightarrow> nat \<Rightarrow> u16 option" where
  "art_table a p slot = (case reach a p of None \<Rightarrow> None
     | Some n \<Rightarrow> if slot < kRouteMethodSlots \<and> routes a n ! slot \<noteq> kInvalidRoute then Some (routes a n ! slot) else None)"

lemma leafed_reach:
  assumes ok: "art_ok a" and L: "leafed a pc cur rest cur' leaf a'"
  shows "reach a' q = (case reach a q of Some m \<Rightarrow> Some (if m = cur then cur' else m) | None \<Rightarrow> if q = pc @ rest then Some leaf else None)"
  using leafed_walk [OF ok L, of "[]" "at_root a" q] L by (simp add: leafed_def Let_def)

lemma leafed_new: "art_ok a \<Longrightarrow> leafed a pc cur rest cur' leaf a' \<Longrightarrow> reach a (pc @ rest) = None"
proof -
  assume ok: "art_ok a" and L: "leafed a pc cur rest cur' leaf a'"
  have l: "reach a pc = Some cur" "rest \<noteq> []" "kid a cur (hd rest) = none" using L by (simp_all add: leafed_def Let_def)
  have "art_walk a cur rest = None" using l by (cases rest) (simp_all add: art_walk.simps(2))
  with art_walk_append [OF l(1)] show ?thesis by simp
qed

lemma leafed_ok:
  assumes ok: "art_ok a" and L: "leafed a pc cur rest cur' leaf a'"
  shows "art_ok a'" "reach a' (pc @ rest) = Some leaf" "art_table a' = art_table a"
proof -
  define f where "f = (\<lambda>n. if n = cur then cur' else n)"
  have R: "reach a' q = (case reach a q of Some m \<Rightarrow> Some (f m) | None \<Rightarrow> if q = pc @ rest then Some leaf else None)" for q
    unfolding f_def by (rule leafed_reach [OF ok L])
  note new = leafed_new [OF ok L]
  have L': "reach a pc = Some cur" "at_root a' = f (at_root a)" "store_ok a'" "cur' = cur \<or> \<not> art_valid a cur'" "\<not> art_valid a leaf" "leaf \<noteq> cur'"
    "kid a' leaf = (\<lambda>_. none)" "art_valid a' leaf" "edge a' leaf = rest" "rest \<noteq> []" "routes a' leaf = replicate kRouteMethodSlots kInvalidRoute"
    "kid a cur (hd rest) = none" "cur' \<noteq> none"
    using L by (simp_all add: leafed_def Let_def f_def)
  have N: "art_valid a' (f m)" "node_hdr (art_node a' (f m)) = node_hdr (art_node a m)" "kid a' (f m) x = (if m = cur \<and> x = hd rest then leaf else f (kid a m x))"
    if "reach a p = Some m" for p m x using L that unfolding leafed_def Let_def f_def by blast+
  show "reach a' (pc @ rest) = Some leaf" using R [of "pc @ rest"] new by simp
  have vm: "reach a p = Some m \<Longrightarrow> art_valid a m" for p m by (rule reach_valid(1) [OF ok])
  have fleaf: "f m \<noteq> leaf" if "reach a p = Some m" for p m using vm [OF that] L'(5,6) by (auto simp: f_def)
  have finj: "m = m'" if "reach a p = Some m" "reach a p' = Some m'" "f m = f m'" for p p' m m'
    using that(3) vm [OF that(1)] vm [OF that(2)] L'(4) by (auto simp: f_def split: if_splits)
  have kids: "art_valid a' (kid a' n b) \<and> edge a' (kid a' n b) \<noteq> [] \<and> hd (edge a' (kid a' n b)) = b"
    if n: "reach a' p = Some n" "kid a' n b \<noteq> none" for p n b
  proof (cases "reach a p")
    case None
    then have "n = leaf" using R [of p] n(1) by (simp split: if_splits)
    then show ?thesis using n(2) L'(7) by simp
  next
    case (Some m)
    then have fm: "n = f m" using R [of p] n(1) by simp
    show ?thesis
    proof (cases "m = cur \<and> b = hd rest")
      case True
      then have "kid a' n b = leaf" using N(3) [OF Some] fm by simp
      then show ?thesis using L'(8,9,10) True by simp
    next
      case False
      have kf: "kid a' n b = f (kid a m b)" unfolding fm N(3) [OF Some] if_not_P [OF False] ..
      have kn: "kid a m b \<noteq> none" using n(2) kf L'(13) reach_valid(2) [OF ok L'(1)] by (auto simp: f_def split: if_splits)
      note rk = reach_kid [OF ok Some kn]
      show ?thesis unfolding kf N(2) [OF rk] using N(1) [OF rk] art_okD(5,6) [OF ok Some kn] by simp
    qed
  qed
  have inj: "p = q" if "reach a' p = Some n" "reach a' q = Some n" for p q n
  proof (cases "reach a p"; cases "reach a q")
    fix m m' assume m: "reach a p = Some m" "reach a q = Some m'"
    then have "f m = f m'" using that R by simp
    then show ?thesis using finj [OF m] art_okD(3) [OF ok] m by blast
  next
    fix m assume m: "reach a p = Some m" "reach a q = None"
    then have "f m = leaf" using that R [of p] R [of q] by (simp split: if_splits)
    then show ?thesis using fleaf [OF m(1)] by simp
  next
    fix m' assume m: "reach a p = None" "reach a q = Some m'"
    then have "f m' = leaf" using that R [of p] R [of q] by (simp split: if_splits)
    then show ?thesis using fleaf [OF m(2)] by simp
  next
    assume "reach a p = None" "reach a q = None"
    then show ?thesis using that R [of p] R [of q] by (simp split: if_splits)
  qed
  have "art_valid a' (at_root a')" using N(1) [of "[]" "at_root a"] L'(2) by simp
  then show "art_ok a'" unfolding art_ok_def using L'(3) kids inj by blast
  show "art_table a' = art_table a"
  proof (rule ext, rule ext)
    fix p slot
    show "art_table a' p slot = art_table a p slot"
    proof (cases "reach a p")
      case None
      then show ?thesis using R [of p] L'(11) by (auto simp: art_table_def)
    next
      case (Some m)
      then show ?thesis using R [of p] N(2) [OF Some] by (simp add: art_table_def)
    qed
  qed
qed

text \<open>The patch site of a node: the root, or the slot of its parent.\<close>

definition site_ok :: "art_trie \<Rightarrow> patch_site \<Rightarrow> u16 \<Rightarrow> bool" where
  "site_ok a site cur \<longleftrightarrow> (site = RootSite \<and> cur = at_root a) \<or>
     (\<exists>pm m b0. reach a pm = Some m \<and> kid a m b0 = cur \<and> cur \<noteq> none \<and> site = child_site a m b0)"

lemma leaf_step:
  assumes ok: "art_ok a" and cur: "reach a pc = Some cur" and rest: "rest \<noteq> []" "kid a cur (hd rest) = none"
    and al: "alloc_n4 a = (leaf, a1)" "leaf \<noteq> none"
    and add: "art_add_child (set_header leaf ((art_header_of a1 leaf)\<lparr>ah_edge := rest\<rparr>) a1) cur (hd rest) leaf = (cur', a3)" "cur' \<noteq> none"
    and site: "cur' \<noteq> cur \<Longrightarrow> site_ok a site cur"
  shows "leafed a pc cur rest cur' leaf (if cur' \<noteq> cur then write_site site cur' a3 else a3)"
proof -
  define f where "f = (\<lambda>n. if n = cur then cur' else n)"
  define a2 where "a2 = set_header leaf ((art_header_of a1 leaf)\<lparr>ah_edge := rest\<rparr>) a1"
  note fr = conjunct1 [OF alloc_fresh(1) [OF art_okD(1) [OF ok] al]] and lt = conjunct1 [OF conjunct2 [OF alloc_fresh(1) [OF art_okD(1) [OF ok] al]]]
  have F: "\<not> art_valid a leaf" "art_valid a1 leaf" "art_node a1 leaf = Linear new_n4" "keeps a a1 {}" "store_ok a1" "at_root a1 = at_root a"
    using fr by (simp_all add: fresh_def)
  let ?h = "new_header\<lparr>ah_edge := rest\<rparr>"
  have a2: "a2 = set_node leaf (node_with_hdr ?h (Linear new_n4)) a1"
    by (simp add: a2_def set_header_eq header_node F(3) node_hdr_def new_n4_def)
  have nok: "node_ok (art_type leaf) (node_with_hdr ?h (Linear new_n4))"
    unfolding lt by (rule node_with_hdr_ok) (simp_all add: new_nodes_ok new_header_def)
  note N2 = node_set [OF F(2) nok, folded a2]
  have s2: "store_ok a2" unfolding a2 by (rule store_ok_set [OF F(5,2) nok])
  have k2: "keeps a a2 {}" unfolding a2 by (rule keeps_trans [OF F(4) keeps_set [OF F(2) nok]]) (use F(1) in auto)
  have vcur: "art_valid a cur" by (rule reach_valid(1) [OF ok cur])
  have cl: "cur \<noteq> leaf" using vcur F(1) by auto
  have fc: "art_find_child a2 cur (hd rest) = none" using keepsD(2) [OF k2 vcur] rest(2) by (simp add: find_child_node)
  note ad = add_child_added [OF s2 keepsD(1) [OF k2 vcur] fc al(2) add(1) [folded a2_def] add(2), unfolded added_def]
  have lv2: "art_valid a2 leaf" using F(2) by (simp add: a2)
  have leafcur: "leaf \<noteq> cur'" using ad lv2 cl by blast
  have k3: "keeps a a3 {cur'}" by (rule keeps_trans [OF k2, of a3 "{cur'}"]) (use ad in auto)
  have cur'v: "cur' = cur \<or> \<not> art_valid a cur'" using ad keepsD(1) [OF k2] by blast
  have leaf3: "art_node a3 leaf = node_with_hdr ?h (Linear new_n4)" "art_valid a3 leaf"
    using ad N2 lv2 leafcur keepsD unfolding keeps_def by (metis singletonD)+
  have cur3: "node_hdr (art_node a3 cur') = node_hdr (art_node a cur)" "kid a3 cur' = (kid a cur)(hd rest := leaf)"
    using ad keepsD(2) [OF k2 vcur] by simp_all
  have old3: "art_valid a n \<Longrightarrow> n \<noteq> cur' \<Longrightarrow> art_node a3 n = art_node a n" for n using keepsD(2) [OF k3] by blast
  have root3: "at_root a3 = at_root a" using ad F(6) by (simp add: a2)
  have leafkid: "node_kid (Linear new_n4) = (\<lambda>_. none)" using reset_to_ok(3) [of ArtN4] by (simp add: reset_to_def)
  have noself: "kid a cur x \<noteq> cur" for x
  proof
    assume e: "kid a cur x = cur"
    then have "kid a cur x \<noteq> none" using reach_valid(2) [OF ok cur] by simp
    from reach_kid [OF ok cur this] art_okD(5) [OF ok cur this] art_okD(3) [OF ok cur] e show False by force
  qed
  have base: "store_ok a'' \<Longrightarrow> art_valid a'' leaf \<Longrightarrow> art_node a'' leaf = node_with_hdr ?h (Linear new_n4) \<Longrightarrow> at_root a'' = f (at_root a) \<Longrightarrow>
      (\<And>p n. reach a p = Some n \<Longrightarrow> art_valid a'' (f n) \<and> node_hdr (art_node a'' (f n)) = node_hdr (art_node a n) \<and>
         (\<forall>x. kid a'' (f n) x = (if n = cur \<and> x = hd rest then leaf else f (kid a n x)))) \<Longrightarrow> leafed a pc cur rest cur' leaf a''" for a''
    unfolding leafed_def Let_def f_def [symmetric] using cur rest F(1) leafcur al(2) add(2) cur'v leafkid by (simp add: new_header_def)
  show ?thesis
  proof (cases "cur' = cur")
    case True
    have "leafed a pc cur rest cur' leaf a3"
    proof (rule base)
      fix p n assume n: "reach a p = Some n"
      have v: "art_valid a n" by (rule reach_valid(1) [OF ok n])
      show "art_valid a3 (f n) \<and> node_hdr (art_node a3 (f n)) = node_hdr (art_node a n) \<and>
         (\<forall>x. kid a3 (f n) x = (if n = cur \<and> x = hd rest then leaf else f (kid a n x)))"
        using keepsD(1) [OF k3 v] old3 [OF v] cur3 True by (auto simp: f_def)
    qed (use ad leaf3 root3 True in \<open>simp_all add: f_def\<close>)
    then show ?thesis using True by simp
  next
    case False
    then have nv: "\<not> art_valid a cur'" using cur'v by blast
    have old: "art_valid a n \<Longrightarrow> art_node a3 n = art_node a n \<and> art_valid a3 n" for n using old3 nv keepsD(1) [OF k3] by metis
    have v3: "art_valid a3 cur'" "store_ok a3" using ad by blast+
    have "leafed a pc cur rest cur' leaf (write_site site cur' a3)"
      using site [OF False] unfolding site_ok_def
    proof (elim disjE exE conjE)
      assume s: "site = RootSite" "cur = at_root a"
      let ?a = "a3\<lparr>at_root := cur'\<rparr>"
      have w: "write_site site cur' a3 = ?a" by (simp add: s write_site_def)
      have nd: "art_node ?a n = art_node a3 n" "art_valid ?a n = art_valid a3 n" for n
        by (cases "art_type n"; simp add: art_node_def art_valid_def)+
      have st: "store_ok ?a" using v3(2) by (simp add: store_ok_def nd)
      show ?thesis unfolding w
      proof (rule base)
        fix p n assume n: "reach a p = Some n"
        have v: "art_valid a n" by (rule reach_valid(1) [OF ok n])
        have nk: "kid a n x \<noteq> cur" for x using kid_not_root [OF ok n] s(2) reach_valid(2) [OF ok cur] by metis
        show "art_valid ?a (f n) \<and> node_hdr (art_node ?a (f n)) = node_hdr (art_node a n) \<and>
          (\<forall>x. kid ?a (f n) x = (if n = cur \<and> x = hd rest then leaf else f (kid a n x)))"
          using old [OF v] cur3 v3 nk by (auto simp: f_def nd)
      qed (use leaf3 st s in \<open>simp_all add: f_def nd\<close>)
    next
      fix pm m b0 assume m: "reach a pm = Some m" "kid a m b0 = cur" "cur \<noteq> none" "site = child_site a m b0"
      have vm: "art_valid a m" by (rule reach_valid(1) [OF ok m(1)])
      have mc: "m \<noteq> cur" using noself [of b0] m(2) by (intro notI) simp
      have "art_find_child a m b0 \<noteq> none" using m(2,3) by (simp add: find_child_node)
      from write_child_site [OF conjunct1 [OF old [OF vm]] v3(2) conjunct2 [OF old [OF vm]] this add(2)]
      obtain n' where w: "write_site site cur' a3 = set_node m n' a3" "node_ok (art_type m) n'" "node_hdr n' = node_hdr (art_node a3 m)"
        "node_kid n' = (kid a3 m)(b0 := cur')" unfolding m(4) by blast
      have vm3: "art_valid a3 m" using old [OF vm] by blast
      note nd = node_set [OF vm3 w(2)]
      have st: "store_ok (set_node m n' a3)" by (rule store_ok_set [OF v3(2) vm3 w(2)])
      have ml: "leaf \<noteq> m" "cur' \<noteq> m" using vm F(1) nv by auto
      show ?thesis unfolding w(1)
      proof (rule base)
        fix p n assume n: "reach a p = Some n"
        have v: "art_valid a n" by (rule reach_valid(1) [OF ok n])
        have fm: "f n = m \<longleftrightarrow> n = m" using mc ml by (auto simp: f_def)
        have kc: "kid a n x = cur \<longleftrightarrow> n = m \<and> x = b0" for x using kid_unique [OF ok n m(1)] m(2,3) by metis
        show "art_valid (set_node m n' a3) (f n) \<and> node_hdr (art_node (set_node m n' a3) (f n)) = node_hdr (art_node a n) \<and>
          (\<forall>x. kid (set_node m n' a3) (f n) x = (if n = cur \<and> x = hd rest then leaf else f (kid a n x)))"
        proof (cases "n = m")
          case True
          then show ?thesis using mc nd w(3,4) old [OF vm] kc [of] vm3 by (auto simp: f_def)
        next
          case nm: False
          then have "f n \<noteq> m" using fm by simp
          then show ?thesis using nd old [OF v] cur3 v3 kc nm by (auto simp: f_def)
        qed
      qed (use leaf3 st root3 nd ml kid_not_root [OF ok m(1), of b0] m(2,3) in \<open>auto simp: f_def\<close>)
    qed
    then show ?thesis using False by simp
  qed
qed

end
