(* ===== verification/Route_Art_Split.thy ===== *)
theory Route_Art_Split
  imports Route_Art_Table
begin

text \<open>
  Splitting an edge of the adaptive radix tree: the paths of the tree after the split, and that
  the split of the source keeps the table of routes.
\<close>

section \<open>A split edge\<close>

text \<open>
  The tree \<open>a'\<close> is the tree \<open>a\<close> with the edge of \<open>c\<close> cut at \<open>k\<close>: \<open>c\<close> keeps the first part and
  has the only child \<open>t\<close>, which takes over the rest of the edge, the routes and the children.
\<close>

definition split_at :: "art_trie \<Rightarrow> bytes \<Rightarrow> u16 \<Rightarrow> u8 \<Rightarrow> u16 \<Rightarrow> nat \<Rightarrow> u16 \<Rightarrow> art_trie \<Rightarrow> bool" where
  "split_at a pc cur b c k t a' \<longleftrightarrow>
     (let e = edge a c in
      store_ok a' \<and> reach a pc = Some cur \<and> kid a cur b = c \<and> c \<noteq> none \<and> 0 < k \<and> k < length e \<and> at_root a' = at_root a \<and>
      t \<noteq> none \<and> \<not> art_valid a t \<and> art_valid a' t \<and> art_valid a' c \<and>
      node_hdr (art_node a' t) = (node_hdr (art_node a c))\<lparr>ah_edge := drop k e\<rparr> \<and> kid a' t = kid a c \<and>
      node_hdr (art_node a' c) = new_header\<lparr>ah_edge := take k e\<rparr> \<and> kid a' c = (\<lambda>_. none)(e ! k := t) \<and>
      (\<forall>p n. reach a p = Some n \<longrightarrow> n \<noteq> c \<longrightarrow> art_valid a' n \<and> art_node a' n = art_node a n))"

lemma take_split_eq:
  assumes "take k q = take k e" "k \<le> length e"
  shows "take (length e - k) (drop k q) = drop k e \<longleftrightarrow> take (length e) q = e"
proof -
  have "take (length e) q = take k q @ take (length e - k) (drop k q)" using assms(2) by (metis le_add_diff_inverse take_add)
  moreover have "e = take k e @ drop k e" by simp
  ultimately show ?thesis using assms(1) by (metis append_same_eq same_append_eq)
qed

lemma cut_walk:
  assumes "q \<noteq> []" "hd q = hd e" "kid a n (hd q) = c" "c \<noteq> none" "edge a c = take k e" "kid a c = (\<lambda>_. none)(e ! k := t)"
    "t \<noteq> none" "edge a t = drop k e" "0 < k" "k < length e"
  shows "art_walk a n q = (if q = take k e then Some c else if take (length e) q = e then art_walk a t (drop (length e) q) else None)"
proof -
  have l: "length (take k e) = k" "take k e \<noteq> []" "drop k e \<noteq> []" using assms(9,10) by auto
  have n: "art_walk a n q = (if take k q = take k e then art_walk a c (drop k q) else None)"
    using assms(1,3-5) l by (cases q) (simp_all add: art_walk.simps(2) Let_def)
  show ?thesis
  proof (cases "take k q = take k e")
    case True
    have tq: "q = take k e \<longleftrightarrow> drop k q = []" 
    proof
      assume "q = take k e" then show "drop k q = []" by simp
    next
      assume "drop k q = []" then show "q = take k e" using True append_take_drop_id [of k q] by simp
    qed
    show ?thesis
    proof (cases "drop k q")
      case Nil
      then show ?thesis using n True tq by simp
    next
      case (Cons y ys)
      have eq: "take (length e - k) (y # ys) = drop k e \<longleftrightarrow> take (length e) q = e"
        unfolding Cons [symmetric] by (rule take_split_eq) (use True assms(10) in simp_all)
      have yk: "y = e ! k" if "take (length e - k) (y # ys) = drop k e"
        using arg_cong [OF that, of hd] assms(10) by (simp add: hd_drop_conv_nth)
      have dd: "drop (length e - k) (y # ys) = drop (length e) q" unfolding Cons [symmetric] using assms(10) by simp
      have "art_walk a c (y # ys) = (if take (length e - k) (y # ys) = drop k e then art_walk a t (drop (length e - k) (y # ys)) else None)"
      proof (cases "y = e ! k")
        case y: True
        then have "kid a c y = t" using assms(6) by simp
        then show ?thesis unfolding art_walk.simps(2) Let_def using assms(7,8) l(3) by (simp only: length_drop) simp
      next
        case False
        then have "kid a c y = none" using assms(6) by simp
        then show ?thesis unfolding art_walk.simps(2) Let_def using False yk
          by (simp only: if_False if_True simp_thms split: if_split) blast
      qed
      then show ?thesis using n True tq Cons eq dd by simp
    qed
  next
    case False
    then have "take (length e) q \<noteq> e" using assms(10) by (intro notI) (metis less_imp_le min_absorb1 take_take)
    moreover have "q \<noteq> take k e" using False by auto
    ultimately show ?thesis using n False by simp
  qed
qed

lemma split_walk:
  assumes ok: "art_ok a" and L: "split_at a pc cur b c k t a'" and n: "reach a pn = Some n"
  shows "art_walk a' (if n = c then t else n) q =
    (case art_walk a n q of Some m \<Rightarrow> Some (if m = c then t else m) | None \<Rightarrow> if pn @ q = pc @ take k (edge a c) then Some c else None)"
  using n
proof (induction "length q" arbitrary: q n pn rule: less_induct)
  case less
  define f where "f = (\<lambda>n. if n = c then t else n)"
  let ?e = "edge a c"
  let ?e1 = "take k ?e"
  have S: "reach a pc = Some cur" "kid a cur b = c" "c \<noteq> none" "0 < k" "k < length ?e" "t \<noteq> none"
    "edge a' t = drop k ?e" "kid a' t = kid a c" "edge a' c = ?e1" "kid a' c = (\<lambda>_. none)(?e ! k := t)"
    using L by (simp_all add: split_at_def Let_def)
  have N: "art_node a' m = art_node a m" if "reach a p = Some m" "m \<noteq> c" for p m using L that unfolding split_at_def Let_def by blast
  have rc: "reach a (pc @ ?e) = Some c" using reach_kid [OF ok S(1), of b] S(2,3) by simp
  have hde: "hd ?e = b" "?e \<noteq> []" using art_okD(5,6) [OF ok S(1), of b] S(2,3) by simp_all
  have e1: "?e1 \<noteq> []" "hd ?e1 = b" using S(4) hde by (simp_all add: hd_take)
  have kf: "kid a' (f n) = kid a n" using N [OF less.prems] S(8) by (simp add: f_def)
  have kc: "kid a n x = c \<longleftrightarrow> n = cur \<and> x = b" for x
    using kid_unique [OF ok less.prems S(1), of x b] S(2,3) by auto
  have nolong: "art_walk a cur z \<noteq> Some m" if z: "z \<noteq> []" "pn @ q = pc @ ?e1" "pn = pc @ z" "q \<noteq> []" for z m
  proof -
    have zq: "z @ q = ?e1" using z(2,3) by simp
    have "hd z = b" using hd_append2 [OF z(1), of q] e1(2) unfolding zq by simp
    then obtain z' where z': "z = b # z'" using z(1) by (cases z) auto
    have lz: "length z < length ?e" using arg_cong [OF zq, of length] S(5) by simp
    then have "take (length ?e) z = z" by simp
    then have "take (length ?e) z \<noteq> ?e" using lz by (intro notI) simp
    then show ?thesis using S(2) z' by (simp add: art_walk.simps(2) Let_def)
  qed
  show ?case
  proof (cases q)
    case Nil
    then show ?thesis by simp
  next
    case (Cons x q')
    then have q: "q \<noteq> []" "hd q = x" by simp_all
    let ?d = "kid a n x"
    have split: "(pn = pc \<and> n = cur \<and> q = ?e1) \<or> (\<exists>z. z \<noteq> [] \<and> pc = pn @ z \<and> q = z @ ?e1 \<and> art_walk a n z = Some cur)"
      if e: "pn @ q = pc @ ?e1"
      by (rule path_split [OF ok S(1) less.prems e q(1)]) (use nolong e q(1) in blast)
    show ?thesis
    proof (cases "n = cur \<and> x = b")
      case False
      then have dc: "?d \<noteq> c" using kc by blast
      show ?thesis
      proof (cases "?d \<noteq> none \<and> take (length (edge a ?d)) q = edge a ?d")
        case True
        then have dn: "?d \<noteq> none" by blast
        note rd = reach_kid [OF ok less.prems dn] and ne = art_okD(5) [OF ok less.prems dn]
        have w: "art_walk a n q = art_walk a ?d (drop (length (edge a ?d)) q)" "art_walk a' (f n) q = art_walk a' ?d (drop (length (edge a ?d)) q)"
          using True ne kf N [OF rd dc] by (simp_all add: Cons art_walk.simps(2) Let_def)
        have lt: "length (drop (length (edge a ?d)) q) < length q" using ne q by (cases "edge a ?d") auto
        have "q = edge a ?d @ drop (length (edge a ?d)) q" using append_take_drop_id [of "length (edge a ?d)" q] True by simp
        then have pq: "(pn @ edge a ?d) @ drop (length (edge a ?d)) q = pn @ q" unfolding append_assoc by (simp only: same_append_eq)
        show ?thesis using less.hyps [OF lt rd] w dc unfolding pq f_def by simp
      next
        case no: False
        have w: "art_walk a n q = None" "art_walk a' (f n) q = None"
        proof -
          show "art_walk a n q = None" using no by (auto simp: Cons art_walk.simps(2) Let_def)
          show "art_walk a' (f n) q = None"
          proof (cases "?d = none")
            case True
            then show ?thesis using kf by (simp add: Cons art_walk.simps(2))
          next
            case dn: False
            then show ?thesis using no kf N [OF reach_kid [OF ok less.prems dn] dc] by (simp add: Cons art_walk.simps(2) Let_def)
          qed
        qed
        have "pn @ q \<noteq> pc @ ?e1"
        proof
          assume e: "pn @ q = pc @ ?e1"
          from split [OF e] show False
          proof (elim disjE exE conjE)
            assume "n = cur" "q = ?e1" with False e1 q show False by simp
          next
            fix z assume z: "z \<noteq> []" "q = z @ ?e1" "art_walk a n z = Some cur"
            then obtain z' where "z = x # z'" using q by (cases z) auto
            with z(3) obtain r where "?d \<noteq> none" "z = edge a ?d @ r" by (metis art_walk_Cons)
            with z(2) no show False by simp
          qed
        qed
        with w show ?thesis by (simp add: f_def)
      qed
    next
      case True
      have "reach a pc = Some n" using True S(1) by simp
      from True art_okD(3) [OF ok less.prems this] have nc: "n = cur" "x = b" "pn = pc" by simp_all
      have d: "?d = c" using nc S(2) by simp
      have ncur: "f n = n"
      proof -
        have "cur \<noteq> c" 
        proof
          assume "cur = c"
          then have "reach a pc = Some c" using S(1) by simp
          from art_okD(3) [OF ok this rc] have "pc = pc @ ?e" .
          then show False using hde(2) by simp
        qed
        then show ?thesis using nc by (simp add: f_def)
      qed
      have wa: "art_walk a n q = (if take (length ?e) q = ?e then art_walk a c (drop (length ?e) q) else None)"
        using d S(3) hde by (simp add: Cons art_walk.simps(2) Let_def)
      have kb: "kid a' n (hd q) = c" using d kf ncur q by simp
      have hq: "hd q = hd ?e" using nc q hde by simp
      have wb: "art_walk a' n q = (if q = ?e1 then Some c else if take (length ?e) q = ?e then art_walk a' t (drop (length ?e) q) else None)"
        by (rule cut_walk [OF q(1) hq kb S(3,9,10,6,7,4,5)])
      show ?thesis
      proof (cases "take (length ?e) q = ?e")
        case True
        have lt: "length (drop (length ?e) q) < length q" using hde q by (cases ?e) auto
        have "q = ?e @ drop (length ?e) q" using append_take_drop_id [of "length ?e" q] True by simp
        then have pq: "(pc @ ?e) @ drop (length ?e) q = pn @ q" unfolding nc append_assoc by (simp only: same_append_eq)
        have ne: "q \<noteq> ?e1" 
        proof
          assume "q = ?e1"
          then have "length q < length ?e" using S(5) by simp
          then show False using arg_cong [OF True, of length] by simp
        qed
        show ?thesis using less.hyps [OF lt rc] True wa wb ne ncur unfolding pq f_def by simp
      next
        case False
        then show ?thesis using wa wb ncur unfolding f_def nc by simp
      qed
    qed
  qed
qed

lemma split_node:
  assumes ok: "art_ok a" and L: "split_at a pc cur b c k t a'" and n: "reach a p = Some n"
  defines "m \<equiv> if n = c then t else n"
  shows "art_valid a' m" "kid a' m = kid a n" "routes a' m = routes a n" "m \<noteq> c"
proof -
  have S: "t \<noteq> none" "\<not> art_valid a t" "art_valid a' t" "node_hdr (art_node a' t) = (node_hdr (art_node a c))\<lparr>ah_edge := drop k (edge a c)\<rparr>" "kid a' t = kid a c"
    using L by (simp_all add: split_at_def Let_def)
  have N: "art_valid a' n" "art_node a' n = art_node a n" if "n \<noteq> c" using L n that unfolding split_at_def Let_def by blast+
  show "art_valid a' m" "kid a' m = kid a n" "routes a' m = routes a n" unfolding m_def using S N by simp_all
  show "m \<noteq> c" unfolding m_def using S(2) reach_valid(1) [OF ok n] by auto
qed

lemma split_reach:
  assumes ok: "art_ok a" and L: "split_at a pc cur b c k t a'"
  shows "reach a' q = (case reach a q of Some m \<Rightarrow> Some (if m = c then t else m) | None \<Rightarrow> if q = pc @ take k (edge a c) then Some c else None)"
proof -
  have S: "reach a pc = Some cur" "kid a cur b = c" "c \<noteq> none" "at_root a' = at_root a" using L by (simp_all add: split_at_def Let_def)
  then have "c \<noteq> at_root a" using kid_not_root [OF ok S(1), of b] by simp
  then show ?thesis using split_walk [OF ok L, of "[]" "at_root a" q] S(4) by simp
qed

lemma split_new:
  assumes ok: "art_ok a" and L: "split_at a pc cur b c k t a'"
  shows "reach a (pc @ take k (edge a c)) = None"
proof -
  have S: "reach a pc = Some cur" "kid a cur b = c" "c \<noteq> none" "0 < k" "k < length (edge a c)" using L by (simp_all add: split_at_def Let_def)
  have "hd (edge a c) = b" using art_okD(6) [OF ok S(1), of b] S(2,3) by simp
  then obtain e where e: "take k (edge a c) = b # e" using S(4,5) by (cases "edge a c"; cases k) auto
  have "length (b # e) < length (edge a c)" using arg_cong [OF e, of length] S(5) by simp
  then have "take (length (edge a c)) (b # e) \<noteq> edge a c" by (metis nat_less_le take_all_iff)
  then have "art_walk a cur (b # e) = None" using S(2) by (simp add: art_walk.simps(2) Let_def)
  then show ?thesis unfolding e using art_walk_append [OF S(1)] by simp
qed

lemma split_ok:
  assumes ok: "art_ok a" and L: "split_at a pc cur b c k t a'"
  shows "art_ok a'" "reach a' (pc @ take k (edge a c)) = Some c" "art_table a' = art_table a"
proof -
  define f where "f = (\<lambda>n. if n = c then t else n)"
  have R: "reach a' q = (case reach a q of Some m \<Rightarrow> Some (f m) | None \<Rightarrow> if q = pc @ take k (edge a c) then Some c else None)" for q
    unfolding f_def by (rule split_reach [OF ok L])
  note N = split_node [OF ok L, folded f_def [THEN fun_cong]]
  have S: "reach a pc = Some cur" "kid a cur b = c" "c \<noteq> none" "0 < k" "k < length (edge a c)" "store_ok a'" "at_root a' = at_root a"
    "\<not> art_valid a t" "art_valid a' t" "art_valid a' c" "edge a' t = drop k (edge a c)" "edge a' c = take k (edge a c)"
    "kid a' c = (\<lambda>_. none)(edge a c ! k := t)" "routes a' c = replicate kRouteMethodSlots kInvalidRoute"
    using L by (simp_all add: split_at_def Let_def new_header_def)
  have same: "art_valid a' m" "art_node a' m = art_node a m" if "reach a p = Some m" "m \<noteq> c" for p m using L that unfolding split_at_def Let_def by blast+
  show "reach a' (pc @ take k (edge a c)) = Some c" using R [of "pc @ take k (edge a c)"] split_new [OF ok L] by simp
  have finj: "m = m'" if "reach a p = Some m" "reach a p' = Some m'" "f m = f m'" for p p' m m'
    using that(3) reach_valid(1) [OF ok that(1)] reach_valid(1) [OF ok that(2)] S(8) by (auto simp: f_def split: if_splits)
  have kids: "art_valid a' (kid a' n x) \<and> edge a' (kid a' n x) \<noteq> [] \<and> hd (edge a' (kid a' n x)) = x"
    if n: "reach a' p = Some n" "kid a' n x \<noteq> none" for p n x
  proof (cases "reach a p")
    case None
    then have "n = c" using R [of p] n(1) by (simp split: if_splits)
    then have "x = edge a c ! k" "kid a' n x = t" using n(2) S(13) by (auto split: if_splits)
    then show ?thesis using S(5,9,11) by (simp add: hd_drop_conv_nth)
  next
    case (Some m)
    then have fm: "n = f m" using R [of p] n(1) by simp
    have kf: "kid a' n x = kid a m x" unfolding fm using N(2) [OF Some] by simp
    have kn: "kid a m x \<noteq> none" using n(2) kf by simp
    show ?thesis
    proof (cases "kid a m x = c")
      case True
      then show ?thesis unfolding kf using art_okD(5,6) [OF ok Some kn] S(4,10,12) by (simp add: hd_take)
    next
      case False
      then show ?thesis unfolding kf using same [OF reach_kid [OF ok Some kn]] art_okD(5,6) [OF ok Some kn] by simp
    qed
  qed
  have inj: "p = q" if "reach a' p = Some n" "reach a' q = Some n" for p q n
  proof (cases "reach a p"; cases "reach a q")
    fix m m' assume m: "reach a p = Some m" "reach a q = Some m'"
    then have "f m = f m'" using that R by simp
    then show ?thesis using finj [OF m] art_okD(3) [OF ok] m by blast
  next
    fix m assume m: "reach a p = Some m" "reach a q = None"
    then have "f m = c" using that R [of p] R [of q] by (simp split: if_splits)
    then show ?thesis using N(4) [OF m(1)] by simp
  next
    fix m' assume m: "reach a p = None" "reach a q = Some m'"
    then have "f m' = c" using that R [of p] R [of q] by (simp split: if_splits)
    then show ?thesis using N(4) [OF m(2)] by simp
  next
    assume "reach a p = None" "reach a q = None"
    then show ?thesis using that R [of p] R [of q] by (simp split: if_splits)
  qed
  have "art_valid a' (at_root a')" using same(1) [of "[]" "at_root a"] kid_not_root [OF ok S(1), of b] S(2,3,7) by simp
  then show "art_ok a'" unfolding art_ok_def using S(6) kids inj by blast
  show "art_table a' = art_table a"
  proof (rule ext, rule ext)
    fix p slot
    show "art_table a' p slot = art_table a p slot"
    proof (cases "reach a p")
      case None
      then show ?thesis using R [of p] S(14) by (auto simp: art_table_def)
    next
      case (Some m)
      then show ?thesis using R [of p] N(3) [OF Some] by (simp add: art_table_def)
    qed
  qed
qed

section \<open>The split of the source\<close>

text \<open>The tail: a fresh node that takes over the rest of the edge, the routes and the children.\<close>

lemma split_tail:
  assumes ok: "store_ok a" and c: "art_valid a c" and al: "alloc_n4 a = (tail, a1)" "tail \<noteq> none"
    and add: "add_children (art_pairs a2 c) tail a2 = Some (t, a3)"
    and a2: "a2 = set_header tail \<lparr>ah_edge = e, ah_route = routes a c\<rparr> a1"
  shows "store_ok a3" "\<not> art_valid a t" "art_valid a3 t" "node_hdr (art_node a3 t) = (node_hdr (art_node a c))\<lparr>ah_edge := e\<rparr>"
    "kid a3 t = kid a c" "at_root a3 = at_root a" "keeps a a3 {}"
proof -
  note A = alloc_fresh(1) [OF ok al]
  have F: "\<not> art_valid a tail" "art_valid a1 tail" "art_node a1 tail = Linear new_n4" "keeps a a1 {}" "store_ok a1" "at_root a1 = at_root a" "art_type tail = ArtN4"
    using A by (simp_all add: fresh_def)
  let ?n = "node_with_hdr \<lparr>ah_edge = e, ah_route = routes a c\<rparr> (Linear new_n4)"
  have rl: "length (routes a c) = kRouteMethodSlots" using store_okD [OF ok c] by (simp add: node_ok_def)
  have nok: "node_ok (art_type tail) ?n" unfolding F(7) by (rule node_with_hdr_ok) (simp_all add: new_nodes_ok rl)
  have a2n: "a2 = set_node tail ?n a1" unfolding a2 set_header_eq F(3) ..
  note N2 = node_set [OF F(2) nok, folded a2n]
  have s2: "store_ok a2" unfolding a2n by (rule store_ok_set [OF F(5,2) nok])
  have v2: "art_valid a2 tail" using F(2) by (simp add: a2n)
  have k2: "keeps a a2 {}" unfolding a2n by (rule keeps_trans [OF F(4) keeps_set [OF F(2) nok]]) (use F(1) in auto)
  have c2: "art_node a2 c = art_node a c" using keepsD(2) [OF k2 c] by simp
  have ok2: "node_ok (art_type c) (art_node a2 c)" unfolding c2 by (rule store_okD [OF ok c])
  note pairs = art_pairs_kid [OF ok2, unfolded c2]
  have kn: "kid a2 tail b = none" for b
    using reset_to_ok(3) [of ArtN4 "[]"] by (simp add: N2 reset_to_def)
  have "store_ok a3 \<and> art_valid a3 t \<and> node_hdr (art_node a3 t) = node_hdr (art_node a2 tail) \<and>
    (\<forall>b. kid a3 t b = (case map_of (art_pairs a2 c) b of None \<Rightarrow> kid a2 tail b | Some x \<Rightarrow> x)) \<and>
    (t = tail \<or> \<not> art_valid a2 t) \<and> keeps a2 a3 {tail} \<and> at_root a3 = at_root a2"
    by (rule add_children_added [OF s2 v2 pairs(1) _ add]) (use pairs(2) kn in simp)
  then have T: "store_ok a3" "art_valid a3 t" "node_hdr (art_node a3 t) = node_hdr (art_node a2 tail)"
    "\<And>b. kid a3 t b = (case map_of (art_pairs a2 c) b of None \<Rightarrow> kid a2 tail b | Some x \<Rightarrow> x)"
    "t = tail \<or> \<not> art_valid a2 t" "keeps a2 a3 {tail}" "at_root a3 = at_root a2" by blast+
  show "store_ok a3" "art_valid a3 t" by (fact T)+
  show "\<not> art_valid a t" using T(5) F(1) keepsD(1) [OF k2] by blast
  show "node_hdr (art_node a3 t) = (node_hdr (art_node a c))\<lparr>ah_edge := e\<rparr>" unfolding T(3) by (simp add: N2)
  show "at_root a3 = at_root a" using T(7) F(6) by (simp add: a2n)
  show "keeps a a3 {}" by (rule keeps_trans [OF k2 T(6)]) (use F(1) in auto)
  show "kid a3 t = kid a c"
  proof
    fix b
    show "kid a3 t b = kid a c b"
    proof (cases "map_of (art_pairs a2 c) b")
      case None
      then have "kid a c b = none" using pairs(2) [of b "kid a c b"] weak_map_of_SomeI by fastforce
      with None kn show ?thesis unfolding T(4) by simp
    next
      case (Some x)
      then show ?thesis unfolding T(4) using pairs(2) [of b x] map_of_SomeD [OF Some] by simp
    qed
  qed
qed

lemma split_eq:
  assumes ok: "store_ok a" and c: "art_valid a c" "c \<noteq> none" and al: "alloc_n4 a = (tail, a1)" "tail \<noteq> none"
    and add: "add_children (art_pairs a2 c) tail a2 = Some (t, a3)"
    and a2: "a2 = set_header tail \<lparr>ah_edge = drop k (edge a c), ah_route = routes a c\<rparr> a1"
  defines "n \<equiv> reset_to (art_type c) (take k (edge a c))"
  shows "art_split c k site a = Some (c, set_node c (node_append (edge a c ! k) t n) (set_node c n a3))"
    "added (set_node c n a3) c (edge a c ! k) t c (set_node c (node_append (edge a c ! k) t n) (set_node c n a3))"
    "art_node (set_node c n a3) c = n" "t \<noteq> none"
proof -
  note T = split_tail [OF ok c(1) al add a2]
  have v3: "art_valid a3 c" using keepsD(1) [OF T(7) c(1)] .
  have nok: "node_ok (art_type c) n" unfolding n_def by (rule reset_to_ok)
  let ?a4 = "set_node c n a3"
  have s4: "store_ok ?a4" by (rule store_ok_set [OF T(1) v3 nok])
  have v4: "art_valid ?a4 c" using v3 by simp
  show n4: "art_node ?a4 c = n" by (simp add: node_set [OF v3 nok])
  have room: "has_room (art_type c) (art_node ?a4 c)" using reset_to_ok(4) by (simp add: n4) (simp add: n_def)
  show tn: "t \<noteq> none" using T(3) invalid_not_valid [OF T(1)] by auto
  note add4 = add_child_room [OF store_okD [OF s4 v4] room, of "edge a c ! k" t, unfolded n4]
  show "art_split c k site a = Some (c, set_node c (node_append (edge a c ! k) t n) ?a4)"
    using al add add4 c(2) by (simp add: art_split_def header_node a2 [symmetric] Let_def reset_node_eq n_def [symmetric])
  have fc: "art_find_child ?a4 c (edge a c ! k) = none" unfolding find_child_node n4 unfolding n_def by (simp add: reset_to_ok(3))
  show "added ?a4 c (edge a c ! k) t c (set_node c (node_append (edge a c ! k) t n) ?a4)"
    using added_room [OF s4 v4 room fc tn] unfolding n4 .
qed

lemma split_step:
  assumes ok: "art_ok a" and cur: "reach a pc = Some cur" and c: "kid a cur b = c" "c \<noteq> none" and k: "0 < k" "k < length (edge a c)"
    and split: "art_split c k site a = Some (c', a')"
  shows "c' = c" "\<exists>t. split_at a pc cur b c k t a'" "has_room (art_type c) (art_node a' c)"
proof -
  let ?e = "edge a c"
  obtain tail a1 where al: "alloc_n4 a = (tail, a1)" by fastforce
  define a2 where "a2 = set_header tail \<lparr>ah_edge = drop k ?e, ah_route = routes a c\<rparr> a1"
  have tail: "tail \<noteq> none" using split al by (auto simp: art_split_def)
  obtain t a3 where add: "add_children (art_pairs a2 c) tail a2 = Some (t, a3)"
    using split al tail by (auto simp: art_split_def header_node a2_def Let_def split: option.splits)
  have vc: "art_valid a c" using art_okD(4) [OF ok cur, of b] c by simp
  note T = split_tail [OF art_okD(1) [OF ok] vc al tail add a2_def]
  note E = split_eq [OF art_okD(1) [OF ok] vc c(2) al tail add a2_def]
  let ?n = "reset_to (art_type c) (take k ?e)"
  let ?m = "node_append (?e ! k) t ?n"
  have a': "c' = c" "a' = set_node c ?m (set_node c ?n a3)" using split unfolding E(1) by blast+
  show "c' = c" by (fact a')
  note ad = E(2) [folded a'(2), unfolded added_def E(3) reset_to_ok(2,3)]
  have v3: "art_valid a3 c" using keepsD(1) [OF T(7) vc] .
  have mok: "node_ok (art_type c) ?m" by (rule node_append_ok(1) [OF reset_to_ok(1,4) fun_cong [OF reset_to_ok(3)] E(4)])
  have N5: "art_node a' r = (if r = c then ?m else art_node a3 r)" for r
    unfolding a'(2) by (subst node_set) (use v3 mok in \<open>simp_all add: node_set [OF v3 reset_to_ok(1)]\<close>)
  show "has_room (art_type c) (art_node a' c)" using reset_to_ok(5) by (simp add: N5)
  have tc: "t \<noteq> c" using T(2) vc by auto
  have "split_at a pc cur b c k t a'"
    unfolding split_at_def Let_def
  proof (intro conjI allI impI)
    show "store_ok a'" "at_root a' = at_root a" "node_hdr (art_node a' c) = new_header\<lparr>ah_edge := take k ?e\<rparr>" "kid a' c = (\<lambda>_. none)(?e ! k := t)"
      "art_valid a' c"
      using ad T(6) by simp_all
    show "node_hdr (art_node a' t) = (node_hdr (art_node a c))\<lparr>ah_edge := drop k ?e\<rparr>" "kid a' t = kid a c" using N5 tc T(4,5) by simp_all
    show "art_valid a' t" using T(3) by (simp add: a'(2))
    fix p n assume n: "reach a p = Some n" "n \<noteq> c"
    have "art_valid a n" by (rule reach_valid(1) [OF ok n(1)])
    then show "art_valid a' n" "art_node a' n = art_node a n" using n(2) N5 keepsD [OF T(7)] by (simp_all add: a'(2))
  qed (use cur c k E(4) T(2) in simp_all)
  then show "\<exists>t. split_at a pc cur b c k t a'" ..
qed

end
