(* ===== verification/Route_Art_Routes.thy ===== *)
theory Route_Art_Routes
  imports Route_Art_Split
begin

text \<open>
  The adaptive radix tree as a table of routes: insertion always ends and is insertion into the
  table, and the search, in both of its loops, finds the longest stored prefix of the path.
\<close>

section \<open>Insertion\<close>

lemma common_len_props:
  "common_len e q \<le> length e" "common_len e q \<le> length q" "take (common_len e q) e = take (common_len e q) q"
  "common_len e q < length e \<Longrightarrow> common_len e q < length q \<Longrightarrow> e ! common_len e q \<noteq> q ! common_len e q"
  "e \<noteq> [] \<Longrightarrow> q \<noteq> [] \<Longrightarrow> hd e = hd q \<Longrightarrow> 0 < common_len e q"
proof -
  let ?P = "\<lambda>(x, y). x = y"
  have l: "common_len e q \<le> length (zip e q)" unfolding common_len_def by (rule length_takeWhile_le)
  then show le: "common_len e q \<le> length e" "common_len e q \<le> length q" by simp_all
  show "take (common_len e q) e = take (common_len e q) q"
  proof (rule nth_equalityI)
    fix i assume "i < length (take (common_len e q) e)"
    then have i: "i < length (takeWhile ?P (zip e q))" "i < length (zip e q)" using l by (simp_all add: common_len_def)
    have "?P (takeWhile ?P (zip e q) ! i)" by (rule conjunct2 [OF set_takeWhileD [OF nth_mem [OF i(1)]]])
    then show "take (common_len e q) e ! i = take (common_len e q) q ! i" using i by (simp add: takeWhile_nth common_len_def)
  qed (use le in simp)
  show "e ! common_len e q \<noteq> q ! common_len e q" if "common_len e q < length e" "common_len e q < length q"
    using nth_length_takeWhile [of ?P "zip e q"] that unfolding common_len_def by simp
  show "0 < common_len e q" if "e \<noteq> []" "q \<noteq> []" "hd e = hd q"
    using that by (cases e; cases q) (simp_all add: common_len_def)
qed

text \<open>Room in the pools: an upgrade of a node of type \<open>t\<close>, as often as it takes, finds a slot.\<close>

definition spare :: "art_trie \<Rightarrow> art_node_type \<Rightarrow> bool" where
  "spare a t \<longleftrightarrow> (t = ArtN4 \<longrightarrow> length (at_n16 a) < kMaxN16) \<and> (t \<in> {ArtN4, ArtN16} \<longrightarrow> length (at_n48 a) < kMaxN48) \<and>
     (t \<noteq> ArtN256 \<longrightarrow> length (at_n256 a) < kMaxN256)"

lemma pack_not_none:
  assumes "i < 256"
  shows "art_pack t (of_nat i) \<noteq> none" "art_type (art_pack t (of_nat i)) = t"
proof -
  have inv: "art_type (art_pack t (of_nat i)) = t" "art_idx (art_pack t (of_nat i)) = i" using art_pack_inv [of i t] assms by simp_all
  show "art_type (art_pack t (of_nat i)) = t" by (fact inv)
  have "art_idx none = 16383" by (simp add: art_idx_mod kArtInvalidChildRef_def)
  then show "art_pack t (of_nat i) \<noteq> none" using inv(2) assms by (intro notI) simp
qed

lemma add_child_spare:
  assumes "spare a (art_type p)" "p \<noteq> none" "art_add_child a p b c = (p', a')"
  shows "p' \<noteq> none" "spare a' (art_type p')" "length (at_n4 a') = length (at_n4 a)"
proof -
  have "p' \<noteq> none \<and> spare a' (art_type p') \<and> length (at_n4 a') = length (at_n4 a)"
  proof (cases "art_type p")
    case ArtN4
    then show ?thesis using assms pack_not_none [of "length (at_n16 a)" ArtN16]
      by (auto simp: art_add_child_def Let_def alloc_n16_def spare_def kMaxN16_def split: if_splits)
  next
    case ArtN16
    then show ?thesis using assms pack_not_none [of "length (at_n48 a)" ArtN48]
      by (auto simp: art_add_child_def Let_def alloc_n48_def spare_def kMaxN48_def split: if_splits)
  next
    case ArtN48
    then show ?thesis using assms pack_not_none [of "length (at_n256 a)" ArtN256]
      by (auto simp: art_add_child_def Let_def alloc_n256_def spare_def kMaxN256_def split: if_splits)
  next
    case ArtN256
    then show ?thesis using assms by (auto simp: art_add_child_def Let_def spare_def)
  qed
  then show "p' \<noteq> none" "spare a' (art_type p')" "length (at_n4 a') = length (at_n4 a)" by blast+
qed

lemma add_children_spare:
  assumes "spare a (art_type r)" "r \<noteq> none"
  shows "\<exists>r' a'. add_children ps r a = Some (r', a') \<and> length (at_n4 a') = length (at_n4 a)"
  using assms
proof (induction ps arbitrary: r a)
  case (Cons x ps)
  obtain b c where x: "x = (b, c)" by fastforce
  obtain r1 a1 where s: "art_add_child a r b c = (r1, a1)" by fastforce
  note A = add_child_spare [OF Cons.prems s]
  show ?case using Cons.IH [OF A(2,1)] A(1,3) by (simp add: x s)
qed simp

text \<open>What the descent returns: a failed allocation, or a tree with the path in it and the same table.\<close>

definition inserted :: "art_trie \<Rightarrow> bytes \<Rightarrow> unit + art_trie \<times> u16 \<Rightarrow> bool" where
  "inserted a p r = (case r of Inl _ \<Rightarrow> True | Inr (a', n) \<Rightarrow> art_ok a' \<and> reach a' p = Some n \<and> art_table a' = art_table a)"

lemma leaf_room:
  assumes ok: "art_ok a" and cur: "reach a pc = Some cur" and al: "alloc_n4 a = (leaf, a1)" "leaf \<noteq> none"
    and room: "has_room (art_type cur) (art_node a cur)"
    and add: "art_add_child (set_header leaf h a1) cur b leaf = (cur', a3)" and h: "length (ah_route h) = kRouteMethodSlots"
  shows "cur' = cur"
proof -
  note A = alloc_fresh(1) [OF art_okD(1) [OF ok] al]
  have F: "\<not> art_valid a leaf" "art_valid a1 leaf" "art_node a1 leaf = Linear new_n4" "keeps a a1 {}" "art_type leaf = ArtN4"
    using A by (simp_all add: fresh_def)
  have vc: "art_valid a cur" by (rule reach_valid(1) [OF ok cur])
  have nok: "node_ok (art_type leaf) (node_with_hdr h (Linear new_n4))"
    unfolding F(5) by (rule node_with_hdr_ok) (simp_all add: new_nodes_ok h)
  have "cur \<noteq> leaf" using vc F(1) by auto
  then have n: "art_node (set_header leaf h a1) cur = art_node a cur"
    using keepsD(2) [OF F(4) vc] by (simp add: set_header_eq F(3) node_set [OF F(2) nok])
  have "art_add_child (set_header leaf h a1) cur b leaf = (cur, set_node cur (node_append b leaf (art_node (set_header leaf h a1) cur)) (set_header leaf h a1))"
    by (rule add_child_room) (simp_all add: n room store_okD [OF art_okD(1) [OF ok] vc])
  with add show ?thesis by simp
qed

lemma leaf_spare:
  assumes ok: "art_ok a" and cur: "reach a pc = Some cur" and al: "alloc_n4 a = (leaf, a1)"
    and room: "length (at_n4 a) < kMaxN4" "spare a ArtN4 \<or> has_room (art_type cur) (art_node a cur)"
    and add: "art_add_child (set_header leaf ((art_header_of a1 leaf)\<lparr>ah_edge := e\<rparr>) a1) cur b leaf = (cur', a3)"
  shows "leaf \<noteq> none" "cur' \<noteq> none"
proof -
  have l: "leaf = art_pack ArtN4 (of_nat (length (at_n4 a)))" "a1 = a\<lparr>at_n4 := at_n4 a @ [new_n4]\<rparr>"
    using al room(1) by (simp_all add: alloc_n4_def)
  show ln: "leaf \<noteq> none" unfolding l(1) using pack_not_none(1) room(1) by (simp add: kMaxN4_def)
  have cn: "cur \<noteq> none" by (rule reach_valid(2) [OF ok cur])
  have h: "length (ah_route (art_header_of a1 leaf)) = kRouteMethodSlots"
    using alloc_fresh(1) [OF art_okD(1) [OF ok] al ln] by (simp add: fresh_def header_node node_hdr_def new_n4_def new_header_def)
  show "cur' \<noteq> none"
  proof (cases "has_room (art_type cur) (art_node a cur)")
    case True
    then show ?thesis using leaf_room [OF ok cur al ln True add] h cn by simp
  next
    case False
    then have "spare (set_header leaf ((art_header_of a1 leaf)\<lparr>ah_edge := e\<rparr>) a1) (art_type cur)"
      using room(2) by (cases "art_type cur") (simp_all add: set_header_eq spare_def l(2))
    then show ?thesis by (rule add_child_spare(1) [OF _ cn add])
  qed
qed

lemma loop_leaf:
  assumes ok: "art_ok a" and cur: "reach a (take i p) = Some cur" and i: "i < length p" "kid a cur (p ! i) = none"
    and site: "site_ok a site cur \<or> has_room (art_type cur) (art_node a cur)"
  shows "\<exists>r. art_insert_loop p a cur site i = Some r \<and> inserted a p r \<and>
    (length (at_n4 a) < kMaxN4 \<and> (spare a ArtN4 \<or> has_room (art_type cur) (art_node a cur)) \<longrightarrow> \<not> isl r)"
proof -
  obtain leaf a1 where al: "alloc_n4 a = (leaf, a1)" by fastforce
  define a2 where "a2 = set_header leaf ((art_header_of a1 leaf)\<lparr>ah_edge := drop i p\<rparr>) a1"
  obtain cur' a3 where add: "art_add_child a2 cur (p ! i) leaf = (cur', a3)" by fastforce
  have fc: "art_find_child a cur (p ! i) = none" using i(2) by (simp add: find_child_node)
  have run: "art_insert_loop p a cur site i = (if leaf = none then Some (Inl ()) else if cur' = none then Some (Inl ())
      else Some (Inr (if cur' \<noteq> cur then write_site site cur' a3 else a3, leaf)))"
    using i(1) fc al add by (subst art_insert_loop.simps) (simp add: a2_def [symmetric])
  show ?thesis
  proof (cases "leaf = none \<or> cur' = none")
    case True
    then have "art_insert_loop p a cur site i = Some (Inl ())" using run by auto
    moreover have "\<not> (length (at_n4 a) < kMaxN4 \<and> (spare a ArtN4 \<or> has_room (art_type cur) (art_node a cur)))"
      using leaf_spare [OF ok cur al _ _ add [unfolded a2_def]] True by auto
    ultimately show ?thesis by (simp add: inserted_def)
  next
    case False
    then have nn: "leaf \<noteq> none" "cur' \<noteq> none" by simp_all
    have hd: "hd (drop i p) = p ! i" "drop i p \<noteq> []" using i(1) by (simp_all add: hd_drop_conv_nth)
    have hl: "length (ah_route (art_header_of a1 leaf)) = kRouteMethodSlots"
      using alloc_fresh(1) [OF art_okD(1) [OF ok] al nn(1)] by (simp add: fresh_def header_node node_hdr_def new_n4_def new_header_def)
    have same: "site_ok a site cur" if "cur' \<noteq> cur"
      using that site leaf_room [OF ok cur al nn(1) _ add [unfolded a2_def]] hl by auto
    have L: "leafed a (take i p) cur (drop i p) cur' leaf (if cur' \<noteq> cur then write_site site cur' a3 else a3)"
      by (rule leaf_step [OF ok cur hd(2) _ al nn(1) _ nn(2) same]) (use i(2) add hd(1) in \<open>simp_all add: a2_def\<close>)
    show ?thesis using run nn leafed_ok [OF ok L] by (simp add: inserted_def)
  qed
qed

lemma split_spare:
  assumes ok: "store_ok a" and c: "art_valid a c" "c \<noteq> none" and room: "length (at_n4 a) < kMaxN4" "spare a ArtN4"
  shows "\<exists>a'. art_split c k site a = Some (c, a') \<and> length (at_n4 a') = Suc (length (at_n4 a))"
proof -
  obtain tail a1 where al: "alloc_n4 a = (tail, a1)" by fastforce
  have l: "tail = art_pack ArtN4 (of_nat (length (at_n4 a)))" "a1 = a\<lparr>at_n4 := at_n4 a @ [new_n4]\<rparr>"
    using al room(1) by (simp_all add: alloc_n4_def)
  have tail: "tail \<noteq> none" "art_type tail = ArtN4" unfolding l(1) using pack_not_none room(1) by (simp_all add: kMaxN4_def)
  define a2 where "a2 = set_header tail \<lparr>ah_edge = drop k (edge a c), ah_route = routes a c\<rparr> a1"
  have "spare a2 (art_type tail)" using room(2) by (simp add: a2_def set_header_eq spare_def l(2) tail(2))
  then obtain t a3 where add: "add_children (art_pairs a2 c) tail a2 = Some (t, a3)" "length (at_n4 a3) = length (at_n4 a2)"
    using add_children_spare [OF _ tail(1)] by blast
  show ?thesis using split_eq(1) [OF ok c al tail(1) add(1) a2_def] add(2) by (simp add: a2_def set_header_eq l(2))
qed

text \<open>A round that finds a child: the edge is on the path, or it is split.\<close>

lemma loop_child:
  assumes ok: "art_ok a" and cur: "reach a (take i p) = Some cur" and i: "i < length p" and c: "kid a cur (p ! i) = c" "c \<noteq> none"
  defines "k \<equiv> common_len (edge a c) (drop i p)"
  shows "0 < k" "i + k \<le> length p" "take (i + k) p = take i p @ take k (edge a c)"
    "k = length (edge a c) \<Longrightarrow> reach a (take (i + k) p) = Some c \<and> site_ok a (child_site a cur (p ! i)) c"
    "k \<noteq> length (edge a c) \<Longrightarrow> k < length (edge a c)"
    "k \<noteq> length (edge a c) \<Longrightarrow> i + k < length p \<Longrightarrow> p ! (i + k) \<noteq> edge a c ! k"
proof -
  have h: "edge a c \<noteq> []" "hd (edge a c) = p ! i" using art_okD(5,6) [OF ok cur, of "p ! i"] c by simp_all
  note C = common_len_props [of "edge a c" "drop i p", folded k_def]
  show "0 < k" by (rule C(5)) (use h i in \<open>simp_all add: hd_drop_conv_nth\<close>)
  show ik: "i + k \<le> length p" using C(2) i by simp
  show tk: "take (i + k) p = take i p @ take k (edge a c)" unfolding C(3) take_add ..
  show "k < length (edge a c)" if "k \<noteq> length (edge a c)" using that C(1) by simp
  show "p ! (i + k) \<noteq> edge a c ! k" if "k \<noteq> length (edge a c)" "i + k < length p"
  proof -
    have "k < length p - i" using that(2) by linarith
    then show ?thesis using C(4) C(1) that by auto
  qed
  show "reach a (take (i + k) p) = Some c \<and> site_ok a (child_site a cur (p ! i)) c" if "k = length (edge a c)"
  proof -
    have "take k (edge a c) = edge a c" using that by simp
    then show ?thesis using tk reach_kid [OF ok cur, of "p ! i"] c cur unfolding site_ok_def by auto
  qed
qed

lemma insert_loop_inserted:
  assumes "art_ok a" "reach a (take i p) = Some cur" "i \<le> length p"
    "site_ok a site cur \<or> (has_room (art_type cur) (art_node a cur) \<and> (i < length p \<longrightarrow> kid a cur (p ! i) = none))"
  shows "\<exists>r. art_insert_loop p a cur site i = Some r \<and> inserted a p r \<and>
    (site_ok a site cur \<and> length (at_n4 a) + 2 \<le> kMaxN4 \<and> spare a ArtN4 \<or>
     (has_room (art_type cur) (art_node a cur) \<and> (i < length p \<longrightarrow> kid a cur (p ! i) = none)) \<and> length (at_n4 a) < kMaxN4 \<longrightarrow> \<not> isl r)"
  using assms
proof (induction "length p - i" arbitrary: a i cur site rule: less_induct)
  case less
  note ok = less.prems(1) and cur = less.prems(2)
  show ?case
  proof (cases "i < length p")
    case False
    then have "art_insert_loop p a cur site i = Some (Inr (a, cur))" by (simp add: art_insert_loop.simps)
    moreover have "take i p = p" using False by simp
    ultimately show ?thesis using ok cur by (simp add: inserted_def)
  next
    case i: True
    let ?c = "kid a cur (p ! i)"
    show ?thesis
    proof (cases "?c = none")
      case True
      have s: "site_ok a site cur \<or> has_room (art_type cur) (art_node a cur)" using less.prems(4) by blast
      from loop_leaf [OF ok cur i True s] obtain r where r: "art_insert_loop p a cur site i = Some r" "inserted a p r"
        "length (at_n4 a) < kMaxN4 \<and> (spare a ArtN4 \<or> has_room (art_type cur) (art_node a cur)) \<Longrightarrow> \<not> isl r" by blast
      have "length (at_n4 a) + 2 \<le> kMaxN4 \<Longrightarrow> length (at_n4 a) < kMaxN4" by simp
      then show ?thesis using r by blast
    next
      case False
      have site: "site_ok a site cur" using less.prems(4) i False by blast
      let ?k = "common_len (edge a ?c) (drop i p)"
      note K = loop_child [OF ok cur i refl False]
      have lt: "length p - (i + ?k) < length p - i" using K(1) i by simp
      have run: "art_insert_loop p a cur site i = (if ?k = length (edge a ?c) then art_insert_loop p a ?c (child_site a cur (p ! i)) (i + ?k)
          else case art_split ?c ?k site a of None \<Rightarrow> Some (Inl ()) | Some (cur', a') \<Rightarrow> art_insert_loop p a' cur' site (i + ?k))"
        using i False by (subst art_insert_loop.simps) (simp add: find_child_node header_node Let_def)
      show ?thesis
      proof (cases "?k = length (edge a ?c)")
        case True
        have d: "reach a (take (i + ?k) p) = Some ?c" "site_ok a (child_site a cur (p ! i)) ?c" using K(4) [OF True] by blast+
        from less.hyps [OF lt ok d(1) K(2) disjI1 [OF d(2)]]
        obtain r where r: "art_insert_loop p a ?c (child_site a cur (p ! i)) (i + ?k) = Some r" "inserted a p r"
          "length (at_n4 a) + 2 \<le> kMaxN4 \<and> spare a ArtN4 \<Longrightarrow> \<not> isl r" using d(2) by blast
        have "art_insert_loop p a cur site i = Some r" unfolding run if_P [OF True] by (rule r(1))
        then show ?thesis using r(2,3) False i by blast
      next
        case nk: False
        have vc: "art_valid a ?c" by (rule art_okD(4) [OF ok cur False])
        show ?thesis
        proof (cases "art_split ?c ?k site a")
          case None
          then have "art_insert_loop p a cur site i = Some (Inl ())" unfolding run if_not_P [OF nk] by simp
          moreover have "\<not> (length (at_n4 a) + 2 \<le> kMaxN4 \<and> spare a ArtN4)"
            using split_spare [OF art_okD(1) [OF ok] vc False, of ?k site] None by auto
          ultimately show ?thesis using False i by (auto simp: inserted_def)
        next
          case (Some q)
          obtain c' a' where q: "q = (c', a')" by fastforce
          note S = split_step [OF ok cur refl False K(1) K(5) [OF nk] Some [unfolded q]]
          obtain t where t: "split_at a (take i p) cur (p ! i) ?c ?k t a'" using S(2) by blast
          note O = split_ok [OF ok t]
          have kn: "kid a' ?c (p ! (i + ?k)) = none" if "i + ?k < length p"
            using t K(6) [OF nk that] by (simp add: split_at_def Let_def)
          have rc: "reach a' (take (i + ?k) p) = Some ?c" unfolding K(3) by (rule O(2))
          have room: "has_room (art_type ?c) (art_node a' ?c) \<and> (i + ?k < length p \<longrightarrow> kid a' ?c (p ! (i + ?k)) = none)" using S(3) kn by blast
          from less.hyps [OF lt O(1) rc K(2) disjI2 [OF room]]
          obtain r where r: "art_insert_loop p a' ?c site (i + ?k) = Some r" "inserted a' p r" "length (at_n4 a') < kMaxN4 \<Longrightarrow> \<not> isl r"
            using room by blast
          have "art_insert_loop p a cur site i = Some r" unfolding run if_not_P [OF nk] using Some q S(1) r(1) by simp
          moreover have "inserted a p r" using r(2) O(3) by (auto simp: inserted_def split: sum.splits)
          moreover have "length (at_n4 a') < kMaxN4" if "length (at_n4 a) + 2 \<le> kMaxN4" "spare a ArtN4"
            using split_spare [OF art_okD(1) [OF ok] vc False _ that(2), of ?k site] that(1) Some q by auto
          ultimately show ?thesis using r(3) False i by blast
        qed
      qed
    qed
  qed
qed

text \<open>The route stored at the node where the descent ends.\<close>

definition set_terminal :: "u16 \<Rightarrow> nat \<Rightarrow> u16 \<Rightarrow> art_trie \<Rightarrow> art_trie" where
  "set_terminal n slot idx a = set_header n ((art_header_of a n)\<lparr>ah_route := (ah_route (art_header_of a n))[slot := idx]\<rparr>) a"

lemma set_terminal_node:
  assumes ok: "store_ok a" and n: "art_valid a n"
  shows "kid (set_terminal n slot idx a) r = kid a r" "edge (set_terminal n slot idx a) r = edge a r"
    "routes (set_terminal n slot idx a) r = (if r = n then (routes a n)[slot := idx] else routes a r)"
    "store_ok (set_terminal n slot idx a)" "art_valid (set_terminal n slot idx a) = art_valid a" "at_root (set_terminal n slot idx a) = at_root a"
proof -
  let ?h = "(node_hdr (art_node a n))\<lparr>ah_route := (routes a n)[slot := idx]\<rparr>"
  have nok: "node_ok (art_type n) (node_with_hdr ?h (art_node a n))"
    using store_okD [OF ok n] by (intro node_with_hdr_ok) (simp_all add: node_ok_def)
  have e: "set_terminal n slot idx a = set_node n (node_with_hdr ?h (art_node a n)) a" by (simp add: set_terminal_def set_header_eq header_node)
  note N = node_set [OF n nok, folded e]
  show "kid (set_terminal n slot idx a) r = kid a r" "edge (set_terminal n slot idx a) r = edge a r"
    "routes (set_terminal n slot idx a) r = (if r = n then (routes a n)[slot := idx] else routes a r)" by (simp_all add: N)
  show "store_ok (set_terminal n slot idx a)" unfolding e by (rule store_ok_set [OF ok n nok])
  show "art_valid (set_terminal n slot idx a) = art_valid a" "at_root (set_terminal n slot idx a) = at_root a" by (simp_all add: e fun_eq_iff)
qed

lemma set_terminal_walk:
  assumes "store_ok a" "art_valid a n"
  shows "art_walk (set_terminal n slot idx a) m q = art_walk a m q"
proof (induction "length q" arbitrary: m q rule: less_induct)
  case less
  show ?case
  proof (cases q)
    case (Cons b q')
    let ?c = "kid a m b"
    have "art_walk (set_terminal n slot idx a) ?c (drop (length (edge a ?c)) (b # q')) = art_walk a ?c (drop (length (edge a ?c)) (b # q'))"
      if "edge a ?c \<noteq> []"
      by (rule less) (use that Cons in \<open>cases "edge a ?c"; auto\<close>)
    then show ?thesis unfolding Cons art_walk.simps(2) set_terminal_node(1,2) [OF assms] by (auto simp: Let_def)
  qed simp
qed

lemma set_terminal_ok:
  assumes ok: "art_ok a" and n: "reach a p = Some n" and slot: "slot < kRouteMethodSlots" and free: "routes a n ! slot = kInvalidRoute"
    and idx: "idx \<noteq> kInvalidRoute"
  shows "art_ok (set_terminal n slot idx a)" "art_table (set_terminal n slot idx a) = table_insert p slot idx (art_table a)"
proof -
  note v = reach_valid(1) [OF ok n]
  note S = set_terminal_node [OF art_okD(1) [OF ok] v, of slot idx] and W = set_terminal_walk [OF art_okD(1) [OF ok] v, of slot idx]
  show "art_ok (set_terminal n slot idx a)" unfolding art_ok_def S W using ok S(4) unfolding art_ok_def by blast
  have len: "length (routes a n) = kRouteMethodSlots" using store_okD [OF art_okD(1) [OF ok] v] by (simp add: node_ok_def)
  show "art_table (set_terminal n slot idx a) = table_insert p slot idx (art_table a)"
  proof (rule ext, rule ext)
    fix q s
    show "art_table (set_terminal n slot idx a) q s = table_insert p slot idx (art_table a) q s"
    proof (cases "reach a q")
      case None
      then show ?thesis using n by (auto simp: art_table_def table_insert_def S W)
    next
      case (Some m)
      have "m = n \<longleftrightarrow> q = p" using Some n art_okD(3) [OF ok] by auto
      then show ?thesis using Some n slot free idx len by (auto simp: art_table_def table_insert_def S W nth_list_update)
    qed
  qed
qed

lemma art_clear_root:
  "at_root art_clear = 0" "art_node art_clear 0 = Linear new_n4" "art_valid art_clear r \<longleftrightarrow> art_type r = ArtN4 \<and> art_idx r = 0"
proof -
  show "at_root art_clear = 0" by code_simp
  have "art_type 0 = ArtN4" "art_idx 0 = 0" by code_simp+
  then show "art_node art_clear 0 = Linear new_n4" by (simp add: art_node_def art_clear_def)
  show "art_valid art_clear r \<longleftrightarrow> art_type r = ArtN4 \<and> art_idx r = 0"
    by (cases "art_type r") (simp_all add: art_valid_def art_clear_def)
qed

lemma art_clear_reach: "art_walk art_clear 0 q = (if q = [] then Some 0 else None)"
  by (cases q) (simp_all add: art_clear_root art_walk.simps(2) node_kid_def find_linear_def new_n4_def)

lemma art_clear_table: "art_table art_clear q slot = None"
  by (auto simp: art_table_def art_clear_reach art_clear_root node_hdr_def new_n4_def new_header_def)

lemma art_clear_ok: "art_ok art_clear"
proof -
  have t0: "art_type 0 = ArtN4" "art_idx 0 = 0" by code_simp+
  have store: "store_ok art_clear" unfolding store_ok_def art_clear_root
    using new_nodes_ok(1) by (auto simp: art_clear_def kMaxN4_def art_node_def)
  have kid0: "kid art_clear 0 b = none" for b by (simp add: art_clear_root node_kid_def find_linear_def new_n4_def)
  show ?thesis unfolding art_ok_def art_clear_reach art_clear_root using store t0 kid0 by (auto split: if_splits)
qed

lemma art_insert_slot:
  assumes ok: "art_ok a" and idx: "idx \<noteq> kInvalidRoute" and Some: "route_method_slot m = Some slot"
  shows "\<exists>b a'. art_insert a path m idx = Some (b, a') \<and> art_ok a' \<and> (\<not> b \<longrightarrow> a' = a) \<and>
    (b \<longrightarrow> art_table a' = table_insert (strip_slashes path) slot idx (art_table a)) \<and>
    (length (at_n4 a) + 2 \<le> kMaxN4 \<and> length (at_n16 a) < kMaxN16 \<and> length (at_n48 a) < kMaxN48 \<and> length (at_n256 a) < kMaxN256 \<longrightarrow> b)"
proof -
  obtain lo n where f: "finalize_path_canonical path = (lo, n)" by fastforce
  let ?p = "strip_slashes path"
  have p: "take n (drop lo path) = ?p" by (rule finalize_strip(2) [OF f])
  have r0: "reach a (take 0 ?p) = Some (at_root a)" "site_ok a RootSite (at_root a)" by (simp_all add: site_ok_def)
  obtain r where r: "art_insert_loop ?p a (at_root a) RootSite 0 = Some r" "inserted a ?p r"
    "length (at_n4 a) + 2 \<le> kMaxN4 \<and> spare a ArtN4 \<Longrightarrow> \<not> isl r"
    using insert_loop_inserted [OF ok r0(1) le0 disjI1 [OF r0(2)]] r0(2) by blast
  note run = art_insert_def [of a path m idx, unfolded Some f option.case Let_def prod.case p r(1)]
  show ?thesis
  proof (cases r)
    case (Inl u)
    then show ?thesis using run ok r(3) by (auto simp: spare_def)
  next
    case (Inr q)
    obtain u cur where q: "q = (u, cur)" by fastforce
    have u: "art_ok u" "reach u ?p = Some cur" "art_table u = art_table a" using r(2) by (simp_all add: inserted_def Inr q)
    note sl = route_method_slot_bound [OF Some]
    show ?thesis
    proof (cases "routes u cur ! slot = kInvalidRoute")
      case True
      then show ?thesis using run Inr q Some set_terminal_ok [OF u(1,2) sl True idx] u(3)
        by (intro exI [of _ True] exI [of _ "set_terminal cur slot idx u"]) (simp add: header_node set_terminal_def)
    next
      case False
      then have "art_table a ?p slot \<noteq> None" using u(2) sl unfolding u(3) [symmetric] by (simp add: art_table_def)
      then have "art_table u = table_insert ?p slot idx (art_table a)" using u(3) table_insert_same [of "art_table a"] by simp
      then show ?thesis using run Inr q Some u(1) False by (intro exI [of _ True] exI [of _ u]) (simp add: header_node)
    qed
  qed
qed

text \<open>
  C6: \<open>ArtTrie::insert\<close> always returns, and it refines insertion into a table keyed by the canonical bytes of the path and
  the method slot, where the first route stored at a key stays: through node upgrades, edge splits and moved children it keeps the
  pools a tree, an insertion that fails leaves the tree as it was, an insertion that succeeds changes the table at that key only, and
  it does succeed when the method is known and each pool of wider nodes has a free slot and the pool of four-way nodes two.
\<close>

theorem art_insert_refines:
  assumes ok: "art_ok a" and idx: "idx \<noteq> kInvalidRoute"
  shows "\<exists>b a'. art_insert a path m idx = Some (b, a') \<and> art_ok a' \<and> (\<not> b \<longrightarrow> a' = a) \<and>
    (b \<longrightarrow> (\<exists>slot. route_method_slot m = Some slot \<and> art_table a' = table_insert (strip_slashes path) slot idx (art_table a))) \<and>
    (route_method_slot m \<noteq> None \<and> length (at_n4 a) + 2 \<le> kMaxN4 \<and> length (at_n16 a) < kMaxN16 \<and> length (at_n48 a) < kMaxN48 \<and>
       length (at_n256 a) < kMaxN256 \<longrightarrow> b)"
proof (cases "route_method_slot m")
  case None
  then show ?thesis using ok by (intro exI [of _ False] exI [of _ a]) (simp add: art_insert_def)
next
  case (Some slot)
  then show ?thesis using art_insert_slot [OF ok idx Some, of path] by auto
qed

theorem art_insert_refines_witness:
  "\<exists>a'. art_insert art_clear (ascii ''/api/'') (of_char CHR ''G'') 7 = Some (True, a') \<and> art_ok a' \<and>
     art_table a' = table_insert (ascii ''api'') 1 7 (art_table art_clear)"
proof -
  have s: "route_method_slot (of_char CHR ''G'') = Some 1" by code_simp
  have p: "strip_slashes (ascii ''/api/'') = ascii ''api''" by code_simp
  have i: "(7 :: u16) \<noteq> kInvalidRoute" by code_simp
  show ?thesis using art_insert_refines [OF art_clear_ok i, of "ascii ''/api/''" "of_char CHR ''G''"] s
    by (auto simp: p kMaxN4_def kMaxN16_def kMaxN48_def kMaxN256_def art_clear_def)
qed

section \<open>Matching\<close>

text \<open>The route stored for a path: the one of the method, otherwise the one of any method.\<close>

definition stored :: "(bytes \<Rightarrow> nat \<Rightarrow> u16 option) \<Rightarrow> nat \<Rightarrow> bytes \<Rightarrow> u16 option" where
  "stored m slot p = (case m p slot of None \<Rightarrow> m p 0 | Some r \<Rightarrow> Some r)"

text \<open>The route of the longest of the first \<open>i\<close> prefixes of \<open>p\<close> that has one.\<close>

definition longest :: "(bytes \<Rightarrow> u16 option) \<Rightarrow> bytes \<Rightarrow> nat \<Rightarrow> u16 \<Rightarrow> bool" where
  "longest f p i r = (if r = kInvalidRoute then \<forall>k \<le> i. f (take k p) = None
     else \<exists>n \<le> i. f (take n p) = Some r \<and> (\<forall>k. n < k \<longrightarrow> k \<le> i \<longrightarrow> f (take k p) = None))"

lemma longest_none: "longest f p i r \<Longrightarrow> i \<le> j \<Longrightarrow> (\<And>k. i < k \<Longrightarrow> k \<le> j \<Longrightarrow> f (take k p) = None) \<Longrightarrow> longest f p j r"
  unfolding longest_def by (auto split: if_splits) (metis not_le_imp_less, metis le_trans not_le_imp_less)

lemma longest_here:
  "f (take j p) = Some r \<Longrightarrow> r \<noteq> kInvalidRoute \<Longrightarrow> longest f p j r"
  by (auto simp: longest_def)

lemma longest_step:
  assumes "longest f p i r" "i < j" "\<And>k. i < k \<Longrightarrow> k < j \<Longrightarrow> f (take k p) = None" "\<And>x. f (take j p) = Some x \<Longrightarrow> x \<noteq> kInvalidRoute"
  shows "longest f p j (case f (take j p) of None \<Rightarrow> r | Some x \<Rightarrow> x)"
proof (cases "f (take j p)")
  case None
  have "longest f p j r"
  proof (rule longest_none [OF assms(1)])
    fix k assume "i < k" "k \<le> j"
    then show "f (take k p) = None" using assms(3) None by (cases "k = j") simp_all
  qed (use assms(2) in simp)
  with None show ?thesis by simp
next
  case (Some x)
  then show ?thesis using longest_here [of f j p x] assms(4) [OF Some] by simp
qed

lemma pick_stored:
  assumes "reach a q = Some n" "slot < kRouteMethodSlots"
  shows "art_pick_terminal (node_hdr (art_node a n)) slot = (case stored (art_table a) slot q of None \<Rightarrow> kInvalidRoute | Some r \<Rightarrow> r)"
  using assms by (auto simp: art_pick_terminal_def stored_def art_table_def kRouteMethodSlots_def)

lemma stored_valid: "stored (art_table a) slot q = Some r \<Longrightarrow> r \<noteq> kInvalidRoute"
  by (auto simp: stored_def art_table_def split: option.splits if_splits)

lemma stored_none: "reach a q = None \<Longrightarrow> stored (art_table a) slot q = None"
  by (simp add: stored_def art_table_def)

text \<open>The paths of the tree below a node on the path.\<close>

lemma reach_beyond:
  assumes ok: "art_ok a" and cur: "reach a (take i p) = Some cur" and k: "i < k" "k \<le> length p" and n: "reach a (take k p) = Some n"
  defines "c \<equiv> kid a cur (p ! i)"
  shows "c \<noteq> none" "i + length (edge a c) \<le> k" "take (length (edge a c)) (drop i p) = edge a c"
proof -
  have tk: "take k p = take i p @ take (k - i) (drop i p)" using k(1) by (metis less_imp_le le_add_diff_inverse take_add)
  have i: "i < length p" using k by simp
  then have d: "take (k - i) (drop i p) = p ! i # take (k - Suc i) (drop (Suc i) p)"
    using k(1) by (simp add: Cons_nth_drop_Suc [symmetric] take_Cons' Suc_diff_Suc)
  have "art_walk a cur (p ! i # take (k - Suc i) (drop (Suc i) p)) = Some n"
    using n unfolding tk art_walk_append [OF cur] d .
  then obtain q where q: "c \<noteq> none" "p ! i # take (k - Suc i) (drop (Suc i) p) = edge a c @ q"
    unfolding c_def by (elim art_walk_Cons)
  show "c \<noteq> none" by (fact q)
  have e: "take (k - i) (drop i p) = edge a c @ q" unfolding d by (fact q)
  have "length (edge a c) \<le> length (take (k - i) (drop i p))" unfolding e by simp
  then have le: "length (edge a c) \<le> k - i" using k by simp
  then show "i + length (edge a c) \<le> k" using k(1) by simp
  have "take (length (edge a c)) (drop i p) = take (length (edge a c)) (take (k - i) (drop i p))" using le by (simp add: min_absorb1)
  then show "take (length (edge a c)) (drop i p) = edge a c" unfolding e by simp
qed

lemma edge_test: "i + length e \<le> length p \<Longrightarrow> list_all (\<lambda>k. e ! k = p ! (i + k)) [0..<length e] \<longleftrightarrow> take (length e) (drop i p) = e"
proof -
  assume le: "i + length e \<le> length p"
  have "take (length e) (drop i p) = e \<longleftrightarrow> (\<forall>k < length e. p ! (i + k) = e ! k)"
    unfolding list_eq_iff_nth_eq using le by simp
  then show ?thesis unfolding list_all_iff by (auto dest: sym)
qed

lemma match_loop_longest:
  assumes "art_ok a" "reach a (take i p) = Some cur" "i \<le> length p" "slot < kRouteMethodSlots" "longest (stored (art_table a) slot) p i best"
  shows "\<exists>r. art_match_loop a slot p cur i best = Some r \<and> longest (stored (art_table a) slot) p (length p) r"
  using assms
proof (induction "length p - i" arbitrary: i cur best rule: less_induct)
  case less
  note ok = less.prems(1) and cur = less.prems(2)
  let ?f = "stored (art_table a) slot"
  show ?case
  proof (cases "i < length p")
    case False
    then show ?thesis using less.prems(3,5) by (simp add: art_match_loop.simps)
  next
    case i: True
    let ?c = "kid a cur (p ! i)"
    let ?e = "edge a ?c"
    have beyond: "?c \<noteq> none \<and> i + length ?e \<le> k \<and> take (length ?e) (drop i p) = ?e" if "i < k" "k \<le> length p" "reach a (take k p) \<noteq> None" for k
      using reach_beyond [OF ok cur that(1,2)] that(3) by blast
    show ?thesis
    proof (cases "?c \<noteq> none \<and> i + length ?e \<le> length p \<and> take (length ?e) (drop i p) = ?e")
      case True
      then have cn: "?c \<noteq> none" and le: "i + length ?e \<le> length p" and te: "take (length ?e) (drop i p) = ?e" by blast+
      have ne: "0 < length ?e" using art_okD(5) [OF ok cur cn] by simp
      have tk: "take (i + length ?e) p = take i p @ ?e" unfolding take_add te ..
      have rc: "reach a (take (i + length ?e) p) = Some ?c" unfolding tk by (rule reach_kid [OF ok cur cn])
      define best' where "best' = (case ?f (take (i + length ?e) p) of None \<Rightarrow> best | Some x \<Rightarrow> x)"
      have b': "longest ?f p (i + length ?e) best'" unfolding best'_def
      proof (rule longest_step [OF less.prems(5)])
        fix k assume k: "i < k" "k < i + length ?e"
        then have "reach a (take k p) = None" using beyond [of k] le by linarith
        then show "?f (take k p) = None" by (rule stored_none)
      qed (use ne stored_valid in auto)
      have "art_match_loop a slot p cur i best = art_match_loop a slot p ?c (i + length ?e) best'"
        using i cn le te edge_test [OF le] stored_valid [of a slot "take (i + length ?e) p"]
        by (subst art_match_loop.simps) (simp add: find_child_node header_node Let_def pick_stored [OF rc less.prems(4)] best'_def split: option.split)
      moreover have "length p - (i + length ?e) < length p - i" using ne i by linarith
      ultimately show ?thesis using less.hyps [OF _ ok rc le less.prems(4) b'] by simp
    next
      case False
      have "art_match_loop a slot p cur i best = Some best"
        using False i edge_test [of i ?e p] by (subst art_match_loop.simps) (auto simp: find_child_node header_node Let_def)
      moreover have "longest ?f p (length p) best"
      proof (rule longest_none [OF less.prems(5,3)])
        fix k assume k: "i < k" "k \<le> length p"
        then have "reach a (take k p) = None" using beyond [OF k] False by linarith
        then show "?f (take k p) = None" by (rule stored_none)
      qed
      ultimately show ?thesis by blast
    qed
  qed
qed

lemma uniform_n4:
  assumes "art_ok a" "at_uniform a" "reach a q = Some n"
  shows "art_type n = ArtN4"
  using reach_valid(1) [OF assms(1,3)] art_okD(1) [OF assms(1)] assms(2)
  by (cases "art_type n") (simp_all add: art_valid_def store_ok_def)

text \<open>The specialised loop is the general one.\<close>

lemma match_n4_loop:
  assumes "art_ok a" "at_uniform a" "reach a (take i p) = Some cur"
  shows "art_match_n4 a slot p (art_idx cur) i best = art_match_loop a slot p cur i best"
  using assms(3)
proof (induction "length p - i" arbitrary: i cur best rule: less_induct)
  case less
  note N = uniform_n4 [OF assms(1,2)]
  let ?c = "kid a cur (p ! i)"
  have c: "find_linear (at_n4 a ! art_idx cur) (p ! i) = ?c" "art_find_child a cur (p ! i) = ?c"
    using N [OF less.prems] by (simp_all add: art_find_child_def art_node_def node_kid_def)
  show ?case
  proof (cases "i < length p \<and> ?c \<noteq> none")
    case False
    then show ?thesis using c by (simp add: art_match_n4.simps [of _ _ _ _ i] art_match_loop.simps [of _ _ _ _ i])
  next
    case True
    then have i: "i < length p" and cn: "?c \<noteq> none" by blast+
    let ?e = "edge a ?c"
    have "art_type ?c = ArtN4" by (rule N [OF reach_kid [OF assms(1) less.prems cn]])
    then have h: "al_hdr (at_n4 a ! art_idx ?c) = node_hdr (art_node a ?c)" "art_header_of a ?c = node_hdr (art_node a ?c)"
      by (simp_all add: art_node_def node_hdr_def header_node)
    have ne: "0 < length ?e" using art_okD(5) [OF assms(1) less.prems cn] by simp
    have lt: "length p - (i + length ?e) < length p - i" using ne i by linarith
    have IH: "art_match_n4 a slot p (art_idx ?c) (i + length ?e) b = art_match_loop a slot p ?c (i + length ?e) b"
      if "i + length ?e \<le> length p" "list_all (\<lambda>k. ?e ! k = p ! (i + k)) [0..<length ?e]" for b
    proof -
      have "take (i + length ?e) p = take i p @ ?e" using edge_test [OF that(1)] that(2) by (simp add: take_add)
      then show ?thesis using less.hyps [OF lt] reach_kid [OF assms(1) less.prems cn] by simp
    qed
    show ?thesis
      unfolding art_match_n4.simps [of _ _ _ _ i] art_match_loop.simps [of _ _ _ _ i] Let_def c h using IH by simp
  qed
qed

lemma art_match_spec:
  assumes ok: "art_ok a"
  shows "\<exists>r. art_match_canonical_key a p key = Some r \<and>
    (case route_method_slot_from_key key of None \<Rightarrow> r = kInvalidRoute
     | Some slot \<Rightarrow> if r = kInvalidRoute then (\<forall>k \<le> length p. stored (art_table a) slot (take k p) = None)
         else (\<exists>n \<le> length p. stored (art_table a) slot (take n p) = Some r \<and>
                 (\<forall>k. n < k \<longrightarrow> k \<le> length p \<longrightarrow> stored (art_table a) slot (take k p) = None)))"
proof (cases "route_method_slot_from_key key")
  case None
  then show ?thesis by (simp add: art_match_canonical_key_def)
next
  case (Some slot)
  then have sl: "slot < kRouteMethodSlots" by (simp add: route_method_slot_from_key_def split: if_splits)
  let ?best = "art_pick_terminal (node_hdr (art_node a (at_root a))) slot"
  have r0: "reach a (take 0 p) = Some (at_root a)" by simp
  have b0: "longest (stored (art_table a) slot) p 0 ?best"
    using pick_stored [of a "[]" "at_root a" slot] sl stored_valid [of a slot "[]"] by (auto simp: longest_def split: option.splits)
  obtain r where r: "art_match_loop a slot p (at_root a) 0 ?best = Some r" "longest (stored (art_table a) slot) p (length p) r"
    using match_loop_longest [OF ok r0 le0 sl b0] by blast
  have "art_match_canonical_key a p key = Some r"
  proof (cases "at_uniform a")
    case True
    have "art_type (at_root a) = ArtN4" by (rule uniform_n4 [OF ok True r0])
    then have "al_hdr (at_n4 a ! art_idx (at_root a)) = node_hdr (art_node a (at_root a))" by (simp add: art_node_def node_hdr_def)
    then show ?thesis using True Some r(1) match_n4_loop [OF ok True r0] by (simp add: art_match_canonical_key_def)
  next
    case False
    then show ?thesis using Some r(1) by (simp add: art_match_canonical_key_def header_node)
  qed
  then show ?thesis using r(2) Some by (simp add: longest_def)
qed

text \<open>
  C7: \<open>ArtTrie::match_canonical_key\<close>, in the loop over four-way nodes only and in the loop over all node types, always
  returns, and it returns the route of the longest prefix of the path that has a route for the method or for any method, the
  route of the method first, and no route exactly when no prefix has one.
\<close>

theorem art_match_longest:
  assumes ok: "art_ok a"
  shows "\<exists>r. art_match_canonical_key a p key = Some r \<and>
    (case route_method_slot_from_key key of None \<Rightarrow> r = kInvalidRoute
     | Some slot \<Rightarrow> if r = kInvalidRoute then (\<forall>k \<le> length p. stored (art_table a) slot (take k p) = None)
         else (\<exists>n \<le> length p. stored (art_table a) slot (take n p) = Some r \<and>
                 (\<forall>k. n < k \<longrightarrow> k \<le> length p \<longrightarrow> stored (art_table a) slot (take k p) = None)))"
  using assms by (rule art_match_spec)

theorem art_match_longest_witness:
  "\<exists>a'. art_insert art_clear (ascii ''/api'') (of_char CHR ''G'') 7 = Some (True, a') \<and>
     art_match_canonical_key a' (ascii ''api/v1'') 1 = Some 7"
proof -
  let ?p = "ascii ''api/v1''"
  have s: "route_method_slot (of_char CHR ''G'') = Some 1" "route_method_slot_from_key 1 = Some 1" by code_simp+
  have k: "strip_slashes (ascii ''/api'') = ascii ''api''" "take 3 ?p = ascii ''api''" "length ?p = 6" by code_simp+
  have i: "(7 :: u16) \<noteq> kInvalidRoute" by code_simp
  obtain a' where a': "art_insert art_clear (ascii ''/api'') (of_char CHR ''G'') 7 = Some (True, a')" "art_ok a'"
    "art_table a' = table_insert (ascii ''api'') 1 7 (art_table art_clear)"
    using art_insert_slot [OF art_clear_ok i s(1), of "ascii ''/api''"]
    by (auto simp: k kMaxN4_def kMaxN16_def kMaxN48_def kMaxN256_def art_clear_def)
  have f: "stored (art_table a') 1 (take n ?p) = (if take n ?p = ascii ''api'' then Some 7 else None)" for n
    by (simp add: stored_def a'(3) table_insert_def art_clear_table)
  have "stored (art_table a') 1 (take 3 ?p) = Some 7" using f [of 3] unfolding k(2) by simp
  moreover have "stored (art_table a') 1 (take n ?p) = Some r \<Longrightarrow> r = 7" for n r unfolding f by (simp split: if_splits)
  moreover obtain r where r: "art_match_canonical_key a' ?p 1 = Some r"
    "if r = kInvalidRoute then \<forall>k \<le> 6. stored (art_table a') 1 (take k ?p) = None
     else \<exists>n \<le> 6. stored (art_table a') 1 (take n ?p) = Some r \<and> (\<forall>k. n < k \<longrightarrow> k \<le> 6 \<longrightarrow> stored (art_table a') 1 (take k ?p) = None)"
    using art_match_longest [OF a'(2), of ?p 1] unfolding s(2) k(3) option.case by blast
  moreover have "(3 :: nat) \<le> 6" by simp
  ultimately have "r = 7" by (metis option.distinct(1))
  with a'(1) r(1) show ?thesis by blast
qed

end
