(* ===== verification/Route_Index.thy ===== *)
theory Route_Index
  imports Route_Art_Routes "HOL-Library.Sublist"
begin

text \<open>
  The contract between the route table and its dispatch structures: insertion is first-wins insertion
  into a table of keys and method slots, and the search returns a route of the highest rank among the keys
  that cover the request.  The segment trie and the adaptive radix tree are the two instances; a table
  filled from a list of routes then answers with the best route of the list, the earliest of equals.
\<close>

text \<open>The table of a list of keys and method slots: the position of the first entry of a key.\<close>

definition first_index :: "('k \<times> nat) list \<Rightarrow> 'k \<Rightarrow> nat \<Rightarrow> u16 option" where
  "first_index rs k s = (case find (\<lambda>i. rs ! i = (k, s)) [0..<length rs] of None \<Rightarrow> None | Some i \<Rightarrow> Some (of_nat i))"

lemma first_index_snoc: "first_index (rs @ [(k, s)]) = table_insert k s (of_nat (length rs)) (first_index rs)"
proof (rule ext, rule ext)
  fix k' s'
  have "find (\<lambda>i. (rs @ [(k, s)]) ! i = (k', s')) [0..<length rs] = find (\<lambda>i. rs ! i = (k', s')) [0..<length rs]"
    by (rule find_cong) (simp_all add: nth_append)
  then show "first_index (rs @ [(k, s)]) k' s' = table_insert k s (of_nat (length rs)) (first_index rs) k' s'"
    by (simp add: first_index_def table_insert_def find_append split: option.split) auto
qed

lemma first_index_None: "first_index rs k s = None \<longleftrightarrow> (k, s) \<notin> set rs"
proof (cases "find (\<lambda>i. rs ! i = (k, s)) [0..<length rs]")
  case None
  then have "(k, s) \<notin> set rs" by (auto simp: find_None_iff in_set_conv_nth)
  with None show ?thesis by (simp add: first_index_def)
next
  case (Some i)
  then have "i < length rs \<and> rs ! i = (k, s)" by (auto simp: find_Some_iff)
  then have "(k, s) \<in> set rs" by (metis nth_mem)
  with Some show ?thesis by (simp add: first_index_def)
qed

lemma first_index_Some:
  assumes "first_index rs k s = Some r" "length rs \<le> 2 ^ 15"
  shows "unat r < length rs" "rs ! unat r = (k, s)" "\<And>j. j < length rs \<Longrightarrow> rs ! j = (k, s) \<Longrightarrow> unat r \<le> j" "r \<noteq> kInvalidRoute"
proof -
  obtain i where i: "find (\<lambda>i. rs ! i = (k, s)) [0..<length rs] = Some i" "r = of_nat i"
    using assms(1) by (auto simp: first_index_def split: option.splits)
  then obtain n where n: "n < length rs" "rs ! n = (k, s)" "i = n" "\<forall>j < n. rs ! j \<noteq> (k, s)" by (auto simp: find_Some_iff)
  have u: "unat r = i" unfolding i(2) by (rule unat_of_nat_small) (use n(1,3) assms(2) in simp)
  show "unat r < length rs" "rs ! unat r = (k, s)" using n u by simp_all
  show "unat r \<le> j" if "j < length rs" "rs ! j = (k, s)" for j using n that unfolding u by (metis not_less)
  have "unat kInvalidRoute = 65535" by (simp add: kInvalidRoute_def)
  moreover have "unat r < 65535" unfolding u using n(1,3) assms(2) by simp
  ultimately show "r \<noteq> kInvalidRoute" by auto
qed

text \<open>The candidates of a list: the routes whose key covers the request and whose method fits.\<close>

definition candidates :: "('k \<times> nat) list \<Rightarrow> ('k \<Rightarrow> bool) \<Rightarrow> nat \<Rightarrow> nat set" where
  "candidates rs cov slot = {i. i < length rs \<and> cov (fst (rs ! i)) \<and> (snd (rs ! i) = slot \<or> snd (rs ! i) = 0)}"

text \<open>\<open>i\<close> is the best candidate: none has a higher rank, and an equal entry does not come before it.\<close>

definition best_candidate :: "('k \<times> nat) list \<Rightarrow> ('k \<Rightarrow> bool) \<Rightarrow> ('k \<Rightarrow> bool \<Rightarrow> 'r::linorder) \<Rightarrow> nat \<Rightarrow> nat \<Rightarrow> bool" where
  "best_candidate rs cov rk slot i \<longleftrightarrow> i \<in> candidates rs cov slot \<and>
     (\<forall>j \<in> candidates rs cov slot. rk (fst (rs ! j)) (snd (rs ! j) \<noteq> 0) \<le> rk (fst (rs ! i)) (snd (rs ! i) \<noteq> 0) \<and>
        (rs ! j = rs ! i \<longrightarrow> i \<le> j))"

text \<open>A structure holds the list.\<close>

definition index_holds :: "('t \<Rightarrow> bool) \<Rightarrow> ('t \<Rightarrow> 'k \<Rightarrow> nat \<Rightarrow> u16 option) \<Rightarrow> 't \<Rightarrow> ('k \<times> nat) list \<Rightarrow> bool" where
  "index_holds ok tab t rs \<longleftrightarrow> ok t \<and> tab t = first_index rs \<and> length rs \<le> 2 ^ 15"

locale route_index =
  fixes ok :: "'t \<Rightarrow> bool" and tab :: "'t \<Rightarrow> 'k \<Rightarrow> nat \<Rightarrow> u16 option" and key :: "bytes \<Rightarrow> 'k"
    and covers :: "'k \<Rightarrow> bytes \<Rightarrow> bool" and rk :: "'k \<Rightarrow> bool \<Rightarrow> 'r::linorder"
    and ins :: "'t \<Rightarrow> bytes \<Rightarrow> u8 \<Rightarrow> u16 \<Rightarrow> (bool \<times> 't) option" and look :: "'t \<Rightarrow> bytes \<Rightarrow> u8 \<Rightarrow> u16 option" and empty :: 't
  assumes empty_ok: "ok empty" "tab empty = (\<lambda>_ _. None)"
    and ins_law: "ok t \<Longrightarrow> idx \<noteq> kInvalidRoute \<Longrightarrow> \<exists>b t'. ins t p m idx = Some (b, t') \<and> ok t' \<and> (\<not> b \<longrightarrow> t' = t) \<and>
      (b \<longrightarrow> (\<exists>slot. route_method_slot m = Some slot \<and> tab t' = table_insert (key p) slot idx (tab t)))"
    and look_law: "ok t \<Longrightarrow> route_method_slot_from_key m = Some slot \<Longrightarrow> \<exists>r. look t p m = Some r \<and>
      (r = kInvalidRoute \<longrightarrow> (\<forall>k. covers k p \<longrightarrow> best_route (tab t) k slot = None)) \<and>
      (r \<noteq> kInvalidRoute \<longrightarrow> (\<exists>k spec. covers k p \<and> best_route (tab t) k slot = Some (r, spec) \<and>
         (\<forall>k' r' spec'. covers k' p \<and> best_route (tab t) k' slot = Some (r', spec') \<longrightarrow> rk k' spec' \<le> rk k spec)))"
    and rk_mono: "rk k False \<le> rk k True"
begin

lemma holds_empty: "index_holds ok tab empty []"
  by (simp add: index_holds_def empty_ok first_index_def fun_eq_iff)

lemma holds_insert:
  assumes "index_holds ok tab t rs" "length rs < 2 ^ 15" "route_method_slot m = Some slot"
  shows "\<exists>b t'. ins t p m (of_nat (length rs)) = Some (b, t') \<and> (\<not> b \<longrightarrow> t' = t) \<and> (b \<longrightarrow> index_holds ok tab t' (rs @ [(key p, slot)]))"
proof -
  have t: "ok t" "tab t = first_index rs" using assms(1) by (simp_all add: index_holds_def)
  have "unat (of_nat (length rs) :: u16) = length rs" by (rule unat_of_nat_small) (use assms(2) in simp)
  moreover have "unat kInvalidRoute = 65535" by (simp add: kInvalidRoute_def)
  ultimately have "(of_nat (length rs) :: u16) \<noteq> kInvalidRoute" using assms(2) by (intro notI) simp
  from ins_law [OF t(1) this, of p m] assms(2,3) t(2) show ?thesis by (auto simp: index_holds_def first_index_snoc)
qed

lemma best_route_first:
  assumes "length rs \<le> 2 ^ 15" "best_route (first_index rs) k slot = Some (r, spec)"
  shows "unat r < length rs" "rs ! unat r = (k, if spec then slot else 0)" "spec \<longrightarrow> slot \<noteq> 0"
    "\<And>j. j < length rs \<Longrightarrow> rs ! j = rs ! unat r \<Longrightarrow> unat r \<le> j"
proof -
  have *: "first_index rs k (if spec then slot else 0) = Some r" and "spec \<longrightarrow> slot \<noteq> 0"
    using assms(2) by (auto simp: best_route_def split: option.splits if_splits)
  note F = first_index_Some [OF * assms(1)]
  show "unat r < length rs" "rs ! unat r = (k, if spec then slot else 0)" "spec \<longrightarrow> slot \<noteq> 0" by fact+
  show "unat r \<le> j" if "j < length rs" "rs ! j = rs ! unat r" for j using F that by simp
qed

lemma best_route_candidate:
  assumes "j < length rs" "snd (rs ! j) = slot \<or> snd (rs ! j) = 0"
  shows "\<exists>r spec. best_route (first_index rs) (fst (rs ! j)) slot = Some (r, spec) \<and> (snd (rs ! j) \<noteq> 0 \<longrightarrow> spec)"
proof -
  have m: "(fst (rs ! j), snd (rs ! j)) \<in> set rs" using assms(1) by simp
  then obtain r where r: "first_index rs (fst (rs ! j)) (snd (rs ! j)) = Some r" using first_index_None [of rs] by fastforce
  show ?thesis
  proof (cases "snd (rs ! j) = 0")
    case True
    with r show ?thesis by (auto simp: best_route_def split: option.split)
  next
    case False
    with r assms(2) show ?thesis by (auto simp: best_route_def)
  qed
qed

lemma look_best:
  assumes t: "index_holds ok tab t rs" and m: "route_method_slot_from_key m = Some slot"
  shows "\<exists>r. look t p m = Some r \<and>
    (if unat r < length rs then best_candidate rs (\<lambda>k. covers k p) rk slot (unat r) else candidates rs (\<lambda>k. covers k p) slot = {})"
proof -
  have T: "ok t" "tab t = first_index rs" "length rs \<le> 2 ^ 15" using t by (simp_all add: index_holds_def)
  obtain r where r: "look t p m = Some r"
    "r = kInvalidRoute \<Longrightarrow> \<forall>k. covers k p \<longrightarrow> best_route (first_index rs) k slot = None"
    "r \<noteq> kInvalidRoute \<Longrightarrow> \<exists>k spec. covers k p \<and> best_route (first_index rs) k slot = Some (r, spec) \<and>
         (\<forall>k' r' spec'. covers k' p \<and> best_route (first_index rs) k' slot = Some (r', spec') \<longrightarrow> rk k' spec' \<le> rk k spec)"
    using look_law [OF T(1) m, of p] unfolding T(2) by blast
  have cand: "\<exists>r' spec. covers (fst (rs ! j)) p \<and> best_route (first_index rs) (fst (rs ! j)) slot = Some (r', spec) \<and> (snd (rs ! j) \<noteq> 0 \<longrightarrow> spec)"
    if "j \<in> candidates rs (\<lambda>k. covers k p) slot" for j
    using that best_route_candidate [of j rs slot] by (auto simp: candidates_def)
  show ?thesis
  proof (cases "r = kInvalidRoute")
    case True
    then have "candidates rs (\<lambda>k. covers k p) slot = {}" using r(2) cand by fastforce
    moreover have "\<not> unat r < length rs" using True T(3) by (simp add: kInvalidRoute_def)
    ultimately show ?thesis using r(1) by simp
  next
    case False
    from r(3) [OF False] obtain k spec where k: "covers k p" "best_route (first_index rs) k slot = Some (r, spec)"
      and max: "\<And>k' r' spec'. covers k' p \<Longrightarrow> best_route (first_index rs) k' slot = Some (r', spec') \<Longrightarrow> rk k' spec' \<le> rk k spec"
      by blast
    note B = best_route_first [OF T(3) k(2)]
    have me: "fst (rs ! unat r) = k" "(snd (rs ! unat r) \<noteq> 0) = spec" using B(2,3) by auto
    have "best_candidate rs (\<lambda>k. covers k p) rk slot (unat r)"
      unfolding best_candidate_def me
    proof (intro conjI ballI impI)
      show "unat r \<in> candidates rs (\<lambda>k. covers k p) slot" using B(1,2) k(1) by (auto simp: candidates_def)
      fix j assume j: "j \<in> candidates rs (\<lambda>k. covers k p) slot"
      obtain r' spec' where c: "covers (fst (rs ! j)) p" "best_route (first_index rs) (fst (rs ! j)) slot = Some (r', spec')" "snd (rs ! j) \<noteq> 0 \<longrightarrow> spec'"
        using cand [OF j] by blast
      have "rk (fst (rs ! j)) (snd (rs ! j) \<noteq> 0) \<le> rk (fst (rs ! j)) spec'" using c(3) rk_mono by (cases "snd (rs ! j) \<noteq> 0"; cases spec') auto
      also have "\<dots> \<le> rk k spec" by (rule max [OF c(1,2)])
      finally show "rk (fst (rs ! j)) (snd (rs ! j) \<noteq> 0) \<le> rk k spec" .
      show "unat r \<le> j" if "rs ! j = rs ! unat r" using B(4) j that by (simp add: candidates_def)
    qed
    then show ?thesis using r(1) B(1) by simp
  qed
qed

end
lemma stored_best: "stored m slot q = map_option fst (best_route m q slot)"
  by (auto simp: stored_def best_route_def split: option.split)

lemma longest_best:
  assumes "if r = kInvalidRoute then \<forall>k \<le> length p. stored m slot (take k p) = None
     else \<exists>n \<le> length p. stored m slot (take n p) = Some r \<and> (\<forall>k. n < k \<longrightarrow> k \<le> length p \<longrightarrow> stored m slot (take k p) = None)"
  shows "(r = kInvalidRoute \<longrightarrow> (\<forall>k. prefix k p \<longrightarrow> best_route m k slot = None)) \<and>
    (r \<noteq> kInvalidRoute \<longrightarrow> (\<exists>k spec. prefix k p \<and> best_route m k slot = Some (r, spec) \<and>
       (\<forall>k' r' spec'. prefix k' p \<and> best_route m k' slot = Some (r', spec') \<longrightarrow> (length k', spec') \<le> (length k, spec))))"
proof -
  have pre: "\<exists>n \<le> length p. k = take n p" if "prefix k p" for k
  proof -
    obtain zs where "p = k @ zs" using \<open>prefix k p\<close> by (rule prefixE)
    then have "length k \<le> length p \<and> k = take (length k) p" by simp
    then show ?thesis by blast
  qed
  show ?thesis
  proof (cases "r = kInvalidRoute")
    case True
    then have "\<forall>k \<le> length p. best_route m (take k p) slot = None" using assms [unfolded if_P [OF True]] by (simp add: stored_best)
    then have "best_route m k slot = None" if "prefix k p" for k using pre [OF that] by (elim exE conjE) simp
    then show ?thesis using True by blast
  next
    case False
    then obtain n where n: "n \<le> length p" "stored m slot (take n p) = Some r" "\<And>k. n < k \<Longrightarrow> k \<le> length p \<Longrightarrow> stored m slot (take k p) = None"
      using assms [unfolded if_not_P [OF False]] by blast
    obtain spec where spec: "best_route m (take n p) slot = Some (r, spec)" using n(2) by (auto simp: stored_best)
    have "(length k', spec') \<le> (length (take n p), spec)" if k: "prefix k' p" "best_route m k' slot = Some (r', spec')" for k' r' spec'
    proof -
      obtain n' where n': "n' \<le> length p" "k' = take n' p" using pre [OF k(1)] by blast
      have "stored m slot (take n' p) \<noteq> None" using k(2) unfolding n'(2) stored_best by simp
      then have "n' \<le> n" using n(3) [OF _ n'(1)] by (meson not_le)
      then show ?thesis using n'(1) n(1) k(2) spec unfolding n'(2) by (cases "n' = n") simp_all
    qed
    moreover have "prefix (take n p) p" by (rule take_is_prefix)
    ultimately show ?thesis using False spec by blast
  qed
qed

interpretation art_index: route_index art_ok art_table strip_slashes prefix "\<lambda>q spec. (length q, spec)"
  art_insert art_match_canonical_key art_clear
proof unfold_locales
  show "art_ok art_clear" "art_table art_clear = (\<lambda>_ _. None)" by (simp_all add: art_clear_ok art_clear_table fun_eq_iff)
next
  fix t idx p m assume "art_ok t" "idx \<noteq> kInvalidRoute"
  note A = this
  show "\<exists>b t'. art_insert t p m idx = Some (b, t') \<and> art_ok t' \<and> (\<not> b \<longrightarrow> t' = t) \<and>
      (b \<longrightarrow> (\<exists>slot. route_method_slot m = Some slot \<and> art_table t' = table_insert (strip_slashes p) slot idx (art_table t)))"
  proof (cases "route_method_slot m")
    case None
    then show ?thesis using A(1) by (intro exI [of _ False] exI [of _ t]) (simp add: art_insert_def)
  next
    case (Some slot)
    from art_insert_slot [OF A Some, of p] show ?thesis using Some by blast
  qed
next
  fix t m slot p assume t: "art_ok t" and m: "route_method_slot_from_key m = Some slot"
  obtain r where r: "art_match_canonical_key t p m = Some r"
    "if r = kInvalidRoute then \<forall>k \<le> length p. stored (art_table t) slot (take k p) = None
     else \<exists>n \<le> length p. stored (art_table t) slot (take n p) = Some r \<and>
       (\<forall>k. n < k \<longrightarrow> k \<le> length p \<longrightarrow> stored (art_table t) slot (take k p) = None)"
    using art_match_spec [OF t, of p m] unfolding m option.case by blast
  show "\<exists>r. art_match_canonical_key t p m = Some r \<and>
      (r = kInvalidRoute \<longrightarrow> (\<forall>k. prefix k p \<longrightarrow> best_route (art_table t) k slot = None)) \<and>
      (r \<noteq> kInvalidRoute \<longrightarrow> (\<exists>k spec. prefix k p \<and> best_route (art_table t) k slot = Some (r, spec) \<and>
         (\<forall>k' r' spec'. prefix k' p \<and> best_route (art_table t) k' slot = Some (r', spec') \<longrightarrow> (length k', spec') \<le> (length k, spec))))"
    using r(1) longest_best [OF r(2)] by blast
next
  show "(length k, False) \<le> (length k, True)" for k :: bytes by simp
qed

definition trie_ins :: "trie_node list \<Rightarrow> bytes \<Rightarrow> u8 \<Rightarrow> u16 \<Rightarrow> (bool \<times> trie_node list) option" where
  "trie_ins t p m idx = Some (trie_insert t p m idx)"

definition trie_look :: "trie_node list \<Rightarrow> bytes \<Rightarrow> u8 \<Rightarrow> u16 option" where
  "trie_look t p m = Some (fst (match_key t p m 0))"

interpretation trie_index: route_index trie_ok trie_table segments "\<lambda>ps p. pat_matches ps (take kMaxPathSegments (segments p))" rank
  trie_ins trie_look trie_clear
proof unfold_locales
  show "trie_ok trie_clear" by (rule trie_clear_ok)
  show "trie_table trie_clear = (\<lambda>_ _. None)"
  proof (rule ext, rule ext)
    fix ps :: "bytes list" and slot
    show "trie_table trie_clear ps slot = None"
      by (cases ps) (auto simp: trie_table_def route_at_def trie_clear_def new_node_def find_child_def split: option.split)
  qed
next
  fix t idx p m assume A: "trie_ok t" "idx \<noteq> kInvalidRoute"
  obtain b t' where "trie_insert t p m idx = (b, t')" by fastforce
  with trie_insert_spec [OF A this] show "\<exists>b t'. trie_ins t p m idx = Some (b, t') \<and> trie_ok t' \<and> (\<not> b \<longrightarrow> t' = t) \<and>
      (b \<longrightarrow> (\<exists>slot. route_method_slot m = Some slot \<and> trie_table t' = table_insert (segments p) slot idx (trie_table t)))"
    by (simp add: trie_ins_def)
next
  fix t m slot p assume A: "trie_ok t" "route_method_slot_from_key m = Some slot"
  obtain r ps where m: "match_key t p m 0 = (r, ps)" by fastforce
  note M = match_key_spec [OF A m refl]
  show "\<exists>r. trie_look t p m = Some r \<and>
      (r = kInvalidRoute \<longrightarrow> (\<forall>k. pat_matches k (take kMaxPathSegments (segments p)) \<longrightarrow> best_route (trie_table t) k slot = None)) \<and>
      (r \<noteq> kInvalidRoute \<longrightarrow> (\<exists>k spec. pat_matches k (take kMaxPathSegments (segments p)) \<and> best_route (trie_table t) k slot = Some (r, spec) \<and>
         (\<forall>k' r' spec'. pat_matches k' (take kMaxPathSegments (segments p)) \<and> best_route (trie_table t) k' slot = Some (r', spec') \<longrightarrow> rank k' spec' \<le> rank k spec)))"
    using M by (intro exI [of _ r]) (auto simp: trie_look_def m)
next
  show "rank k False \<le> rank k True" for k by (simp add: rank_def)
qed

end
