(* ===== verification/Header_Rules.thy ===== *)
theory Header_Rules
  imports Http_Parser
begin

text \<open>
  The validation of response headers (http_header_validation.h): names are tokens, values have no
  control bytes, and the names that frame a message are reserved.
\<close>

datatype http_header_validation = HOk | EmptyKey | InvalidKeyChar | InvalidValueChar | ReservedKey

definition is_http_tchar :: "u8 \<Rightarrow> bool" where
  "is_http_tchar c \<longleftrightarrow> 0x30 \<le> c \<and> c \<le> 0x39 \<or> 0x41 \<le> c \<and> c \<le> 0x5A \<or> 0x61 \<le> c \<and> c \<le> 0x7A \<or>
     c \<in> set (ascii [CHR ''!'', CHR ''#'', CHR ''$'', CHR ''%'', CHR ''&'', CHR 0x27, CHR ''*'', CHR ''+'', CHR ''-'', CHR ''.'',
       CHR ''^'', CHR ''_'', CHR 0x60, CHR ''|'', CHR ''~''])"

definition fold_case :: "u8 \<Rightarrow> u8" where
  "fold_case c = (if 0x41 \<le> c \<and> c \<le> 0x5A then c + 0x20 else c)"

definition http_header_name_eq_ci :: "bytes \<Rightarrow> bytes \<Rightarrow> bool" where
  "http_header_name_eq_ci a b \<longleftrightarrow> length a = length b \<and> list_all (\<lambda>i. fold_case (a ! i) = fold_case (b ! i)) [0..<length a]"

definition is_reserved_response_header_name :: "bytes \<Rightarrow> bool" where
  "is_reserved_response_header_name name \<longleftrightarrow> http_header_name_eq_ci name (ascii ''Content-Length'') \<or>
     http_header_name_eq_ci name (ascii ''Transfer-Encoding'') \<or> http_header_name_eq_ci name (ascii ''Connection'')"

definition validate_response_header :: "bytes \<Rightarrow> bytes \<Rightarrow> http_header_validation" where
  "validate_response_header key val =
     (if key = [] then EmptyKey
      else if \<not> list_all is_http_tchar key then InvalidKeyChar
      else if is_reserved_response_header_name key then ReservedKey
      else if \<not> list_all (\<lambda>c. c = HTAB \<or> \<not> (c < 0x20 \<or> c = 0x7F)) val then InvalidValueChar
      else HOk)"

section \<open>Validation and the header grammar of the parser\<close>

lemma tchar_token: "is_http_tchar c \<longleftrightarrow> token_ok c"
proof -
  let ?n = "unat c"
  have b: "?n < 256" by (rule unat_u8)
  have "is_http_tchar c \<longleftrightarrow> 48 \<le> ?n \<and> ?n \<le> 57 \<or> 65 \<le> ?n \<and> ?n \<le> 90 \<or> 97 \<le> ?n \<and> ?n \<le> 122 \<or>
    ?n = 33 \<or> ?n = 35 \<or> ?n = 36 \<or> ?n = 37 \<or> ?n = 38 \<or> ?n = 39 \<or> ?n = 42 \<or> ?n = 43 \<or> ?n = 45 \<or> ?n = 46 \<or>
    ?n = 94 \<or> ?n = 95 \<or> ?n = 96 \<or> ?n = 124 \<or> ?n = 126"
    by (simp add: is_http_tchar_def ascii_def word_le_nat_alt word_unat_eq_iff)
  moreover have "token_ok c \<longleftrightarrow> (48 \<le> ?n \<and> ?n \<le> 57 \<or> 65 \<le> ?n \<and> ?n \<le> 90 \<or> 97 \<le> ?n \<and> ?n \<le> 122 \<or>
    ?n = 33 \<or> 35 \<le> ?n \<and> ?n \<le> 39 \<or> ?n = 42 \<or> ?n = 43 \<or> ?n = 45 \<or> ?n = 46 \<or> 94 \<le> ?n \<and> ?n \<le> 96 \<or> ?n = 124 \<or> ?n = 126)"
    using b by (simp add: token_ok_def token_table)
  moreover have "35 \<le> ?n \<and> ?n \<le> 39 \<longleftrightarrow> ?n = 35 \<or> ?n = 36 \<or> ?n = 37 \<or> ?n = 38 \<or> ?n = 39" by arith
  moreover have "94 \<le> ?n \<and> ?n \<le> 96 \<longleftrightarrow> ?n = 94 \<or> ?n = 95 \<or> ?n = 96" by arith
  ultimately show ?thesis by argo
qed

lemma name_eq_ci_iff: "http_header_name_eq_ci a b \<longleftrightarrow> map fold_case a = map fold_case b"
proof (cases "length a = length b")
  case True
  then show ?thesis unfolding http_header_name_eq_ci_def list_eq_iff_nth_eq by (simp add: list_all_iff Ball_def)
next
  case False
  then have "map fold_case a \<noteq> map fold_case b" by (metis length_map)
  with False show ?thesis by (simp add: http_header_name_eq_ci_def)
qed

lemma value_test: "(c = HTAB \<or> \<not> (c < 0x20 \<or> c = 0x7F)) \<longleftrightarrow> value_ok c"
  by (auto simp: value_ok_iff not_less)

text \<open>An accepted pair is a field of the grammar that the parsers accept.\<close>

lemma validate_ok:
  "validate_response_header k v = HOk \<longleftrightarrow>
     k \<noteq> [] \<and> list_all token_ok k \<and> \<not> is_reserved_response_header_name k \<and> list_all value_ok v"
  unfolding validate_response_header_def value_test tchar_token [abs_def]
  by (simp add: tchar_token list_all_iff)

end
