(* ===== verification/Route_Config.thy ===== *)
theory Route_Config
  imports Route_Index Header_Rules
begin

text \<open>
  The route table (route_table.h, route_select.cc): route entries, upstream targets, the pools of response
  bodies and header sets, the builder operations and the match of a request.  A C string is the list of its
  bytes before the terminator.  A null pointer is \<open>None\<close>.  Handlers are values of the type \<open>'fn\<close>.
\<close>

section \<open>Selection of the dispatch structure\<close>

fun param_scan :: "bool \<Rightarrow> bytes \<Rightarrow> bool" where
  "param_scan at_segment_start [] = False"
| "param_scan at_segment_start (c # cs) =
     (if c = 0x2F then param_scan True cs
      else if at_segment_start \<and> c = 0x3A then True
      else param_scan False cs)"

definition path_has_param_segment :: "bytes \<Rightarrow> bool" where
  "path_has_param_segment path = param_scan True path"

definition is_strict_byte_prefix :: "bytes \<Rightarrow> bytes \<Rightarrow> bool" where
  "is_strict_byte_prefix a b \<longleftrightarrow> length a < length b \<and> list_all (\<lambda>i. a ! i = b ! i) [0..<length a]"

definition boundary_sensitive_after_prefix :: "bytes \<Rightarrow> bytes \<Rightarrow> bool" where
  "boundary_sensitive_after_prefix shorter longer \<longleftrightarrow> shorter \<noteq> [] \<and> longer ! length shorter \<noteq> 0x2F"

definition canonical_path :: "bytes \<Rightarrow> bytes" where
  "canonical_path p = (let (lo, n) = finalize_path_canonical p in take n (drop lo p))"

definition has_boundary_sensitive_overlap :: "bytes list \<Rightarrow> bool" where
  "has_boundary_sensitive_overlap paths \<longleftrightarrow>
     list_ex (\<lambda>i. list_ex (\<lambda>j.
       let a = canonical_path (paths ! i); b = canonical_path (paths ! j) in
       if is_strict_byte_prefix a b then boundary_sensitive_after_prefix a b
       else if is_strict_byte_prefix b a then boundary_sensitive_after_prefix b a
       else False) [i + 1..<length paths]) [0..<length paths]"

definition needs_segment_aware :: "bytes list \<Rightarrow> bool" where
  "needs_segment_aware paths \<longleftrightarrow> list_ex path_has_param_segment paths \<or> has_boundary_sensitive_overlap paths"

section \<open>Entries\<close>

datatype route_action = StaticRoute | ProxyRoute | JitHandlerRoute

record 'fn route_entry =
  re_path :: bytes
  re_method :: u8
  re_action :: route_action
  re_upstream_id :: u16
  re_status_code :: u16
  re_fn :: "'fn option"
  re_needs_req_body :: bool

definition kMaxPathLen :: nat where "kMaxPathLen = 128"
definition kMaxRoutes :: nat where "kMaxRoutes = 128"
definition kMaxUpstreams :: nat where "kMaxUpstreams = 64"
definition kMaxUpstreamNameLen :: nat where "kMaxUpstreamNameLen = 32"
definition kMaxResponseBodies :: nat where "kMaxResponseBodies = 128"
definition kResponseBodyPoolBytes :: u32 where "kResponseBodyPoolBytes = 8 * 1024"
definition kMaxResponseHeaderSets :: nat where "kMaxResponseHeaderSets = 128"
definition kMaxHeaderPoolEntries :: u32 where "kMaxHeaderPoolEntries = 512"
definition kResponseHeaderBytesPoolBytes :: u32 where "kResponseHeaderBytesPoolBytes = 8 * 1024"
definition kMaxHeadersPerSet :: u32 where "kMaxHeadersPerSet = 32"

text \<open>An address in network byte order.\<close>

definition bswap16 :: "u16 \<Rightarrow> u16" where
  "bswap16 w = push_bit 8 w OR drop_bit 8 w"

definition bswap32 :: "u32 \<Rightarrow> u32" where
  "bswap32 w = push_bit 24 w OR (push_bit 8 w AND 0xff0000) OR (drop_bit 8 w AND 0xff00) OR drop_bit 24 w"

record upstream_target =
  ut_s_addr :: u32
  ut_port :: u16
  ut_name :: bytes

definition set_name :: "bytes \<Rightarrow> upstream_target \<Rightarrow> upstream_target" where
  "set_name n t = t\<lparr>ut_name := take (kMaxUpstreamNameLen - 1) n\<rparr>"

definition set_addr :: "u32 \<Rightarrow> u16 \<Rightarrow> upstream_target \<Rightarrow> upstream_target" where
  "set_addr ip port t = t\<lparr>ut_s_addr := bswap32 ip, ut_port := bswap16 port\<rparr>"

datatype dispatch_kind = ArtJit | SegmentTrie

text \<open>
  The arrays of entries are the lists of their first \<open>count\<close> elements; the byte pools keep their
  size, and a body or header string is its offset and length in the pool.
\<close>

record 'fn route_config =
  rc_routes :: "'fn route_entry list"
  rc_kind :: dispatch_kind
  rc_art :: art_trie
  rc_trie :: "trie_node list"
  rc_art_jit :: "(bytes \<Rightarrow> u8 \<Rightarrow> u16) option"
  rc_upstreams :: "upstream_target list"
  rc_bodies :: "(nat \<times> u32) list"
  rc_body_pool :: bytes
  rc_body_used :: u32
  rc_header_keys :: "(nat \<times> u32) list"
  rc_header_values :: "(nat \<times> u32) list"
  rc_header_sets :: "(u16 \<times> u16) list"
  rc_header_pool :: bytes
  rc_header_bytes_used :: u32

definition rc_new :: "'fn route_config" where
  "rc_new = \<lparr>rc_routes = [], rc_kind = ArtJit, rc_art = art_clear, rc_trie = trie_clear, rc_art_jit = None, rc_upstreams = [],
     rc_bodies = [], rc_body_pool = replicate (unat kResponseBodyPoolBytes) 0, rc_body_used = 0,
     rc_header_keys = [], rc_header_values = [], rc_header_sets = [],
     rc_header_pool = replicate (unat kResponseHeaderBytesPoolBytes) 0, rc_header_bytes_used = 0\<rparr>"

definition use_art :: "'fn route_config \<Rightarrow> bool \<times> 'fn route_config" where
  "use_art c = (if rc_routes c \<noteq> [] then (False, c) else (True, c\<lparr>rc_kind := ArtJit\<rparr>))"

definition use_segment_trie :: "'fn route_config \<Rightarrow> bool \<times> 'fn route_config" where
  "use_segment_trie c = (if rc_routes c \<noteq> [] then (False, c) else (True, c\<lparr>rc_kind := SegmentTrie\<rparr>))"

definition install_art_jit_fn :: "(bytes \<Rightarrow> u8 \<Rightarrow> u16) option \<Rightarrow> 'fn route_config \<Rightarrow> 'fn route_config" where
  "install_art_jit_fn fn c = c\<lparr>rc_art_jit := fn\<rparr>"

section \<open>Adding routes\<close>

definition is_routable_path :: "bytes option \<Rightarrow> bool" where
  "is_routable_path path =
     (case path of
        None \<Rightarrow> False
      | Some p \<Rightarrow> p \<noteq> [] \<and> p ! 0 = 0x2F \<and> length p < kMaxPathLen \<and> list_all (\<lambda>ch. \<not> (ch = 0x3F \<or> ch = 0x23)) p)"

definition dispatch_accepts_path_shape :: "'fn route_config \<Rightarrow> bytes \<Rightarrow> bool" where
  "dispatch_accepts_path_shape c path \<longleftrightarrow> \<not> path_has_param_segment path \<or> rc_kind c = SegmentTrie"

fun param_count_loop :: "nat \<Rightarrow> bool \<Rightarrow> bytes \<Rightarrow> bool" where
  "param_count_loop n at_start [] = True"
| "param_count_loop n at_start (c # cs) =
     (if c = 0x2F then param_count_loop n True cs
      else if at_start \<and> c = 0x3A then
        (if n + 1 > kMaxRouteParams then False else param_count_loop (n + 1) False cs)
      else param_count_loop n False cs)"

definition param_count_fits :: "bytes \<Rightarrow> bool" where
  "param_count_fits path = param_count_loop 0 True path"

definition populate_dispatch_state :: "'fn route_config \<Rightarrow> 'fn route_entry \<Rightarrow> (bool \<times> 'fn route_config) option" where
  "populate_dispatch_state c r =
     (let idx = of_nat (length (rc_routes c)) in
      case rc_kind c of
        ArtJit \<Rightarrow>
          (case art_insert (rc_art c) (re_path r) (re_method r) idx of
             None \<Rightarrow> None
           | Some (b, a) \<Rightarrow> Some (b, c\<lparr>rc_art := a\<rparr>))
      | SegmentTrie \<Rightarrow>
          (let (b, t) = trie_insert (rc_trie c) (re_path r) (re_method r) idx in Some (b, c\<lparr>rc_trie := t\<rparr>)))"

text \<open>The part the three operations share: the method key, the copy of the path, the dispatch structure.\<close>

definition add_entry :: "'fn route_config \<Rightarrow> bytes \<Rightarrow> u8 \<Rightarrow> 'fn route_entry \<Rightarrow> (bool \<times> 'fn route_config) option" where
  "add_entry c path method e =
     (if \<not> dispatch_accepts_path_shape c path then Some (False, c)
      else if \<not> param_count_fits path then Some (False, c)
      else
        let method_key = route_method_key_from_legacy_char method in
        if route_method_slot method_key = None then Some (False, c)
        else
          let p = take (kMaxPathLen - 1) path in
          if length p < length path then Some (False, c)
          else
            let r = e\<lparr>re_path := p, re_method := method_key\<rparr> in
            case populate_dispatch_state c r of
              None \<Rightarrow> None
            | Some (b, c') \<Rightarrow> if \<not> b then Some (False, c') else Some (True, c'\<lparr>rc_routes := rc_routes c' @ [r]\<rparr>))"

definition add_proxy :: "'fn route_config \<Rightarrow> bytes option \<Rightarrow> u8 \<Rightarrow> u16 \<Rightarrow> (bool \<times> 'fn route_config) option" where
  "add_proxy c path method upstream_id =
     (if length (rc_routes c) \<ge> kMaxRoutes then Some (False, c)
      else if unat upstream_id \<ge> length (rc_upstreams c) then Some (False, c)
      else if \<not> is_routable_path path then Some (False, c)
      else add_entry c (the path) method
        \<lparr>re_path = [], re_method = 0, re_action = ProxyRoute, re_upstream_id = upstream_id, re_status_code = 0,
         re_fn = None, re_needs_req_body = False\<rparr>)"

definition add_static :: "'fn route_config \<Rightarrow> bytes option \<Rightarrow> u8 \<Rightarrow> u16 \<Rightarrow> (bool \<times> 'fn route_config) option" where
  "add_static c path method status =
     (if length (rc_routes c) \<ge> kMaxRoutes then Some (False, c)
      else if \<not> is_routable_path path then Some (False, c)
      else add_entry c (the path) method
        \<lparr>re_path = [], re_method = 0, re_action = StaticRoute, re_upstream_id = 0, re_status_code = status,
         re_fn = None, re_needs_req_body = False\<rparr>)"

definition add_jit_handler :: "'fn route_config \<Rightarrow> bytes option \<Rightarrow> u8 \<Rightarrow> 'fn option \<Rightarrow> bool \<Rightarrow> (bool \<times> 'fn route_config) option" where
  "add_jit_handler c path method fn needs_req_body =
     (if length (rc_routes c) \<ge> kMaxRoutes then Some (False, c)
      else if fn = None then Some (False, c)
      else if \<not> is_routable_path path then Some (False, c)
      else add_entry c (the path) method
        \<lparr>re_path = [], re_method = 0, re_action = JitHandlerRoute, re_upstream_id = 0, re_status_code = 0,
         re_fn = fn, re_needs_req_body = needs_req_body\<rparr>)"

section \<open>Bodies, header sets and upstreams\<close>

text \<open>A copy of bytes into a pool.\<close>

definition blit :: "nat \<Rightarrow> bytes \<Rightarrow> bytes \<Rightarrow> bytes" where
  "blit off bs pool = take off pool @ bs @ drop (off + length bs) pool"

text \<open>\<open>data\<close> are the bytes at the pointer, at least \<open>len\<close> of them.  The result \<open>0\<close> is the failure.\<close>

definition add_response_body :: "'fn route_config \<Rightarrow> bytes option \<Rightarrow> u32 \<Rightarrow> u16 \<times> 'fn route_config" where
  "add_response_body c data len =
     (if length (rc_bodies c) \<ge> kMaxResponseBodies then (0, c)
      else if len > 0 \<and> data = None then (0, c)
      else if len > kResponseBodyPoolBytes - rc_body_used c then (0, c)
      else
        let dst = unat (rc_body_used c); bs = (case data of None \<Rightarrow> [] | Some d \<Rightarrow> take (unat len) d); idx = length (rc_bodies c) in
        (of_nat (idx + 1),
         c\<lparr>rc_body_pool := blit dst bs (rc_body_pool c), rc_body_used := rc_body_used c + len, rc_bodies := rc_bodies c @ [(dst, len)]\<rparr>))"

text \<open>The pairs of a header set: pointers with their lengths.\<close>

record header_arg =
  ha_key :: "bytes option"
  ha_key_len :: u32
  ha_value :: "bytes option"
  ha_value_len :: u32

definition arg_bytes :: "bytes option \<Rightarrow> u32 \<Rightarrow> bytes" where
  "arg_bytes p len = (case p of None \<Rightarrow> [] | Some d \<Rightarrow> take (unat len) d)"

abbreviation arg_key :: "header_arg \<Rightarrow> bytes" where
  "arg_key h \<equiv> arg_bytes (ha_key h) (ha_key_len h)"

abbreviation arg_value :: "header_arg \<Rightarrow> bytes" where
  "arg_value h \<equiv> arg_bytes (ha_value h) (ha_value_len h)"

text \<open>The scan before the copy: the total number of bytes, or \<open>None\<close> for a rejected set.\<close>

fun scan_headers :: "header_arg list \<Rightarrow> u32 \<Rightarrow> header_arg list \<Rightarrow> u32 option" where
  "scan_headers seen total_bytes [] = Some total_bytes"
| "scan_headers seen total_bytes (h # hs) =
     (if (ha_key_len h > 0 \<and> ha_key h = None) \<or> (ha_value_len h > 0 \<and> ha_value h = None) then None
      else if validate_response_header (arg_key h) (arg_value h) \<noteq> HOk then None
      else if list_ex (\<lambda>g. http_header_name_eq_ci (arg_key h) (arg_key g)) seen then None
      else if ha_key_len h > 0xffffffff - total_bytes then None
      else
        let t1 = total_bytes + ha_key_len h in
        if ha_value_len h > 0xffffffff - t1 then None
        else scan_headers (seen @ [h]) (t1 + ha_value_len h) hs)"

text \<open>The copy of one pair.\<close>

definition copy_header :: "header_arg \<Rightarrow> 'fn route_config \<Rightarrow> 'fn route_config" where
  "copy_header h c =
     (let key_dst = unat (rc_header_bytes_used c);
          used1 = rc_header_bytes_used c + ha_key_len h;
          val_dst = unat used1
      in c\<lparr>rc_header_pool := blit val_dst (arg_value h) (blit key_dst (arg_key h) (rc_header_pool c)),
           rc_header_bytes_used := used1 + ha_value_len h,
           rc_header_keys := rc_header_keys c @ [(key_dst, ha_key_len h)],
           rc_header_values := rc_header_values c @ [(val_dst, ha_value_len h)]\<rparr>)"

text \<open>\<open>hs = None\<close> stands for a null pointer among the tables.\<close>

definition add_response_header_set :: "'fn route_config \<Rightarrow> header_arg list option \<Rightarrow> u16 \<times> 'fn route_config" where
  "add_response_header_set c tables =
     (case tables of
        None \<Rightarrow> (0, c)
      | Some hs \<Rightarrow>
          if hs = [] then (0, c)
          else if length (rc_header_sets c) \<ge> kMaxResponseHeaderSets then (0, c)
          else if length hs > unat kMaxHeadersPerSet then (0, c)
          else if length hs > unat (kMaxHeaderPoolEntries - of_nat (length (rc_header_keys c))) then (0, c)
          else
            case scan_headers [] 0 hs of
              None \<Rightarrow> (0, c)
            | Some total_bytes \<Rightarrow>
                if total_bytes > kResponseHeaderBytesPoolBytes - rc_header_bytes_used c then (0, c)
                else
                  let offset = of_nat (length (rc_header_keys c)); idx = length (rc_header_sets c);
                      c1 = fold copy_header hs c
                  in (of_nat (idx + 1), c1\<lparr>rc_header_sets := rc_header_sets c1 @ [(offset, of_nat (length hs))]\<rparr>))"

definition add_upstream :: "'fn route_config \<Rightarrow> bytes \<Rightarrow> u32 \<Rightarrow> u16 \<Rightarrow> nat option \<times> 'fn route_config" where
  "add_upstream c name ip port =
     (if length (rc_upstreams c) \<ge> kMaxUpstreams then (None, c)
      else (Some (length (rc_upstreams c)),
        c\<lparr>rc_upstreams := rc_upstreams c @ [set_addr ip port (set_name name \<lparr>ut_s_addr = 0, ut_port = 0, ut_name = []\<rparr>)]\<rparr>))"

section \<open>Matching\<close>

text \<open>The matched entry and the captured parameters; the outer \<open>None\<close> is a search that does not end.\<close>

definition match_canonical :: "'fn route_config \<Rightarrow> bytes option \<Rightarrow> u8 \<Rightarrow> nat \<Rightarrow> ('fn route_entry option \<times> (bytes \<times> bytes) list) option" where
  "match_canonical c canon method out_param_cap =
     (case canon of
        None \<Rightarrow> Some (None, [])
      | Some p \<Rightarrow>
          let found = (case rc_kind c of
                ArtJit \<Rightarrow>
                  (case rc_art_jit c of
                     Some fn \<Rightarrow> Some (fn p method, [])
                   | None \<Rightarrow> map_option (\<lambda>r. (r, [])) (art_match_canonical_key (rc_art c) p method))
              | SegmentTrie \<Rightarrow> Some (match_key (rc_trie c) p method out_param_cap))
          in case found of
               None \<Rightarrow> None
             | Some (idx, params) \<Rightarrow>
                 Some (if unat idx \<ge> length (rc_routes c) then None else Some (rc_routes c ! unat idx), params))"

definition route_match :: "'fn route_config \<Rightarrow> bytes \<Rightarrow> u8 \<Rightarrow> 'fn route_entry option option" where
  "route_match c path method =
     (if path = [] \<or> path ! 0 \<noteq> 0x2F then Some None
      else let (lo, n) = canonicalize_request path in
        map_option fst (match_canonical c (Some (take n (drop lo path))) (route_method_key_from_legacy_char method) 0))"

end
