(* ===== verification/Route_Dispatch.thy ===== *)
theory Route_Dispatch
  imports Route_Config
begin

text \<open>
  What the route table promises: every sequence of builder operations keeps it well formed, and a match
  returns the best route of the table in either dispatch structure.
\<close>

section \<open>Sequences of builder operations\<close>

datatype 'fn rc_op =
  UseArt | UseSegmentTrie
| AddProxy "bytes option" u8 u16
| AddStatic "bytes option" u8 u16
| AddJitHandler "bytes option" u8 "'fn option" bool
| AddResponseBody "bytes option" u32
| AddResponseHeaderSet "header_arg list option"
| AddUpstream bytes u32 u16

definition rc_step :: "'fn rc_op \<Rightarrow> 'fn route_config \<Rightarrow> 'fn route_config option" where
  "rc_step x c =
     (case x of
        UseArt \<Rightarrow> Some (snd (use_art c))
      | UseSegmentTrie \<Rightarrow> Some (snd (use_segment_trie c))
      | AddProxy p m u \<Rightarrow> map_option snd (add_proxy c p m u)
      | AddStatic p m s \<Rightarrow> map_option snd (add_static c p m s)
      | AddJitHandler p m f b \<Rightarrow> map_option snd (add_jit_handler c p m f b)
      | AddResponseBody d l \<Rightarrow> Some (snd (add_response_body c d l))
      | AddResponseHeaderSet t \<Rightarrow> Some (snd (add_response_header_set c t))
      | AddUpstream n ip port \<Rightarrow> Some (snd (add_upstream c n ip port)))"

fun rc_run :: "'fn rc_op list \<Rightarrow> 'fn route_config \<Rightarrow> 'fn route_config option" where
  "rc_run [] c = Some c"
| "rc_run (x # xs) c = (case rc_step x c of None \<Rightarrow> None | Some c' \<Rightarrow> rc_run xs c')"

text \<open>The arguments of an operation point at enough bytes.\<close>

definition arg_ok :: "bytes option \<Rightarrow> u32 \<Rightarrow> bool" where
  "arg_ok p len = (case p of None \<Rightarrow> True | Some d \<Rightarrow> unat len \<le> length d)"

definition header_arg_ok :: "header_arg \<Rightarrow> bool" where
  "header_arg_ok h \<longleftrightarrow> arg_ok (ha_key h) (ha_key_len h) \<and> arg_ok (ha_value h) (ha_value_len h)"

definition op_ok :: "'fn rc_op \<Rightarrow> bool" where
  "op_ok x = (case x of AddResponseBody d l \<Rightarrow> arg_ok d l | AddResponseHeaderSet (Some hs) \<Rightarrow> list_all header_arg_ok hs | _ \<Rightarrow> True)"

section \<open>Well-formed tables\<close>

definition entry_ok :: "'fn route_config \<Rightarrow> 'fn route_entry \<Rightarrow> bool" where
  "entry_ok c r \<longleftrightarrow> is_routable_path (Some (re_path r)) \<and> unat (re_method r) < kRouteMethodSlots \<and> param_count_fits (re_path r) \<and>
     (rc_kind c = ArtJit \<longrightarrow> \<not> path_has_param_segment (re_path r)) \<and>
     (case re_action r of ProxyRoute \<Rightarrow> unat (re_upstream_id r) < length (rc_upstreams c) | JitHandlerRoute \<Rightarrow> re_fn r \<noteq> None | StaticRoute \<Rightarrow> True)"

definition route_keys :: "(bytes \<Rightarrow> 'k) \<Rightarrow> 'fn route_config \<Rightarrow> ('k \<times> nat) list" where
  "route_keys key c = map (\<lambda>r. (key (re_path r), unat (re_method r))) (rc_routes c)"

text \<open>The active structure holds the routes of the table; without routes both structures are empty.\<close>

definition dispatch_ok :: "'fn route_config \<Rightarrow> bool" where
  "dispatch_ok c \<longleftrightarrow>
     (case rc_kind c of
        ArtJit \<Rightarrow> index_holds art_ok art_table (rc_art c) (route_keys strip_slashes c)
      | SegmentTrie \<Rightarrow> index_holds trie_ok trie_table (rc_trie c) (route_keys segments c)) \<and>
     (rc_routes c = [] \<longrightarrow> rc_art c = art_clear \<and> rc_trie c = trie_clear)"

definition routes_ok :: "'fn route_config \<Rightarrow> bool" where
  "routes_ok c \<longleftrightarrow> length (rc_routes c) \<le> kMaxRoutes \<and> length (rc_upstreams c) \<le> kMaxUpstreams \<and>
     list_all (entry_ok c) (rc_routes c) \<and> dispatch_ok c"

lemma routes_ok_new: "routes_ok rc_new"
  using art_index.holds_empty by (simp add: routes_ok_def rc_new_def dispatch_ok_def route_keys_def)

lemma dispatch_ok_cong:
  assumes "rc_routes c' = rc_routes c" "rc_kind c' = rc_kind c" "rc_art c' = rc_art c" "rc_trie c' = rc_trie c"
  shows "dispatch_ok c' = dispatch_ok c" "route_keys key c' = route_keys key c"
  unfolding dispatch_ok_def route_keys_def assms by (rule refl)+

lemma routes_ok_cong:
  assumes "routes_ok c" "rc_routes c' = rc_routes c" "rc_kind c' = rc_kind c" "rc_art c' = rc_art c" "rc_trie c' = rc_trie c"
    "rc_upstreams c' = rc_upstreams c"
  shows "routes_ok c'"
proof -
  have "entry_ok c' = entry_ok c" unfolding fun_eq_iff entry_ok_def assms(3,6) by blast
  then show ?thesis using assms(1,2,6) dispatch_ok_cong(1) [OF assms(2-5)] by (simp add: routes_ok_def)
qed

lemma method_key_slot:
  assumes "route_method_slot k = Some slot" "k = route_method_key_from_legacy_char m"
  shows "slot = unat k" "unat k < kRouteMethodSlots"
proof -
  have "route_method_key_from_legacy_char k = k"
    unfolding assms(2) route_method_key_from_legacy_char_def by (simp split: if_splits)
  then show "slot = unat k" "unat k < kRouteMethodSlots"
    using assms(1) by (simp_all add: route_method_slot_def route_method_slot_from_key_def split: if_splits)
qed

lemma populate_ok:
  assumes ok: "dispatch_ok c" "length (rc_routes c) < kMaxRoutes" and slot: "route_method_slot (re_method r) = Some (unat (re_method r))"
  shows "\<exists>b c'. populate_dispatch_state c r = Some (b, c') \<and> (\<not> b \<longrightarrow> c' = c) \<and>
    (b \<longrightarrow> dispatch_ok (c'\<lparr>rc_routes := rc_routes c' @ [r]\<rparr>)) \<and> (\<exists>a t. c' = c\<lparr>rc_art := a, rc_trie := t\<rparr>)"
proof (cases "rc_kind c")
  case ArtJit
  let ?rs = "route_keys strip_slashes c"
  have h: "index_holds art_ok art_table (rc_art c) ?rs" "length ?rs < 2 ^ 15" "length ?rs = length (rc_routes c)"
    using ok ArtJit by (simp_all add: dispatch_ok_def route_keys_def kMaxRoutes_def)
  obtain b a where a: "art_insert (rc_art c) (re_path r) (re_method r) (of_nat (length (rc_routes c))) = Some (b, a)" "\<not> b \<longrightarrow> a = rc_art c"
    "b \<longrightarrow> index_holds art_ok art_table a (?rs @ [(strip_slashes (re_path r), unat (re_method r))])"
    using art_index.holds_insert [OF h(1,2) slot, of "re_path r"] unfolding h(3) by blast
  let ?c = "c\<lparr>rc_art := a\<rparr>"
  have "b \<longrightarrow> dispatch_ok (?c\<lparr>rc_routes := rc_routes ?c @ [r]\<rparr>)" using a(3) ArtJit by (simp add: dispatch_ok_def route_keys_def)
  moreover have "\<exists>a t. ?c = c\<lparr>rc_art := a, rc_trie := t\<rparr>" by (rule exI [of _ "a"], rule exI [of _ "rc_trie c"]) simp
  moreover have "populate_dispatch_state c r = Some (b, ?c)" using a(1) ArtJit by (simp add: populate_dispatch_state_def)
  moreover have "\<not> b \<longrightarrow> ?c = c" using a(2) by simp
  ultimately show ?thesis by blast
next
  case SegmentTrie
  let ?rs = "route_keys segments c"
  have h: "index_holds trie_ok trie_table (rc_trie c) ?rs" "length ?rs < 2 ^ 15" "length ?rs = length (rc_routes c)"
    using ok SegmentTrie by (simp_all add: dispatch_ok_def route_keys_def kMaxRoutes_def)
  obtain b t where t: "trie_insert (rc_trie c) (re_path r) (re_method r) (of_nat (length (rc_routes c))) = (b, t)" "\<not> b \<longrightarrow> t = rc_trie c"
    "b \<longrightarrow> index_holds trie_ok trie_table t (?rs @ [(segments (re_path r), unat (re_method r))])"
    using trie_index.holds_insert [OF h(1,2) slot, of "re_path r"] unfolding h(3) trie_ins_def by blast
  let ?c = "c\<lparr>rc_trie := t\<rparr>"
  have "b \<longrightarrow> dispatch_ok (?c\<lparr>rc_routes := rc_routes ?c @ [r]\<rparr>)" using t(3) SegmentTrie by (simp add: dispatch_ok_def route_keys_def)
  moreover have "\<exists>a t. ?c = c\<lparr>rc_art := a, rc_trie := t\<rparr>" by (rule exI [of _ "rc_art c"], rule exI [of _ "t"]) simp
  moreover have "populate_dispatch_state c r = Some (b, ?c)" using t(1) SegmentTrie by (simp add: populate_dispatch_state_def)
  moreover have "\<not> b \<longrightarrow> ?c = c" using t(2) by simp
  ultimately show ?thesis by blast
qed
lemma entry_ok_update:
  "entry_ok (c\<lparr>rc_art := a, rc_trie := t\<rparr>) = entry_ok c" "entry_ok (c\<lparr>rc_routes := rs\<rparr>) = entry_ok c"
  unfolding fun_eq_iff entry_ok_def by (simp_all split: route_action.split)

text \<open>An operation on routes changes the routes and the dispatch structures only.\<close>

definition routed :: "'fn route_config \<Rightarrow> 'fn route_config \<Rightarrow> bool" where
  "routed c c' \<longleftrightarrow> (\<exists>a t rs. c' = c\<lparr>rc_art := a, rc_trie := t, rc_routes := rs\<rparr>)"

lemma routed_refl: "routed c c"
  unfolding routed_def by (rule exI [of _ "rc_art c"], rule exI [of _ "rc_trie c"], rule exI [of _ "rc_routes c"]) simp

lemma add_entry_ok:
  assumes ok: "routes_ok c" "length (rc_routes c) < kMaxRoutes" and p: "is_routable_path (Some path)"
    and act: "case re_action e of ProxyRoute \<Rightarrow> unat (re_upstream_id e) < length (rc_upstreams c) | JitHandlerRoute \<Rightarrow> re_fn e \<noteq> None | StaticRoute \<Rightarrow> True"
  shows "\<exists>b c'. add_entry c path m e = Some (b, c') \<and> routes_ok c' \<and> (\<not> b \<longrightarrow> c' = c) \<and>
    routed c c'"
proof -
  let ?k = "route_method_key_from_legacy_char m"
  show ?thesis
  proof (cases "dispatch_accepts_path_shape c path \<and> param_count_fits path \<and> route_method_slot ?k \<noteq> None")
    case False
    then have "add_entry c path m e = Some (False, c)" by (auto simp: add_entry_def)
    then show ?thesis using ok(1) routed_refl by blast
  next
    case True
    then obtain slot where slot: "route_method_slot ?k = Some slot" by blast
    have take: "take (kMaxPathLen - 1) path = path" using p by (simp add: is_routable_path_def kMaxPathLen_def)
    note K = method_key_slot [OF slot refl]
    let ?r = "e\<lparr>re_path := path, re_method := ?k\<rparr>"
    have sl: "route_method_slot (re_method ?r) = Some (unat (re_method ?r))" using slot K(1) by simp
    have d: "dispatch_ok c" using ok(1) by (simp add: routes_ok_def)
    obtain b c' where b: "populate_dispatch_state c ?r = Some (b, c')" "\<not> b \<longrightarrow> c' = c"
      "b \<longrightarrow> dispatch_ok (c'\<lparr>rc_routes := rc_routes c' @ [?r]\<rparr>)" "\<exists>a t. c' = c\<lparr>rc_art := a, rc_trie := t\<rparr>"
      using populate_ok [OF d ok(2) sl] by blast
    have run: "add_entry c path m e = (if \<not> b then Some (False, c') else Some (True, c'\<lparr>rc_routes := rc_routes c' @ [?r]\<rparr>))"
      using True b(1) by (auto simp: add_entry_def take [simplified] Let_def)
    obtain a t where c': "c' = c\<lparr>rc_art := a, rc_trie := t\<rparr>" using b(4) by blast
    show ?thesis
    proof (cases b)
      case False
      then have "add_entry c path m e = Some (False, c)" using run b(2) by simp
      then show ?thesis using ok(1) routed_refl by blast
    next
      case b': True
      have "entry_ok c ?r" using p act K(2) True unfolding entry_ok_def dispatch_accepts_path_shape_def
        by (auto split: route_action.splits)
      then have "list_all (entry_ok c) (rc_routes c @ [?r])" using ok(1) by (simp add: routes_ok_def)
      moreover have "dispatch_ok (c\<lparr>rc_art := a, rc_trie := t, rc_routes := rc_routes c @ [?r]\<rparr>)" using b(3) b' c' by simp
      ultimately have "routes_ok (c\<lparr>rc_art := a, rc_trie := t, rc_routes := rc_routes c @ [?r]\<rparr>)"
        using ok by (simp add: routes_ok_def entry_ok_update)
      moreover have "add_entry c path m e = Some (True, c\<lparr>rc_art := a, rc_trie := t, rc_routes := rc_routes c @ [?r]\<rparr>)" using run b' c' by simp
      moreover have "routed c (c\<lparr>rc_art := a, rc_trie := t, rc_routes := rc_routes c @ [?r]\<rparr>)" unfolding routed_def by blast
      ultimately show ?thesis by blast
    qed
  qed
qed

lemma add_route_ok:
  assumes ok: "routes_ok c"
  shows "\<exists>b c'. add_proxy c p m u = Some (b, c') \<and> routes_ok c' \<and> (\<not> b \<longrightarrow> c' = c) \<and> routed c c'"
    "\<exists>b c'. add_static c p m s = Some (b, c') \<and> routes_ok c' \<and> (\<not> b \<longrightarrow> c' = c) \<and> routed c c'"
    "\<exists>b c'. add_jit_handler c p m f n = Some (b, c') \<and> routes_ok c' \<and> (\<not> b \<longrightarrow> c' = c) \<and> routed c c'"
proof -
  let ?P = "\<lambda>x. \<exists>b c'. x = Some (b, c') \<and> routes_ok c' \<and> (\<not> b \<longrightarrow> c' = c) \<and> routed c c'"
  have no: "?P (Some (False, c))" using ok routed_refl by blast
  have yes: "?P (add_entry c (the p) m e)"
    if "is_routable_path p" "length (rc_routes c) < kMaxRoutes"
      "case re_action e of ProxyRoute \<Rightarrow> unat (re_upstream_id e) < length (rc_upstreams c) | JitHandlerRoute \<Rightarrow> re_fn e \<noteq> None | StaticRoute \<Rightarrow> True" for e
    by (rule add_entry_ok [OF ok that(2) _ that(3)]) (use that(1) in \<open>auto simp: is_routable_path_def split: option.splits\<close>)
  have guard: "?P (if b then Some (False, c) else x)" if "\<not> b \<Longrightarrow> ?P x" for b x using that no by (cases b) simp_all
  show "?P (add_proxy c p m u)" unfolding add_proxy_def by (intro guard yes) simp_all
  show "?P (add_static c p m s)" unfolding add_static_def by (intro guard yes) simp_all
  show "?P (add_jit_handler c p m f n)" unfolding add_jit_handler_def by (intro guard yes) simp_all
qed

lemma rc_step_routes:
  assumes "routes_ok c"
  shows "\<exists>c'. rc_step x c = Some c' \<and> routes_ok c'"
proof (cases x)
  case UseArt
  have "routes_ok (c\<lparr>rc_kind := ArtJit\<rparr>)" if "rc_routes c = []"
    using assms that art_index.holds_empty by (simp add: routes_ok_def dispatch_ok_def route_keys_def)
  then show ?thesis using UseArt assms by (simp add: rc_step_def use_art_def)
next
  case UseSegmentTrie
  have "routes_ok (c\<lparr>rc_kind := SegmentTrie\<rparr>)" if "rc_routes c = []"
    using assms that trie_index.holds_empty by (simp add: routes_ok_def dispatch_ok_def route_keys_def)
  then show ?thesis using UseSegmentTrie assms by (simp add: rc_step_def use_segment_trie_def)
next
  case (AddUpstream n ip port)
  let ?c = "snd (add_upstream c n ip port)"
  have "dispatch_ok ?c = dispatch_ok c" by (rule dispatch_ok_cong) (simp_all add: add_upstream_def)
  moreover have "entry_ok c r \<longrightarrow> entry_ok ?c r" for r by (auto simp: entry_ok_def add_upstream_def split: route_action.split)
  moreover have "rc_routes ?c = rc_routes c" "length (rc_upstreams ?c) \<le> kMaxUpstreams"
    using assms by (simp_all add: add_upstream_def routes_ok_def)
  ultimately have "routes_ok ?c" using assms unfolding routes_ok_def list_all_iff by simp
  then show ?thesis using AddUpstream by (simp add: rc_step_def)
next
  case (AddResponseBody d l)
  have "routes_ok (snd (add_response_body c d l))" by (rule routes_ok_cong [OF assms]) (simp_all add: add_response_body_def Let_def)
  then show ?thesis using AddResponseBody by (simp add: rc_step_def)
next
  case (AddResponseHeaderSet t)
  have copy: "rc_routes (fold copy_header hs d) = rc_routes d" "rc_kind (fold copy_header hs d) = rc_kind d" "rc_art (fold copy_header hs d) = rc_art d"
    "rc_trie (fold copy_header hs d) = rc_trie d" "rc_upstreams (fold copy_header hs d) = rc_upstreams d" for hs and d :: "'a route_config"
    by (induction hs arbitrary: d) (simp_all add: copy_header_def Let_def)
  have "routes_ok (snd (add_response_header_set c t))"
    by (rule routes_ok_cong [OF assms]) (simp_all add: add_response_header_set_def Let_def copy split: option.split)
  then show ?thesis using AddResponseHeaderSet by (simp add: rc_step_def)
next
  case (AddProxy p m u)
  obtain b c' where "add_proxy c p m u = Some (b, c')" "routes_ok c'" using add_route_ok(1) [OF assms] by blast
  then show ?thesis by (simp add: AddProxy rc_step_def)
next
  case (AddStatic p m s)
  obtain b c' where "add_static c p m s = Some (b, c')" "routes_ok c'" using add_route_ok(2) [OF assms] by blast
  then show ?thesis by (simp add: AddStatic rc_step_def)
next
  case (AddJitHandler p m f n)
  obtain b c' where "add_jit_handler c p m f n = Some (b, c')" "routes_ok c'" using add_route_ok(3) [OF assms] by blast
  then show ?thesis by (simp add: AddJitHandler rc_step_def)
qed

lemma rc_run_routes: "routes_ok c \<Longrightarrow> \<exists>c'. rc_run xs c = Some c' \<and> routes_ok c'"
proof (induction xs arbitrary: c)
  case (Cons x xs)
  obtain c1 where "rc_step x c = Some c1" "routes_ok c1" using rc_step_routes [OF Cons.prems] by blast
  then show ?case using Cons.IH [of c1] by simp
qed simp

section \<open>Matching\<close>

lemma trie_look_cap: "match_key t p m cap = (r, params) \<Longrightarrow> trie_look t p m = Some r"
  by (auto simp: trie_look_def match_key_def case_prod_unfold Let_def split: option.splits)

lemma trie_params:
  assumes t: "index_holds trie_ok trie_table t rs" and m: "route_method_slot_from_key m = Some slot"
    and run: "match_key t p m cap = (r, params)" and r: "unat r < length rs"
  shows "params = take cap (take kMaxRouteParams (bindings (fst (rs ! unat r)) (take kMaxPathSegments (segments p))))"
proof -
  have T: "trie_ok t" "trie_table t = first_index rs" "length rs \<le> 2 ^ 15" using t by (simp_all add: index_holds_def)
  have "r \<noteq> kInvalidRoute" using r T(3) by (auto simp: kInvalidRoute_def)
  then obtain ps spec where ps: "best_route (first_index rs) ps slot = Some (r, spec)"
    "params = take cap (take kMaxRouteParams (bindings ps (take kMaxPathSegments (segments p))))"
    using match_key_spec [OF T(1) m run refl] unfolding T(2) by blast
  have "rs ! unat r = (ps, if spec then slot else 0)" by (rule art_index.best_route_first(2) [OF T(3) ps(1)])
  then show ?thesis using ps(2) by simp
qed

text \<open>What a match promises, for the two dispatch structures.\<close>

definition best_match :: "'fn route_config \<Rightarrow> bytes \<Rightarrow> nat \<Rightarrow> nat \<Rightarrow> 'fn route_entry option \<times> (bytes \<times> bytes) list \<Rightarrow> bool" where
  "best_match c p slot cap res \<longleftrightarrow>
     (case rc_kind c of
        ArtJit \<Rightarrow>
          (case fst res of
             None \<Rightarrow> candidates (route_keys strip_slashes c) (\<lambda>k. prefix k p) slot = {}
           | Some e \<Rightarrow> \<exists>i. e = rc_routes c ! i \<and>
               best_candidate (route_keys strip_slashes c) (\<lambda>k. prefix k p) (\<lambda>k spec. (length k, spec)) slot i \<and> snd res = [])
      | SegmentTrie \<Rightarrow>
          (let segs = take kMaxPathSegments (segments p) in
           case fst res of
             None \<Rightarrow> candidates (route_keys segments c) (\<lambda>k. pat_matches k segs) slot = {}
           | Some e \<Rightarrow> \<exists>i. e = rc_routes c ! i \<and>
               best_candidate (route_keys segments c) (\<lambda>k. pat_matches k segs) rank slot i \<and>
               snd res = take cap (take kMaxRouteParams (bindings (segments (re_path e)) segs))))"

lemma match_canonical_best:
  assumes ok: "dispatch_ok c" and m: "route_method_slot_from_key m = Some slot"
    and jit: "\<And>f. rc_art_jit c = Some f \<Longrightarrow> art_match_canonical_key (rc_art c) p m = Some (f p m)"
  shows "\<exists>res. match_canonical c (Some p) m cap = Some res \<and> best_match c p slot cap res"
proof (cases "rc_kind c")
  case ArtJit
  let ?rs = "route_keys strip_slashes c"
  have h: "index_holds art_ok art_table (rc_art c) ?rs" "length ?rs = length (rc_routes c)"
    using ok ArtJit by (simp_all add: dispatch_ok_def route_keys_def)
  obtain r where r: "art_match_canonical_key (rc_art c) p m = Some r"
    "if unat r < length ?rs then best_candidate ?rs (\<lambda>k. prefix k p) (\<lambda>q spec. (length q, spec)) slot (unat r)
     else candidates ?rs (\<lambda>k. prefix k p) slot = {}"
    using art_index.look_best [OF h(1) m, of p] by blast
  let ?res = "(if unat r \<ge> length (rc_routes c) then None else Some (rc_routes c ! unat r), [])"
  have "match_canonical c (Some p) m cap = Some ?res"
    using ArtJit r(1) jit by (cases "rc_art_jit c") (simp_all add: match_canonical_def)
  moreover have "best_match c p slot cap ?res"
    using r(2) ArtJit unfolding best_match_def h(2) by (auto split: if_splits)
  ultimately show ?thesis by blast
next
  case SegmentTrie
  let ?rs = "route_keys segments c"
  have h: "index_holds trie_ok trie_table (rc_trie c) ?rs" "length ?rs = length (rc_routes c)"
    using ok SegmentTrie by (simp_all add: dispatch_ok_def route_keys_def)
  obtain r params where k: "match_key (rc_trie c) p m cap = (r, params)" by fastforce
  let ?segs = "take kMaxPathSegments (segments p)"
  have r: "if unat r < length ?rs then best_candidate ?rs (\<lambda>k. pat_matches k ?segs) rank slot (unat r)
     else candidates ?rs (\<lambda>k. pat_matches k ?segs) slot = {}"
    using trie_index.look_best [OF h(1) m, of p] unfolding trie_look_cap [OF k] by blast
  have ps: "params = take cap (take kMaxRouteParams (bindings (segments (re_path (rc_routes c ! unat r))) ?segs))" if "unat r < length (rc_routes c)"
    using trie_params [OF h(1) m k] that by (simp add: h(2)) (simp add: route_keys_def)
  let ?res = "(if unat r \<ge> length (rc_routes c) then None else Some (rc_routes c ! unat r), params)"
  have "match_canonical c (Some p) m cap = Some ?res" using SegmentTrie k by (simp add: match_canonical_def)
  moreover have "best_match c p slot cap ?res"
    using r ps SegmentTrie unfolding best_match_def h(2) Let_def by (auto split: if_splits)
  ultimately show ?thesis by blast
qed

text \<open>
  C33: Every sequence of builder operations returns and leaves a well-formed route table: at most 128 routes and 64 upstreams;
  every route has an origin-form path of at most 127 bytes without query or fragment, a known method and at most 16 parameters; a
  proxy route names an upstream of the table and a handler route has a handler; a path with parameters is never in the
  byte-prefix tree; and the active dispatch structure holds exactly the routes of the table under their positions.
\<close>

theorem config_wellformed:
  "\<exists>c. rc_run ops (rc_new :: 'fn route_config) = Some c \<and> length (rc_routes c) \<le> kMaxRoutes \<and> length (rc_upstreams c) \<le> kMaxUpstreams \<and>
     list_all (entry_ok c) (rc_routes c) \<and> dispatch_ok c"
  using rc_run_routes [OF routes_ok_new] by (auto simp: routes_ok_def)

lemma installed_match_best:
  assumes run: "rc_run ops rc_new = Some c" and m: "route_method_slot_from_key m = Some slot"
    and jit: "\<And>f q k. fn = Some f \<Longrightarrow> art_match_canonical_key (rc_art c) q k = Some (f q k)"
  shows "\<exists>res. match_canonical (install_art_jit_fn fn c) (Some p) m cap = Some res \<and> best_match c p slot cap res"
proof -
  let ?c = "install_art_jit_fn fn c"
  have same: "dispatch_ok ?c = dispatch_ok c" "\<And>key. route_keys key ?c = route_keys key c"
    by (rule dispatch_ok_cong; simp add: install_art_jit_fn_def)+
  have "dispatch_ok ?c" using rc_run_routes [OF routes_ok_new, of ops] run by (simp add: routes_ok_def same)
  then obtain res where "match_canonical ?c (Some p) m cap = Some res" "best_match ?c p slot cap res"
    using match_canonical_best [OF _ m, of ?c p cap] jit by (auto simp: install_art_jit_fn_def)
  moreover have "best_match ?c = best_match c" 
  proof -
    have "rc_routes ?c = rc_routes c" "rc_kind ?c = rc_kind c" by (simp_all add: install_art_jit_fn_def)
    then show ?thesis unfolding best_match_def fun_eq_iff same by presburger
  qed
  ultimately show ?thesis by auto
qed

text \<open>
  C5: A match in a table built by any sequence of operations returns the best route of the table.  With the byte-prefix
  tree it is the route with the longest canonical path that is a prefix of the canonical request path; with the segment trie it is the
  route of highest rank whose pattern matches, with its parameter bindings; in both a route for the method comes before a route for any
  method, among equal routes the one added first wins, and there is no match exactly when no route fits.  A specialised match function,
  where installed, is assumed to compute the scalar search of the tree it was generated from.
\<close>

theorem route_match_best:
  assumes run: "rc_run ops rc_new = Some c" and m: "route_method_slot_from_key m = Some slot"
    and jit: "\<And>f q k. fn = Some f \<Longrightarrow> art_match_canonical_key (rc_art c) q k = Some (f q k)"
  shows "\<exists>res. match_canonical (install_art_jit_fn fn c) (Some p) m cap = Some res \<and> best_match c p slot cap res"
  using assms by (rule installed_match_best)

theorem route_match_best_witness:
  "\<exists>c e. rc_run [UseSegmentTrie, AddStatic (Some (ascii ''/a/:id'')) 0 200] (rc_new :: unit route_config) = Some c \<and>
     match_canonical (install_art_jit_fn None c) (Some (ascii ''a/7/x'')) 1 16 = Some (Some e, [(ascii ''id'', ascii ''7'')]) \<and> re_status_code e = 200"
proof -
  let ?ops = "[UseSegmentTrie, AddStatic (Some (ascii ''/a/:id'')) 0 200]"
  let ?e = "\<lparr>re_path = ascii ''/a/:id'', re_method = 0, re_action = StaticRoute, re_upstream_id = 0, re_status_code = 200, re_fn = None, re_needs_req_body = False\<rparr>"
  have s: "route_method_slot_from_key 1 = Some 1" by code_simp
  have i: "fst (trie_insert trie_clear (ascii ''/a/:id'') 0 0)" by code_simp
  have g: "is_routable_path (Some (ascii ''/a/:id''))" "param_count_fits (ascii ''/a/:id'')" "route_method_slot (route_method_key_from_legacy_char 0) \<noteq> None"
    "take (kMaxPathLen - 1) (ascii ''/a/:id'') = ascii ''/a/:id''" "route_method_key_from_legacy_char 0 = 0" by code_simp+
  obtain c where c: "rc_run ?ops (rc_new :: unit route_config) = Some c" "rc_routes c = [?e]" "rc_kind c = SegmentTrie"
    using i g by (auto simp: rc_step_def use_segment_trie_def rc_new_def add_static_def add_entry_def kMaxRoutes_def Let_def
      dispatch_accepts_path_shape_def populate_dispatch_state_def case_prod_unfold)
  obtain res where r: "match_canonical (install_art_jit_fn None c) (Some (ascii ''a/7/x'')) 1 16 = Some res" "best_match c (ascii ''a/7/x'') 1 16 res"
    using route_match_best [OF c(1) s, of None "ascii ''a/7/x''" 16] by blast
  let ?segs = "take kMaxPathSegments (segments (ascii ''a/7/x''))"
  have ps: "pat_matches (segments (ascii ''/a/:id'')) ?segs"
    unfolding pat_matches_def by code_simp
  have b: "take 16 (take kMaxRouteParams (bindings (segments (ascii ''/a/:id'')) ?segs)) = [(ascii ''id'', ascii ''7'')]" by code_simp
  have k: "route_keys segments c = [(segments (ascii ''/a/:id''), 0)]" by (simp add: route_keys_def c(2))
  have "0 \<in> candidates (route_keys segments c) (\<lambda>k. pat_matches k ?segs) 1" using ps by (simp add: candidates_def k)
  then obtain e where e: "fst res = Some e" using r(2) by (cases "fst res") (auto simp: best_match_def c(3) Let_def)
  then obtain i where "e = rc_routes c ! i" "i < 1" "snd res = take 16 (take kMaxRouteParams (bindings (segments (re_path e)) ?segs))"
    using r(2) by (auto simp: best_match_def c(3) Let_def best_candidate_def candidates_def k)
  then have "e = ?e" "snd res = [(ascii ''id'', ascii ''7'')]" using b c(2) by simp_all
  then have "res = (Some ?e, [(ascii ''id'', ascii ''7'')])" using e by (cases res) simp
  then show ?thesis using c(1) r(1) by simp
qed

end
