(* ===== verification/Config_Pools.thy ===== *)
theory Config_Pools
  imports Route_Dispatch
begin

text \<open>
  The byte pools of the route table: what is registered is read back unchanged after any later
  operation, and every registered header set is valid.
\<close>

section \<open>Strings in a pool\<close>

definition str_at :: "bytes \<Rightarrow> nat \<times> u32 \<Rightarrow> bytes" where
  "str_at pool s = take (unat (snd s)) (drop (fst s) pool)"

abbreviation str_end :: "nat \<times> u32 \<Rightarrow> nat" where
  "str_end s \<equiv> fst s + unat (snd s)"

lemma str_at_take:
  assumes "take u p = take u q" "str_end s \<le> u"
  shows "str_at p s = str_at q s"
proof -
  have "str_at r s = drop (fst s) (take (str_end s) (take u r))" for r
    using assms(2) by (simp add: str_at_def drop_take min_absorb1)
  then show ?thesis using assms(1) by metis
qed

lemma blit_facts:
  assumes "off + length bs \<le> length pool"
  shows "length (blit off bs pool) = length pool" "take off (blit off bs pool) = take off pool"
    "unat len = length bs \<Longrightarrow> str_at (blit off bs pool) (off, len) = bs"
  using assms by (simp_all add: blit_def str_at_def)

definition body_at :: "'fn route_config \<Rightarrow> nat \<Rightarrow> bytes option" where
  "body_at c i = (if 0 < i \<and> i \<le> length (rc_bodies c) then Some (str_at (rc_body_pool c) (rc_bodies c ! (i - 1))) else None)"

definition header_set_at :: "'fn route_config \<Rightarrow> nat \<Rightarrow> (bytes \<times> bytes) list option" where
  "header_set_at c i =
     (if 0 < i \<and> i \<le> length (rc_header_sets c) then
        let (o', n) = rc_header_sets c ! (i - 1) in
        Some (map (\<lambda>j. (str_at (rc_header_pool c) (rc_header_keys c ! j), str_at (rc_header_pool c) (rc_header_values c ! j)))
          [unat o'..<unat o' + unat n])
      else None)"

definition headers_valid :: "(bytes \<times> bytes) list \<Rightarrow> bool" where
  "headers_valid kvs \<longleftrightarrow> kvs \<noteq> [] \<and> length kvs \<le> 32 \<and> list_all (\<lambda>(k, v). validate_response_header k v = HOk) kvs \<and>
     distinct (map (\<lambda>(k, v). map fold_case k) kvs)"

definition bodies_ok :: "'fn route_config \<Rightarrow> bool" where
  "bodies_ok c \<longleftrightarrow> length (rc_body_pool c) = unat kResponseBodyPoolBytes \<and> unat (rc_body_used c) \<le> unat kResponseBodyPoolBytes \<and>
     length (rc_bodies c) \<le> kMaxResponseBodies \<and> list_all (\<lambda>s. str_end s \<le> unat (rc_body_used c)) (rc_bodies c)"

definition headers_ok :: "'fn route_config \<Rightarrow> bool" where
  "headers_ok c \<longleftrightarrow> length (rc_header_pool c) = unat kResponseHeaderBytesPoolBytes \<and> unat (rc_header_bytes_used c) \<le> unat kResponseHeaderBytesPoolBytes \<and>
     length (rc_header_keys c) \<le> unat kMaxHeaderPoolEntries \<and> length (rc_header_values c) = length (rc_header_keys c) \<and>
     list_all (\<lambda>s. str_end s \<le> unat (rc_header_bytes_used c)) (rc_header_keys c @ rc_header_values c) \<and>
     length (rc_header_sets c) \<le> kMaxResponseHeaderSets \<and>
     list_all (\<lambda>(o', n). unat o' + unat n \<le> length (rc_header_keys c)) (rc_header_sets c) \<and>
     (\<forall>i kvs. header_set_at c i = Some kvs \<longrightarrow> headers_valid kvs)"

lemma arg_bytes_length: "arg_ok p len \<Longrightarrow> \<not> (len > 0 \<and> p = None) \<Longrightarrow> length (arg_bytes p len) = unat len"
  by (cases p) (simp_all add: arg_ok_def arg_bytes_def word_gt_0)

section \<open>Bodies\<close>

lemma body_step:
  assumes ok: "bodies_ok c" and arg: "arg_ok d len" and run: "add_response_body c d len = (i, c')"
  shows "bodies_ok c'" "i = 0 \<Longrightarrow> c' = c" "i \<noteq> 0 \<Longrightarrow> body_at c' (unat i) = Some (arg_bytes d len)"
    "body_at c j = Some b \<Longrightarrow> body_at c' j = Some b"
proof -
  have "bodies_ok c' \<and> (i = 0 \<longrightarrow> c' = c) \<and> (i \<noteq> 0 \<longrightarrow> body_at c' (unat i) = Some (arg_bytes d len)) \<and>
    (\<forall>j b. body_at c j = Some b \<longrightarrow> body_at c' j = Some b)"
  proof (cases "length (rc_bodies c) \<ge> kMaxResponseBodies \<or> (len > 0 \<and> d = None) \<or> len > kResponseBodyPoolBytes - rc_body_used c")
    case True
    then have "i = 0" "c' = c" using run by (auto simp: add_response_body_def split: if_splits)
    then show ?thesis using ok by simp
  next
    case False
    let ?u = "rc_body_used c" and ?n = "length (rc_bodies c)" and ?bs = "arg_bytes d len"
    have O: "length (rc_body_pool c) = 8192" "unat ?u \<le> 8192" "list_all (\<lambda>s. str_end s \<le> unat ?u) (rc_bodies c)" "?n < 128"
      using ok False by (simp_all add: bodies_ok_def kResponseBodyPoolBytes_def kMaxResponseBodies_def)
    have l: "length ?bs = unat len" using arg_bytes_length [OF arg] False by blast
    have "len \<le> 8192 - ?u" "?u \<le> 8192" using False O(2) by (simp_all add: kResponseBodyPoolBytes_def not_less word_le_nat_alt)
    then have fit: "unat ?u + unat len \<le> 8192" "unat (?u + len) = unat ?u + unat len"
      by (simp_all add: word_le_nat_alt unat_sub) (simp add: unat_word_ariths)
    have c': "c' = c\<lparr>rc_body_pool := blit (unat ?u) ?bs (rc_body_pool c), rc_body_used := ?u + len, rc_bodies := rc_bodies c @ [(unat ?u, len)]\<rparr>"
      and i: "i = of_nat (?n + 1)"
      using run False by (auto simp: add_response_body_def arg_bytes_def Let_def)
    have ui: "unat i = ?n + 1" unfolding i by (rule unat_of_nat_small) (use O(4) in simp)
    note B = blit_facts [of "unat ?u" ?bs "rc_body_pool c", unfolded l O(1), OF fit(1)]
    have "bodies_ok c'" using O fit B(1)
      by (auto simp: c' bodies_ok_def kResponseBodyPoolBytes_def kMaxResponseBodies_def list_all_iff)
    moreover have "body_at c' (unat i) = Some ?bs" using B(3) [of len] l by (simp add: body_at_def ui) (simp add: c')
    moreover have "body_at c' j = Some b" if j: "body_at c j = Some b" for j b
    proof -
      have jn: "0 < j" "j \<le> ?n" "b = str_at (rc_body_pool c) (rc_bodies c ! (j - 1))" using j by (auto simp: body_at_def split: if_splits)
      have "str_end (rc_bodies c ! (j - 1)) \<le> unat ?u" using O(3) jn(1,2) by (simp add: list_all_length)
      then have "str_at (rc_body_pool c') (rc_bodies c ! (j - 1)) = b"
        unfolding jn(3) by (intro str_at_take [of "unat ?u"]) (simp_all add: c' B(2))
      moreover have "j - 1 < ?n" using jn(1,2) by simp
      ultimately show ?thesis using jn(1,2) by (simp add: body_at_def) (simp add: c' nth_append)
    qed
    moreover have "i \<noteq> 0" using ui by auto
    ultimately show ?thesis by blast
  qed
  then show "bodies_ok c'" "i = 0 \<Longrightarrow> c' = c" "i \<noteq> 0 \<Longrightarrow> body_at c' (unat i) = Some (arg_bytes d len)"
    "body_at c j = Some b \<Longrightarrow> body_at c' j = Some b" by blast+
qed
section \<open>Header sets\<close>

definition arg_pair :: "header_arg \<Rightarrow> bytes \<times> bytes" where
  "arg_pair h = (arg_key h, arg_value h)"

definition arg_size :: "header_arg \<Rightarrow> nat" where
  "arg_size h = unat (ha_key_len h) + unat (ha_value_len h)"

definition arg_full :: "header_arg \<Rightarrow> bool" where
  "arg_full h \<longleftrightarrow> length (arg_key h) = unat (ha_key_len h) \<and> length (arg_value h) = unat (ha_value_len h)"

lemma unat_add_guard: "\<not> b > 0xffffffff - (a :: u32) \<Longrightarrow> unat (a + b) = unat a + unat b"
proof -
  assume "\<not> b > 0xffffffff - a"
  then have le: "unat b \<le> unat (0xffffffff - a)" by (simp add: not_less word_le_nat_alt)
  have "a \<le> 0xffffffff" using unat_u32_lt [of a] by (simp add: word_le_nat_alt)
  then have "unat (0xffffffff - a) = 2 ^ 32 - 1 - unat a" by (simp add: unat_sub)
  then show ?thesis using le unat_u32_lt [of a] by (simp add: unat_word_ariths)
qed

lemma scan_headers_ok:
  assumes "scan_headers seen t hs = Some t'" "list_all header_arg_ok hs" "distinct (map (\<lambda>h. map fold_case (arg_key h)) seen)"
  shows "list_all (\<lambda>h. validate_response_header (arg_key h) (arg_value h) = HOk \<and> arg_full h) hs \<and>
    distinct (map (\<lambda>h. map fold_case (arg_key h)) (seen @ hs)) \<and> unat t' = unat t + sum_list (map arg_size hs)"
  using assms
proof (induction seen t hs rule: scan_headers.induct)
  case (2 seen t h hs)
  let ?t1 = "t + ha_key_len h"
  let ?nm = "\<lambda>h. map fold_case (arg_key h)"
  have g: "\<not> (ha_key_len h > 0 \<and> ha_key h = None)" "\<not> (ha_value_len h > 0 \<and> ha_value h = None)"
    "validate_response_header (arg_key h) (arg_value h) = HOk" "\<not> list_ex (\<lambda>g. http_header_name_eq_ci (arg_key h) (arg_key g)) seen"
    "\<not> ha_key_len h > 0xffffffff - t" "\<not> ha_value_len h > 0xffffffff - ?t1" "scan_headers (seen @ [h]) (?t1 + ha_value_len h) hs = Some t'"
    using 2(2) by (auto simp: Let_def split: if_splits)
  have full: "arg_full h" using 2(3) g(1,2) arg_bytes_length by (auto simp: arg_full_def header_arg_ok_def)
  have new: "?nm h \<notin> ?nm ` set seen" using g(4) by (auto simp: list_ex_iff name_eq_ci_iff)
  then have d: "distinct (map ?nm (seen @ [h]))" using 2(4) by simp
  have IH: "list_all (\<lambda>h. validate_response_header (arg_key h) (arg_value h) = HOk \<and> arg_full h) hs \<and>
    distinct (map ?nm ((seen @ [h]) @ hs)) \<and> unat t' = unat (?t1 + ha_value_len h) + sum_list (map arg_size hs)"
    by (rule 2(1) [OF _ _ _ _ refl _ g(7) _ d]) (use g 2(3) in auto)
  then show ?case using g(3) full unat_add_guard [OF g(5)] unat_add_guard [OF g(6)] arg_size_def [of h] by simp
qed simp

lemma copy_headers:
  assumes "list_all arg_full hs" "unat (rc_header_bytes_used c) + sum_list (map arg_size hs) \<le> length (rc_header_pool c)"
    "length (rc_header_pool c) < 2 ^ 32"
  defines "c' \<equiv> fold copy_header hs c"
  shows "\<exists>ks vs. rc_header_keys c' = rc_header_keys c @ ks \<and> rc_header_values c' = rc_header_values c @ vs \<and>
    map (str_at (rc_header_pool c')) ks = map arg_key hs \<and> map (str_at (rc_header_pool c')) vs = map arg_value hs \<and>
    list_all (\<lambda>s. str_end s \<le> unat (rc_header_bytes_used c')) (ks @ vs) \<and>
    unat (rc_header_bytes_used c') = unat (rc_header_bytes_used c) + sum_list (map arg_size hs) \<and>
    length (rc_header_pool c') = length (rc_header_pool c) \<and>
    take (unat (rc_header_bytes_used c)) (rc_header_pool c') = take (unat (rc_header_bytes_used c)) (rc_header_pool c) \<and>
    rc_header_sets c' = rc_header_sets c \<and> rc_bodies c' = rc_bodies c \<and> rc_body_pool c' = rc_body_pool c \<and> rc_body_used c' = rc_body_used c"
  using assms(1-3) unfolding c'_def
proof (induction hs arbitrary: c)
  case (Cons h hs)
  let ?u = "rc_header_bytes_used c" and ?c1 = "copy_header h c"
  have f: "length (arg_key h) = unat (ha_key_len h)" "length (arg_value h) = unat (ha_value_len h)" "list_all arg_full hs"
    using Cons.prems(1) arg_full_def [of h] by simp_all
  have fit: "unat ?u + unat (ha_key_len h) + unat (ha_value_len h) + sum_list (map arg_size hs) \<le> length (rc_header_pool c)"
    using Cons.prems(2) arg_size_def [of h] by simp
  have w: "unat (?u + ha_key_len h) = unat ?u + unat (ha_key_len h)" "unat (?u + ha_key_len h + ha_value_len h) = unat ?u + unat (ha_key_len h) + unat (ha_value_len h)"
    using fit Cons.prems(3) by (simp_all add: unat_word_ariths)
  let ?p1 = "blit (unat ?u) (arg_key h) (rc_header_pool c)"
  have B1: "length ?p1 = length (rc_header_pool c)" "take (unat ?u) ?p1 = take (unat ?u) (rc_header_pool c)" "str_at ?p1 (unat ?u, ha_key_len h) = arg_key h"
    by (rule blit_facts; use fit f in simp)+
  let ?v = "unat (?u + ha_key_len h)"
  let ?p2 = "blit ?v (arg_value h) ?p1"
  have B2: "length ?p2 = length ?p1" "take ?v ?p2 = take ?v ?p1" "str_at ?p2 (?v, ha_value_len h) = arg_value h"
    by (rule blit_facts; use fit f w B1(1) in simp)+
  have c1: "rc_header_pool ?c1 = ?p2" "rc_header_bytes_used ?c1 = ?u + ha_key_len h + ha_value_len h"
    "rc_header_keys ?c1 = rc_header_keys c @ [(unat ?u, ha_key_len h)]" "rc_header_values ?c1 = rc_header_values c @ [(?v, ha_value_len h)]"
    "rc_header_sets ?c1 = rc_header_sets c" "rc_bodies ?c1 = rc_bodies c" "rc_body_pool ?c1 = rc_body_pool c" "rc_body_used ?c1 = rc_body_used c"
    by (simp_all add: copy_header_def Let_def)
  have key: "str_at ?p2 (unat ?u, ha_key_len h) = arg_key h" using B1(3) str_at_take [OF B2(2), of "(unat ?u, ha_key_len h)"] w(1) by simp
  have "unat (rc_header_bytes_used ?c1) + sum_list (map arg_size hs) \<le> length (rc_header_pool ?c1)" "length (rc_header_pool ?c1) < 2 ^ 32"
    unfolding c1 B2(1) B1(1) using fit w Cons.prems(3) by simp_all
  from Cons.IH [OF f(3) this] obtain ks vs where I: "rc_header_keys (fold copy_header hs ?c1) = rc_header_keys ?c1 @ ks"
    "rc_header_values (fold copy_header hs ?c1) = rc_header_values ?c1 @ vs"
    "map (str_at (rc_header_pool (fold copy_header hs ?c1))) ks = map arg_key hs" "map (str_at (rc_header_pool (fold copy_header hs ?c1))) vs = map arg_value hs"
    "list_all (\<lambda>s. str_end s \<le> unat (rc_header_bytes_used (fold copy_header hs ?c1))) (ks @ vs)"
    "unat (rc_header_bytes_used (fold copy_header hs ?c1)) = unat (rc_header_bytes_used ?c1) + sum_list (map arg_size hs)"
    "length (rc_header_pool (fold copy_header hs ?c1)) = length (rc_header_pool ?c1)"
    "take (unat (rc_header_bytes_used ?c1)) (rc_header_pool (fold copy_header hs ?c1)) = take (unat (rc_header_bytes_used ?c1)) (rc_header_pool ?c1)"
    "rc_header_sets (fold copy_header hs ?c1) = rc_header_sets ?c1 \<and> rc_bodies (fold copy_header hs ?c1) = rc_bodies ?c1 \<and>
     rc_body_pool (fold copy_header hs ?c1) = rc_body_pool ?c1 \<and> rc_body_used (fold copy_header hs ?c1) = rc_body_used ?c1" by blast
  let ?d = "fold copy_header hs ?c1"
  have I7: "length (rc_header_pool ?d) = length (rc_header_pool c)" unfolding I(7) c1(1) B2(1) B1(1) ..
  have kv: "str_at (rc_header_pool ?d) (unat ?u, ha_key_len h) = arg_key h" "str_at (rc_header_pool ?d) (?v, ha_value_len h) = arg_value h"
    using str_at_take [OF I(8), of "(unat ?u, ha_key_len h)"] str_at_take [OF I(8), of "(?v, ha_value_len h)"] key B2(3) w by (simp_all add: c1)
  have low: "take (unat ?u) (rc_header_pool ?d) = take (unat ?u) (rc_header_pool c)"
  proof -
    have t: "take (unat ?u) x = take (unat ?u) (take (unat (rc_header_bytes_used ?c1)) x)" for x :: bytes using w by (simp add: c1 min_absorb1)
    have "take (unat ?u) ?p2 = take (unat ?u) (take ?v ?p2)" using w by (simp add: min_absorb1)
    also have "\<dots> = take (unat ?u) ?p1" unfolding B2(2) using w by (simp add: min_absorb1)
    finally have p2: "take (unat ?u) ?p2 = take (unat ?u) (rc_header_pool c)" unfolding B1(2) .
    have "take (unat ?u) (rc_header_pool ?d) = take (unat ?u) (take (unat (rc_header_bytes_used ?c1)) ?p2)"
      unfolding I(8) [unfolded c1(1), symmetric] by (rule t)
    also have "\<dots> = take (unat ?u) ?p2" by (rule t [symmetric])
    finally show ?thesis unfolding p2 .
  qed
  show ?case
    by (rule exI [of _ "(unat ?u, ha_key_len h) # ks"], rule exI [of _ "(?v, ha_value_len h) # vs"])
      (use I(1-6,9) I7 kv low w arg_size_def [of h] in \<open>simp add: c1\<close>)
qed simp

lemma header_set_stable:
  assumes ok: "headers_ok c" and k: "rc_header_keys c' = rc_header_keys c @ ks" "rc_header_values c' = rc_header_values c @ vs"
    and p: "take (unat (rc_header_bytes_used c)) (rc_header_pool c') = take (unat (rc_header_bytes_used c)) (rc_header_pool c)"
    and s: "rc_header_sets c' = rc_header_sets c @ ss" and j: "header_set_at c j = Some kvs"
  shows "header_set_at c' j = Some kvs"
proof -
  obtain o' n where q: "rc_header_sets c ! (j - 1) = (o', n)" by fastforce
  have on: "0 < j" "j \<le> length (rc_header_sets c)" "rc_header_sets c ! (j - 1) = (o', n)"
    and kvs: "kvs = map (\<lambda>j. (str_at (rc_header_pool c) (rc_header_keys c ! j), str_at (rc_header_pool c) (rc_header_values c ! j))) [unat o'..<unat o' + unat n]"
    using j q by (auto simp: header_set_at_def split: if_splits)
  have "j - 1 < length (rc_header_sets c)" using on(1,2) by simp
  then have b: "unat o' + unat n \<le> length (rc_header_keys c)" and s': "rc_header_sets c' ! (j - 1) = (o', n)"
    using ok on(3) by (auto simp: headers_ok_def list_all_length s nth_append)
  have "str_at (rc_header_pool c') (rc_header_keys c' ! x) = str_at (rc_header_pool c) (rc_header_keys c ! x)"
    "str_at (rc_header_pool c') (rc_header_values c' ! x) = str_at (rc_header_pool c) (rc_header_values c ! x)" if "x < length (rc_header_keys c)" for x
  proof -
    have x: "x < length (rc_header_keys c)" "x < length (rc_header_values c)" using that ok by (simp_all add: headers_ok_def)
    have "str_end (rc_header_keys c ! x) \<le> unat (rc_header_bytes_used c)" "str_end (rc_header_values c ! x) \<le> unat (rc_header_bytes_used c)"
      using ok nth_mem [OF x(1)] nth_mem [OF x(2)] by (simp_all add: headers_ok_def list_all_iff)
    then show "str_at (rc_header_pool c') (rc_header_keys c' ! x) = str_at (rc_header_pool c) (rc_header_keys c ! x)"
      "str_at (rc_header_pool c') (rc_header_values c' ! x) = str_at (rc_header_pool c) (rc_header_values c ! x)"
      using str_at_take [OF p] x by (simp_all add: k nth_append)
  qed
  then show ?thesis using on(1,2) s' b by (simp add: header_set_at_def kvs s)
qed

lemma header_set_step:
  assumes ok: "headers_ok c" and arg: "list_all header_arg_ok hs" and run: "add_response_header_set c (Some hs) = (i, c')"
  shows "headers_ok c'" "i = 0 \<Longrightarrow> c' = c" "i \<noteq> 0 \<Longrightarrow> header_set_at c' (unat i) = Some (map arg_pair hs)"
    "header_set_at c j = Some kvs \<Longrightarrow> header_set_at c' j = Some kvs"
    "rc_bodies c' = rc_bodies c \<and> rc_body_pool c' = rc_body_pool c \<and> rc_body_used c' = rc_body_used c"
proof -
  let ?u = "rc_header_bytes_used c" and ?n = "length (rc_header_sets c)" and ?m = "length (rc_header_keys c)"
  have O: "length (rc_header_pool c) = 8192" "unat ?u \<le> 8192" "?m \<le> 512" "length (rc_header_values c) = ?m"
    "list_all (\<lambda>s. str_end s \<le> unat ?u) (rc_header_keys c @ rc_header_values c)" "?n \<le> 128"
    "list_all (\<lambda>(o', n). unat o' + unat n \<le> ?m) (rc_header_sets c)" "\<And>i kvs. header_set_at c i = Some kvs \<Longrightarrow> headers_valid kvs"
    using ok by (simp_all add: headers_ok_def kResponseHeaderBytesPoolBytes_def kMaxHeaderPoolEntries_def kMaxResponseHeaderSets_def)
  have "headers_ok c' \<and> (i = 0 \<longrightarrow> c' = c) \<and> (i \<noteq> 0 \<longrightarrow> header_set_at c' (unat i) = Some (map arg_pair hs)) \<and>
    (\<forall>j kvs. header_set_at c j = Some kvs \<longrightarrow> header_set_at c' j = Some kvs) \<and>
    rc_bodies c' = rc_bodies c \<and> rc_body_pool c' = rc_body_pool c \<and> rc_body_used c' = rc_body_used c"
  proof (cases "hs = [] \<or> ?n \<ge> 128 \<or> length hs > 32 \<or> length hs > unat ((512 :: u32) - of_nat ?m) \<or>
      (case scan_headers [] 0 hs of None \<Rightarrow> True | Some t \<Rightarrow> t > 8192 - ?u)")
    case True
    then have "i = 0 \<and> c' = c" using run
      by (auto simp: add_response_header_set_def kResponseHeaderBytesPoolBytes_def kMaxHeaderPoolEntries_def kMaxResponseHeaderSets_def kMaxHeadersPerSet_def
        split: if_splits option.splits)
    then show ?thesis using ok by simp
  next
    case False
    then obtain t where t: "scan_headers [] 0 hs = Some t" "\<not> t > 8192 - ?u" by (auto split: option.splits)
    have room: "?m + length hs \<le> 512"
    proof -
      have "unat (of_nat ?m :: u32) = ?m" by (rule unat_of_nat_small) (use O(3) in simp)
      moreover have "(of_nat ?m :: u32) \<le> 512" using O(3) calculation by (simp add: word_le_nat_alt)
      ultimately have "unat ((512 :: u32) - of_nat ?m) = 512 - ?m" by (simp add: unat_sub)
      moreover have "\<not> unat ((512 :: u32) - of_nat ?m) < length hs" using False by blast
      ultimately show ?thesis using O(3) by linarith
    qed
    have S: "list_all (\<lambda>h. validate_response_header (arg_key h) (arg_value h) = HOk \<and> arg_full h) hs"
      "distinct (map (\<lambda>h. map fold_case (arg_key h)) hs)" "unat t = sum_list (map arg_size hs)"
      using scan_headers_ok [OF t(1) arg] by simp_all
    have "?u \<le> 8192" using O(2) by (simp add: word_le_nat_alt)
    then have fit: "unat ?u + sum_list (map arg_size hs) \<le> length (rc_header_pool c)"
      using t(2) S(3) O(1) by (simp add: not_less word_le_nat_alt unat_sub)
    have full: "list_all arg_full hs" using S(1) by (simp add: list_all_iff)
    obtain ks vs where C: "rc_header_keys (fold copy_header hs c) = rc_header_keys c @ ks" "rc_header_values (fold copy_header hs c) = rc_header_values c @ vs"
      "map (str_at (rc_header_pool (fold copy_header hs c))) ks = map arg_key hs" "map (str_at (rc_header_pool (fold copy_header hs c))) vs = map arg_value hs"
      "list_all (\<lambda>s. str_end s \<le> unat (rc_header_bytes_used (fold copy_header hs c))) (ks @ vs)"
      "unat (rc_header_bytes_used (fold copy_header hs c)) = unat ?u + sum_list (map arg_size hs)"
      "length (rc_header_pool (fold copy_header hs c)) = length (rc_header_pool c)"
      "take (unat ?u) (rc_header_pool (fold copy_header hs c)) = take (unat ?u) (rc_header_pool c)"
      "rc_header_sets (fold copy_header hs c) = rc_header_sets c" "rc_bodies (fold copy_header hs c) = rc_bodies c"
      "rc_body_pool (fold copy_header hs c) = rc_body_pool c" "rc_body_used (fold copy_header hs c) = rc_body_used c"
      using copy_headers [OF full fit] O(1) by auto
    have lk: "length ks = length hs" "length vs = length hs" using arg_cong [OF C(3), of length] arg_cong [OF C(4), of length] by simp_all
    have c': "c' = (fold copy_header hs c)\<lparr>rc_header_sets := rc_header_sets c @ [(of_nat ?m, of_nat (length hs))]\<rparr>" and i: "i = of_nat (?n + 1)"
      using run False t C(9) by (auto simp: add_response_header_set_def kResponseHeaderBytesPoolBytes_def kMaxHeaderPoolEntries_def
        kMaxResponseHeaderSets_def kMaxHeadersPerSet_def Let_def)
    have F: "rc_header_keys c' = rc_header_keys c @ ks" "rc_header_values c' = rc_header_values c @ vs" "rc_header_pool c' = rc_header_pool (fold copy_header hs c)"
      "rc_header_bytes_used c' = rc_header_bytes_used (fold copy_header hs c)" "rc_header_sets c' = rc_header_sets c @ [(of_nat ?m, of_nat (length hs))]"
      by (simp_all add: c' C)
    have ui: "unat i = ?n + 1" unfolding i by (rule unat_of_nat_small) (use False in simp)
    have um: "unat (of_nat ?m :: u16) = ?m" by (rule unat_of_nat_small) (use O(3) in simp)
    have ul: "unat (of_nat (length hs) :: u16) = length hs" by (rule unat_of_nat_small) (use room in simp)
    have stable: "header_set_at c j = Some kvs \<Longrightarrow> header_set_at c' j = Some kvs" for j kvs
      by (rule header_set_stable [OF ok F(1,2) _ F(5)]) (simp_all add: F C(8))
    have new: "header_set_at c' (?n + 1) = Some (map arg_pair hs)"
    proof -
      have "map (\<lambda>j. (str_at (rc_header_pool c') (rc_header_keys c' ! j), str_at (rc_header_pool c') (rc_header_values c' ! j))) [?m..<?m + length hs] = map arg_pair hs"
      proof (rule nth_equalityI)
        fix x assume "x < length (map (\<lambda>j. (str_at (rc_header_pool c') (rc_header_keys c' ! j), str_at (rc_header_pool c') (rc_header_values c' ! j))) [?m..<?m + length hs])"
        then have x: "x < length hs" by simp
        have "str_at (rc_header_pool c') (ks ! x) = arg_key (hs ! x)" "str_at (rc_header_pool c') (vs ! x) = arg_value (hs ! x)"
          using arg_cong [OF C(3), of "\<lambda>l. l ! x"] arg_cong [OF C(4), of "\<lambda>l. l ! x"] x lk by (simp_all add: F(3))
        then show "map (\<lambda>j. (str_at (rc_header_pool c') (rc_header_keys c' ! j), str_at (rc_header_pool c') (rc_header_values c' ! j))) [?m..<?m + length hs] ! x = map arg_pair hs ! x"
          using x O(4) by (simp add: F(1,2) arg_pair_def nth_append)
      qed simp
      then show ?thesis unfolding header_set_at_def F(5) by (simp add: um ul)
    qed
    have valid: "headers_valid (map arg_pair hs)"
      using False S(1,2) by (simp add: headers_valid_def arg_pair_def list_all_iff comp_def)
    have used: "unat ?u \<le> unat (rc_header_bytes_used c')" "unat (rc_header_bytes_used c') \<le> 8192" using C(6) fit O(1) by (simp_all add: F(4))
    have "headers_valid kvs" if x: "header_set_at c' x = Some kvs" for x kvs
    proof (cases "x \<le> ?n")
      case True
      then obtain kvs' where o: "header_set_at c x = Some kvs'" using x by (auto simp: header_set_at_def case_prod_unfold Let_def split: if_splits)
      then show ?thesis using stable [OF o] x O(8) [OF o] by simp
    next
      case False
      then have "x = ?n + 1" using x by (auto simp: header_set_at_def F(5) split: if_splits)
      then show ?thesis using x new valid by simp
    qed
    moreover have "list_all (\<lambda>s. str_end s \<le> unat (rc_header_bytes_used c')) (rc_header_keys c' @ rc_header_values c')"
      unfolding list_all_iff
    proof
      fix s assume "s \<in> set (rc_header_keys c' @ rc_header_values c')"
      then have "s \<in> set (rc_header_keys c @ rc_header_values c) \<or> s \<in> set (ks @ vs)" unfolding F(1,2) by auto
      then have "str_end s \<le> unat ?u \<or> str_end s \<le> unat (rc_header_bytes_used c')" using O(5) C(5) unfolding list_all_iff F(4) by blast
      then show "str_end s \<le> unat (rc_header_bytes_used c')" using used(1) by linarith
    qed
    moreover have "list_all (\<lambda>(o', n). unat o' + unat n \<le> length (rc_header_keys c')) (rc_header_sets c')"
      using O(7) lk by (auto simp: F um ul list_all_iff)
    ultimately have "headers_ok c'" using used(2) O(1,4) False lk room C(7)
      by (simp add: headers_ok_def F kResponseHeaderBytesPoolBytes_def kMaxHeaderPoolEntries_def kMaxResponseHeaderSets_def)
    then show ?thesis using ui new stable c' C(10-12) by auto
  qed
  then show "headers_ok c'" "i = 0 \<Longrightarrow> c' = c" "i \<noteq> 0 \<Longrightarrow> header_set_at c' (unat i) = Some (map arg_pair hs)"
    "header_set_at c j = Some kvs \<Longrightarrow> header_set_at c' j = Some kvs"
    "rc_bodies c' = rc_bodies c \<and> rc_body_pool c' = rc_body_pool c \<and> rc_body_used c' = rc_body_used c" by blast+
qed

section \<open>All operations\<close>

definition pools_ok :: "'fn route_config \<Rightarrow> bool" where
  "pools_ok c \<longleftrightarrow> bodies_ok c \<and> headers_ok c"

definition same_pools :: "'fn route_config \<Rightarrow> 'fn route_config \<Rightarrow> bool" where
  "same_pools c c' \<longleftrightarrow> rc_bodies c' = rc_bodies c \<and> rc_body_pool c' = rc_body_pool c \<and> rc_body_used c' = rc_body_used c \<and>
     rc_header_keys c' = rc_header_keys c \<and> rc_header_values c' = rc_header_values c \<and> rc_header_sets c' = rc_header_sets c \<and>
     rc_header_pool c' = rc_header_pool c \<and> rc_header_bytes_used c' = rc_header_bytes_used c"

lemma same_pools_refl [simp]: "same_pools c c"
  by (simp add: same_pools_def)

lemma same_poolsD:
  assumes "same_pools c c'"
  shows "pools_ok c' = pools_ok c" "body_at c' i = body_at c i" "header_set_at c' i = header_set_at c i"
  using assms by (simp_all add: same_pools_def pools_ok_def bodies_ok_def headers_ok_def body_at_def header_set_at_def)

lemma add_entry_pools: "add_entry c p m e = Some (b, c') \<Longrightarrow> same_pools c c'"
  by (auto simp: add_entry_def populate_dispatch_state_def same_pools_def Let_def
    split: if_splits option.splits dispatch_kind.splits prod.splits)

lemma pools_step:
  assumes ok: "pools_ok c" and arg: "op_ok x" and run: "rc_step x c = Some c'"
  shows "pools_ok c' \<and> (\<forall>i b. body_at c i = Some b \<longrightarrow> body_at c' i = Some b) \<and> (\<forall>i s. header_set_at c i = Some s \<longrightarrow> header_set_at c' i = Some s)"
proof -
  have same: ?thesis if "same_pools c c'" using ok same_poolsD [OF that] by simp
  show ?thesis
  proof (cases x)
    case (AddResponseBody d l)
    obtain i c1 where a: "add_response_body c d l = (i, c1)" by fastforce
    have c': "c' = c1" using run a by (simp add: rc_step_def AddResponseBody)
    have b: "bodies_ok c" "arg_ok d l" using ok arg by (simp_all add: pools_ok_def op_ok_def AddResponseBody)
    have h: "headers_ok c1 = headers_ok c" "header_set_at c1 = header_set_at c"
      using a by (auto simp: add_response_body_def headers_ok_def header_set_at_def fun_eq_iff Let_def split: if_splits)
    show ?thesis unfolding c' using body_step [OF b a] ok h by (simp add: pools_ok_def)
  next
    case (AddResponseHeaderSet t)
    show ?thesis
    proof (cases t)
      case None
      then have "c' = c" using run by (simp add: rc_step_def AddResponseHeaderSet add_response_header_set_def)
      then show ?thesis using ok by simp
    next
      case (Some hs)
      obtain i c1 where a: "add_response_header_set c (Some hs) = (i, c1)" by fastforce
      have c': "c' = c1" using run a by (simp add: rc_step_def AddResponseHeaderSet Some)
      have b: "headers_ok c" "list_all header_arg_ok hs" using ok arg by (simp_all add: pools_ok_def op_ok_def AddResponseHeaderSet Some)
      have "bodies_ok c1 = bodies_ok c" "body_at c1 = body_at c" using header_set_step(5) [OF b a] by (simp_all add: bodies_ok_def body_at_def fun_eq_iff)
      then show ?thesis unfolding c' using header_set_step(1,4) [OF b a] ok by (simp add: pools_ok_def)
    qed
  next
    case (AddProxy p m u)
    then show ?thesis using run by (intro same) (auto simp: rc_step_def add_proxy_def split: if_splits dest: add_entry_pools)
  next
    case (AddStatic p m s)
    then show ?thesis using run by (intro same) (auto simp: rc_step_def add_static_def split: if_splits dest: add_entry_pools)
  next
    case (AddJitHandler p m f n)
    then show ?thesis using run by (intro same) (auto simp: rc_step_def add_jit_handler_def split: if_splits dest: add_entry_pools)
  next
    case (AddUpstream n ip port)
    then show ?thesis using run by (intro same) (auto simp: rc_step_def add_upstream_def same_pools_def)
  next
    case UseArt
    then show ?thesis using run by (intro same) (auto simp: rc_step_def use_art_def same_pools_def)
  next
    case UseSegmentTrie
    then show ?thesis using run by (intro same) (auto simp: rc_step_def use_segment_trie_def same_pools_def)
  qed
qed

lemma pools_run:
  assumes "pools_ok c" "list_all op_ok ops" "rc_run ops c = Some c'"
  shows "pools_ok c' \<and> (\<forall>i b. body_at c i = Some b \<longrightarrow> body_at c' i = Some b) \<and> (\<forall>i s. header_set_at c i = Some s \<longrightarrow> header_set_at c' i = Some s)"
  using assms
proof (induction ops arbitrary: c)
  case (Cons x xs)
  then obtain c1 where c1: "rc_step x c = Some c1" "rc_run xs c1 = Some c'" by (auto split: option.splits)
  have x: "op_ok x" "list_all op_ok xs" using Cons.prems(2) by simp_all
  note S = pools_step [OF Cons.prems(1) x(1) c1(1)]
  then have "pools_ok c1" by blast
  from Cons.IH [OF this x(2) c1(2)] S show ?case by blast
qed simp

lemma pools_ok_new: "pools_ok rc_new"
  by (simp add: pools_ok_def bodies_ok_def headers_ok_def rc_new_def header_set_at_def)

text \<open>
  C34: A response body or a header set that the table accepts at any point of its construction is read back, through the
  index that was returned, exactly as it was given, after every later sequence of operations: the pools are never overrun and no
  later registration overwrites an earlier one.  An accepted header set has one to 32 headers, each name is a token that is not
  \<open>Content-Length\<close>, \<open>Transfer-Encoding\<close> or \<open>Connection\<close>, each value is free of control bytes, and no two names
  are equal up to case.
\<close>

theorem registered_bytes:
  assumes ops: "list_all op_ok ops" "rc_run ops rc_new = Some c" and later: "list_all op_ok later"
  shows "(arg_ok d len \<and> add_response_body c d len = (i, c1) \<and> i \<noteq> 0 \<and> rc_run later c1 = Some c2 \<longrightarrow>
      body_at c2 (unat i) = Some (arg_bytes d len)) \<and>
    (list_all header_arg_ok hs \<and> add_response_header_set c (Some hs) = (i, c1) \<and> i \<noteq> 0 \<and> rc_run later c1 = Some c2 \<longrightarrow>
      header_set_at c2 (unat i) = Some (map arg_pair hs) \<and> headers_valid (map arg_pair hs))"
proof (intro conjI impI)
  have ok: "pools_ok c" using pools_run [OF pools_ok_new ops] by blast
  show "body_at c2 (unat i) = Some (arg_bytes d len)"
    if a: "arg_ok d len \<and> add_response_body c d len = (i, c1) \<and> i \<noteq> 0 \<and> rc_run later c1 = Some c2"
  proof -
    have "rc_step (AddResponseBody d len) c = Some c1" "op_ok (AddResponseBody d len)" using a by (simp_all add: rc_step_def op_ok_def)
    then have "pools_ok c1" using pools_step [OF ok] by blast
    moreover have "body_at c1 (unat i) = Some (arg_bytes d len)" using body_step(3) [of c d len i c1] ok a by (simp add: pools_ok_def)
    ultimately show ?thesis using pools_run [OF _ later] a by blast
  qed
  assume a: "list_all header_arg_ok hs \<and> add_response_header_set c (Some hs) = (i, c1) \<and> i \<noteq> 0 \<and> rc_run later c1 = Some c2"
  have "rc_step (AddResponseHeaderSet (Some hs)) c = Some c1" "op_ok (AddResponseHeaderSet (Some hs))" using a by (simp_all add: rc_step_def op_ok_def)
  then have ok1: "pools_ok c1" using pools_step [OF ok] by blast
  have at: "header_set_at c1 (unat i) = Some (map arg_pair hs)" using header_set_step(3) [of c hs i c1] ok a by (simp add: pools_ok_def)
  then show "header_set_at c2 (unat i) = Some (map arg_pair hs)" using pools_run [OF ok1 later] a by blast
  show "headers_valid (map arg_pair hs)" using ok1 at by (auto simp: pools_ok_def headers_ok_def)
qed

theorem registered_bytes_witness:
  "\<exists>c1 c2. add_response_body (rc_new :: unit route_config) (Some (ascii ''hi'')) 2 = (1, c1) \<and>
     rc_run [AddResponseBody (Some (ascii ''other'')) 5] c1 = Some c2 \<and> body_at c2 1 = Some (ascii ''hi'')"
proof -
  let ?ops = "[AddResponseBody (Some (ascii ''other'')) 5] :: unit rc_op list"
  obtain i c1 where a: "add_response_body (rc_new :: unit route_config) (Some (ascii ''hi'')) 2 = (i, c1)" by fastforce
  then have i: "i = 1" by (simp add: add_response_body_def rc_new_def kMaxResponseBodies_def kResponseBodyPoolBytes_def)
  have ok: "arg_ok (Some (ascii ''hi'')) 2" "list_all op_ok ?ops" by (simp_all add: arg_ok_def op_ok_def)
  obtain c2 where c2: "rc_run ?ops c1 = Some c2" by (simp add: rc_step_def)
  have "body_at c2 (unat i) = Some (arg_bytes (Some (ascii ''hi'')) 2)"
    using registered_bytes [of "[]" rc_new ?ops "Some (ascii ''hi'')" 2 i c1 c2] ok a i c2 by simp
  then show ?thesis using a i c2 by (auto simp: arg_bytes_def)
qed

end
