(* ===== verification/Yield_Heap.thy ===== *)
theory Yield_Heap
  imports Handler_Abi "HOL-Library.Multiset"
begin

text \<open>
  The heap of pending handler deadlines of the epoll loop
  (\<open>include/rut/runtime/epoll_event_loop.h\<close>, namespace \<open>epoll_yield\<close>) and the
  one-shot timer that follows its top.

  A yielded handler waits for an absolute deadline.  The heap is an array with the
  usual parent and child positions; its used part is the list of the model, so that
  \<open>size\<close> is the length of the list.  The lemmas show that every operation keeps the
  order of the heap, what it does to the multiset of entries, that the top is a
  smallest deadline, and that the programmed timer is always that deadline.
\<close>

section \<open>The array and its operations\<close>

record yh_entry =
  deadline_ns :: u64
  handler_gen :: u32
  ye_conn_id :: u32

definition yh_cap :: nat where
  "yh_cap = 16384 + 256"

definition yh_parent :: "nat \<Rightarrow> nat" where
  "yh_parent i = (i - 1) div 2"

definition yh_swap :: "yh_entry list \<Rightarrow> nat \<Rightarrow> nat \<Rightarrow> yh_entry list" where
  "yh_swap es p i = es[p := es ! i, i := es ! p]"

lemma length_yh_swap [simp]: "length (yh_swap es p i) = length es"
  by (simp add: yh_swap_def)

lemma yh_parent_less [simp]: "0 < i \<Longrightarrow> yh_parent i < i"
  by (auto simp: yh_parent_def)

function sift_up :: "yh_entry list \<Rightarrow> nat \<Rightarrow> yh_entry list" where
  "sift_up es i =
     (if 0 < i then
        (let p = yh_parent i in
         if deadline_ns (es ! p) \<le> deadline_ns (es ! i) then es
         else sift_up (yh_swap es p i) p)
      else es)"
  by pat_completeness auto
termination by (relation "measure snd") auto

text \<open>The child that \<open>sift_down\<close> exchanges with position \<open>i\<close>, or \<open>i\<close> itself.\<close>

definition smallest_child :: "yh_entry list \<Rightarrow> nat \<Rightarrow> nat" where
  "smallest_child es i =
     (let l = 2 * i + 1; r = 2 * i + 2;
          s = (if l < length es \<and> deadline_ns (es ! l) < deadline_ns (es ! i) then l else i)
      in if r < length es \<and> deadline_ns (es ! r) < deadline_ns (es ! s) then r else s)"

lemma smallest_child_bounds:
  "smallest_child es i \<noteq> i \<Longrightarrow> i < smallest_child es i \<and> smallest_child es i < length es"
  by (auto simp: smallest_child_def Let_def split: if_splits)

lemma smallest_child_measure:
  "smallest_child es i \<noteq> i \<Longrightarrow> length es - smallest_child es i < length es - i"
  using smallest_child_bounds [of es i] by linarith

function sift_down :: "yh_entry list \<Rightarrow> nat \<Rightarrow> yh_entry list" where
  "sift_down es i =
     (let s = smallest_child es i in if s = i then es else sift_down (yh_swap es s i) s)"
  by pat_completeness auto
termination
  by (relation "measure (\<lambda>(es, i). length es - i)") (auto simp: smallest_child_measure)

declare sift_up.simps [simp del] sift_down.simps [simp del]

definition sift :: "yh_entry list \<Rightarrow> nat \<Rightarrow> yh_entry list" where
  "sift es i = sift_down (sift_up es i) i"

definition yh_push :: "yh_entry list \<Rightarrow> u64 \<Rightarrow> u32 \<Rightarrow> u32 \<Rightarrow> yh_entry list \<times> bool" where
  "yh_push es d g c =
     (if length es \<ge> yh_cap then (es, False)
      else (sift_up (es @ [\<lparr>deadline_ns = d, handler_gen = g, ye_conn_id = c\<rparr>]) (length es), True))"

text \<open>\<open>entries[i] = entries[--size]\<close>\<close>

definition drop_tail_into :: "yh_entry list \<Rightarrow> nat \<Rightarrow> yh_entry list" where
  "drop_tail_into es i = butlast (es[i := last es])"

lemma length_drop_tail [simp]: "length (drop_tail_into es i) = length es - 1"
  by (simp add: drop_tail_into_def)

definition yh_pop :: "yh_entry list \<Rightarrow> yh_entry list" where
  "yh_pop es = (if es = [] then es else sift_down (drop_tail_into es 0) 0)"

lemma length_sift_up [simp]: "length (sift_up es i) = length es"
  by (induction es i rule: sift_up.induct) (subst sift_up.simps, simp add: Let_def)

lemma length_sift_down [simp]: "length (sift_down es i) = length es"
  by (induction es i rule: sift_down.induct) (subst sift_down.simps, simp add: Let_def)

lemma length_sift [simp]: "length (sift es i) = length es"
  by (simp add: sift_def)

function remove_loop :: "yh_entry list \<Rightarrow> u32 \<Rightarrow> nat \<Rightarrow> nat \<Rightarrow> yh_entry list \<times> nat" where
  "remove_loop es c i n =
     (if i < length es then
        if ye_conn_id (es ! i) \<noteq> c then remove_loop es c (i + 1) n
        else (let es' = drop_tail_into es i
              in remove_loop (if i < length es' then sift es' i else es') c i (n + 1))
      else (es, n))"
  by pat_completeness auto
termination
  by (relation "measure (\<lambda>(es, c, i, n). length es - i)") (auto simp: Let_def)

declare remove_loop.simps [simp del]

definition remove_by_conn :: "yh_entry list \<Rightarrow> u32 \<Rightarrow> yh_entry list \<times> nat" where
  "remove_by_conn es c = remove_loop es c 0 0"

section \<open>The order of the heap\<close>

definition yh_edge :: "yh_entry list \<Rightarrow> nat \<Rightarrow> bool" where
  "yh_edge es j = (deadline_ns (es ! yh_parent j) \<le> deadline_ns (es ! j))"

definition yh_heap :: "yh_entry list \<Rightarrow> bool" where
  "yh_heap es = (\<forall>j<length es. 0 < j \<longrightarrow> yh_edge es j)"

lemma yh_heap_code [code]: "yh_heap es = list_all (yh_edge es) [1..<length es]"
  by (auto simp: yh_heap_def list_all_iff)

text \<open>
  Every edge is in order but those at position \<open>i\<close>, and the parent of \<open>i\<close> is in
  order with the children of \<open>i\<close>: what remains when the entry at \<open>i\<close> is replaced.
\<close>

definition yh_hole :: "yh_entry list \<Rightarrow> nat \<Rightarrow> bool" where
  "yh_hole es i =
     ((\<forall>j<length es. 0 < j \<longrightarrow> j \<noteq> i \<longrightarrow> yh_parent j \<noteq> i \<longrightarrow> yh_edge es j) \<and>
      (\<forall>j<length es. 0 < j \<longrightarrow> 0 < i \<longrightarrow> yh_parent j = i \<longrightarrow>
         deadline_ns (es ! yh_parent i) \<le> deadline_ns (es ! j)))"

definition below_ok :: "yh_entry list \<Rightarrow> nat \<Rightarrow> bool" where
  "below_ok es i = (\<forall>j<length es. 0 < j \<longrightarrow> yh_parent j = i \<longrightarrow> yh_edge es j)"

definition above_ok :: "yh_entry list \<Rightarrow> nat \<Rightarrow> bool" where
  "above_ok es i = (0 < i \<longrightarrow> i < length es \<longrightarrow> yh_edge es i)"

lemma yh_swap_nth:
  "p < length es \<Longrightarrow> i < length es \<Longrightarrow>
   yh_swap es p i ! j = (if j = i then es ! p else if j = p then es ! i else es ! j)"
  by (auto simp: yh_swap_def nth_list_update)

lemma mset_yh_swap:
  "p < length es \<Longrightarrow> i < length es \<Longrightarrow> mset (yh_swap es p i) = mset es"
  unfolding yh_swap_def by (rule mset_swap)

lemma heap_iff_hole: "yh_heap es \<longleftrightarrow> yh_hole es i \<and> below_ok es i \<and> above_ok es i"
proof -
  have "yh_hole es i \<and> below_ok es i \<and> above_ok es i" if h: "yh_heap es"
  proof -
    have g: "deadline_ns (es ! yh_parent i) \<le> deadline_ns (es ! j)"
      if "j < length es" "0 < j" "0 < i" "yh_parent j = i" for j
    proof -
      have "i < length es" using that yh_parent_less [of j] by simp
      then have "yh_edge es i" "yh_edge es j" using h that by (auto simp: yh_heap_def)
      then show ?thesis using that by (auto simp: yh_edge_def)
    qed
    show ?thesis using h g by (auto simp: yh_hole_def below_ok_def above_ok_def yh_heap_def)
  qed
  moreover have "yh_heap es" if "yh_hole es i" "below_ok es i" "above_ok es i"
    using that unfolding yh_hole_def below_ok_def above_ok_def yh_heap_def by blast
  ultimately show ?thesis by blast
qed

lemma parent_of_child: "yh_parent j = i \<Longrightarrow> 0 < j \<Longrightarrow> j = 2 * i + 1 \<or> j = 2 * i + 2"
  unfolding yh_parent_def by presburger

lemma child_neq_parent [simp]: "0 < j \<Longrightarrow> yh_parent j \<noteq> j"
  using yh_parent_less [of j] by linarith

lemma swap_up_step:
  assumes "yh_hole es i" "below_ok es i" "0 < i" "i < length es"
    "\<not> deadline_ns (es ! yh_parent i) \<le> deadline_ns (es ! i)"
  defines "p \<equiv> yh_parent i"
  shows "yh_hole (yh_swap es p i) p \<and> below_ok (yh_swap es p i) p"
proof -
  have p: "p < i" "p < length es"
    using yh_parent_less [OF assms(3)] assms(4) by (simp_all add: p_def)
  note n = yh_swap_nth [OF p(2) assms(4)]
  have lt: "deadline_ns (es ! i) < deadline_ns (es ! p)" using assms by simp
  have e: "yh_edge es j" if "j < length es" "0 < j" "j \<noteq> i" for j
    using assms(1,2) that unfolding yh_hole_def below_ok_def by blast
  have g: "deadline_ns (es ! p) \<le> deadline_ns (es ! j)"
    if "j < length es" "0 < j" "yh_parent j = i" for j
    using assms(1,3) that unfolding yh_hole_def p_def by blast
  have one: "yh_edge (yh_swap es p i) j"
    if j: "j < length es" "0 < j" "j \<noteq> p" "yh_parent j \<noteq> p" for j
  proof -
    have "j \<noteq> i" using j p_def by auto
    then show ?thesis using j e [of j] g [of j] by (simp add: yh_edge_def n)
  qed
  have two: "yh_edge (yh_swap es p i) j"
    if j: "j < length es" "0 < j" "yh_parent j = p" for j
  proof -
    have "j \<noteq> p" using j child_neq_parent [of j] by simp
    then show ?thesis using j e [of j] lt p by (cases "j = i") (auto simp: yh_edge_def n)
  qed
  have three: "deadline_ns (yh_swap es p i ! yh_parent p) \<le> deadline_ns (yh_swap es p i ! j)"
    if j: "j < length es" "0 < j" "0 < p" "yh_parent j = p" for j
  proof -
    have q: "yh_parent p < p" using j by simp
    have "deadline_ns (es ! yh_parent p) \<le> deadline_ns (es ! p)"
      using e [of p] p j by (simp add: yh_edge_def)
    moreover have "j \<noteq> p" using j child_neq_parent [of j] by simp
    moreover have "deadline_ns (es ! p) \<le> deadline_ns (es ! j)" if "j \<noteq> i"
      using e [of j] j that by (simp add: yh_edge_def)
    ultimately show ?thesis using q p by (auto simp: n intro: order_trans)
  qed
  show ?thesis using one two three by (simp add: yh_hole_def below_ok_def)
qed

lemma sift_up_heap:
  "i < length es \<Longrightarrow> yh_hole es i \<Longrightarrow> below_ok es i \<Longrightarrow> yh_heap (sift_up es i)"
proof (induction es i rule: sift_up.induct)
  case (1 es i)
  show ?case
  proof (cases "0 < i \<and> \<not> deadline_ns (es ! yh_parent i) \<le> deadline_ns (es ! i)")
    case True
    then have "yh_parent i < length es" using 1(2) yh_parent_less [of i] by linarith
    with True 1 swap_up_step [of es i] show ?thesis by (subst sift_up.simps) (simp add: Let_def)
  next
    case False
    then have "above_ok es i" by (auto simp: above_ok_def yh_edge_def)
    then have "yh_heap es" using 1 heap_iff_hole by blast
    then show ?thesis using False by (subst sift_up.simps) (auto simp: Let_def)
  qed
qed

lemma mset_sift_up: "i < length es \<Longrightarrow> mset (sift_up es i) = mset es"
proof (induction es i rule: sift_up.induct)
  case (1 es i)
  have "yh_parent i < length es" if "0 < i" using 1(2) that yh_parent_less [of i] by linarith
  then show ?case using 1 by (subst sift_up.simps) (auto simp: Let_def mset_yh_swap)
qed

lemma smallest_child_self:
  assumes "smallest_child es i = i" shows "below_ok es i"
proof -
  have "deadline_ns (es ! i) \<le> deadline_ns (es ! j)"
    if "j < length es" "0 < j" "yh_parent j = i" for j
    using parent_of_child [OF that(3,2)] assms that(1)
    by (auto simp: smallest_child_def Let_def not_less split: if_splits)
  then show ?thesis by (auto simp: below_ok_def yh_edge_def)
qed

lemma smallest_child_least:
  assumes "smallest_child es i \<noteq> i"
  defines "s \<equiv> smallest_child es i"
  shows "yh_parent s = i" and "deadline_ns (es ! s) < deadline_ns (es ! i)"
    and "\<And>j. j < length es \<Longrightarrow> 0 < j \<Longrightarrow> yh_parent j = i \<Longrightarrow>
           deadline_ns (es ! s) \<le> deadline_ns (es ! j)"
proof -
  show "yh_parent s = i"
    using assms by (auto simp: smallest_child_def Let_def yh_parent_def split: if_splits)
  show "deadline_ns (es ! s) < deadline_ns (es ! i)"
    using assms by (auto simp: smallest_child_def Let_def split: if_splits)
  show "deadline_ns (es ! s) \<le> deadline_ns (es ! j)"
    if "j < length es" "0 < j" "yh_parent j = i" for j
    using parent_of_child [OF that(3,2)] assms that(1)
    by (auto simp: smallest_child_def Let_def not_less split: if_splits)
qed

lemma swap_down_step:
  assumes "yh_hole es i" "above_ok es i" "smallest_child es i \<noteq> i"
  defines "s \<equiv> smallest_child es i"
  shows "yh_hole (yh_swap es s i) s \<and> above_ok (yh_swap es s i) s"
proof -
  have b: "i < s" "s < length es" using smallest_child_bounds [OF assms(3)] by (simp_all add: s_def)
  then have il: "i < length es" by simp
  note n = yh_swap_nth [OF b(2) il]
  note sc = smallest_child_least [OF assms(3), folded s_def]
  have e: "yh_edge es j" if "j < length es" "0 < j" "yh_parent j \<noteq> i" for j
    using assms(1,2) that unfolding yh_hole_def above_ok_def by blast
  have g: "deadline_ns (es ! yh_parent i) \<le> deadline_ns (es ! j)"
    if "j < length es" "0 < j" "0 < i" "yh_parent j = i" for j
    using assms(1) that unfolding yh_hole_def by blast
  have one: "yh_edge (yh_swap es s i) j"
    if j: "j < length es" "0 < j" "j \<noteq> s" "yh_parent j \<noteq> s" for j
  proof (cases "j = i")
    case True
    then have "yh_parent i < i" using j by simp
    then show ?thesis using True g [of s] sc(1) b j by (auto simp: yh_edge_def n)
  next
    case False
    then show ?thesis using j e [of j] sc(3) [of j] by (auto simp: yh_edge_def n)
  qed
  have two: "deadline_ns (yh_swap es s i ! yh_parent s) \<le> deadline_ns (yh_swap es s i ! j)"
    if j: "j < length es" "0 < j" "yh_parent j = s" for j
  proof -
    have "s < j" using j yh_parent_less [of j] by simp
    then show ?thesis using e [of j] j b sc(1) by (simp add: yh_edge_def n)
  qed
  have "yh_edge (yh_swap es s i) s" using sc b by (simp add: yh_edge_def n)
  then show ?thesis using one two by (simp add: yh_hole_def above_ok_def)
qed

lemma sift_down_heap:
  "yh_hole es i \<Longrightarrow> above_ok es i \<Longrightarrow> yh_heap (sift_down es i)"
proof (induction es i rule: sift_down.induct)
  case (1 es i)
  show ?case
  proof (cases "smallest_child es i = i")
    case True
    then have "yh_heap es" using 1 smallest_child_self heap_iff_hole by blast
    then show ?thesis using True by (subst sift_down.simps) simp
  next
    case False
    then show ?thesis using 1 swap_down_step by (subst sift_down.simps) (simp add: Let_def)
  qed
qed

lemma mset_sift_down: "mset (sift_down es i) = mset es"
proof (induction es i rule: sift_down.induct)
  case (1 es i)
  show ?case
    using 1 smallest_child_bounds [of es i]
    by (subst sift_down.simps) (auto simp: Let_def mset_yh_swap)
qed

text \<open>Of the two directions of \<open>sift\<close> at most one does work, whichever entry fills the hole.\<close>

lemma sift_heap:
  assumes "yh_hole es i" "i < length es" shows "yh_heap (sift es i)"
proof (cases "above_ok es i")
  case True
  then have "sift_up es i = es"
    using assms by (subst sift_up.simps) (auto simp: above_ok_def yh_edge_def Let_def)
  then show ?thesis using True assms by (simp add: sift_def sift_down_heap)
next
  case False
  have "below_ok es i"
  proof -
    have "deadline_ns (es ! i) \<le> deadline_ns (es ! j)"
      if j: "j < length es" "0 < j" "yh_parent j = i" for j
    proof -
      have "deadline_ns (es ! yh_parent i) \<le> deadline_ns (es ! j)"
        using assms False j by (auto simp: yh_hole_def above_ok_def)
      then show ?thesis using False by (auto simp: above_ok_def yh_edge_def)
    qed
    then show ?thesis by (auto simp: below_ok_def yh_edge_def)
  qed
  then have "yh_heap (sift_up es i)" using assms sift_up_heap by blast
  then show ?thesis using heap_iff_hole sift_down_heap by (simp add: sift_def) blast
qed

lemma mset_sift: "i < length es \<Longrightarrow> mset (sift es i) = mset es"
  by (simp add: sift_def mset_sift_down mset_sift_up)

section \<open>What the operations do to the entries\<close>

lemma drop_tail_nth:
  "j < length es - 1 \<Longrightarrow> drop_tail_into es i ! j = (if j = i then last es else es ! j)"
  by (auto simp: drop_tail_into_def nth_butlast nth_list_update)

lemma drop_tail_hole:
  assumes "yh_heap es" shows "yh_hole (drop_tail_into es i) i"
proof -
  have h: "yh_hole es i" using assms heap_iff_hole by blast
  have n: "drop_tail_into es i ! j = es ! j" if "j < length es - 1" "j \<noteq> i" for j
    using that by (simp add: drop_tail_nth)
  have one: "yh_edge (drop_tail_into es i) j"
    if j: "j < length es - 1" "0 < j" "j \<noteq> i" "yh_parent j \<noteq> i" for j
  proof -
    have "yh_parent j < length es - 1" using j(1) yh_parent_less [OF j(2)] by linarith
    then show ?thesis using h j n by (simp add: yh_hole_def yh_edge_def)
  qed
  have two: "deadline_ns (drop_tail_into es i ! yh_parent i) \<le> deadline_ns (drop_tail_into es i ! j)"
    if j: "j < length es - 1" "0 < j" "0 < i" "yh_parent j = i" for j
  proof -
    have b: "i < j" "yh_parent i < i" using j yh_parent_less [of j] by simp_all
    then have "yh_parent i < length es - 1" using j(1) by linarith
    with b show ?thesis using h j n [of j] n [of "yh_parent i"] by (simp add: yh_hole_def)
  qed
  show ?thesis using one two by (simp add: yh_hole_def)
qed

lemma mset_butlast_add: "es \<noteq> [] \<Longrightarrow> mset es = add_mset (last es) (mset (butlast es))"
  by (cases es rule: rev_cases) auto

lemma mset_drop_tail:
  assumes "i < length es" shows "mset (drop_tail_into es i) = mset es - {#es ! i#}"
proof -
  have ne: "es \<noteq> []" using assms by auto
  show ?thesis
  proof (cases "i = length es - 1")
    case True
    have l: "es ! i = last es" using True ne by (simp add: last_conv_nth)
    then have "es[i := last es] = es" using list_update_id [of es i] by simp
    then show ?thesis using mset_butlast_add [OF ne] l by (simp add: drop_tail_into_def)
  next
    case False
    then have i: "i < length (butlast es)" using assms by simp
    have "drop_tail_into es i = (butlast es)[i := last es]"
      using i by (simp add: drop_tail_into_def butlast_list_update)
    moreover have "es ! i = butlast es ! i" using i by (simp add: nth_butlast)
    moreover have "es ! i \<in># mset (butlast es)" using i by (simp add: nth_butlast [symmetric])
    ultimately show ?thesis using i mset_butlast_add [OF ne] by (simp add: mset_update)
  qed
qed

lemma heap_top_least:
  assumes "yh_heap es" "j < length es" shows "deadline_ns (es ! 0) \<le> deadline_ns (es ! j)"
  using assms(2)
proof (induction j rule: less_induct)
  case (less j)
  show ?case
  proof (cases "j = 0")
    case False
    then have p: "yh_parent j < j" by simp
    then have "deadline_ns (es ! 0) \<le> deadline_ns (es ! yh_parent j)" using less by simp
    moreover have "yh_edge es j" using assms(1) less(2) False by (simp add: yh_heap_def)
    ultimately show ?thesis by (auto simp: yh_edge_def intro: order_trans)
  qed simp
qed

lemma heap_top_least_set: "yh_heap es \<Longrightarrow> e \<in> set es \<Longrightarrow> deadline_ns (hd es) \<le> deadline_ns e"
  using heap_top_least [of es] by (cases "es = []") (auto simp: in_set_conv_nth hd_conv_nth)

lemma push_heap:
  assumes "yh_heap es" shows "yh_heap (fst (yh_push es d g c))"
proof -
  let ?x = "\<lparr>deadline_ns = d, handler_gen = g, ye_conn_id = c\<rparr>"
  let ?es = "es @ [?x]"
  have e: "yh_edge ?es j" if "j < length es" "0 < j" for j
  proof -
    have "yh_parent j < length es" using that(1) yh_parent_less [OF that(2)] by linarith
    then show ?thesis using assms that by (simp add: yh_heap_def yh_edge_def nth_append)
  qed
  have no: "yh_parent j \<noteq> length es" if "j < length ?es" "0 < j" for j
    using that(1) yh_parent_less [OF that(2)] by (simp only: length_append list.size)
  have "yh_hole ?es (length es)" using e no by (auto simp: yh_hole_def less_Suc_eq)
  moreover have "below_ok ?es (length es)" using no by (auto simp: below_ok_def)
  ultimately show ?thesis using assms by (simp add: yh_push_def sift_up_heap)
qed

lemma push_mset:
  "length es < yh_cap \<Longrightarrow>
   mset (fst (yh_push es d g c)) = add_mset \<lparr>deadline_ns = d, handler_gen = g, ye_conn_id = c\<rparr> (mset es)"
  by (simp add: yh_push_def mset_sift_up)

lemma push_ok: "snd (yh_push es d g c) \<longleftrightarrow> length es < yh_cap"
  by (simp add: yh_push_def not_less)

lemma heap_Nil [simp]: "yh_heap []"
  by (simp add: yh_heap_def)

lemma pop_heap: "yh_heap es \<Longrightarrow> yh_heap (yh_pop es)"
  by (simp add: yh_pop_def drop_tail_hole sift_down_heap above_ok_def)

lemma pop_mset: "es \<noteq> [] \<Longrightarrow> mset (yh_pop es) = mset es - {#hd es#}"
  by (simp add: yh_pop_def mset_sift_down mset_drop_tail hd_conv_nth)

lemma remove_loop_heap: "yh_heap es \<Longrightarrow> yh_heap (fst (remove_loop es c i n))"
proof (induction es c i n rule: remove_loop.induct)
  case (1 es c i n)
  have "yh_heap (if i < length (drop_tail_into es i) then sift (drop_tail_into es i) i
                 else drop_tail_into es i)"
  proof (cases "i < length (drop_tail_into es i)")
    case True
    then show ?thesis using 1(3) by (simp add: drop_tail_hole sift_heap)
  next
    case False
    have "yh_parent j \<noteq> i" if "j < length (drop_tail_into es i)" "0 < j" for j
      using False that(1) yh_parent_less [OF that(2)] by linarith
    then have "below_ok (drop_tail_into es i) i" by (simp add: below_ok_def)
    moreover have "above_ok (drop_tail_into es i) i" using False by (simp add: above_ok_def)
    ultimately show ?thesis using False 1(3) drop_tail_hole heap_iff_hole by auto
  qed
  then show ?case using 1 by (subst remove_loop.simps) (auto simp: Let_def)
qed

lemma mset_after_drop:
  "i < length es \<Longrightarrow>
   mset (if i < length (drop_tail_into es i) then sift (drop_tail_into es i) i
         else drop_tail_into es i) = mset es - {#es ! i#}"
  by (simp add: mset_sift mset_drop_tail)

lemma remove_loop_others:
  "filter_mset (\<lambda>e. ye_conn_id e \<noteq> c) (mset (fst (remove_loop es c i n))) =
   filter_mset (\<lambda>e. ye_conn_id e \<noteq> c) (mset es)"
proof (induction es c i n rule: remove_loop.induct)
  case (1 es c i n)
  show ?case
  proof (cases "i < length es \<and> ye_conn_id (es ! i) = c")
    case True
    then have "add_mset (es ! i) (mset es - {#es ! i#}) = mset es" by simp
    then have "filter_mset (\<lambda>e. ye_conn_id e \<noteq> c) (mset es) =
        filter_mset (\<lambda>e. ye_conn_id e \<noteq> c) (add_mset (es ! i) (mset es - {#es ! i#}))" by simp
    then show ?thesis
      using True 1(2) mset_after_drop [of i es] by (subst remove_loop.simps) (simp add: Let_def)
  next
    case False
    then show ?thesis using 1(1) by (subst remove_loop.simps) auto
  qed
qed

lemma remove_loop_count:
  "length (fst (remove_loop es c i n)) + snd (remove_loop es c i n) = length es + n"
proof (induction es c i n rule: remove_loop.induct)
  case (1 es c i n)
  then show ?case by (subst (1 2) remove_loop.simps) (auto simp: Let_def)
qed

lemma remove_loop_absent:
  "\<forall>e \<in> set es. ye_conn_id e \<noteq> c \<Longrightarrow> remove_loop es c i n = (es, n)"
proof (induction es c i n rule: remove_loop.induct)
  case (1 es c i n)
  then show ?case by (subst remove_loop.simps) auto
qed

lemma remove_loop_gone:
  assumes "distinct (map ye_conn_id es)" "\<forall>j<i. j < length es \<longrightarrow> ye_conn_id (es ! j) \<noteq> c"
  shows "\<forall>e \<in> set (fst (remove_loop es c i n)). ye_conn_id e \<noteq> c"
  using assms
proof (induction es c i n rule: remove_loop.induct)
  case (1 es c i n)
  show ?case
  proof (cases "i < length es \<and> ye_conn_id (es ! i) = c")
    case True
    define es' where "es' = (if i < length (drop_tail_into es i) then sift (drop_tail_into es i) i
                             else drop_tail_into es i)"
    have "mset es' = mset es - {#es ! i#}"
      unfolding es'_def using True by (intro mset_after_drop) simp
    then have "mset (es ! i # es') = mset es" using True by simp
    then have "mset (map ye_conn_id (es ! i # es')) = mset (map ye_conn_id es)"
      by (simp only: mset_map)
    then have "distinct (map ye_conn_id (es ! i # es'))"
      using 1(3) mset_eq_imp_distinct_iff by blast
    then have "c \<notin> ye_conn_id ` set es'" using True by simp
    then have gone: "\<forall>e \<in> set es'. ye_conn_id e \<noteq> c" by (metis imageI)
    then have "remove_loop es' c i (n + 1) = (es', n + 1)" by (rule remove_loop_absent)
    moreover have "remove_loop es c i n = remove_loop es' c i (n + 1)"
      unfolding es'_def using True by (subst remove_loop.simps) (simp only: Let_def if_True if_False simp_thms)
    ultimately have "fst (remove_loop es c i n) = es'" by simp
    with gone show ?thesis by simp
  next
    case False
    show ?thesis
    proof (cases "i < length es")
      case True
      then have ne: "ye_conn_id (es ! i) \<noteq> c" using False by simp
      then have "\<forall>j<i + 1. j < length es \<longrightarrow> ye_conn_id (es ! j) \<noteq> c"
        using 1(4) by (auto simp: less_Suc_eq)
      note 1(1) [OF True ne 1(3) this]
      moreover have "remove_loop es c i n = remove_loop es c (i + 1) n"
        using True ne by (subst remove_loop.simps) simp
      ultimately show ?thesis by (simp only:)
    next
      case over: False
      then have "remove_loop es c i n = (es, n)" by (subst remove_loop.simps) simp
      moreover have "ye_conn_id e \<noteq> c" if "e \<in> set es" for e
        using that over 1(4) by (metis in_set_conv_nth less_le_trans not_less)
      ultimately show ?thesis by simp
    qed
  qed
qed

lemma remove_by_conn_spec:
  assumes "yh_heap es" "distinct (map ye_conn_id es)"
  shows "yh_heap (fst (remove_by_conn es c)) \<and>
    mset (fst (remove_by_conn es c)) = filter_mset (\<lambda>e. ye_conn_id e \<noteq> c) (mset es)"
proof -
  have "filter_mset (\<lambda>e. ye_conn_id e \<noteq> c) (mset (fst (remove_by_conn es c))) =
        mset (fst (remove_by_conn es c))"
    using remove_loop_gone [of es 0 c 0] assms
    by (simp add: remove_by_conn_def filter_mset_eq_conv)
  then show ?thesis
    using assms remove_loop_heap remove_loop_others [of c es 0 0] by (simp add: remove_by_conn_def)
qed

text \<open>
  With two entries for one connection the scan can leave one of them: the tail entry that
  fills the hole moves up past positions that the scan has left behind.
\<close>

definition dup_heap :: "yh_entry list" where
  "dup_heap = map (\<lambda>(d, c). \<lparr>deadline_ns = d, handler_gen = 0, ye_conn_id = c\<rparr>)
     [(1, 0), (10, 1), (2, 2), (11, 9), (12, 4), (3, 9)]"

lemma remove_by_conn_leaves_duplicate:
  "yh_heap dup_heap \<and> ye_conn_id ` set (fst (remove_by_conn dup_heap 9)) = {0, 1, 2, 4, 9}"
proof -
  have "yh_heap dup_heap" by code_simp
  moreover have "map ye_conn_id (fst (remove_by_conn dup_heap 9)) = [0, 9, 2, 1, 4]"
    by code_simp
  then have "set (map ye_conn_id (fst (remove_by_conn dup_heap 9))) = {0, 1, 2, 4, 9}"
    by (simp only:) auto
  ultimately show ?thesis by simp
qed

section \<open>The one-shot timer\<close>

text \<open>
  \<open>armed_ns\<close> is \<open>yield_timer_armed_ns\<close>, the deadline the loop believes programmed;
  \<open>timerfd\<close> is what the kernel timer holds (0 when disarmed or expired), \<open>yt_fired\<close> that
  its expiry is pending, which makes the descriptor readable for the \<open>HandlerTimer\<close> event, and \<open>yt_clock\<close> the
  monotonic clock.  Programming or disarming the timer discards a pending expiry.
\<close>

record yield_timer =
  yheap :: "yh_entry list"
  armed_ns :: u64
  timerfd :: u64
  yt_fired :: bool
  yt_clock :: u64

definition yt_init :: "u64 \<Rightarrow> yield_timer" where
  "yt_init t = \<lparr>yheap = [], armed_ns = 0, timerfd = 0, yt_fired = False, yt_clock = t\<rparr>"

definition rearm_yield_timerfd :: "yield_timer \<Rightarrow> yield_timer" where
  "rearm_yield_timerfd s =
     (if yheap s = [] then
        if armed_ns s \<noteq> 0 then s\<lparr>timerfd := 0, armed_ns := 0, yt_fired := False\<rparr> else s
      else
        (let top = deadline_ns (hd (yheap s)) in
         if top = armed_ns s then s else s\<lparr>timerfd := top, armed_ns := top, yt_fired := False\<rparr>))"

text \<open>
  Where \<open>schedule_yield_timer\<close> puts a wait: on the heap, on the one-second wheel (with the
  number of seconds) when the heap is full, or nowhere when the wheel cannot hold it.  The
  flags of the connection and the keep-alive wheel belong to the connection.
\<close>

datatype sched_result = OnHeap | OnWheel u32 | NotScheduled

definition schedule_yield_timer ::
  "yield_timer \<Rightarrow> u32 \<Rightarrow> u32 \<Rightarrow> u32 \<Rightarrow> yield_timer \<times> sched_result" where
  "schedule_yield_timer s ms gen cid =
     (let deadline = yt_clock s + ucast ms * 1000000;
          (es, pushed) = yh_push (yheap s) deadline gen cid
      in if pushed then (rearm_yield_timerfd (s\<lparr>yheap := es\<rparr>), OnHeap)
         else (let secs = timer_seconds_from_ms ms
               in if secs \<ge> 64 then (s, NotScheduled)
                  else (s, OnWheel (if secs = 0 then 1 else secs))))"

text \<open>The heap part of \<open>disarm_yield_timer\<close> and of \<open>close_conn_impl\<close>.\<close>

definition disarm_yield :: "yield_timer \<Rightarrow> u32 \<Rightarrow> yield_timer" where
  "disarm_yield s cid =
     (let (es, removed) = remove_by_conn (yheap s) cid
      in if removed > 0 then rearm_yield_timerfd (s\<lparr>yheap := es\<rparr>) else s\<lparr>yheap := es\<rparr>)"

text \<open>What the drain loop reads of a connection.\<close>

record ye_conn =
  ye_pending :: bool
  ye_kind :: yield_kind
  ye_gen :: u32

definition drain_live :: "(u32 \<Rightarrow> ye_conn) \<Rightarrow> yh_entry \<Rightarrow> bool" where
  "drain_live conns e =
     (let c = conns (ye_conn_id e)
      in unat (ye_conn_id e) < 16384 \<and> ye_pending c \<and>
         (ye_kind c = YTimer \<or> yield_kind_matches_event (ye_kind c) EvHandlerTimer) \<and>
         ye_gen c = handler_gen e)"

text \<open>
  The resumed handler is compiled code: \<open>resume\<close> stands for running it.  It returns the
  connections afterwards, the time it took the clock to, and the wait it asks for, if any.
\<close>

type_synonym resume_fn =
  "(u32 \<Rightarrow> ye_conn) \<Rightarrow> yh_entry \<Rightarrow> (u32 \<Rightarrow> ye_conn) \<times> u64 \<times> (u32 \<times> u32 \<times> u32) option"

definition resume_entry ::
  "resume_fn \<Rightarrow> yh_entry \<Rightarrow> yield_timer \<Rightarrow> (u32 \<Rightarrow> ye_conn) \<Rightarrow> yield_timer \<times> (u32 \<Rightarrow> ye_conn)" where
  "resume_entry resume e s conns =
     (if drain_live conns e then
        (case resume conns e of (conns', t, req) \<Rightarrow>
           (case req of
              None \<Rightarrow> (s\<lparr>yt_clock := t\<rparr>, conns')
            | Some (ms, gen, cid) \<Rightarrow>
                (fst (schedule_yield_timer (s\<lparr>yt_clock := t\<rparr>) ms gen cid), conns')))
      else (s, conns))"

partial_function (option) drain_loop ::
  "resume_fn \<Rightarrow> u64 \<Rightarrow> yield_timer \<Rightarrow> (u32 \<Rightarrow> ye_conn) \<Rightarrow> yh_entry list \<Rightarrow>
   (yield_timer \<times> (u32 \<Rightarrow> ye_conn) \<times> yh_entry list) option" where
  "drain_loop resume now s conns popped =
     (if yheap s \<noteq> [] \<and> deadline_ns (hd (yheap s)) \<le> now then
        (let e = hd (yheap s);
             (s', conns') = resume_entry resume e (s\<lparr>yheap := yh_pop (yheap s)\<rparr>) conns
         in drain_loop resume now s' conns' (popped @ [e]))
      else Some (s, conns, popped))"

definition drain_yield_heap ::
  "resume_fn \<Rightarrow> yield_timer \<Rightarrow> (u32 \<Rightarrow> ye_conn) \<Rightarrow>
   (yield_timer \<times> (u32 \<Rightarrow> ye_conn) \<times> yh_entry list) option" where
  "drain_yield_heap resume s conns =
     (case drain_loop resume (yt_clock s) (s\<lparr>yt_fired := False\<rparr>) conns [] of
        None \<Rightarrow> None
      | Some (s', conns', popped) \<Rightarrow> Some (rearm_yield_timerfd s', conns', popped))"

text \<open>
  What the drain relies on of a resumed handler: the clock does not run backwards, and
  a further wait is at least one millisecond and ends before the 64-bit clock does.
\<close>

definition resume_ok :: "u64 \<Rightarrow> resume_fn \<Rightarrow> bool" where
  "resume_ok now resume =
     (\<forall>conns e. case resume conns e of (_, t, req) \<Rightarrow>
        now \<le> t \<and> (case req of None \<Rightarrow> True
                     | Some (ms, _) \<Rightarrow> 0 < ms \<and> unat t + unat ms * 1000000 < 2 ^ 64))"

section \<open>Draining and waking up\<close>

definition due :: "u64 \<Rightarrow> yh_entry list \<Rightarrow> yh_entry multiset" where
  "due now es = filter_mset (\<lambda>e. deadline_ns e \<le> now) (mset es)"

text \<open>
  What the drain loop needs of its queue: the top is an entry with a smallest deadline and
  \<open>pop\<close> removes that entry and no other.
\<close>

locale deadline_queue =
  fixes ents :: "'q \<Rightarrow> yh_entry multiset" and invar :: "'q \<Rightarrow> bool"
    and top :: "'q \<Rightarrow> yh_entry" and pop :: "'q \<Rightarrow> 'q"
  assumes top_in: "invar q \<Longrightarrow> ents q \<noteq> {#} \<Longrightarrow> top q \<in># ents q"
    and top_least: "invar q \<Longrightarrow> e \<in># ents q \<Longrightarrow> deadline_ns (top q) \<le> deadline_ns e"
    and pop_ents: "invar q \<Longrightarrow> ents q \<noteq> {#} \<Longrightarrow> ents (pop q) = ents q - {#top q#}"
    and pop_invar: "invar q \<Longrightarrow> invar (pop q)"
begin

lemma due_pop:
  assumes "invar q" "ents q \<noteq> {#}" "deadline_ns (top q) \<le> now"
  shows "filter_mset (\<lambda>e. deadline_ns e \<le> now) (ents q) =
    add_mset (top q) (filter_mset (\<lambda>e. deadline_ns e \<le> now) (ents (pop q)))"
proof -
  have "ents q = add_mset (top q) (ents (pop q))" using assms top_in pop_ents by simp
  then show ?thesis using assms(3) by simp
qed

lemma due_top:
  assumes "invar q" "e \<in># filter_mset (\<lambda>e. deadline_ns e \<le> now) (ents q)"
  shows "ents q \<noteq> {#} \<and> deadline_ns (top q) \<le> now \<and> deadline_ns (top q) \<le> deadline_ns e"
  using assms top_least [OF assms(1), of e] by auto

lemma pop_subset: "invar q \<Longrightarrow> ents q \<noteq> {#} \<Longrightarrow> e \<in># ents (pop q) \<Longrightarrow> e \<in># ents q"
  using pop_ents by (metis in_diffD)

end

interpretation yq: deadline_queue mset yh_heap hd yh_pop
proof
  show "hd q \<in># mset q" if "mset q \<noteq> {#}" for q :: "yh_entry list"
    using that by (cases q) auto
  show "deadline_ns (hd q) \<le> deadline_ns e" if "yh_heap q" "e \<in># mset q" for q e
    using that heap_top_least_set by simp
  show "mset (yh_pop q) = mset q - {#hd q#}" if "mset q \<noteq> {#}" for q
    using that pop_mset by simp
  show "yh_heap (yh_pop q)" if "yh_heap q" for q using that by (rule pop_heap)
qed

text \<open>The state between two iterations of the drain loop.\<close>

definition draining :: "u64 \<Rightarrow> yield_timer \<Rightarrow> bool" where
  "draining now s =
     (yh_heap (yheap s) \<and> (\<forall>e \<in> set (yheap s). deadline_ns e \<noteq> 0) \<and>
      (timerfd s = armed_ns s \<or> timerfd s = 0 \<and> armed_ns s \<le> now) \<and> now \<le> yt_clock s)"

lemma rearm_fields [simp]:
  "yheap (rearm_yield_timerfd s) = yheap s" "yt_clock (rearm_yield_timerfd s) = yt_clock s"
  by (simp_all add: rearm_yield_timerfd_def Let_def)

lemma rearm_fired: "yt_fired (rearm_yield_timerfd s) \<Longrightarrow> yt_fired s"
  by (auto simp: rearm_yield_timerfd_def Let_def split: if_splits)

lemma draining_rearm: "draining now s \<Longrightarrow> draining now (rearm_yield_timerfd s)"
  by (auto simp: draining_def rearm_yield_timerfd_def Let_def)

lemma set_push:
  "length es < yh_cap \<Longrightarrow>
   set (fst (yh_push es d g c)) = insert \<lparr>deadline_ns = d, handler_gen = g, ye_conn_id = c\<rparr> (set es)"
  using push_mset [of es d g c] by (metis set_mset_add_mset_insert set_mset_mset)

lemma deadline_later:
  fixes t now :: u64 and ms :: u32
  assumes "now \<le> t" "0 < ms" "unat t + unat ms * 1000000 < 2 ^ 64"
  shows "now < t + ucast ms * 1000000"
proof -
  have "unat (ucast ms :: u64) = unat ms"
    using unat_u32_lt [of ms] by (simp add: unsigned_ucast_eq take_bit_nat_eq_self)
  then have "unat (t + ucast ms * 1000000) = unat t + unat ms * 1000000"
    using assms(3) by (simp add: unat_word_ariths)
  then show ?thesis using assms by (simp add: word_less_nat_alt word_le_nat_alt)
qed

lemma schedule_draining:
  fixes s :: yield_timer and ms g c :: u32
  assumes "draining now s" "0 < ms" "unat (yt_clock s) + unat ms * 1000000 < 2 ^ 64"
  defines "s' \<equiv> fst (schedule_yield_timer s ms g c)"
  shows "draining now s' \<and> due now (yheap s') = due now (yheap s) \<and> (yt_fired s' \<longrightarrow> yt_fired s)"
proof (cases "length (yheap s) < yh_cap")
  case True
  define d where "d = yt_clock s + ucast ms * 1000000"
  have later: "now < d" using assms deadline_later by (simp add: draining_def d_def)
  have s': "s' = rearm_yield_timerfd (s\<lparr>yheap := fst (yh_push (yheap s) d g c)\<rparr>)"
    using True push_ok [of "yheap s" d g c]
    by (simp add: s'_def schedule_yield_timer_def d_def [symmetric] Let_def case_prod_beta)
  have "draining now (s\<lparr>yheap := fst (yh_push (yheap s) d g c)\<rparr>)"
    using assms(1) True later by (auto simp: draining_def push_heap set_push)
  then show ?thesis
    using True later rearm_fired [of "s\<lparr>yheap := fst (yh_push (yheap s) d g c)\<rparr>"]
    by (auto simp: s' draining_rearm due_def push_mset)
next
  case False
  then have "s' = s"
    using push_ok [of "yheap s"] by (simp add: s'_def schedule_yield_timer_def Let_def case_prod_beta)
  then show ?thesis using assms(1) by simp
qed

lemma resume_entry_draining:
  fixes s :: yield_timer and e :: yh_entry and conns :: "u32 \<Rightarrow> ye_conn"
  assumes "draining now s" "resume_ok now resume"
  defines "s' \<equiv> fst (resume_entry resume e s conns)"
  shows "draining now s' \<and> due now (yheap s') = due now (yheap s) \<and> (yt_fired s' \<longrightarrow> yt_fired s)"
proof (cases "drain_live conns e")
  case True
  obtain conns' t req where r: "resume conns e = (conns', t, req)" by (cases "resume conns e")
  have ok: "now \<le> t" "\<And>ms gc. req = Some (ms, gc) \<Longrightarrow> 0 < ms \<and> unat t + unat ms * 1000000 < 2 ^ 64"
    using assms(2) r unfolding resume_ok_def by (force split: prod.splits option.splits)+
  have d: "draining now (s\<lparr>yt_clock := t\<rparr>)" using assms(1) ok(1) by (simp add: draining_def)
  show ?thesis
  proof (cases req)
    case None
    then show ?thesis using True r d by (simp add: s'_def resume_entry_def)
  next
    case (Some q)
    obtain ms g c where q: "q = (ms, g, c)" by (cases q)
    show ?thesis
      using True r Some q schedule_draining [OF d, of ms g c] ok(2) [of ms "(g, c)"]
      by (simp add: s'_def resume_entry_def)
  qed
next
  case False
  then show ?thesis using assms(1) by (simp add: s'_def resume_entry_def)
qed

lemma draining_pop:
  assumes "draining now s" "yheap s \<noteq> []"
  shows "draining now (s\<lparr>yheap := yh_pop (yheap s)\<rparr>)"
  using assms yq.pop_subset [of "yheap s"] pop_heap by (auto simp: draining_def)

lemma due_pop_top:
  "draining now s \<Longrightarrow> yheap s \<noteq> [] \<Longrightarrow> deadline_ns (hd (yheap s)) \<le> now \<Longrightarrow>
   due now (yheap s) = add_mset (hd (yheap s)) (due now (yh_pop (yheap s)))"
  unfolding due_def by (rule yq.due_pop) (simp_all add: draining_def)

lemma due_is_later:
  "draining now s \<Longrightarrow> e \<in># due now (yheap s) \<Longrightarrow>
   yheap s \<noteq> [] \<and> deadline_ns (hd (yheap s)) \<le> now \<and> deadline_ns (hd (yheap s)) \<le> deadline_ns e"
  using yq.due_top [of "yheap s" e now] by (simp add: due_def draining_def)

lemma drain_loop_run:
  assumes "draining now s" "resume_ok now resume"
  shows "\<exists>s' conns' log. drain_loop resume now s conns popped = Some (s', conns', popped @ log) \<and>
    draining now s' \<and> due now (yheap s') = {#} \<and> mset log = due now (yheap s) \<and>
    sorted (map deadline_ns log) \<and> (yt_fired s' \<longrightarrow> yt_fired s)"
  using assms(1)
proof (induction "size (due now (yheap s))" arbitrary: s conns popped)
  case 0
  have "\<not> (yheap s \<noteq> [] \<and> deadline_ns (hd (yheap s)) \<le> now)"
    using due_pop_top [OF 0(2)] 0(1) by (metis add_mset_not_empty size_eq_0_iff_empty)
  then have "drain_loop resume now s conns popped = Some (s, conns, popped)"
    by (subst drain_loop.simps) (simp only: if_False)
  then show ?case using 0 by simp
next
  case (Suc n)
  have b: "yheap s \<noteq> [] \<and> deadline_ns (hd (yheap s)) \<le> now"
  proof -
    have "due now (yheap s) \<noteq> {#}" using Suc(2) by auto
    then show ?thesis using due_is_later [OF Suc(3)] by (meson multiset_nonemptyE)
  qed
  define s1 where "s1 = s\<lparr>yheap := yh_pop (yheap s)\<rparr>"
  obtain s2 conns2 where r: "resume_entry resume (hd (yheap s)) s1 conns = (s2, conns2)"
    by (cases "resume_entry resume (hd (yheap s)) s1 conns")
  have s2: "draining now s2" "due now (yheap s2) = due now (yh_pop (yheap s))" "yt_fired s2 \<longrightarrow> yt_fired s"
    using resume_entry_draining [OF _ assms(2), of s1 "hd (yheap s)" conns] draining_pop [OF Suc(3)] b r
    by (simp_all add: s1_def)
  have du: "due now (yheap s) = add_mset (hd (yheap s)) (due now (yheap s2))"
    using b s2(2) due_pop_top [OF Suc(3)] by simp
  then have "n = size (due now (yheap s2))" using Suc(2) by simp
  from Suc(1) [OF this s2(1), of conns2 "popped @ [hd (yheap s)]"]
  obtain s' conns' log where l:
    "drain_loop resume now s2 conns2 (popped @ [hd (yheap s)]) = Some (s', conns', (popped @ [hd (yheap s)]) @ log)"
    "draining now s'" "due now (yheap s') = {#}" "mset log = due now (yheap s2)"
    "sorted (map deadline_ns log)" "yt_fired s' \<longrightarrow> yt_fired s2" by blast
  have "deadline_ns (hd (yheap s)) \<le> deadline_ns e" if "e \<in> set log" for e
  proof -
    have "e \<in># mset log" using that by simp
    then have "e \<in># due now (yheap s)" using l(4) du by simp
    then show ?thesis using due_is_later [OF Suc(3)] by blast
  qed
  then show ?case
    using b r l du s2(3) by (subst drain_loop.simps) (auto simp: Let_def s1_def [symmetric] intro!: exI [of _ "hd (yheap s) # log"])
qed

lemma remove_loop_mono:
  "n \<le> snd (remove_loop es c i n) \<and> (snd (remove_loop es c i n) = n \<longrightarrow> fst (remove_loop es c i n) = es)"
proof (induction es c i n rule: remove_loop.induct)
  case (1 es c i n)
  show ?case
  proof (cases "i < length es \<and> ye_conn_id (es ! i) = c")
    case True
    define es' where "es' = (if i < length (drop_tail_into es i) then sift (drop_tail_into es i) i
                             else drop_tail_into es i)"
    have "remove_loop es c i n = remove_loop es' c i (n + 1)"
      unfolding es'_def using True by (subst remove_loop.simps) (simp only: Let_def if_True if_False simp_thms)
    moreover have "n + 1 \<le> snd (remove_loop es' c i (n + 1))"
      using 1(2) [of "drop_tail_into es i"] True unfolding es'_def by simp
    ultimately show ?thesis by simp
  next
    case False
    then show ?thesis using 1(1) by (subst (1 2 3) remove_loop.simps) auto
  qed
qed

lemma remove_loop_subset: "set (fst (remove_loop es c i n)) \<subseteq> set es"
proof (induction es c i n rule: remove_loop.induct)
  case (1 es c i n)
  show ?case
  proof (cases "i < length es \<and> ye_conn_id (es ! i) = c")
    case True
    define es' where "es' = (if i < length (drop_tail_into es i) then sift (drop_tail_into es i) i
                             else drop_tail_into es i)"
    have "remove_loop es c i n = remove_loop es' c i (n + 1)"
      unfolding es'_def using True by (subst remove_loop.simps) (simp only: Let_def if_True if_False simp_thms)
    moreover have "set (fst (remove_loop es' c i (n + 1))) \<subseteq> set es'"
      using 1(2) [of "drop_tail_into es i"] True unfolding es'_def by simp
    moreover have "mset es' = mset es - {#es ! i#}"
      unfolding es'_def using True by (intro mset_after_drop) simp
    then have "set es' \<subseteq> set es" by (metis in_diffD set_mset_mset subsetI)
    ultimately show ?thesis by simp
  next
    case False
    then show ?thesis using 1(1) by (subst remove_loop.simps) auto
  qed
qed

text \<open>
  The loop, the kernel timer and the clock together.  A drain needs no pending expiry: one that
  was read already may be dispatched after the timer was programmed anew.
\<close>

definition kernel_tick :: "u64 \<Rightarrow> yield_timer \<Rightarrow> yield_timer" where
  "kernel_tick t s =
     (if timerfd s \<noteq> 0 \<and> timerfd s \<le> t then s\<lparr>yt_clock := t, timerfd := 0, yt_fired := True\<rparr>
      else s\<lparr>yt_clock := t\<rparr>)"

inductive yt_step :: "yield_timer \<Rightarrow> yield_timer \<Rightarrow> bool" where
  yt_tick: "yt_clock s \<le> t \<Longrightarrow> yt_step s (kernel_tick t s)"
| yt_schedule: "0 < ms \<Longrightarrow> unat (yt_clock s) + unat ms * 1000000 < 2 ^ 64 \<Longrightarrow>
    yt_step s (fst (schedule_yield_timer s ms g c))"
| yt_disarm: "yt_step s (disarm_yield s c)"
| yt_drain: "resume_ok (yt_clock s) resume \<Longrightarrow>
    drain_yield_heap resume s conns = Some (s', conns', popped) \<Longrightarrow> yt_step s s'"

inductive yt_reach :: "yield_timer \<Rightarrow> bool" where
  yt_start: "yt_reach (yt_init t)"
| yt_next: "yt_reach s \<Longrightarrow> yt_step s s' \<Longrightarrow> yt_reach s'"

definition yt_ok :: "yield_timer \<Rightarrow> bool" where
  "yt_ok s =
     (yh_heap (yheap s) \<and> (\<forall>e \<in> set (yheap s). deadline_ns e \<noteq> 0) \<and>
      armed_ns s = (if yheap s = [] then 0 else deadline_ns (hd (yheap s))) \<and>
      (timerfd s = armed_ns s \<or> yt_fired s \<and> timerfd s = 0 \<and> armed_ns s \<le> yt_clock s))"

lemma yt_ok_draining: "yt_ok s \<Longrightarrow> draining (yt_clock s) s"
  by (auto simp: yt_ok_def draining_def)

lemma rearm_ok:
  assumes "draining now s" "now = yt_clock s" "yt_fired s \<or> timerfd s = armed_ns s"
  shows "yt_ok (rearm_yield_timerfd s)"
  using assms by (auto simp: yt_ok_def draining_def rearm_yield_timerfd_def Let_def)

lemma schedule_ok:
  assumes "yt_ok s" "0 < ms" "unat (yt_clock s) + unat ms * 1000000 < 2 ^ 64"
  shows "yt_ok (fst (schedule_yield_timer s ms g c))"
proof -
  define d where "d = yt_clock s + ucast ms * 1000000"
  have "yt_clock s < d" using deadline_later [OF order_refl assms(2,3)] by (simp add: d_def)
  then have nz: "d \<noteq> 0" by auto
  define s1 where "s1 = s\<lparr>yheap := fst (yh_push (yheap s) d g c)\<rparr>"
  have "yt_ok (rearm_yield_timerfd s1)" if "length (yheap s) < yh_cap"
  proof (rule rearm_ok)
    show "draining (yt_clock s) s1"
      using yt_ok_draining [OF assms(1)] nz that by (auto simp: s1_def draining_def push_heap set_push)
  qed (use assms(1) in \<open>auto simp: s1_def yt_ok_def\<close>)
  moreover have "fst (schedule_yield_timer s ms g c) =
      (if length (yheap s) < yh_cap then rearm_yield_timerfd s1 else s)"
    using push_ok [of "yheap s" d g c]
    by (simp add: schedule_yield_timer_def d_def [symmetric] s1_def Let_def case_prod_beta)
  ultimately show ?thesis using assms(1) by simp
qed

lemma disarm_ok:
  assumes "yt_ok s" shows "yt_ok (disarm_yield s c)"
proof -
  define es where "es = fst (remove_by_conn (yheap s) c)"
  have "draining (yt_clock s) (s\<lparr>yheap := es\<rparr>)"
    using yt_ok_draining [OF assms] remove_loop_heap remove_loop_subset [of "yheap s" c 0 0]
    by (auto simp: draining_def es_def remove_by_conn_def)
  then have "yt_ok (rearm_yield_timerfd (s\<lparr>yheap := es\<rparr>))"
    by (rule rearm_ok) (use assms in \<open>auto simp: yt_ok_def\<close>)
  moreover have "es = yheap s" if "snd (remove_by_conn (yheap s) c) = 0"
    using that remove_loop_mono [of 0 "yheap s" c 0] by (simp add: es_def remove_by_conn_def)
  ultimately show ?thesis
    using assms by (auto simp: disarm_yield_def es_def case_prod_beta Let_def)
qed

lemma tick_ok: "yt_ok s \<Longrightarrow> yt_clock s \<le> t \<Longrightarrow> yt_ok (kernel_tick t s)"
  by (auto simp: yt_ok_def kernel_tick_def)

lemma drain_run:
  assumes "draining (yt_clock s) s" "resume_ok (yt_clock s) resume"
  obtains s' conns' popped where
    "drain_yield_heap resume s conns = Some (rearm_yield_timerfd s', conns', popped)"
    "draining (yt_clock s) s'" "due (yt_clock s) (yheap s') = {#}" "\<not> yt_fired s'"
    "mset popped = due (yt_clock s) (yheap s)" "sorted (map deadline_ns popped)"
proof -
  have "draining (yt_clock s) (s\<lparr>yt_fired := False\<rparr>)" using assms(1) by (simp add: draining_def)
  from drain_loop_run [OF this assms(2), of conns "[]"] that show thesis
    by (auto simp: drain_yield_heap_def)
qed

lemma drained_ok:
  assumes "draining now s" "due now (yheap s) = {#}"
  shows "yt_ok (rearm_yield_timerfd s)"
proof -
  have "now < deadline_ns (hd (yheap s))" if "yheap s \<noteq> []"
  proof (rule ccontr)
    assume "\<not> ?thesis"
    then have "hd (yheap s) \<in># due now (yheap s)" using that by (simp add: due_def not_less)
    then show False using assms(2) by simp
  qed
  then show ?thesis
    using assms(1) by (auto simp: yt_ok_def draining_def rearm_yield_timerfd_def Let_def)
qed

lemma yt_step_ok: "yt_step s s' \<Longrightarrow> yt_ok s \<Longrightarrow> yt_ok s'"
proof (induction rule: yt_step.induct)
  case (yt_drain s resume conns s' conns' popped)
  then show ?case
    using drain_run [OF yt_ok_draining yt_drain(1), of conns] drained_ok
    by (metis option.inject prod.inject)
qed (auto simp: tick_ok schedule_ok disarm_ok)

lemma yt_init_ok: "yt_ok (yt_init t)"
  by (simp add: yt_init_def yt_ok_def)

lemma yt_reach_ok: "yt_reach s \<Longrightarrow> yt_ok s"
  by (induction rule: yt_reach.induct) (auto intro: yt_init_ok yt_step_ok)

section \<open>Properties\<close>

text \<open>
  C35: Draining the heap of yielded handlers ends, whatever waits the resumed handlers ask
  for, as long as each lasts at least a millisecond.  It takes out exactly the entries whose
  deadline has passed, in the order of their deadlines, leaves none of them, and programs the
  timer for the earliest deadline that remains.
\<close>

theorem drain_yield_heap_due:
  assumes "yt_ok s" "resume_ok (yt_clock s) resume"
  shows "\<exists>s' conns' popped. drain_yield_heap resume s conns = Some (s', conns', popped) \<and>
    mset popped = due (yt_clock s) (yheap s) \<and> sorted (map deadline_ns popped) \<and>
    (\<forall>e \<in> set (yheap s'). yt_clock s < deadline_ns e) \<and>
    timerfd s' = (if yheap s' = [] then 0 else Min (deadline_ns ` set (yheap s')))"
proof -
  obtain s' conns' popped where d:
    "drain_yield_heap resume s conns = Some (rearm_yield_timerfd s', conns', popped)"
    "draining (yt_clock s) s'" "due (yt_clock s) (yheap s') = {#}" "\<not> yt_fired s'"
    "mset popped = due (yt_clock s) (yheap s)" "sorted (map deadline_ns popped)"
    using drain_run [OF yt_ok_draining [OF assms(1)] assms(2), of conns] by metis
  have later: "yt_clock s < deadline_ns e" if "e \<in> set (yheap s')" for e
  proof (rule ccontr)
    assume "\<not> ?thesis"
    then have "e \<in># due (yt_clock s) (yheap s')" using that by (simp add: due_def not_less)
    then show False using d(3) by simp
  qed
  have ok: "yt_ok (rearm_yield_timerfd s')" using drained_ok d by blast
  have "Min (deadline_ns ` set (yheap s')) = deadline_ns (hd (yheap s'))" if "yheap s' \<noteq> []"
    using that heap_top_least_set d(2) by (intro Min_eqI) (auto simp: draining_def)
  then have "timerfd (rearm_yield_timerfd s') =
      (if yheap s' = [] then 0 else Min (deadline_ns ` set (yheap s')))"
    using ok d(4) rearm_fired [of s'] by (auto simp: yt_ok_def)
  then show ?thesis using d later by (intro exI conjI) auto
qed

text \<open>A state of two waiting handlers, one of them due, and a handler that waits 5 ms more.\<close>

definition two_waits :: yield_timer where
  "two_waits = \<lparr>yheap = [\<lparr>deadline_ns = 2000000, handler_gen = 1, ye_conn_id = 7\<rparr>,
       \<lparr>deadline_ns = 9000000, handler_gen = 1, ye_conn_id = 3\<rparr>],
     armed_ns = 2000000, timerfd = 0, yt_fired = True, yt_clock = 4000000\<rparr>"

definition wait_again :: resume_fn where
  "wait_again conns e = (conns, 4000000, Some (5, handler_gen e, ye_conn_id e))"

theorem drain_yield_heap_due_witness:
  "\<exists>s' conns' popped.
     drain_yield_heap wait_again two_waits (\<lambda>_. \<lparr>ye_pending = True, ye_kind = YTimer, ye_gen = 1\<rparr>) =
       Some (s', conns', popped) \<and>
     mset popped = due 4000000 (yheap two_waits) \<and> (\<forall>e \<in> set (yheap s'). 4000000 < deadline_ns e)"
proof -
  have "yh_heap (yheap two_waits)" by code_simp
  then have "yt_ok two_waits" by (simp add: yt_ok_def two_waits_def)
  moreover have "resume_ok (yt_clock two_waits) wait_again"
    by (simp add: resume_ok_def wait_again_def two_waits_def)
  ultimately show ?thesis
    using drain_yield_heap_due [of two_waits wait_again]
    by (simp add: two_waits_def) metis
qed

text \<open>
  C36: No wake-up of a yielded handler is lost.  In every state that scheduling, disarming,
  the passing of time and draining can reach, while a handler waits, either the expiry of
  the timer is already on its way or the kernel timer is programmed for the earliest of the
  waiting deadlines.
\<close>

theorem yield_timer_armed:
  assumes "yt_reach s" "yheap s \<noteq> []"
  shows "yt_fired s \<or> timerfd s \<noteq> 0 \<and> timerfd s = Min (deadline_ns ` set (yheap s))"
proof -
  have ok: "yt_ok s" using assms(1) by (rule yt_reach_ok)
  have "Min (deadline_ns ` set (yheap s)) = deadline_ns (hd (yheap s))"
    using assms(2) ok heap_top_least_set by (intro Min_eqI) (auto simp: yt_ok_def)
  then show ?thesis using ok assms(2) by (auto simp: yt_ok_def)
qed

definition one_wait :: yield_timer where
  "one_wait = fst (schedule_yield_timer (yt_init 1000) 20 1 7)"

theorem yield_timer_armed_witness:
  "yt_reach one_wait \<and> yheap one_wait \<noteq> [] \<and>
   timerfd one_wait = Min (deadline_ns ` set (yheap one_wait))"
proof -
  have "yt_step (yt_init 1000) one_wait"
    unfolding one_wait_def by (rule yt_schedule) (simp_all add: yt_init_def)
  then have r: "yt_reach one_wait" using yt_start yt_next by blast
  have "yheap one_wait \<noteq> [] \<and> \<not> yt_fired one_wait"
    by (simp add: one_wait_def yt_init_def schedule_yield_timer_def yh_push_def yh_cap_def
        sift_up.simps rearm_yield_timerfd_def)
  then show ?thesis using yield_timer_armed [OF r] r by blast
qed

end
