(* ===== verification/Connection.thy ===== *)
theory Connection
  imports Http_Parser Chunked_Parser Route_Config Handler_Abi
begin

text \<open>
  The connection of the runtime (\<open>include/rut/runtime/connection_base.h\<close>) and its byte
  buffers (\<open>include/rut/common/buffer.h\<close>).

  A buffer is bound to a slice of the slice pool or to none.  The runtime takes no view of a
  connection buffer, so the lock that a live view holds is not part of the model; the trap of
  \<open>commit\<close> is: an operation that may reach it returns an option, and the trap is \<open>None\<close>.
\<close>

section \<open>Buffers\<close>

record io_buffer =
  bf_valid :: bool
  bf_bytes :: bytes
  bf_cap :: nat

definition bf_bind :: "bool \<Rightarrow> nat \<Rightarrow> io_buffer" where
  "bf_bind valid cap = \<lparr>bf_valid = valid, bf_bytes = [], bf_cap = cap\<rparr>"

definition bf_len :: "io_buffer \<Rightarrow> nat" where
  "bf_len b = length (bf_bytes b)"

definition bf_reset :: "io_buffer \<Rightarrow> io_buffer" where
  "bf_reset b = b\<lparr>bf_bytes := []\<rparr>"

definition bf_write :: "bytes \<Rightarrow> io_buffer \<Rightarrow> io_buffer" where
  "bf_write src b =
     (if \<not> bf_valid b then b
      else (let avail = bf_cap b - bf_len b;
                to_write = (if length src < avail then length src else avail)
            in b\<lparr>bf_bytes := bf_bytes b @ take to_write src\<rparr>))"

definition bf_read :: "io_buffer \<Rightarrow> nat \<Rightarrow> bytes" where
  "bf_read b n =
     (if \<not> bf_valid b \<or> n = 0 then []
      else take (if bf_len b < n then bf_len b else n) (bf_bytes b))"

definition bf_write_avail :: "io_buffer \<Rightarrow> nat" where
  "bf_write_avail b = (if bf_valid b then bf_cap b - bf_len b else 0)"

text \<open>\<open>commit(n)\<close> after \<open>n\<close> bytes \<open>src\<close> were stored at \<open>write_ptr()\<close>.\<close>

definition bf_commit :: "bytes \<Rightarrow> io_buffer \<Rightarrow> io_buffer option" where
  "bf_commit src b =
     (if \<not> bf_valid b \<or> bf_len b + length src > bf_cap b then None
      else Some (b\<lparr>bf_bytes := bf_bytes b @ src\<rparr>))"

text \<open>A buffer holds no more than its slice, and nothing without one.\<close>

definition bf_ok :: "io_buffer \<Rightarrow> bool" where
  "bf_ok b \<longleftrightarrow> bf_len b \<le> bf_cap b \<and> (\<not> bf_valid b \<longrightarrow> bf_bytes b = [])"

definition bf_writes :: "bytes list \<Rightarrow> io_buffer \<Rightarrow> io_buffer" where
  "bf_writes ps b = foldl (\<lambda>b p. bf_write p b) b ps"

section \<open>The connection\<close>

datatype body_mode = BodyNone | BodyContentLength | BodyChunked | BodyUntilClose

datatype conn_state = CsIdle | ReadingHeader | ReadingBody | ExecHandler | Proxying | Sending

text \<open>The callbacks a slot can hold.\<close>

datatype callback =
    OnHeaderReceived | OnJitRequestBodyRecvd | OnResponseSent | OnUpstreamConnected
  | OnUpstreamRequestSent | OnResponseHeaderSent | OnResponseBodyRecvd | OnResponseBodySent
  | OnBodySendWithEarlyResponse | OnRequestBodySent | OnEarlyUpstreamRecvd
  | OnEarlyUpstreamRecvdSendInflight | OnRequestBodyRecvd | OnUpstreamResponse
  | OnProxyResponseSent

text \<open>
  \<open>handler_ctx\<close>: what the runtime sets before a handler runs, and the slots the handler
  keeps its wait results in.
\<close>

record handler_ctx =
  hx_state :: u16
  hx_handler_idx :: u16
  hx_resume_event_kind :: u32
  hx_resume_event_result :: int
  hx_route_params :: "(bytes \<times> bytes) list"
  hx_slots :: "u64 list"

definition kMaxReqPathLen :: nat where "kMaxReqPathLen = 64"
definition kConnUpstreamNameLen :: nat where "kConnUpstreamNameLen = 24"

text \<open>
  Lengths and positions in a 16 KB buffer are natural numbers; counts that the wire gives
  (body lengths) and counters that may wrap keep their width.  A C string is the bytes before
  its terminator, \<open>req_path_canon\<close> the bytes of the view (\<open>None\<close> the null view), a file
  descriptor an integer.
\<close>

record 'fn conn =
  c_on_recv :: "callback option"
  c_on_send :: "callback option"
  c_on_upstream_recv :: "callback option"
  c_on_upstream_send :: "callback option"
  c_fd :: int
  c_id :: nat
  c_state :: conn_state
  c_shard_id :: u8
  c_upstream_fd :: int
  c_upstream_idx :: u16
  c_handler_state :: u16
  c_pending_yield_kind :: yield_kind
  c_resume_event_kind :: yield_kind
  c_resume_event_result :: int
  c_handler_ctx :: "handler_ctx option"
  c_pending_handler_fn :: "'fn option"
  c_handler_gen :: u32
  c_request_config :: "'fn route_config option"
  c_yield_timer_gen :: u32
  c_keep_alive :: bool
  c_pipeline_depth :: u16
  c_pipeline_stash_len :: u16
  c_req_header_end :: nat
  c_req_content_length :: u32
  c_req_initial_send_len :: nat
  c_req_malformed :: bool
  c_req_body_mode :: body_mode
  c_req_body_remaining :: u32
  c_req_chunk_parser :: chunked_parser
  c_resp_body_mode :: body_mode
  c_resp_body_remaining :: u32
  c_resp_chunk_parser :: chunked_parser
  c_resp_body_sent :: u32
  c_upstream_send_len :: nat
  c_recv_armed :: bool
  c_send_armed :: bool
  c_upstream_recv_armed :: bool
  c_upstream_send_armed :: bool
  c_yield_armed :: bool
  c_yield_timeout_armed :: bool
  c_resp_status :: u16
  c_req_method :: u8
  c_req_size :: u32
  c_peer_addr :: u32
  c_req_path :: bytes
  c_req_path_canon :: "bytes option"
  c_upstream_us :: u32
  c_upstream_name :: bytes
  c_upstream_start_us :: u64
  c_capture_buf :: "bytes option"
  c_capture_header_len :: nat
  c_req_start_us :: u64
  c_pending_ops :: u32
  c_recv_slice :: bool
  c_send_slice :: bool
  c_upstream_recv_slice :: bool
  c_recv_buf :: io_buffer
  c_send_buf :: io_buffer
  c_upstream_recv_buf :: io_buffer

definition set_slots ::
  "callback option \<Rightarrow> callback option \<Rightarrow> callback option \<Rightarrow> callback option \<Rightarrow> 'fn conn \<Rightarrow> 'fn conn" where
  "set_slots recv send up_recv up_send c =
     c\<lparr>c_on_recv := recv, c_on_send := send, c_on_upstream_recv := up_recv, c_on_upstream_send := up_send\<rparr>"

definition has_active_slot :: "'fn conn \<Rightarrow> bool" where
  "has_active_slot c \<longleftrightarrow> c_on_recv c \<noteq> None \<or> c_on_send c \<noteq> None \<or>
     c_on_upstream_recv c \<noteq> None \<or> c_on_upstream_send c \<noteq> None"

text \<open>\<open>handler_gen\<close> survives: a recycled connection must not repeat a generation.\<close>

definition conn_blank :: "u32 \<Rightarrow> 'fn conn" where
  "conn_blank gen =
     \<lparr>c_on_recv = None, c_on_send = None, c_on_upstream_recv = None, c_on_upstream_send = None,
      c_fd = -1, c_id = 0, c_state = CsIdle, c_shard_id = 0, c_upstream_fd = -1, c_upstream_idx = 0,
      c_handler_state = 0, c_pending_yield_kind = YTimer, c_resume_event_kind = YTimer,
      c_resume_event_result = 0, c_handler_ctx = None, c_pending_handler_fn = None,
      c_handler_gen = gen, c_request_config = None, c_yield_timer_gen = 0,
      c_keep_alive = False, c_pipeline_depth = 0, c_pipeline_stash_len = 0,
      c_req_header_end = 0, c_req_content_length = 0, c_req_initial_send_len = 0,
      c_req_malformed = False, c_req_body_mode = BodyNone, c_req_body_remaining = 0,
      c_req_chunk_parser = ck_reset, c_resp_body_mode = BodyNone, c_resp_body_remaining = 0,
      c_resp_chunk_parser = ck_reset, c_resp_body_sent = 0, c_upstream_send_len = 0,
      c_recv_armed = False, c_send_armed = False, c_upstream_recv_armed = False,
      c_upstream_send_armed = False, c_yield_armed = False, c_yield_timeout_armed = False,
      c_resp_status = 0, c_req_method = 0, c_req_size = 0, c_peer_addr = 0,
      c_req_path = [], c_req_path_canon = None, c_upstream_us = 0, c_upstream_name = [],
      c_upstream_start_us = 0, c_capture_buf = None, c_capture_header_len = 0,
      c_req_start_us = 0, c_pending_ops = 0,
      c_recv_slice = False, c_send_slice = False, c_upstream_recv_slice = False,
      c_recv_buf = bf_bind False 0, c_send_buf = bf_bind False 0,
      c_upstream_recv_buf = bf_bind False 0\<rparr>"

definition conn_reset :: "'fn conn \<Rightarrow> 'fn conn" where
  "conn_reset c = conn_blank (c_handler_gen c)"

definition kMaxJitHandlerSlots :: nat where "kMaxJitHandlerSlots = 4 * 2"

definition fresh_ctx :: handler_ctx where
  "fresh_ctx = \<lparr>hx_state = 0, hx_handler_idx = 0, hx_resume_event_kind = 0, hx_resume_event_result = 0,
     hx_route_params = [], hx_slots = replicate kMaxJitHandlerSlots 0\<rparr>"

definition reset_jit_ctx :: "'fn conn \<Rightarrow> 'fn conn" where
  "reset_jit_ctx c = c\<lparr>c_handler_ctx := Some fresh_ctx\<rparr>"

definition jit_ctx :: "'fn conn \<Rightarrow> handler_ctx \<times> 'fn conn" where
  "jit_ctx c =
     (case c_handler_ctx c of
        None \<Rightarrow> (fresh_ctx, reset_jit_ctx c)
      | Some x \<Rightarrow> (x, c))"

section \<open>Facts about buffers\<close>

lemma bf_write_fields [simp]: "bf_valid (bf_write p b) = bf_valid b" "bf_cap (bf_write p b) = bf_cap b"
  by (simp_all add: bf_write_def Let_def)

lemma bf_reset_fields [simp]:
  "bf_valid (bf_reset b) = bf_valid b" "bf_cap (bf_reset b) = bf_cap b" "bf_bytes (bf_reset b) = []"
  "bf_len (bf_reset b) = 0"
  by (simp_all add: bf_reset_def bf_len_def)

lemma bf_reset_ok [simp]: "bf_ok (bf_reset b)"
  by (simp add: bf_ok_def)

lemma bf_write_bytes:
  "bf_valid b \<Longrightarrow> bf_len b \<le> bf_cap b \<Longrightarrow> bf_bytes (bf_write p b) = take (bf_cap b) (bf_bytes b @ p)"
  by (auto simp: bf_write_def Let_def bf_len_def)

lemma bf_write_ok: "bf_ok b \<Longrightarrow> bf_ok (bf_write p b)"
  by (cases "bf_valid b") (auto simp: bf_ok_def bf_write_def Let_def bf_len_def)

lemma bf_writes_fields [simp]: "bf_valid (bf_writes ps b) = bf_valid b" "bf_cap (bf_writes ps b) = bf_cap b"
  unfolding bf_writes_def by (induction ps arbitrary: b) auto

lemma bf_writes_ok: "bf_ok b \<Longrightarrow> bf_ok (bf_writes ps b)"
  unfolding bf_writes_def by (induction ps arbitrary: b) (auto simp: bf_write_ok)

text \<open>Writing piece by piece keeps as much of the whole as fits.\<close>

lemma bf_writes_bytes:
  "bf_valid b \<Longrightarrow> bf_len b \<le> bf_cap b \<Longrightarrow>
   bf_bytes (bf_writes ps b) = take (bf_cap b) (bf_bytes b @ concat ps)"
proof (induction ps arbitrary: b)
  case Nil
  then show ?case by (simp add: bf_writes_def bf_len_def)
next
  case (Cons p ps)
  have w: "bf_bytes (bf_write p b) = take (bf_cap b) (bf_bytes b @ p)"
    using Cons.prems by (rule bf_write_bytes)
  have "bf_bytes (bf_writes ps (bf_write p b)) = take (bf_cap b) (take (bf_cap b) (bf_bytes b @ p) @ concat ps)"
    using Cons.IH [of "bf_write p b"] Cons.prems(1) by (simp add: w bf_len_def)
  also have "\<dots> = take (bf_cap b) ((bf_bytes b @ p) @ concat ps)"
    by (auto simp: take_append min_def)
  finally show ?case by (simp add: bf_writes_def)
qed

lemma bf_writes_fit:
  assumes "bf_valid b" "length (concat ps) \<le> bf_cap b"
  shows "bf_bytes (bf_writes ps (bf_reset b)) = concat ps"
  using bf_writes_bytes [of "bf_reset b" ps] assms by simp

lemma bf_commit_reset:
  "bf_valid b \<Longrightarrow> length src \<le> bf_cap b \<Longrightarrow> bf_commit src (bf_reset b) = Some (b\<lparr>bf_bytes := src\<rparr>)"
  by (simp add: bf_commit_def bf_reset_def bf_len_def)

end
