(* ===== verification/Response_Format.thy ===== *)
theory Response_Format
  imports Connection Header_Rules Http_Framing
begin

text \<open>
  The responses that the runtime writes itself (\<open>src/runtime/callbacks.cc\<close>): the status
  line, the framing headers, the headers of a route and the body, written piece by piece into
  the send buffer.  \<open>Buffer::write\<close> keeps only what fits, so the formatter with user
  headers computes the size first and answers 500 when the response does not fit.  The
  lemmas read the written bytes back with the response parser.
\<close>

section \<open>The formatters\<close>

definition status_reason :: "u16 \<Rightarrow> bytes" where
  "status_reason code =
     ascii (if code = 200 then ''OK''
       else if code = 201 then ''Created''
       else if code = 204 then ''No Content''
       else if code = 301 then ''Moved Permanently''
       else if code = 302 then ''Found''
       else if code = 304 then ''Not Modified''
       else if code = 400 then ''Bad Request''
       else if code = 401 then ''Unauthorized''
       else if code = 403 then ''Forbidden''
       else if code = 404 then ''Not Found''
       else if code = 405 then ''Method Not Allowed''
       else if code = 429 then ''Too Many Requests''
       else if code = 500 then ''Internal Server Error''
       else if code = 502 then ''Bad Gateway''
       else if code = 503 then ''Service Unavailable''
       else ''Unknown'')"

definition code_buf :: "u16 \<Rightarrow> bytes" where
  "code_buf code =
     [0x30 + ucast ((code div 100) mod 10), 0x30 + ucast ((code div 10) mod 10), 0x30 + ucast (code mod 10)]"

text \<open>The decimal digits, one write each, from the first power of ten that the value reaches.\<close>

definition content_length_digits :: "u32 \<Rightarrow> bytes list" where
  "content_length_digits body_len =
     concat (map (\<lambda>p. if body_len \<ge> p then [[0x30 + ucast ((body_len div p) mod 10)]] else [])
       [1000000000, 100000000, 10000000, 1000000, 100000, 10000, 1000, 100, 10]) @
     [[0x30 + ucast (body_len mod 10)]]"

definition status_line_pieces :: "u16 \<Rightarrow> bytes \<Rightarrow> bytes list" where
  "status_line_pieces code reason = [ascii ''HTTP/1.1 '', code_buf code, [SP], reason, crlf]"

definition connection_pieces :: "bool \<Rightarrow> bytes list" where
  "connection_pieces keep_alive =
     [ascii (if keep_alive then ''Connection: keep-alive'' else ''Connection: close'') @ crlf, crlf]"

definition header_pieces :: "u16 \<Rightarrow> bytes \<Rightarrow> u32 \<Rightarrow> bool \<Rightarrow> bytes \<Rightarrow> bytes list" where
  "header_pieces code reason body_len keep_alive content_type =
     status_line_pieces code reason @
     [ascii ''Content-Length: ''] @ content_length_digits body_len @ [crlf] @
     (if length content_type > 0 then [ascii ''Content-Type: '', content_type, crlf] else []) @
     connection_pieces keep_alive"

definition write_response_headers ::
  "'fn conn \<Rightarrow> u16 \<Rightarrow> bytes \<Rightarrow> u32 \<Rightarrow> bool \<Rightarrow> bytes \<Rightarrow> 'fn conn" where
  "write_response_headers c code reason body_len keep_alive content_type =
     c\<lparr>c_send_buf := bf_writes (header_pieces code reason body_len keep_alive content_type)
        (bf_reset (c_send_buf c))\<rparr>"

definition no_body_code :: "u16 \<Rightarrow> bool" where
  "no_body_code code \<longleftrightarrow> code < 200 \<or> code = 204 \<or> code = 304"

definition send_write :: "bytes \<Rightarrow> 'fn conn \<Rightarrow> 'fn conn" where
  "send_write p c = c\<lparr>c_send_buf := bf_write p (c_send_buf c)\<rparr>"

definition format_static_response :: "'fn conn \<Rightarrow> u16 \<Rightarrow> bool \<Rightarrow> 'fn conn" where
  "format_static_response c code keep_alive =
     (let reason = status_reason code;
          body = (if no_body_code code then [] else reason);
          c' = write_response_headers c code reason (of_nat (length body)) keep_alive []
      in if length body > 0 then send_write body c' else c')"

definition format_response_with_body :: "'fn conn \<Rightarrow> u16 \<Rightarrow> bytes \<Rightarrow> bool \<Rightarrow> 'fn conn" where
  "format_response_with_body c code body keep_alive =
     (if no_body_code code then format_static_response c code keep_alive
      else (let c' = write_response_headers c code (status_reason code) (of_nat (length body)) keep_alive
                       (ascii ''text/plain; charset=utf-8'')
            in if length body > 0 then send_write body c' else c'))"

lemma unat_div_less: "v \<ge> 10 \<Longrightarrow> unat (v div 10) < unat (v :: u32)"
  by (simp add: unat_div word_le_nat_alt)

function decimal_digit_count :: "u32 \<Rightarrow> u32" where
  "decimal_digit_count v = (if v \<ge> 10 then 1 + decimal_digit_count (v div 10) else 1)"
  by pat_completeness auto
termination by (relation "measure unat") (simp_all add: unat_div_less)

declare decimal_digit_count.simps [simp del]

text \<open>The headers of a response, keys and values.\<close>

type_synonym kvs = "(bytes \<times> bytes) list"

definition is_content_length :: "bytes \<Rightarrow> bool" where
  "is_content_length key = http_header_name_eq_ci key (ascii ''Content-Length'')"

text \<open>The precomputed size; each line is summed in 32 bits, the total in 64.\<close>

definition response_needed :: "u16 \<Rightarrow> nat \<Rightarrow> bool \<Rightarrow> kvs \<Rightarrow> bool \<Rightarrow> u64" where
  "response_needed code body_len emit_default headers keep_alive =
     (9 + 3 + 1 + 2) + of_nat (length (status_reason code)) + 16 +
     ucast (decimal_digit_count (of_nat body_len)) + 2 +
     (if emit_default then of_nat (length (ascii ''Content-Type: text/plain; charset=utf-8'' @ crlf)) else 0) +
     sum_list (map (\<lambda>(k, v). if is_content_length k then 0
                            else ucast (of_nat (length k) + 2 + of_nat (length v) + 2 :: u32)) headers) +
     (if keep_alive then 24 else 19) + 2 + of_nat body_len"

definition format_response_with_body_and_headers ::
  "'fn conn \<Rightarrow> u16 \<Rightarrow> bytes \<Rightarrow> kvs \<Rightarrow> bool \<Rightarrow> bool \<Rightarrow> 'fn conn" where
  "format_response_with_body_and_headers c code body headers keep_alive body_is_fallback =
     (let body_emit = (if no_body_code code then [] else body);
          user_has_content_type = list_ex (\<lambda>(k, v). http_header_name_eq_ci k (ascii ''Content-Type'')) headers;
          emit_default = (\<not> user_has_content_type \<and> length body_emit > 0 \<and> \<not> body_is_fallback)
      in if response_needed code (length body_emit) emit_default headers keep_alive
              > of_nat (bf_cap (c_send_buf c))
         then format_static_response (c\<lparr>c_resp_status := 500, c_keep_alive := False\<rparr>) 500 False
         else
           (let c' = c\<lparr>c_send_buf := bf_writes
                  (status_line_pieces code (status_reason code) @
                   [ascii ''Content-Length: ''] @ content_length_digits (of_nat (length body_emit)) @ [crlf] @
                   (if emit_default then [ascii ''Content-Type: text/plain; charset=utf-8'' @ crlf] else []) @
                   concat (map (\<lambda>(k, v). if is_content_length k then [] else [k, ascii '': '', v, crlf]) headers) @
                   connection_pieces keep_alive)
                  (bf_reset (c_send_buf c))\<rparr>
            in if length body_emit > 0 then send_write body_emit c' else c'))"

section \<open>Decimal digits\<close>

definition dec_digit :: "nat \<Rightarrow> nat \<Rightarrow> u8" where
  "dec_digit n k = of_nat (48 + (n div 10 ^ k) mod 10)"

fun dec_digits :: "nat \<Rightarrow> nat \<Rightarrow> bytes" where
  "dec_digits 0 n = [dec_digit n 0]"
| "dec_digits (Suc k) n = (if n \<ge> 10 ^ Suc k then dec_digit n (Suc k) # dec_digits k n else dec_digits k n)"

lemma unat_dec_digit: "unat (dec_digit n k) = 48 + (n div 10 ^ k) mod 10"
proof -
  have "(n div 10 ^ k) mod 10 < 10" by simp
  then have "48 + (n div 10 ^ k) mod 10 < 256" by linarith
  then show ?thesis unfolding dec_digit_def unat_of_nat by simp
qed

lemma dec_digit_ok: "is_digit (dec_digit n k)"
proof -
  have "(n div 10 ^ k) mod 10 < 10" by simp
  then have "48 + (n div 10 ^ k) mod 10 \<le> 57" by linarith
  then show ?thesis by (simp add: is_digit_def word_le_nat_alt unat_dec_digit)
qed

lemma dec_digits_ok: "list_all is_digit (dec_digits k n) \<and> dec_digits k n \<noteq> []"
  by (induction k) (auto simp: dec_digit_ok)

lemma dec_digits_full:
  "n \<ge> 10 ^ k \<Longrightarrow> length (dec_digits k n) = k + 1 \<and>
   decnum_from v (dec_digits k n) = v * 10 ^ (k + 1) + n mod 10 ^ (k + 1)"
proof (induction k arbitrary: v)
  case 0
  then show ?case by (simp add: unat_dec_digit)
next
  case (Suc k)
  have k: "n \<ge> 10 ^ k" using Suc.prems by simp
  have "n mod 10 ^ (Suc k + 1) = 10 ^ (k + 1) * ((n div 10 ^ (k + 1)) mod 10) + n mod 10 ^ (k + 1)"
    using mod_mult2_eq [of n "10 ^ (k + 1)" 10] by (simp add: mult.commute)
  then show ?case
    using Suc.prems Suc.IH [OF k] by (simp add: unat_dec_digit algebra_simps)
qed

lemma dec_digits_value: "n < 10 ^ (k + 1) \<Longrightarrow> decnum_from 0 (dec_digits k n) = n"
proof (induction k)
  case 0
  then show ?case by (simp add: unat_dec_digit)
next
  case (Suc k)
  show ?case
  proof (cases "n \<ge> 10 ^ Suc k")
    case True
    then show ?thesis using dec_digits_full [OF True, of 0] Suc.prems by simp
  next
    case False
    then show ?thesis using Suc.IH by simp
  qed
qed

lemma digit_count_range:
  "10 ^ k \<le> unat v \<Longrightarrow> unat v < 10 ^ (k + 1) \<Longrightarrow> k < 10 \<Longrightarrow> decimal_digit_count v = of_nat (k + 1)"
proof (induction k arbitrary: v)
  case 0
  then show ?case by (subst decimal_digit_count.simps) (simp add: word_le_nat_alt)
next
  case (Suc k)
  have "(10 :: nat) ^ 1 \<le> 10 ^ Suc k" by (rule power_increasing) simp_all
  then have "10 \<le> unat v" using Suc.prems(1) unfolding power_one_right by (rule order_trans)
  then have ge: "v \<ge> 10" by (simp add: word_le_nat_alt)
  have "unat (v div 10) = unat v div 10" by (simp add: unat_div)
  moreover have "10 ^ k \<le> unat v div 10" "unat v div 10 < 10 ^ (k + 1)" using Suc.prems(1,2) by auto
  ultimately have "decimal_digit_count (v div 10) = of_nat (k + 1)" using Suc.IH Suc.prems(3) by simp
  then show ?case using ge by (subst decimal_digit_count.simps) simp
qed

lemma digit_count_length:
  "unat v < 10 ^ (k + 1) \<Longrightarrow> k < 10 \<Longrightarrow> decimal_digit_count v = of_nat (length (dec_digits k (unat v)))"
proof (induction k)
  case 0
  then show ?case by (subst decimal_digit_count.simps) (simp add: word_le_nat_alt)
next
  case (Suc k)
  show ?case
  proof (cases "unat v \<ge> 10 ^ Suc k")
    case True
    then show ?thesis using dec_digits_full [OF True, of 0] digit_count_range [OF True] Suc.prems by simp
  next
    case False
    then show ?thesis using Suc.IH Suc.prems by simp
  qed
qed

lemma digit_byte:
  fixes n :: u32
  shows "(0x30 + ucast ((n div of_nat p) mod 10) :: u8) = of_nat (48 + (unat n div (p mod 2 ^ 32)) mod 10)"
proof -
  have "unat ((n div of_nat p) mod 10) = (unat n div (p mod 2 ^ 32)) mod 10"
    by (simp add: unat_div unat_mod unat_of_nat)
  then have "unat (ucast ((n div of_nat p) mod 10) :: u8) = (unat n div (p mod 2 ^ 32)) mod 10"
    by (simp add: unsigned_ucast_eq take_bit_nat_eq_self)
  then show ?thesis by (simp add: word_unat_eq_iff unat_word_ariths unat_of_nat)
qed

lemma concat_digits: "concat (content_length_digits n) = dec_digits 9 (unat n)"
proof -
  have d: "(0x30 + ucast ((n div p) mod 10) :: u8) = dec_digit (unat n) k \<and> (n \<ge> p \<longleftrightarrow> unat n \<ge> 10 ^ k)"
    if "p = of_nat (10 ^ k)" "k < 10" for p k
  proof -
    have b: "(10::nat) ^ k < 2 ^ 32"
    proof -
      have "(10::nat) ^ k \<le> 10 ^ 9" using that(2) by (intro power_increasing) auto
      then show ?thesis by simp
    qed
    then have "(10 ^ k :: nat) mod 2 ^ 32 = 10 ^ k" by simp
    moreover have "unat p = 10 ^ k" unfolding that(1) unat_of_nat using b by simp
    ultimately show ?thesis
      using digit_byte [of n "10 ^ k"] that(1) by (simp add: dec_digit_def word_le_nat_alt)
  qed
  have last: "(0x30 + ucast (n mod 10) :: u8) = dec_digit (unat n) 0"
    using digit_byte [of n 1] by (simp add: dec_digit_def)
  note e = d [of 1000000000 9] d [of 100000000 8] d [of 10000000 7] d [of 1000000 6]
    d [of 100000 5] d [of 10000 4] d [of 1000 3] d [of 100 2] d [of 10 1]
  have dd: "dec_digits j m = (if m \<ge> 10 ^ j then [dec_digit m j] else []) @ dec_digits k m"
    if "j = Suc k" for j k m using that by simp
  have c: "concat (if b then [[x]] else []) = (if b then [x] else [])" for b and x :: u8 by simp
  show ?thesis
    unfolding content_length_digits_def concat_append list.map concat.simps c
      dd [of 9 8, simplified] dd [of 8 7, simplified] dd [of 7 6, simplified] dd [of 6 5, simplified]
      dd [of 5 4, simplified] dd [of 4 3, simplified] dd [of 3 2, simplified] dd [of 2 1, simplified]
      dd [of 1 0, simplified]
    using e last by simp
qed

section \<open>Header lines of a response\<close>

text \<open>The field that the parser sees in the line \<open>key: value\<close>: the value without its outer white space.\<close>

definition line_field :: "bytes \<Rightarrow> bytes \<Rightarrow> field" where
  "line_field k v =
     (let w = dropWhile is_ows v
      in \<lparr>f_name = k, f_ows = SP # takeWhile is_ows v,
          f_value = rev (dropWhile is_ows (rev w)), f_trail = rev (takeWhile is_ows (rev w))\<rparr>)"

lemma line_field_bytes: "field_bytes (line_field k v) = k @ ascii '': '' @ v @ crlf"
proof -
  let ?w = "dropWhile is_ows v"
  have "rev (dropWhile is_ows (rev ?w)) @ rev (takeWhile is_ows (rev ?w)) = ?w"
    by (metis rev_append rev_rev_ident takeWhile_dropWhile_id)
  then have "takeWhile is_ows v @ rev (dropWhile is_ows (rev ?w)) @ rev (takeWhile is_ows (rev ?w)) @ xs = v @ xs" for xs
    by (metis append_assoc takeWhile_dropWhile_id)
  then show ?thesis by (simp add: field_bytes_def line_field_def Let_def ascii_def crlf_def)
qed

lemma is_ows_SP [simp]: "is_ows SP"
  by (simp add: is_ows_def)

lemma line_field_ok:
  assumes "k \<noteq> []" "list_all token_ok k" "list_all value_ok v"
  shows "field_ok (line_field k v)"
proof -
  let ?w = "dropWhile is_ows v"
  let ?c = "dropWhile is_ows (rev ?w)"
  have "set ?c \<subseteq> set v" by (auto dest!: set_dropWhileD)
  then have vo: "list_all value_ok (rev ?c)" using assms(3) by (auto simp: list_all_iff)
  have all: "list_all is_ows (takeWhile is_ows xs)" for xs
    using set_takeWhileD by (fastforce simp: list_all_iff)
  have empty: "takeWhile is_ows (rev ?w) = []" if "rev ?c = []"
  proof -
    have "\<forall>x \<in> set ?w. is_ows x" using that by (simp add: dropWhile_eq_Nil_conv)
    moreover have "?w = [] \<or> \<not> is_ows (hd ?w)" using hd_dropWhile by blast
    ultimately show ?thesis by (metis hd_in_set rev.simps(1) takeWhile.simps(1))
  qed
  have ends: "\<not> is_ows (hd (rev ?c)) \<and> \<not> is_ows (last (rev ?c))" if "rev ?c \<noteq> []"
  proof -
    have c: "?c \<noteq> []" using that by simp
    then have "\<not> is_ows (hd ?c)" using hd_dropWhile by blast
    moreover have "last ?c = last (rev ?w)" using c by (metis last_appendR takeWhile_dropWhile_id)
    moreover have "last (rev ?w) = hd ?w" by (simp add: last_rev)
    moreover have "?w \<noteq> []" using c by (metis dropWhile.simps(1) rev.simps(1))
    then have "\<not> is_ows (hd ?w)" using hd_dropWhile by blast
    ultimately show ?thesis using c by (simp add: hd_rev last_rev)
  qed
  show ?thesis
    using assms(1,2) vo all [of v] all [of "rev ?w"] empty ends
    by (simp add: field_ok_def line_field_def Let_def)
qed

lemma line_field_name [simp]: "f_name (line_field k v) = k"
  by (simp add: line_field_def Let_def)

lemma line_field_plain:
  "v \<noteq> [] \<Longrightarrow> \<not> is_ows (hd v) \<Longrightarrow> \<not> is_ows (last v) \<Longrightarrow> f_value (line_field k v) = v"
proof -
  assume v: "v \<noteq> []" "\<not> is_ows (hd v)" "\<not> is_ows (last v)"
  have d: "dropWhile is_ows xs = xs" if "\<not> is_ows (hd xs)" for xs using that by (cases xs) auto
  have "\<not> is_ows (hd (rev v))" using v by (simp add: hd_rev)
  then show ?thesis using v d by (simp add: line_field_def Let_def)
qed

lemma semantic_response_other:
  assumes "n \<noteq> []" "CR \<notin> set n" "\<not> named ''content-length'' n" "\<not> named ''connection'' n"
    "\<not> named ''transfer-encoding'' n"
  shows "apply_semantic_header_response n v r = (PComplete, r)"
proof -
  have l: "lit_string ''content-length''" "lit_string ''connection''" "lit_string ''transfer-encoding''"
    by code_simp+
  note n = first_byte_named [OF l(1) assms(2,1)] first_byte_named [OF l(2) assms(2,1)]
    first_byte_named [OF l(3) assms(2,1)]
  show ?thesis
    using assms(3-5) n unfolding apply_semantic_header_response_def Let_def
    by (auto simp: numeral_eq_Suc)
qed

lemma reserved_named:
  "is_reserved_response_header_name n \<longleftrightarrow>
     named ''content-length'' n \<or> named ''transfer-encoding'' n \<or> named ''connection'' n"
proof -
  have f: "map fold_case n = map ascii_lower n" by (simp add: fold_case_def [abs_def] ascii_lower_def [abs_def])
  have l: "map fold_case (ascii ''Content-Length'') = ascii ''content-length''"
    "map fold_case (ascii ''Transfer-Encoding'') = ascii ''transfer-encoding''"
    "map fold_case (ascii ''Connection'') = ascii ''connection''" by code_simp+
  show ?thesis
    unfolding is_reserved_response_header_name_def name_eq_ci_iff l f named_def by blast
qed

lemma semantic_content_length:
  assumes "parse_uint v = Inr n" "\<not> rs_has_content_length r"
  shows "apply_semantic_header_response (ascii ''Content-Length'') v r =
    (PComplete, r\<lparr>rs_content_length := n, rs_has_content_length := True\<rparr>)"
proof -
  have "ascii ''Content-Length'' ! 0 OR 0x20 = of_char CHR ''c''"
    "str_ci_eq (drop 1 (ascii ''Content-Length'')) (ascii ''ontent-length'') 13" by code_simp+
  then show ?thesis using assms by (simp add: apply_semantic_header_response_def)
qed

lemma semantic_connection:
  "apply_semantic_header_response (ascii ''Connection'') v r = (PComplete, match_connection_response v r)"
proof -
  have "ascii ''Connection'' ! 0 OR 0x20 = of_char CHR ''c''"
    "str_ci_eq (drop 1 (ascii ''Connection'')) (ascii ''onnection'') 9" by code_simp+
  then show ?thesis by (simp add: apply_semantic_header_response_def)
qed

lemma match_connection_word:
  assumes "w \<noteq> []" "dropWhile is_sep w = w" "takeWhile (\<lambda>b. \<not> is_sep b) w = w"
    "dropWhile (\<lambda>b. \<not> is_sep b) w = []"
  shows "match_connection_response w r =
    (if length w = 5 \<and> str_ci_eq w (ascii ''close'') 5
     then r\<lparr>rs_connection_close := True, rs_keep_alive := False\<rparr>
     else if length w = 10 \<and> str_ci_eq w (ascii ''keep-alive'') 10 then r\<lparr>rs_keep_alive := True\<rparr>
     else r)"
proof -
  obtain x xs where w: "w = x # xs" using assms(1) by (cases w) auto
  have e: "match_connection_response [] r = r" for r by (simp add: match_connection_response.simps)
  show ?thesis
    unfolding match_connection_response.simps [of w r] assms(2) unfolding w list.case Let_def
    unfolding w [symmetric] assms(3,4) e ..
qed

lemma match_connection_values:
  "match_connection_response (ascii ''keep-alive'') r = r\<lparr>rs_keep_alive := True\<rparr>"
  "match_connection_response (ascii ''close'') r = r\<lparr>rs_connection_close := True, rs_keep_alive := False\<rparr>"
proof -
  have k: "dropWhile is_sep (ascii ''keep-alive'') = ascii ''keep-alive''"
    "takeWhile (\<lambda>b. \<not> is_sep b) (ascii ''keep-alive'') = ascii ''keep-alive''"
    "dropWhile (\<lambda>b. \<not> is_sep b) (ascii ''keep-alive'') = []"
    "str_ci_eq (ascii ''keep-alive'') (ascii ''keep-alive'') 10" "ascii ''keep-alive'' \<noteq> []" by code_simp+
  have c: "dropWhile is_sep (ascii ''close'') = ascii ''close''"
    "takeWhile (\<lambda>b. \<not> is_sep b) (ascii ''close'') = ascii ''close''"
    "dropWhile (\<lambda>b. \<not> is_sep b) (ascii ''close'') = []"
    "str_ci_eq (ascii ''close'') (ascii ''close'') 5" "ascii ''close'' \<noteq> []" by code_simp+
  show "match_connection_response (ascii ''keep-alive'') r = r\<lparr>rs_keep_alive := True\<rparr>"
    using match_connection_word [OF k(5,1-3), of r] k(4) by simp
  show "match_connection_response (ascii ''close'') r = r\<lparr>rs_connection_close := True, rs_keep_alive := False\<rparr>"
    using match_connection_word [OF c(5,1-3), of r] c(4) by simp
qed

section \<open>Reading a written response back\<close>

definition response_line :: "u16 \<Rightarrow> bytes" where
  "response_line code = ascii ''HTTP/1.1 '' @ code_buf code @ [SP] @ status_reason code @ crlf"

definition response_message :: "u16 \<Rightarrow> field list \<Rightarrow> bytes \<Rightarrow> bytes" where
  "response_message code fs body = response_line code @ concat (map field_bytes fs) @ crlf @ body"

text \<open>What the parsed header lines say together; \<open>None\<close> when one is refused.\<close>

fun run_response :: "field list \<Rightarrow> parsed_response \<Rightarrow> parsed_response option" where
  "run_response [] r = Some r"
| "run_response (f # fs) r =
     (case apply_semantic_header_response (f_name f) (f_value f) r of
        (PError, r') \<Rightarrow> None
      | (_, r') \<Rightarrow> run_response fs r')"

lemma code_buf_digits:
  "code_buf code = [dec_digit (unat code) 2, dec_digit (unat code) 1, dec_digit (unat code) 0]"
proof -
  have d: "(0x30 + ucast (x mod 10) :: u8) = of_nat (48 + unat x mod 10)" for x :: u16
  proof -
    have "unat (ucast (x mod 10) :: u8) = unat x mod 10"
      by (simp add: unsigned_ucast_eq unat_mod take_bit_nat_eq_self)
    then show ?thesis by (simp add: word_unat_eq_iff unat_word_ariths unat_of_nat)
  qed
  show ?thesis by (simp only: code_buf_def d dec_digit_def) (simp add: unat_div)
qed

text \<open>The code as the three digits say it, and whether a response parser takes it.\<close>

definition wire_code :: "u16 \<Rightarrow> u16" where
  "wire_code code = code mod 1000"

definition wire_ok :: "u16 \<Rightarrow> bool" where
  "wire_ok code \<longleftrightarrow> 100 \<le> wire_code code \<and> wire_code code \<le> 599"

lemma code_buf_value: "decnum_from 0 (code_buf code) = unat (wire_code code)"
proof -
  define n where "n = unat code"
  have "n mod 1000 = n mod (10 * 100)" by simp
  also have "\<dots> = 10 * (n div 10 mod (10 * 10)) + n mod 10" using mod_mult2_eq [of n 10 100] by simp
  also have "n div 10 mod (10 * 10) = 10 * (n div 100 mod 10) + n div 10 mod 10"
    using mod_mult2_eq [of "n div 10" 10 10] by (simp add: div_mult2_eq [symmetric])
  finally have "n mod 1000 = 10 * (10 * (n div 100 mod 10) + n div 10 mod 10) + n mod 10" .
  moreover have "unat (wire_code code) = n mod 1000"
    unfolding wire_code_def n_def by (subst unat_mod) simp
  ultimately show ?thesis by (simp add: code_buf_digits unat_dec_digit n_def)
qed

lemma wire_code_small: "100 \<le> unat code \<Longrightarrow> unat code \<le> 599 \<Longrightarrow> wire_ok code \<and> wire_code code = code"
  by (simp add: wire_ok_def wire_code_def word_le_nat_alt word_unat_eq_iff unat_mod)

lemma code_buf_ok: "list_all is_digit (code_buf code)" "length (code_buf code) = 3"
  by (simp_all add: code_buf_digits dec_digit_ok)

lemma status_reason_no_CR: "CR \<notin> set (status_reason code)"
  by (simp add: status_reason_def ascii_def)

lemma status_head_response:
  "status_head (ascii ''HTTP/1.1 '' @ code_buf code) =
    (if wire_ok code then Inr (rs_reset\<lparr>rs_status_code := wire_code code\<rparr>) else Inl rs_reset)"
proof -
  let ?b = "ascii ''HTTP/1.1 '' @ code_buf code"
  obtain x y z where c: "code_buf code = [x, y, z]" by (simp add: code_buf_def)
  have d: "is_digit x" "is_digit y" "is_digit z" using code_buf_ok(1) [of code] by (simp_all add: c)
  have n: "?b ! 7 = 0x31" "?b ! 8 = SP" "?b ! 9 = x" "?b ! 10 = y" "?b ! 11 = z"
    by (simp_all add: ascii_def c)
  have v: "load_u64 ?b 0 AND 0x00FFFFFFFFFFFFFF = u64_lit ''HTTP/1.0'' AND 0x00FFFFFFFFFFFFFF"
    by (subst version_mask) (simp_all add: code_buf_ok(2) ascii_def)
  let ?w = "ucast ((ucast x - 0x30) * 100 + (ucast y - 0x30) * 10 + (ucast z - 0x30) :: u32) :: u16"
  have "unat ?w = unat (wire_code code)"
    using status_code_unat [OF d] code_buf_value [of code] by (simp add: c)
  then have w: "?w = wire_code code" by (simp add: word_unat_eq_iff)
  have r: "(wire_code code < 100 \<or> wire_code code > 599) \<longleftrightarrow> \<not> wire_ok code"
    by (simp add: wire_ok_def not_le)
  have g: "\<not> (9 < (ucast x - 0x30 :: u32) \<or> 9 < (ucast y - 0x30 :: u32) \<or> 9 < (ucast z - 0x30 :: u32))"
    using d digit_value(1) by (metis not_le)
  have k: "rs_reset\<lparr>rs_keep_alive := (0x31 = (0x31 :: u8))\<rparr> = rs_reset" by (simp add: rs_reset_def)
  show ?thesis
    unfolding status_head_def Let_def n v w if_not_P [OF g] r k by simp
qed

lemma status_line_response:
  "parse_status_line (response_line code @ rest) =
    (if wire_ok code then Inr (length (response_line code), rs_reset\<lparr>rs_status_code := wire_code code\<rparr>)
     else Inl (PError, rs_reset))"
proof -
  let ?buf = "response_line code @ rest"
  let ?reason = "[SP] @ status_reason code"
  have t: "take 12 ?buf = ascii ''HTTP/1.1 '' @ code_buf code"
    by (simp add: response_line_def code_buf_ok(2))
  have d: "drop 12 ?buf = ?reason @ CR # LF # rest"
    by (simp add: response_line_def code_buf_ok(2) crlf_def)
  have l: "length ?buf = 14 + length ?reason + length rest" "12 \<le> length ?buf"
    by (simp_all add: response_line_def code_buf_ok(2))
  have tw: "takeWhile (\<lambda>b. b \<noteq> CR) (drop 12 ?buf) = ?reason"
    unfolding d using status_reason_no_CR [of code] by (subst takeWhile_append2) auto
  then have re: "reason_end ?buf = 12 + length ?reason" by (simp add: reason_end_def)
  have "?buf ! (reason_end ?buf + 1) = drop 12 ?buf ! (length ?reason + 1)" using l re by simp
  also have "\<dots> = LF" unfolding d by (simp add: nth_append)
  finally have lf: "?buf ! (reason_end ?buf + 1) = LF" .
  show ?thesis
    unfolding status_line_split [OF l(2)] t status_head_response
    using l re lf by (simp add: response_line_def code_buf_ok(2))
qed

context byte_scanner
begin

lemma response_headers_message:
  assumes "\<forall>f \<in> set fs. field_ok f" "drop pos buf = concat (map field_bytes fs) @ CR # LF # rest"
    "run_response fs r = Some r'"
  shows "\<exists>hs. response_headers S buf pos hdrs r =
    resp_ret PComplete (pos + length (concat (map field_bytes fs)) + 2) (r'\<lparr>rs_headers := hs\<rparr>)"
  using assms
proof (induction fs arbitrary: pos hdrs r)
  case Nil
  then have "header_line S buf pos = LineEnd (pos + 2)" by (simp add: header_line_End)
  then show ?case using Nil(3) by (auto simp: response_headers.simps [of S buf pos] intro: exI [of _ hdrs])
next
  case (Cons f fs)
  have d: "drop pos buf = field_bytes f @ concat (map field_bytes fs) @ CR # LF # rest" using Cons.prems(2) by simp
  have d': "drop (pos + length (field_bytes f)) buf = concat (map field_bytes fs) @ CR # LF # rest"
    using drop_append_eq [OF d] by simp
  have f: "field_ok f" "\<forall>f \<in> set fs. field_ok f" using Cons.prems(1) by simp_all
  obtain st r1 where a: "apply_semantic_header_response (f_name f) (f_value f) r = (st, r1)" by fastforce
  then have st: "st \<noteq> PError" "run_response fs r1 = Some r'"
    using Cons.prems(3) by (auto split: parse_status.splits)
  show ?case
    using Cons.IH [OF f(2) d' st(2)] st(1)
    unfolding response_headers_field [OF f(1) d] a prod.case Let_def
    by (cases st) (auto simp: add.assoc)
qed

lemma response_message_parses:
  assumes "wire_ok code" "\<forall>f \<in> set fs. field_ok f"
    "run_response fs (rs_reset\<lparr>rs_status_code := wire_code code\<rparr>) = Some r"
  shows "\<exists>hs. parse_response S (response_message code fs body) resp0 =
    resp_ret PComplete (length (response_message code fs body) - length body) (r\<lparr>rs_headers := hs\<rparr>)"
proof -
  let ?buf = "response_message code fs body"
  have b: "?buf = response_line code @ concat (map field_bytes fs) @ CR # LF # body"
    by (simp add: response_message_def crlf_def)
  have n: "\<not> length ?buf < 12" by (simp add: response_message_def response_line_def code_buf_ok(2))
  have d: "drop (length (response_line code)) ?buf = concat (map field_bytes fs) @ CR # LF # body"
    unfolding b by simp
  from response_headers_message [OF assms(2) d assms(3), of "[]"] show ?thesis
    unfolding parse_response_def if_not_P [OF n] unfolding b status_line_response if_P [OF assms(1)] sum.case prod.case
    by (simp add: add.assoc)
qed

lemma response_message_refused:
  assumes "\<not> wire_ok code"
  shows "parse_response S (response_message code fs body) resp0 = resp_ret PError 0 rs_reset"
proof -
  have n: "\<not> length (response_message code fs body) < 12"
    by (simp add: response_message_def response_line_def code_buf_ok(2))
  show ?thesis
    unfolding parse_response_def if_not_P [OF n] using assms
    by (simp add: response_message_def status_line_response)
qed

end

text \<open>The header lines that a formatter writes for a body of \<open>n\<close> bytes.\<close>

definition response_fields :: "nat \<Rightarrow> bool \<Rightarrow> kvs \<Rightarrow> bool \<Rightarrow> field list" where
  "response_fields n default_type headers keep_alive =
     [line_field (ascii ''Content-Length'') (dec_digits 9 n)] @
     (if default_type then [line_field (ascii ''Content-Type'') (ascii ''text/plain; charset=utf-8'')] else []) @
     map (\<lambda>(k, v). line_field k v) (filter (\<lambda>(k, v). \<not> is_content_length k) headers) @
     [line_field (ascii ''Connection'') (ascii (if keep_alive then ''keep-alive'' else ''close''))]"

definition framed_response :: "u16 \<Rightarrow> nat \<Rightarrow> bool \<Rightarrow> parsed_response" where
  "framed_response code n keep_alive =
     rs_reset\<lparr>rs_status_code := code, rs_content_length := of_nat n, rs_has_content_length := True,
       rs_keep_alive := keep_alive, rs_connection_close := \<not> keep_alive\<rparr>"

definition headers_valid :: "kvs \<Rightarrow> bool" where
  "headers_valid hs \<longleftrightarrow> list_all (\<lambda>(k, v). validate_response_header k v = HOk) hs"

lemma token_no_CR: "list_all token_ok k \<Longrightarrow> CR \<notin> set k"
proof
  assume t: "list_all token_ok k" and "CR \<in> set k"
  then have "token_ok CR" unfolding list_all_iff by blast
  moreover have "\<not> token_ok CR" by code_simp
  ultimately show False by simp
qed

lemma run_response_append:
  "run_response (fs @ gs) r = (case run_response fs r of None \<Rightarrow> None | Some r' \<Rightarrow> run_response gs r')"
  by (induction fs arbitrary: r) (auto split: parse_status.splits prod.splits)

lemma run_user_headers:
  "headers_valid hs \<Longrightarrow>
   run_response (map (\<lambda>(k, v). line_field k v) (filter (\<lambda>(k, v). \<not> is_content_length k) hs)) r = Some r"
proof (induction hs)
  case (Cons h hs)
  obtain k v where h: "h = (k, v)" by (cases h)
  have ok: "k \<noteq> []" "list_all token_ok k" "\<not> is_reserved_response_header_name k"
    using Cons.prems by (simp_all add: headers_valid_def h validate_ok)
  have "apply_semantic_header_response k (f_value (line_field k v)) r = (PComplete, r)"
    using ok token_no_CR [OF ok(2)] by (intro semantic_response_other) (simp_all add: reserved_named)
  then show ?case using Cons by (simp add: h headers_valid_def)
qed (simp add: headers_valid_def)

lemma digits_not_ows: "is_digit c \<Longrightarrow> \<not> is_ows c"
  by (auto simp: is_digit_def is_ows_def)

lemma length_field_value:
  "n < 2 ^ 32 \<Longrightarrow> parse_uint (f_value (line_field k (dec_digits 9 n))) = Inr (of_nat n)"
proof -
  assume n: "n < 2 ^ 32"
  have d: "list_all is_digit (dec_digits 9 n)" "dec_digits 9 n \<noteq> []" using dec_digits_ok by blast+
  then have "is_digit (hd (dec_digits 9 n))" "is_digit (last (dec_digits 9 n))" by (simp_all add: list_all_iff)
  then have "f_value (line_field k (dec_digits 9 n)) = dec_digits 9 n"
    using d(2) digits_not_ows line_field_plain by blast
  moreover have "decnum_from 0 (dec_digits 9 n) = n" using n by (intro dec_digits_value) simp
  ultimately show ?thesis using d n by (simp add: parse_uint_iff unat_of_nat)
qed

lemma run_response_fields:
  assumes "n < 2 ^ 32" "headers_valid hs"
  shows "run_response (response_fields n ct hs ka) (rs_reset\<lparr>rs_status_code := code\<rparr>) =
    Some (framed_response code n ka)"
proof -
  let ?r = "rs_reset\<lparr>rs_status_code := code, rs_content_length := of_nat n, rs_has_content_length := True\<rparr>"
  have "\<not> rs_has_content_length (rs_reset\<lparr>rs_status_code := code\<rparr>)" by (simp add: rs_reset_def)
  note one = semantic_content_length [OF length_field_value [OF assms(1)] this]
  have ctn: "ascii ''Content-Type'' \<noteq> []" "CR \<notin> set (ascii ''Content-Type'')"
    "\<not> named ''content-length'' (ascii ''Content-Type'')" "\<not> named ''connection'' (ascii ''Content-Type'')"
    "\<not> named ''transfer-encoding'' (ascii ''Content-Type'')" by code_simp+
  have v: "f_value (line_field (ascii ''Connection'') (ascii s)) = ascii s" if "s = ''keep-alive'' \<or> s = ''close''" for s
    using that by (intro line_field_plain) (auto simp: ascii_def is_ows_def)
  have rc: "rs_reset\<lparr>rs_status_code := code, rs_content_length := of_nat n, rs_has_content_length := True,
      rs_keep_alive := True\<rparr> = framed_response code n True"
    "rs_reset\<lparr>rs_status_code := code, rs_content_length := of_nat n, rs_has_content_length := True,
      rs_connection_close := True, rs_keep_alive := False\<rparr> = framed_response code n False"
    by (simp_all add: framed_response_def rs_reset_def)
  show ?thesis
    unfolding response_fields_def
    by (cases ka)
       (simp_all add: one run_response_append run_user_headers [OF assms(2)] semantic_response_other [OF ctn]
          semantic_connection v match_connection_values rc)
qed

lemma response_fields_ok:
  assumes "headers_valid hs" shows "\<forall>f \<in> set (response_fields n ct hs ka). field_ok f"
proof -
  have k: "ascii ''Content-Length'' \<noteq> []" "list_all token_ok (ascii ''Content-Length'')"
    "ascii ''Content-Type'' \<noteq> []" "list_all token_ok (ascii ''Content-Type'')"
    "ascii ''Connection'' \<noteq> []" "list_all token_ok (ascii ''Connection'')"
    "list_all value_ok (ascii ''text/plain; charset=utf-8'')" "list_all value_ok (ascii ''keep-alive'')"
    "list_all value_ok (ascii ''close'')" by code_simp+
  have dig: "list_all value_ok (dec_digits 9 n)"
  proof -
    have "value_ok c" if "is_digit c" for c
      using that by (auto simp: is_digit_def value_ok_iff word_le_nat_alt word_less_nat_alt word_unat_eq_iff)
    then show ?thesis using dec_digits_ok [of 9 n] by (auto simp: list_all_iff)
  qed
  have u: "field_ok (line_field a b)" if "(a, b) \<in> set hs" for a b
    using that assms by (intro line_field_ok) (auto simp: headers_valid_def list_all_iff validate_ok)
  show ?thesis
    using line_field_ok [OF k(1,2) dig] line_field_ok [OF k(3,4,7)] line_field_ok [OF k(5,6,8)]
      line_field_ok [OF k(5,6,9)] u
    by (auto simp: response_fields_def)
qed

section \<open>What the formatters write\<close>

lemma ascii_splits:
  "ascii ''Content-Length: '' = ascii ''Content-Length'' @ ascii '': ''"
  "ascii ''Content-Type: '' = ascii ''Content-Type'' @ ascii '': ''"
  "ascii ''Content-Type: text/plain; charset=utf-8'' =
     ascii ''Content-Type'' @ ascii '': '' @ ascii ''text/plain; charset=utf-8''"
  "ascii ''Connection: keep-alive'' = ascii ''Connection'' @ ascii '': '' @ ascii ''keep-alive''"
  "ascii ''Connection: close'' = ascii ''Connection'' @ ascii '': '' @ ascii ''close''"
  by (simp_all add: ascii_def)

lemma connection_pieces_bytes:
  "concat (connection_pieces ka) =
   field_bytes (line_field (ascii ''Connection'') (ascii (if ka then ''keep-alive'' else ''close''))) @ crlf"
  by (simp add: connection_pieces_def line_field_bytes ascii_splits)

lemma status_pieces_bytes: "concat (status_line_pieces code (status_reason code)) = response_line code"
  by (simp add: status_line_pieces_def response_line_def)

lemma user_pieces_bytes:
  "concat (concat (map (\<lambda>(k, v). if is_content_length k then [] else [k, ascii '': '', v, crlf]) hs)) =
   concat (map field_bytes (map (\<lambda>(k, v). line_field k v) (filter (\<lambda>(k, v). \<not> is_content_length k) hs)))"
  by (induction hs) (auto simp: line_field_bytes)

lemma unat_len: "n < 2 ^ 32 \<Longrightarrow> unat (of_nat n :: u32) = n"
  by (simp add: unat_of_nat)

lemma bf_write_last: "bf_write p (bf_writes ps b) = bf_writes (ps @ [p]) b"
  by (simp add: bf_writes_def)

lemma send_body:
  "(if length p > 0 then send_write p (c\<lparr>c_send_buf := bf_writes ps b\<rparr>) else c\<lparr>c_send_buf := bf_writes ps b\<rparr>) =
   c\<lparr>c_send_buf := bf_writes (ps @ [p]) b\<rparr>"
proof -
  have "bf_write [] x = x" for x by (simp add: bf_write_def Let_def)
  then show ?thesis by (simp add: send_write_def bf_write_last [symmetric])
qed

definition static_body :: "u16 \<Rightarrow> bytes" where
  "static_body code = (if no_body_code code then [] else status_reason code)"

lemma length_status_reason: "length (status_reason code) \<le> 21"
  by (simp add: status_reason_def)

lemma length_dec_digits: "length (dec_digits k n) \<le> k + 1"
  by (induction k) auto

lemma length_line_field: "length (field_bytes (line_field k v)) = length k + length v + 4"
  by (simp add: line_field_bytes)

lemma length_response_message:
  "length (response_message code (response_fields n ct hs ka) body) =
   15 + length (status_reason code) + (18 + length (dec_digits 9 n)) + (if ct then 41 else 0) +
   sum_list (map (\<lambda>(k, v). if is_content_length k then 0 else length k + length v + 4) hs) +
   (if ka then 24 else 19) + 2 + length body"
proof -
  have "length (concat (map field_bytes (map (\<lambda>(k, v). line_field k v) (filter (\<lambda>(k, v). \<not> is_content_length k) hs)))) =
      sum_list (map (\<lambda>(k, v). if is_content_length k then 0 else length k + length v + 4) hs)"
    by (induction hs) (auto simp: length_line_field)
  then show ?thesis
    by (simp add: response_message_def response_fields_def response_line_def code_buf_ok(2) length_line_field)
qed

lemma write_headers_message:
  assumes "length body < 2 ^ 32" "ct = [] \<or> ct = ascii ''text/plain; charset=utf-8''"
  shows "concat (header_pieces code (status_reason code) (of_nat (length body)) ka ct @ [body]) =
    response_message code (response_fields (length body) (ct \<noteq> []) [] ka) body"
  using assms(2) unfolding header_pieces_def concat_append concat_digits unat_len [OF assms(1)]
    status_pieces_bytes connection_pieces_bytes
  by (auto simp: response_message_def response_fields_def line_field_bytes ascii_splits)

lemma static_buf:
  assumes "bf_valid (c_send_buf c)" "128 \<le> bf_cap (c_send_buf c)"
  shows "bf_bytes (c_send_buf (format_static_response c code ka)) =
    response_message code (response_fields (length (static_body code)) False [] ka) (static_body code)"
proof -
  let ?body = "static_body code"
  have l: "length ?body \<le> 21" using length_status_reason by (simp add: static_body_def)
  then have lt: "length ?body < 2 ^ 32" by simp
  note m = write_headers_message [OF lt disjI1 [OF refl], of code ka, simplified]
  have "length (response_message code (response_fields (length ?body) False [] ka) ?body) \<le> 128"
    using l length_status_reason [of code] length_dec_digits [of 9 "length ?body"]
    by (simp add: length_response_message)
  then show ?thesis
    using m assms bf_writes_fit [OF assms(1)]
    unfolding format_static_response_def write_response_headers_def Let_def static_body_def [symmetric]
    unfolding send_body by simp
qed

definition emitted_body :: "u16 \<Rightarrow> bytes \<Rightarrow> bytes" where
  "emitted_body code body = (if no_body_code code then [] else body)"

text \<open>The response that the formatter with a body sets out to write.\<close>

definition body_response :: "u16 \<Rightarrow> bytes \<Rightarrow> bool \<Rightarrow> bytes" where
  "body_response code body ka =
     response_message code (response_fields (length (emitted_body code body)) (\<not> no_body_code code) [] ka)
       (emitted_body code body)"

lemma body_buf:
  assumes "bf_valid (c_send_buf c)" "128 \<le> bf_cap (c_send_buf c)" "length body < 2 ^ 32"
  shows "bf_bytes (c_send_buf (format_response_with_body c code body ka)) = take (bf_cap (c_send_buf c)) (body_response code body ka)"
proof (cases "no_body_code code")
  case True
  have "length (body_response code body ka) \<le> 128"
    using True length_status_reason [of code] length_dec_digits [of 9 0]
    by (simp add: body_response_def emitted_body_def length_response_message)
  then show ?thesis
    using static_buf [OF assms(1,2), of code ka] True assms(2)
    by (simp add: format_response_with_body_def body_response_def emitted_body_def static_body_def)
next
  case False
  note m = write_headers_message [OF assms(3) disjI2 [OF refl], of code ka]
  have ne: "ascii ''text/plain; charset=utf-8'' \<noteq> []" by (simp add: ascii_def)
  show ?thesis
    using m False ne bf_writes_bytes [of "bf_reset (c_send_buf c)"] assms(1)
    unfolding format_response_with_body_def write_response_headers_def Let_def if_not_P [OF False]
    unfolding send_body by (simp add: body_response_def emitted_body_def)
qed

definition default_type :: "u16 \<Rightarrow> bytes \<Rightarrow> kvs \<Rightarrow> bool \<Rightarrow> bool" where
  "default_type code body hs fallback \<longleftrightarrow>
     \<not> list_ex (\<lambda>(k, v). http_header_name_eq_ci k (ascii ''Content-Type'')) hs \<and>
     emitted_body code body \<noteq> [] \<and> \<not> fallback"

text \<open>The response that the formatter with headers sets out to write.\<close>

definition full_response :: "u16 \<Rightarrow> bytes \<Rightarrow> kvs \<Rightarrow> bool \<Rightarrow> bool \<Rightarrow> bytes" where
  "full_response code body hs ka fallback =
     response_message code
       (response_fields (length (emitted_body code body)) (default_type code body hs fallback) hs ka)
       (emitted_body code body)"

lemma ucast_small: "n < 2 ^ 32 \<Longrightarrow> (ucast (of_nat n :: u32) :: u64) = of_nat n"
  by (simp add: word_unat_eq_iff unsigned_ucast_eq unat_of_nat take_bit_nat_eq_self)

lemma needed_length:
  assumes "length body < 2 ^ 32" "\<forall>(k, v) \<in> set hs. length k + length v + 4 < 2 ^ 32"
  shows "response_needed code (length body) ct hs ka =
    of_nat (length (response_message code (response_fields (length body) ct hs ka) body))"
proof -
  have u: "sum_list (map (\<lambda>(k, v). if is_content_length k then 0
        else ucast (of_nat (length k) + 2 + of_nat (length v) + 2 :: u32) :: u64) hs) =
      of_nat (sum_list (map (\<lambda>(k, v). if is_content_length k then 0 else length k + length v + 4) hs))"
    using assms(2)
  proof (induction hs)
    case (Cons h hs)
    obtain k v where h: "h = (k, v)" by (cases h)
    have w: "(of_nat (length k) + 2 + of_nat (length v) + 2 :: u32) = of_nat (length k + length v + 4)" by simp
    have "length k + length v + 4 < 2 ^ 32" using Cons.prems by (simp add: h)
    then have "ucast (of_nat (length k) + 2 + of_nat (length v) + 2 :: u32) = (of_nat (length k + length v + 4) :: u64)"
      unfolding w by (rule ucast_small)
    then show ?case using Cons by (simp add: h)
  qed simp
  have "decimal_digit_count (of_nat (length body)) = of_nat (length (dec_digits 9 (length body)))"
    using digit_count_length [of "of_nat (length body)" 9] assms(1) by (simp add: unat_len)
  moreover have "length (dec_digits 9 (length body)) < 2 ^ 32"
    using length_dec_digits [of 9 "length body"] by simp
  ultimately have d: "ucast (decimal_digit_count (of_nat (length body))) = (of_nat (length (dec_digits 9 (length body))) :: u64)"
    using ucast_small by simp
  show ?thesis
    unfolding response_needed_def u d length_response_message by (simp add: algebra_simps)
qed

lemma headers_buf:
  assumes "bf_valid (c_send_buf c)" "bf_cap (c_send_buf c) < 2 ^ 32" "length body < 2 ^ 32"
    "\<forall>(k, v) \<in> set hs. length k + length v + 4 < 2 ^ 32"
    "length (full_response code body hs ka fb) < 2 ^ 64"
  shows "format_response_with_body_and_headers c code body hs ka fb =
    (if bf_cap (c_send_buf c) < length (full_response code body hs ka fb)
     then format_static_response (c\<lparr>c_resp_status := 500, c_keep_alive := False\<rparr>) 500 False
     else c\<lparr>c_send_buf := (c_send_buf c)\<lparr>bf_bytes := full_response code body hs ka fb\<rparr>\<rparr>)"
proof -
  let ?b = "emitted_body code body" and ?ct = "default_type code body hs fb"
  let ?ps = "status_line_pieces code (status_reason code) @
      [ascii ''Content-Length: ''] @ content_length_digits (of_nat (length ?b)) @ [crlf] @
      (if ?ct then [ascii ''Content-Type: text/plain; charset=utf-8'' @ crlf] else []) @
      concat (map (\<lambda>(k, v). if is_content_length k then [] else [k, ascii '': '', v, crlf]) hs) @
      connection_pieces ka"
  have b: "length ?b < 2 ^ 32" using assms(3) by (simp add: emitted_body_def)
  have m: "concat (?ps @ [?b]) = full_response code body hs ka fb"
    unfolding concat_append concat_digits unat_len [OF b] status_pieces_bytes connection_pieces_bytes user_pieces_bytes
    by (auto simp: full_response_def response_message_def response_fields_def line_field_bytes ascii_splits)
  have ct: "(\<not> list_ex (\<lambda>(k, v). http_header_name_eq_ci k (ascii ''Content-Type'')) hs \<and> 0 < length ?b \<and> \<not> fb) = ?ct"
    by (simp add: default_type_def)
  have size: "response_needed code (length ?b) ?ct hs ka > of_nat (bf_cap (c_send_buf c)) \<longleftrightarrow>
      bf_cap (c_send_buf c) < length (full_response code body hs ka fb)"
    using needed_length [OF b assms(4)] assms(2,5)
    by (simp add: full_response_def word_less_nat_alt unat_of_nat)
  have w: "bf_writes (?ps @ [?b]) (bf_reset (c_send_buf c)) = (c_send_buf c)\<lparr>bf_bytes := full_response code body hs ka fb\<rparr>"
    if "\<not> bf_cap (c_send_buf c) < length (full_response code body hs ka fb)"
    using that bf_writes_fit [OF assms(1), of "?ps @ [?b]"] bf_writes_fields [of "?ps @ [?b]" "bf_reset (c_send_buf c)"]
    unfolding m by (intro io_buffer.equality) simp_all
  show ?thesis
    unfolding format_response_with_body_and_headers_def emitted_body_def [symmetric] Let_def ct size send_body
    using w by simp
qed

section \<open>Properties\<close>

text \<open>A buffer reads as one complete response with this code, body and connection option.\<close>

definition reads_as :: "bytes \<Rightarrow> u16 \<Rightarrow> bytes \<Rightarrow> bool \<Rightarrow> bool" where
  "reads_as buf code body keep_alive =
     (let R = parse_response scalar_scanner buf rs_reset; r = sr_resp R
      in sr_status R = PComplete \<and> rs_status_code r = code \<and> \<not> rs_chunked r \<and>
         rs_has_content_length r \<and> unat (rs_content_length r) = length body \<and>
         drop (sr_header_end R) buf = body \<and>
         rs_keep_alive r = keep_alive \<and> rs_connection_close r = (\<not> keep_alive))"

text \<open>What arrives at a reader: a response with the code of the three digits, or, when these are no status code, an error.\<close>

definition arrives :: "bytes \<Rightarrow> u16 \<Rightarrow> bytes \<Rightarrow> bool \<Rightarrow> bool" where
  "arrives buf code body keep_alive =
     (if wire_ok code then reads_as buf (wire_code code) body keep_alive
      else sr_status (parse_response scalar_scanner buf rs_reset) = PError)"

lemma message_arrives:
  assumes "headers_valid hs" "length body < 2 ^ 32"
  shows "arrives (response_message code (response_fields (length body) ct hs ka) body) code body ka"
proof (cases "wire_ok code")
  case True
  obtain hds where p: "parse_response scalar_scanner (response_message code (response_fields (length body) ct hs ka) body) rs_reset =
      resp_ret PComplete (length (response_message code (response_fields (length body) ct hs ka) body) - length body)
        ((framed_response (wire_code code) (length body) ka)\<lparr>rs_headers := hds\<rparr>)"
    using scalar.response_message_parses [OF True response_fields_ok [OF assms(1)] run_response_fields [OF assms(2,1)]]
    by blast
  have d: "drop (length (response_message code fs body) - length body) (response_message code fs body) = body" for fs
    by (simp add: response_message_def)
  show ?thesis
    unfolding arrives_def if_P [OF True] reads_as_def p Let_def using assms(2) d
    by (simp add: framed_response_def rs_reset_def unat_of_nat)
next
  case False
  then show ?thesis by (simp add: arrives_def scalar.response_message_refused)
qed

lemma no_headers_valid: "headers_valid []"
  by (simp add: headers_valid_def)

lemma static_arrives:
  assumes "bf_valid (c_send_buf c)" "128 \<le> bf_cap (c_send_buf c)"
  shows "arrives (bf_bytes (c_send_buf (format_static_response c code ka))) code (static_body code) ka"
proof -
  have "length (static_body code) < 2 ^ 32"
    using length_status_reason [of code] by (simp add: static_body_def)
  then show ?thesis unfolding static_buf [OF assms] by (rule message_arrives [OF no_headers_valid])
qed

lemma format_static_keeps:
  "c_resp_status (format_static_response c code ka) = c_resp_status c"
  "c_keep_alive (format_static_response c code ka) = c_keep_alive c"
  by (simp_all add: format_static_response_def write_response_headers_def send_write_def Let_def)

lemma full_response_bound:
  assumes "\<forall>(k, v) \<in> set hs. length k + length v < 2 ^ 16" "length hs \<le> 32" "length body < 2 ^ 32"
  shows "length (full_response code body hs ka fb) < 2 ^ 64"
proof -
  have "sum_list (map (\<lambda>(k, v). if is_content_length k then 0 else length k + length v + 4) hs) \<le> length hs * (2 ^ 16 + 4)"
    using assms(1) by (induction hs) auto
  then show ?thesis
    using assms(2,3) length_status_reason [of code] length_dec_digits [of 9 "length (emitted_body code body)"]
    by (simp add: full_response_def length_response_message emitted_body_def split: if_splits)
qed

text \<open>
  C37: What the runtime sends is what it means, for every 16-bit status and every body.  A
  response that one of the three formatters leaves whole in a 16 KB send buffer reads back, with
  the response parser of this program, as one complete response with the status code, a
  \<open>Content-Length\<close> that is the number of body bytes that follow, the body itself and the
  connection option; a status that carries no body has none.  This holds for every status whose
  three written digits are a status code from 100 to 599, and all from 100 to 599 are; any other, such as 700, is refused by the
  parser.  The formatter without headers does not check the size: a response longer than the
  buffer is cut at its end.  The formatter with headers (any that the table accepts) never
  cuts: a response that does not fit becomes a 500 that closes, and the connection is
  marked so.
\<close>

theorem formatted_responses_parse:
  fixes c :: "'fn conn" and code :: u16 and body :: bytes and hs :: kvs and ka fb :: bool
  assumes "bf_valid (c_send_buf c)" "bf_cap (c_send_buf c) = 16384" "length body < 2 ^ 32"
    "headers_valid hs" "\<forall>(k, v) \<in> set hs. length k + length v < 2 ^ 16" "length hs \<le> 32"
  defines "sent \<equiv> \<lambda>c' :: 'fn conn. bf_bytes (c_send_buf c')"
    and "c3 \<equiv> format_response_with_body_and_headers c code body hs ka fb"
  shows "arrives (sent (format_static_response c code ka)) code (static_body code) ka \<and>
    (if length (body_response code body ka) \<le> 16384
     then arrives (sent (format_response_with_body c code body ka)) code (emitted_body code body) ka
     else sent (format_response_with_body c code body ka) = take 16384 (body_response code body ka)) \<and>
    (if length (full_response code body hs ka fb) \<le> 16384
     then arrives (sent c3) code (emitted_body code body) ka \<and>
          c_resp_status c3 = c_resp_status c \<and> c_keep_alive c3 = c_keep_alive c
     else reads_as (sent c3) 500 (status_reason 500) False \<and> c_resp_status c3 = 500 \<and> \<not> c_keep_alive c3) \<and>
    (100 \<le> unat code \<and> unat code \<le> 599 \<longrightarrow> wire_ok code \<and> wire_code code = code)"
proof (intro conjI)
  have cap: "128 \<le> bf_cap (c_send_buf c)" using assms(2) by simp
  have eb: "length (emitted_body code body) < 2 ^ 32" using assms(3) by (simp add: emitted_body_def)
  show "arrives (sent (format_static_response c code ka)) code (static_body code) ka"
    unfolding sent_def by (rule static_arrives [OF assms(1) cap])
  have "arrives (body_response code body ka) code (emitted_body code body) ka"
    unfolding body_response_def by (rule message_arrives [OF no_headers_valid eb])
  then show "if length (body_response code body ka) \<le> 16384
     then arrives (sent (format_response_with_body c code body ka)) code (emitted_body code body) ka
     else sent (format_response_with_body c code body ka) = take 16384 (body_response code body ka)"
    unfolding sent_def body_buf [OF assms(1) cap assms(3)] assms(2) by simp
  have w: "wire_ok 500" "wire_code 500 = 500" by (simp_all add: wire_ok_def wire_code_def)
  let ?e = "c\<lparr>c_resp_status := 500, c_keep_alive := False\<rparr>"
  have e: "reads_as (bf_bytes (c_send_buf (format_static_response ?e 500 False))) 500 (status_reason 500) False"
    using static_arrives [of ?e 500 False] assms(1) cap w by (simp add: arrives_def static_body_def no_body_code_def)
  have h: "\<forall>(k, v) \<in> set hs. length k + length v + 4 < 2 ^ 32" using assms(5) by force
  have c3: "c3 = (if 16384 < length (full_response code body hs ka fb)
       then format_static_response ?e 500 False
       else c\<lparr>c_send_buf := (c_send_buf c)\<lparr>bf_bytes := full_response code body hs ka fb\<rparr>\<rparr>)"
    unfolding c3_def using headers_buf [OF assms(1) _ assms(3) h full_response_bound [OF assms(5,6,3)]] assms(2) by simp
  have "arrives (full_response code body hs ka fb) code (emitted_body code body) ka"
    unfolding full_response_def by (rule message_arrives [OF assms(4) eb])
  then show "if length (full_response code body hs ka fb) \<le> 16384
     then arrives (sent c3) code (emitted_body code body) ka \<and>
          c_resp_status c3 = c_resp_status c \<and> c_keep_alive c3 = c_keep_alive c
     else reads_as (sent c3) 500 (status_reason 500) False \<and> c_resp_status c3 = 500 \<and> \<not> c_keep_alive c3"
    unfolding sent_def c3 using e by (simp add: format_static_keeps)
  show "100 \<le> unat code \<and> unat code \<le> 599 \<longrightarrow> wire_ok code \<and> wire_code code = code"
    using wire_code_small by blast
qed

definition sample_conn :: "unit conn" where
  "sample_conn = (conn_blank 0)\<lparr>c_send_buf := bf_bind True 16384\<rparr>"

theorem formatted_responses_parse_witness:
  "reads_as (bf_bytes (c_send_buf (format_static_response sample_conn 404 True))) 404 (ascii ''Not Found'') True \<and>
   reads_as (bf_bytes (c_send_buf (format_response_with_body_and_headers sample_conn 200 (ascii ''hi'')
       [(ascii ''X-A'', ascii ''1'')] False False))) 200 (ascii ''hi'') False \<and>
   sr_status (parse_response scalar_scanner (bf_bytes (c_send_buf (format_static_response sample_conn 700 True))) rs_reset) = PError"
proof -
  have c: "bf_valid (c_send_buf sample_conn)" "bf_cap (c_send_buf sample_conn) = 16384"
    by (simp_all add: sample_conn_def bf_bind_def)
  have e: "length (emitted_body 200 (ascii ''hi'')) \<le> 2" by (simp add: emitted_body_def)
  have h: "headers_valid [(ascii ''X-A'', ascii ''1'')]" by code_simp
  have n: "length (full_response 200 (ascii ''hi'') [(ascii ''X-A'', ascii ''1'')] False False) \<le> 16384"
    using length_status_reason [of 200] length_dec_digits [of 9 "length (emitted_body 200 (ascii ''hi''))"] e
    by (simp add: full_response_def length_response_message)
  have w: "wire_ok 404" "wire_code 404 = 404" "wire_ok 200" "wire_code 200 = 200" "\<not> wire_ok 700"
    by (simp_all add: wire_ok_def wire_code_def)
  have b: "static_body 404 = ascii ''Not Found''" "emitted_body 200 (ascii ''hi'') = ascii ''hi''"
    by (simp_all add: static_body_def emitted_body_def no_body_code_def status_reason_def)
  have p: "\<forall>(k, v) \<in> set ([] :: kvs). length k + length v < 2 ^ 16" "length ([] :: kvs) \<le> 32" "length ([] :: bytes) < 2 ^ 32"
    "\<forall>(k, v) \<in> set [(ascii ''X-A'', ascii ''1'')]. length k + length v < 2 ^ 16"
    "length [(ascii ''X-A'', ascii ''1'')] \<le> 32" "length (ascii ''hi'') < 2 ^ 32" by simp_all
  note none = formatted_responses_parse [OF c p(3) no_headers_valid p(1,2)]
  note one = formatted_responses_parse [OF c p(6) h p(4,5), of 200 False False]
  show ?thesis
    using none [of 404 True False, THEN conjunct1] none [of 700 True False, THEN conjunct1]
      one [THEN conjunct2, THEN conjunct2, THEN conjunct1] n
    unfolding arrives_def b if_P [OF w(1)] if_P [OF w(3)] if_not_P [OF w(5)] w(2,4) by simp
qed

end
