(* ===== verification/Request_Meta.thy ===== *)
theory Request_Meta
  imports Connection Http_Framing
begin

text \<open>
  What a connection records of a request and where the request ends in the receive buffer
  (\<open>src/runtime/callbacks.cc\<close>): the method and path for the access log, the canonical path
  for routing, the framing of the body, and the operations that move the bytes of a pipelined
  next request to the front of the buffer, directly or through the send buffer.
\<close>

section \<open>The request in the receive buffer\<close>

definition log_u8 :: "log_http_method \<Rightarrow> u8" where
  "log_u8 m = (case m of LGet \<Rightarrow> 0 | LPost \<Rightarrow> 1 | LPut \<Rightarrow> 2 | LDelete \<Rightarrow> 3 | LPatch \<Rightarrow> 4 | LHead \<Rightarrow> 5
     | LOptions \<Rightarrow> 6 | LConnect \<Rightarrow> 7 | LTrace \<Rightarrow> 8 | LOther \<Rightarrow> 9)"

definition map_log_method :: "http_method \<Rightarrow> u8" where
  "map_log_method m = log_u8 (case m of
      GET \<Rightarrow> LGet | POST \<Rightarrow> LPost | PUT \<Rightarrow> LPut | DELETE \<Rightarrow> LDelete | PATCH \<Rightarrow> LPatch
    | HEAD \<Rightarrow> LHead | OPTIONS \<Rightarrow> LOptions | CONNECT \<Rightarrow> LConnect | TRACE \<Rightarrow> LTrace | UnknownMethod \<Rightarrow> LOther)"

definition starts :: "string \<Rightarrow> bytes \<Rightarrow> bool" where
  "starts s data \<longleftrightarrow> length data \<ge> length s \<and> take (length s) data = ascii s"

text \<open>The method and its length; the length is 0 when no known method is found.\<close>

definition parse_log_method_fallback :: "bytes \<Rightarrow> u8 \<times> nat" where
  "parse_log_method_fallback data =
     (if starts ''GET '' data then (log_u8 LGet, 3)
      else if starts ''POST '' data then (log_u8 LPost, 4)
      else if starts ''PUT '' data then (log_u8 LPut, 3)
      else if starts ''DELETE '' data then (log_u8 LDelete, 6)
      else if starts ''PATCH '' data then (log_u8 LPatch, 5)
      else if starts ''HEAD '' data then (log_u8 LHead, 4)
      else if starts ''OPTIONS '' data then (log_u8 LOptions, 7)
      else if starts ''CONNECT '' data then (log_u8 LConnect, 7)
      else if starts ''TRACE '' data then (log_u8 LTrace, 5)
      else (log_u8 LOther, 0))"

definition clear_request :: "'fn conn \<Rightarrow> 'fn conn" where
  "clear_request c =
     c\<lparr>c_req_method := log_u8 LOther, c_req_size := of_nat (bf_len (c_recv_buf c)),
       c_req_path := ascii ''/'', c_req_path_canon := Some [], c_upstream_us := 0, c_upstream_name := [],
       c_capture_header_len := 0, c_req_body_mode := BodyNone, c_req_body_remaining := 0,
       c_req_chunk_parser := ck_reset, c_req_malformed := False, c_req_header_end := 0,
       c_req_initial_send_len := 0, c_req_content_length := 0\<rparr>"

text \<open>The copy of the path, and the canonical view moved onto that copy and clamped to it.\<close>

definition copy_path :: "bytes \<Rightarrow> bytes" where
  "copy_path path = take (if length path \<ge> kMaxReqPathLen then kMaxReqPathLen - 1 else length path) path"

definition clamp_canon :: "nat \<Rightarrow> view \<Rightarrow> bytes \<Rightarrow> bytes" where
  "clamp_canon path_off v copy =
     (let canon_off = v_off v - path_off; canon_len = v_len v
      in if canon_off \<ge> length copy then []
         else if canon_off + canon_len > length copy then take (length copy - canon_off) (drop canon_off copy)
         else take canon_len (drop canon_off copy))"

definition set_path :: "bytes \<Rightarrow> parsed_request \<Rightarrow> 'fn conn \<Rightarrow> 'fn conn" where
  "set_path data req c =
     (let copy = copy_path (case rq_path req of None \<Rightarrow> [] | Some v \<Rightarrow> view_bytes data v);
          off = (case rq_path req of None \<Rightarrow> 0 | Some v \<Rightarrow> v_off v)
      in c\<lparr>c_req_path := copy,
           c_req_path_canon := (case rq_path_canon req of None \<Rightarrow> None | Some v \<Rightarrow> Some (clamp_canon off v copy))\<rparr>)"

definition body_framing :: "bytes \<Rightarrow> nat \<Rightarrow> parsed_request \<Rightarrow> 'fn conn \<Rightarrow> 'fn conn" where
  "body_framing data header_end req c =
     (let body = drop header_end data
      in if rq_chunked req then
           (let d = chunk_drive ck_reset body
            in if body \<noteq> [] then
                 c\<lparr>c_req_body_mode := BodyChunked, c_req_body_remaining := 0, c_req_chunk_parser := dr_parser d,
                   c_req_malformed := (dr_status d = Malformed),
                   c_req_initial_send_len := (if dr_status d = Malformed then 0 else header_end + dr_pos d)\<rparr>
               else
                 c\<lparr>c_req_body_mode := BodyChunked, c_req_body_remaining := 0, c_req_chunk_parser := ck_reset,
                   c_req_initial_send_len := header_end\<rparr>)
         else if rq_has_content_length req \<and> rq_content_length req > 0 then
           c\<lparr>c_req_body_mode := BodyContentLength, c_req_content_length := rq_content_length req,
             c_req_body_remaining :=
               (if length body \<ge> unat (rq_content_length req) then 0
                else rq_content_length req - of_nat (length body))\<rparr>
         else c)"

definition initial_send_len :: "nat \<Rightarrow> 'fn conn \<Rightarrow> nat" where
  "initial_send_len header_end c =
     (if c_req_body_mode c = BodyNone then header_end
      else if c_req_body_mode c = BodyContentLength
      then header_end + unat (c_req_content_length c - c_req_body_remaining c)
      else c_req_initial_send_len c)"

definition set_body :: "bytes \<Rightarrow> nat \<Rightarrow> parsed_request \<Rightarrow> 'fn conn \<Rightarrow> 'fn conn" where
  "set_body data header_end req c =
     (let c1 = body_framing data header_end req c;
          n = initial_send_len header_end c1;
          c2 = c1\<lparr>c_req_initial_send_len := n\<rparr>
      in if n > 0 then c2\<lparr>c_req_size := of_nat n\<rparr> else c2)"

text \<open>The path after a known method when the parser has not accepted the request.\<close>

definition fallback_path :: "bytes \<Rightarrow> 'fn conn \<Rightarrow> 'fn conn" where
  "fallback_path data c =
     (let (m, method_len) = parse_log_method_fallback data;
          c1 = c\<lparr>c_req_method := m\<rparr>
      in if method_len = 0 \<or> method_len + 1 \<ge> length data \<or> data ! method_len \<noteq> SP then c1
         else
           (let path = takeWhile (\<lambda>b. b \<noteq> SP \<and> b \<noteq> CR \<and> b \<noteq> LF) (drop (method_len + 1) data)
            in if path = [] \<or> data ! (method_len + 1) \<noteq> 0x2F then c1\<lparr>c_req_path_canon := None\<rparr>
               else
                 (let copy = copy_path path; (lo, n) = canonicalize_request copy
                  in c1\<lparr>c_req_path := copy, c_req_path_canon := Some (take n (drop lo copy))\<rparr>)))"

definition capture_request_metadata :: "scanner \<Rightarrow> 'fn conn \<Rightarrow> 'fn conn" where
  "capture_request_metadata S c =
     (let c0 = clear_request c; data = bf_bytes (c_recv_buf c)
      in if \<not> bf_valid (c_recv_buf c) \<or> data = [] then c0
         else
           (let R = parse_request S data rq_reset
            in if rr_status R = PComplete then
                 set_body data (rr_header_end R) (rr_req R)
                   (set_path data (rr_req R)
                     (c0\<lparr>c_req_header_end := rr_header_end R, c_req_method := map_log_method (rq_method (rr_req R))\<rparr>))
               else fallback_path data c0))"

section \<open>Pipelining\<close>

definition pipeline_leftover :: "'fn conn \<Rightarrow> nat" where
  "pipeline_leftover c =
     (let req_end = c_req_initial_send_len c; buf_len = bf_len (c_recv_buf c)
      in if req_end = 0 \<or> req_end \<ge> buf_len then 0 else buf_len - req_end)"

text \<open>The trap of \<open>commit\<close> is \<open>None\<close>.\<close>

definition pipeline_shift :: "'fn conn \<Rightarrow> (bool \<times> 'fn conn) option" where
  "pipeline_shift c =
     (let leftover = pipeline_leftover c
      in if leftover = 0 then Some (False, c)
         else
           (let src = take leftover (drop (c_req_initial_send_len c) (bf_bytes (c_recv_buf c)))
            in case bf_commit src (bf_reset (c_recv_buf c)) of
                 None \<Rightarrow> None
               | Some b \<Rightarrow> Some (True, c\<lparr>c_recv_buf := b, c_pipeline_depth := c_pipeline_depth c + 1\<rparr>)))"

definition pipeline_stash :: "'fn conn \<Rightarrow> 'fn conn" where
  "pipeline_stash c =
     (let leftover = pipeline_leftover c
      in if leftover = 0 then c\<lparr>c_pipeline_stash_len := 0\<rparr>
         else
           (let sb = bf_reset (c_send_buf c)
            in if leftover > bf_write_avail sb then c\<lparr>c_send_buf := sb, c_pipeline_stash_len := 0\<rparr>
               else c\<lparr>c_send_buf := bf_write (take leftover (drop (c_req_initial_send_len c) (bf_bytes (c_recv_buf c)))) sb,
                      c_pipeline_stash_len := of_nat leftover\<rparr>))"

definition pipeline_recover :: "'fn conn \<Rightarrow> (bool \<times> 'fn conn) option" where
  "pipeline_recover c =
     (let stash = c_pipeline_stash_len c; c1 = c\<lparr>c_pipeline_stash_len := 0\<rparr>
      in if stash = 0 then Some (False, c1)
         else
           (case bf_commit (take (unat stash) (bf_bytes (c_send_buf c))) (bf_reset (c_recv_buf c)) of
              None \<Rightarrow> None
            | Some b \<Rightarrow> Some (True, c1\<lparr>c_recv_buf := b, c_send_buf := bf_reset (c_send_buf c),
                                     c_pipeline_depth := c_pipeline_depth c + 1\<rparr>)))"

definition kMaxHeaderLen :: nat where "kMaxHeaderLen = 8192"

text \<open>The header of the request, staged for the capture ring.\<close>

definition capture_stage_headers :: "'fn conn \<Rightarrow> 'fn conn" where
  "capture_stage_headers c =
     (let c1 = c\<lparr>c_capture_header_len := 0\<rparr>; data = bf_bytes (c_recv_buf c)
      in case c_capture_buf c of
           None \<Rightarrow> c1
         | Some old \<Rightarrow>
             if \<not> bf_valid (c_recv_buf c) then c1
             else
               (let len = (if c_req_header_end c = 0 then length data else c_req_header_end c)
                in if len = 0 then c1
                   else
                     (let copy_len = (if len > kMaxHeaderLen then kMaxHeaderLen else len)
                      in c1\<lparr>c_capture_buf := Some (take copy_len data @ drop copy_len old),
                             c_capture_header_len := copy_len\<rparr>)))"

definition more_req_body :: "'fn conn \<Rightarrow> bool" where
  "more_req_body c \<longleftrightarrow>
     c_req_body_mode c = BodyContentLength \<and> c_req_body_remaining c > 0 \<or>
     c_req_body_mode c = BodyChunked \<and> ck_state (c_req_chunk_parser c) \<noteq> Complete"

text \<open>\<open>now\<close> is what \<open>monotonic_us\<close> returns.\<close>

definition prepare_early_response_state :: "u64 \<Rightarrow> 'fn conn \<Rightarrow> 'fn conn" where
  "prepare_early_response_state now c =
     (let c1 = (if more_req_body c
                then c\<lparr>c_recv_buf := bf_reset (c_recv_buf c), c_keep_alive := False\<rparr>
                else (let c' = pipeline_stash c in c'\<lparr>c_recv_buf := bf_reset (c_recv_buf c')\<rparr>))
      in if c_upstream_start_us c1 = 0 then c1\<lparr>c_upstream_start_us := now\<rparr> else c1)"

definition consume_upstream_sent :: "'fn conn \<Rightarrow> (nat \<times> 'fn conn) option" where
  "consume_upstream_sent c =
     (let sent = c_upstream_send_len c; total = bf_len (c_upstream_recv_buf c);
          c1 = c\<lparr>c_upstream_send_len := 0\<rparr>
      in if sent \<ge> total then Some (0, c1\<lparr>c_upstream_recv_buf := bf_reset (c_upstream_recv_buf c)\<rparr>)
         else
           (case bf_commit (drop sent (bf_bytes (c_upstream_recv_buf c))) (bf_reset (c_upstream_recv_buf c)) of
              None \<Rightarrow> None
            | Some b \<Rightarrow> Some (total - sent, c1\<lparr>c_upstream_recv_buf := b\<rparr>)))"

section \<open>Where a request ends\<close>

text \<open>
  The request at the front of \<open>data\<close>, whose head the parser accepted as \<open>R\<close>, is whole and
  ends at \<open>n\<close>: its head, and the body that its head announces.
\<close>

definition request_ends :: "request_result \<Rightarrow> bytes \<Rightarrow> nat \<Rightarrow> bool" where
  "request_ends R data n \<longleftrightarrow>
     (let e = rr_header_end R; req = rr_req R
      in e \<le> n \<and> n \<le> length data \<and>
         (if rq_chunked req then (\<exists>d. chunked_body (take (n - e) (drop e data)) d)
          else n = e + (if rq_has_content_length req then unat (rq_content_length req) else 0)))"

lemma ck_run_Finished_state:
  "dr_status (ck_run p xs) = Finished \<Longrightarrow> ck_state (dr_parser (ck_run p xs)) = Complete"
proof (induction xs arbitrary: p)
  case (Cons c xs)
  have "ck_state p' = Complete" if "byte_step p c = Return s n p'" "drive_status_of s = Finished" for s n p'
    using that by (auto simp: byte_step_def feed_switch_def drive_status_of_def
        split: if_splits chunk_state.splits chunk_status.splits)
  then show ?case using Cons by (auto split: switch_result.splits)
qed simp

lemma chunk_ends:
  "(\<exists>d. n \<le> length xs \<and> chunked_body (take n xs) d) \<longleftrightarrow>
   dr_status (chunk_drive ck_reset xs) = Finished \<and> dr_pos (chunk_drive ck_reset xs) = n"
  using ck_run_Finished_iff [of ck_reset xs n] by (auto simp: chunk_drive_run residual_ck_reset)

lemma chunk_open:
  "dr_status (chunk_drive ck_reset xs) = Incomplete \<Longrightarrow>
   dr_pos (chunk_drive ck_reset xs) = length xs \<and> ck_state (dr_parser (chunk_drive ck_reset xs)) \<noteq> Complete"
  using ck_run_Incomplete [of ck_reset xs] by (simp add: chunk_drive_run)

lemma chunk_closed:
  "dr_status (chunk_drive ck_reset xs) = Finished \<Longrightarrow> ck_state (dr_parser (chunk_drive ck_reset xs)) = Complete"
  using ck_run_Finished_state [of ck_reset xs] by (simp add: chunk_drive_run)

lemma chunk_drive_Nil: "chunk_drive ck_reset [] = drive_ret Incomplete 0 [] ck_reset"
  by (simp add: chunk_drive_run)

text \<open>The empty body needs no case of its own: the drive over it leaves a reset decoder.\<close>

lemma set_body_fields [simp]:
  "c_req_body_mode (set_body data e req c) = c_req_body_mode (body_framing data e req c)"
  "c_req_chunk_parser (set_body data e req c) = c_req_chunk_parser (body_framing data e req c)"
  "c_req_malformed (set_body data e req c) = c_req_malformed (body_framing data e req c)"
  "c_req_body_remaining (set_body data e req c) = c_req_body_remaining (body_framing data e req c)"
  "c_req_initial_send_len (set_body data e req c) = initial_send_len e (body_framing data e req c)"
  by (simp_all add: set_body_def Let_def)

lemma set_body_chunked:
  fixes c :: "'fn conn" and data :: bytes and e :: nat
  assumes "rq_chunked req" "c_req_body_mode c = BodyNone" "\<not> c_req_malformed c"
  defines "d \<equiv> chunk_drive ck_reset (drop e data)"
  shows "c_req_body_mode (set_body data e req c) = BodyChunked \<and>
    c_req_chunk_parser (set_body data e req c) = dr_parser d \<and>
    c_req_malformed (set_body data e req c) = (dr_status d = Malformed) \<and>
    c_req_initial_send_len (set_body data e req c) = (if dr_status d = Malformed then 0 else e + dr_pos d)"
  using assms(1-3)
  by (cases "drop e data = []") (auto simp: body_framing_def initial_send_len_def d_def Let_def chunk_drive_Nil)

lemma partial_length:
  fixes cl :: u32
  assumes "b < unat cl"
  shows "unat (cl - of_nat b) = unat cl - b" "unat (cl - (cl - of_nat b)) = b" "cl - of_nat b > 0"
proof -
  have "b < 2 ^ 32" using assms unat_u32_lt [of cl] by simp
  then have u: "unat (of_nat b :: u32) = b" by (simp add: unat_of_nat)
  then have "(of_nat b :: u32) \<le> cl" using assms by (simp add: word_le_nat_alt)
  then show s: "unat (cl - of_nat b) = unat cl - b" using u by (simp add: unat_sub)
  show "unat (cl - (cl - of_nat b)) = b" using u by simp
  show "cl - of_nat b > 0" unfolding word_less_nat_alt s using assms by simp
qed

lemma set_body_length:
  fixes c :: "'fn conn" and data :: bytes and e :: nat
  assumes "\<not> rq_chunked req" "c_req_body_mode c = BodyNone" "\<not> c_req_malformed c" "e \<le> length data"
  defines "n \<equiv> (if rq_has_content_length req then unat (rq_content_length req) else 0)"
  shows "\<not> c_req_malformed (set_body data e req c) \<and>
    more_req_body (set_body data e req c) = (length data < e + n) \<and>
    c_req_initial_send_len (set_body data e req c) = min (e + n) (length data) \<and>
    (n > 0 \<longrightarrow> unat (c_req_body_remaining (set_body data e req c)) = n - (length data - e))"
proof (cases "rq_has_content_length req \<and> rq_content_length req > 0")
  case True
  have n: "n = unat (rq_content_length req)" "0 < n" using True by (simp_all add: n_def word_less_nat_alt)
  show ?thesis
  proof (cases "length data - e \<ge> n")
    case enough: True
    then show ?thesis
      using True assms(1-4) n by (simp add: body_framing_def initial_send_len_def more_req_body_def Let_def min_def)
  next
    case False
    then have "length data - e < unat (rq_content_length req)" using n by simp
    note p = partial_length [OF this]
    have "c_req_malformed (body_framing data e req c) = False"
      "c_req_body_mode (body_framing data e req c) = BodyContentLength"
      "c_req_content_length (body_framing data e req c) = rq_content_length req"
      "c_req_body_remaining (body_framing data e req c) = rq_content_length req - of_nat (length data - e)"
      using True False assms(1-3) n(1) by (simp_all add: body_framing_def)
    then show ?thesis
      using False assms(4) n p unfolding more_req_body_def set_body_fields initial_send_len_def
      by (simp del: word_greater_zero_iff)
  qed
next
  case False
  then have "n = 0" by (auto simp: n_def word_less_nat_alt)
  then show ?thesis
    using False assms(1-4) by (auto simp: body_framing_def initial_send_len_def more_req_body_def min_def)
qed

lemma request_ends_chunked:
  assumes "rq_chunked (rr_req R)" "rr_header_end R \<le> length data"
  shows "request_ends R data n \<longleftrightarrow>
    dr_status (chunk_drive ck_reset (drop (rr_header_end R) data)) = Finished \<and>
    rr_header_end R + dr_pos (chunk_drive ck_reset (drop (rr_header_end R) data)) = n"
proof -
  let ?e = "rr_header_end R"
  have "request_ends R data n \<longleftrightarrow>
      ?e \<le> n \<and> (\<exists>d. n - ?e \<le> length (drop ?e data) \<and> chunked_body (take (n - ?e) (drop ?e data)) d)"
    using assms by (auto simp: request_ends_def Let_def)
  then show ?thesis unfolding chunk_ends by auto
qed

lemma chunk_malformed_append:
  "dr_status (chunk_drive ck_reset xs) = Malformed \<Longrightarrow> dr_status (chunk_drive ck_reset (xs @ ys)) = Malformed"
  by (simp add: chunk_drive_run ck_run_append)

text \<open>The framing after the capture, in terms of where the request ends.\<close>

definition framed_end :: "request_result \<Rightarrow> bytes \<Rightarrow> 'fn conn \<Rightarrow> bool" where
  "framed_end R data c \<longleftrightarrow>
     (\<forall>n. request_ends R data n \<longleftrightarrow> \<not> c_req_malformed c \<and> \<not> more_req_body c \<and> c_req_initial_send_len c = n) \<and>
     (c_req_malformed c \<longrightarrow> c_req_initial_send_len c = 0 \<and> (\<forall>ys n. \<not> request_ends R (data @ ys) n)) \<and>
     (\<not> c_req_malformed c \<and> more_req_body c \<longrightarrow> c_req_initial_send_len c = length data)"

lemma set_body_framed:
  fixes c :: "'fn conn"
  assumes "c_req_body_mode c = BodyNone" "\<not> c_req_malformed c" "rr_header_end R \<le> length data"
  shows "framed_end R data (set_body data (rr_header_end R) (rr_req R) c)"
proof (cases "rq_chunked (rr_req R)")
  case True
  let ?d = "chunk_drive ck_reset (drop (rr_header_end R) data)"
  note s = set_body_chunked [OF True assms(1,2), of data "rr_header_end R"]
  note e = request_ends_chunked [OF True]
  have no: "\<not> request_ends R (data @ ys) n" if "dr_status ?d = Malformed" for ys n
    using chunk_malformed_append [OF that, of ys] e [of "data @ ys" n] assms(3) by simp
  show ?thesis
    using s e [OF assms(3)] assms(3) no chunk_closed [of "drop (rr_header_end R) data"]
      chunk_open [of "drop (rr_header_end R) data"]
    unfolding framed_end_def more_req_body_def by (cases "dr_status ?d") auto
next
  case False
  show ?thesis
    using set_body_length [OF False assms] assms(3) False
    unfolding framed_end_def by (auto simp: request_ends_def Let_def)
qed

lemma set_path_fields [simp]:
  "c_req_body_mode (set_path data req c) = c_req_body_mode c"
  "c_req_malformed (set_path data req c) = c_req_malformed c"
  by (simp_all add: set_path_def Let_def)

lemma parse_complete_bounds:
  assumes "rr_status (parse_request (backend_scanner b) data req0) = PComplete"
  shows "0 < rr_header_end (parse_request (backend_scanner b) data req0)"
    "rr_header_end (parse_request (backend_scanner b) data req0) \<le> length data"
    "parse_request (backend_scanner b) (data @ ys) req0 = parse_request (backend_scanner b) data req0"
proof -
  note eq = request_result_eta [OF assms]
  from backend.parse_request_sound [OF eq] obtain m u v fs rest where
    s: "data = request_bytes m u v fs @ rest" "request_ok m u v fs"
      "request_value m u v fs = Some (rr_req (parse_request (backend_scanner b) data req0))"
      "rr_header_end (parse_request (backend_scanner b) data req0) = length (request_bytes m u v fs)" by blast
  show "parse_request (backend_scanner b) (data @ ys) req0 = parse_request (backend_scanner b) data req0"
    using backend.parse_request_complete [OF s(2,3), of b "rest @ ys" req0] eq s(4) unfolding s(1) by simp
  show "rr_header_end (parse_request (backend_scanner b) data req0) \<le> length data" using s(1,4) by simp
  show "0 < rr_header_end (parse_request (backend_scanner b) data req0)"
    unfolding s(4) by (simp add: request_bytes_def)
qed

lemma capture_framed:
  fixes c :: "'fn conn"
  assumes "bf_valid (c_recv_buf c)" "R = parse_request (backend_scanner b) (bf_bytes (c_recv_buf c)) rq_reset"
    "rr_status R = PComplete"
  shows "framed_end R (bf_bytes (c_recv_buf c)) (capture_request_metadata (backend_scanner b) c)"
proof -
  note p = parse_complete_bounds [OF assms(3) [unfolded assms(2)]]
  have "bf_bytes (c_recv_buf c) \<noteq> []" using p(1,2) by auto
  then show ?thesis
    using assms(1,3) p(2) unfolding capture_request_metadata_def assms(2)
    by (simp add: Let_def set_body_framed clear_request_def)
qed

text \<open>
  C38: Where a request ends.  After the capture of a request whose head the parser accepts,
  the recorded state tells exactly where the request ends: the request is whole and ends at
  \<open>n\<close> if and only if the body is not malformed, no body byte is awaited and the recorded length
  is \<open>n\<close>.  A malformed body is reported only when no further bytes could make the request
  whole, and then nothing is forwarded; while body bytes are awaited, the whole buffer
  belongs to the request.
\<close>

theorem capture_request_end:
  fixes c :: "'fn conn"
  assumes "bf_valid (c_recv_buf c)" "bf_bytes (c_recv_buf c) = data"
    "parse_request (backend_scanner b) data rq_reset = R" "rr_status R = PComplete"
    "capture_request_metadata (backend_scanner b) c = c'"
  shows "(request_ends R data n \<longleftrightarrow> \<not> c_req_malformed c' \<and> \<not> more_req_body c' \<and> c_req_initial_send_len c' = n) \<and>
    (c_req_malformed c' \<longrightarrow> c_req_initial_send_len c' = 0 \<and> (\<forall>ys m. \<not> request_ends R (data @ ys) m)) \<and>
    (\<not> c_req_malformed c' \<and> more_req_body c' \<longrightarrow> c_req_initial_send_len c' = length data)"
proof -
  have "framed_end R data c'"
    using capture_framed [OF assms(1) _ assms(4), of b] unfolding assms(2,3,5) by simp
  then show ?thesis by (auto simp: framed_end_def)
qed

definition chunked_sample :: bytes where
  "chunked_sample = ascii ''POST / HTTP/1.1'' @ crlf @ ascii ''Transfer-Encoding: chunked'' @ crlf @ crlf @
     ascii ''1'' @ crlf @ ascii ''a'' @ crlf @ ascii ''0'' @ crlf @ crlf"

definition recv_sample :: "nat \<Rightarrow> bytes \<Rightarrow> unit conn" where
  "recv_sample cap data = (conn_blank 0)\<lparr>c_recv_buf := \<lparr>bf_valid = True, bf_bytes = data, bf_cap = cap\<rparr>,
     c_send_buf := bf_bind True cap\<rparr>"

theorem capture_request_end_witness:
  "request_ends (parse_request scalar_scanner (chunked_sample @ ascii ''GET'') rq_reset)
     (chunked_sample @ ascii ''GET'') (length chunked_sample)"
proof -
  let ?data = "chunked_sample @ ascii ''GET''"
  let ?c = "capture_request_metadata scalar_scanner (recv_sample 99 ?data)"
  have "rr_status (parse_request scalar_scanner ?data rq_reset) = PComplete" by code_simp
  moreover have "\<not> c_req_malformed ?c" "\<not> more_req_body ?c" "c_req_initial_send_len ?c = length chunked_sample"
    by code_simp+
  ultimately show ?thesis
    using capture_request_end [of "recv_sample 99 ?data" ?data Scalar _ ?c "length chunked_sample"]
    by (simp add: recv_sample_def backend_scanner_def)
qed

section \<open>The requests of a pipeline\<close>

text \<open>
  A pipeline served from the buffer: capture the request at the front, take its bytes and the
  pipeline depth at which it is served, and let \<open>move\<close> bring the rest to the front, at most \<open>k\<close> times; a trap of a move or too small a \<open>k\<close>
  is \<open>None\<close>.  The runtime has two ways to move: \<open>pipeline_shift\<close>
  after an answer of its own, and through the send buffer when an upstream answers.
\<close>

fun pipelined ::
  "('fn conn \<Rightarrow> (bool \<times> 'fn conn) option) \<Rightarrow> nat \<Rightarrow> scanner \<Rightarrow> 'fn conn \<Rightarrow> (bytes \<times> u16) list option" where
  "pipelined move 0 S c = None"
| "pipelined move (Suc k) S c =
     (let c1 = capture_request_metadata S c;
          r = (take (c_req_initial_send_len c1) (bf_bytes (c_recv_buf c1)), c_pipeline_depth c1)
      in case move c1 of
           None \<Rightarrow> None
         | Some (again, c2) \<Rightarrow> if again then map_option ((#) r) (pipelined move k S c2) else Some [r])"

definition stash_and_recover :: "u64 \<Rightarrow> 'fn conn \<Rightarrow> (bool \<times> 'fn conn) option" where
  "stash_and_recover now c = pipeline_recover (prepare_early_response_state now c)"

definition pipe_bufs :: "'fn conn \<Rightarrow> bool" where
  "pipe_bufs c \<longleftrightarrow> bf_valid (c_recv_buf c) \<and> bf_cap (c_recv_buf c) = 16384 \<and> bf_len (c_recv_buf c) \<le> 16384 \<and>
     bf_valid (c_send_buf c) \<and> bf_cap (c_send_buf c) = 16384"

text \<open>A request with nothing after it.\<close>

definition whole_request :: "simd_backend \<Rightarrow> bytes \<Rightarrow> bool" where
  "whole_request b r \<longleftrightarrow>
     (let R = parse_request (backend_scanner b) r rq_reset
      in rr_status R = PComplete \<and> request_ends R r (length r))"

lemma capture_step_bufs [simp]:
  "c_recv_buf (body_framing data e req c) = c_recv_buf c" "c_send_buf (body_framing data e req c) = c_send_buf c"
  "c_recv_buf (set_path data req c) = c_recv_buf c" "c_send_buf (set_path data req c) = c_send_buf c"
  "c_recv_buf (clear_request c) = c_recv_buf c" "c_send_buf (clear_request c) = c_send_buf c"
  "c_pipeline_depth (body_framing data e req c) = c_pipeline_depth c"
  "c_pipeline_depth (set_path data req c) = c_pipeline_depth c"
  "c_pipeline_depth (clear_request c) = c_pipeline_depth c"
  by (simp_all add: body_framing_def set_path_def clear_request_def Let_def)

lemma set_body_bufs [simp]:
  "c_recv_buf (set_body data e req c) = c_recv_buf c" "c_send_buf (set_body data e req c) = c_send_buf c"
  "c_pipeline_depth (set_body data e req c) = c_pipeline_depth c"
  by (simp_all add: set_body_def Let_def)

lemma fallback_path_bufs [simp]:
  "c_recv_buf (fallback_path data c) = c_recv_buf c" "c_send_buf (fallback_path data c) = c_send_buf c"
  "c_pipeline_depth (fallback_path data c) = c_pipeline_depth c"
  by (simp_all add: fallback_path_def Let_def split_beta)

lemma capture_bufs [simp]:
  "c_recv_buf (capture_request_metadata S c) = c_recv_buf c"
  "c_send_buf (capture_request_metadata S c) = c_send_buf c"
  "c_pipeline_depth (capture_request_metadata S c) = c_pipeline_depth c"
  by (simp_all add: capture_request_metadata_def Let_def)

lemma pipe_bufs_capture [simp]: "pipe_bufs (capture_request_metadata S c) = pipe_bufs c"
  by (simp add: pipe_bufs_def)

lemma whole_request_captured:
  fixes c :: "'fn conn"
  assumes "whole_request b r" "bf_valid (c_recv_buf c)" "bf_bytes (c_recv_buf c) = r @ rest"
  shows "c_req_initial_send_len (capture_request_metadata (backend_scanner b) c) = length r"
    "\<not> more_req_body (capture_request_metadata (backend_scanner b) c)" "r \<noteq> []"
proof -
  define R where "R = parse_request (backend_scanner b) r rq_reset"
  have R: "rr_status R = PComplete" "request_ends R r (length r)"
    using assms(1) by (simp_all add: whole_request_def R_def Let_def)
  note p = parse_complete_bounds [OF R(1) [unfolded R_def], folded R_def]
  then show "r \<noteq> []" by auto
  have "request_ends R (r @ rest) (length r)" using R(2)
    by (simp add: request_ends_def Let_def split: if_splits)
  moreover have "framed_end R (r @ rest) (capture_request_metadata (backend_scanner b) c)"
    using capture_framed [OF assms(2) _ R(1), of b] p(3) unfolding assms(3) by simp
  ultimately show "c_req_initial_send_len (capture_request_metadata (backend_scanner b) c) = length r"
    "\<not> more_req_body (capture_request_metadata (backend_scanner b) c)"
    by (auto simp: framed_end_def)
qed

text \<open>The requests of a pipeline with their depths, which count up from the first and wrap at 16 bits.\<close>

fun at_depths :: "u16 \<Rightarrow> bytes list \<Rightarrow> (bytes \<times> u16) list" where
  "at_depths d [] = []"
| "at_depths d (r # rs) = (r, d) # at_depths (d + 1) rs"

text \<open>What serving a pipeline asks of a move.\<close>

locale pipeline_mover =
  fixes move :: "'fn conn \<Rightarrow> (bool \<times> 'fn conn) option"
  assumes moves: "pipe_bufs c \<Longrightarrow> \<not> more_req_body c \<Longrightarrow> 0 < c_req_initial_send_len c \<Longrightarrow>
      c_req_initial_send_len c < bf_len (c_recv_buf c) \<Longrightarrow>
      \<exists>c2. move c = Some (True, c2) \<and> pipe_bufs c2 \<and>
        bf_bytes (c_recv_buf c2) = drop (c_req_initial_send_len c) (bf_bytes (c_recv_buf c)) \<and>
        c_pipeline_depth c2 = c_pipeline_depth c + 1"
    and stops: "pipe_bufs c \<Longrightarrow> \<not> more_req_body c \<Longrightarrow>
      c_req_initial_send_len c = bf_len (c_recv_buf c) \<Longrightarrow> \<exists>c2. move c = Some (False, c2)"
begin

lemma serves:
  assumes "pipe_bufs c" "bf_bytes (c_recv_buf c) = concat reqs" "reqs \<noteq> []"
    "\<forall>r \<in> set reqs. whole_request b r" "length reqs \<le> k"
  shows "pipelined move k (backend_scanner b) c = Some (at_depths (c_pipeline_depth c) reqs)"
  using assms
proof (induction reqs arbitrary: c k)
  case (Cons r reqs)
  let ?c1 = "capture_request_metadata (backend_scanner b) c"
  obtain j where k: "k = Suc j" using Cons.prems(5) by (cases k) auto
  have r: "whole_request b r" "bf_valid (c_recv_buf c)" "bf_bytes (c_recv_buf c) = r @ concat reqs"
    using Cons.prems(1,2,4) by (simp_all add: pipe_bufs_def)
  note e = whole_request_captured [OF this]
  have t: "take (c_req_initial_send_len ?c1) (bf_bytes (c_recv_buf ?c1)) = r" by (simp add: e(1) r(3))
  show ?case
  proof (cases "concat reqs = []")
    case True
    have "reqs = []"
    proof (rule ccontr)
      assume "reqs \<noteq> []"
      then obtain x xs where x: "reqs = x # xs" by (cases reqs) auto
      then have "whole_request b x" using Cons.prems(4) by simp
      moreover have "x = []" using True x by simp
      ultimately show False
        using parse_complete_bounds(1,2) [of b x rq_reset] by (simp add: whole_request_def Let_def)
    qed
    moreover obtain c2 where "move ?c1 = Some (False, c2)"
      using stops [of ?c1] Cons.prems(1) e(1,2) r(3) True by (auto simp: bf_len_def)
    ultimately show ?thesis using t by (simp add: k Let_def)
  next
    case False
    obtain c2 where "move ?c1 = Some (True, c2)" "pipe_bufs c2" "bf_bytes (c_recv_buf c2) = concat reqs"
      "c_pipeline_depth c2 = c_pipeline_depth c + 1"
      using moves [of ?c1] Cons.prems(1) e r(3) False by (auto simp: bf_len_def)
    moreover have "reqs \<noteq> []" using False by auto
    ultimately show ?thesis
      using Cons.IH [of c2 j] Cons.prems(4,5) t by (simp add: k Let_def)
  qed
qed simp

end

lemma leftover_word: "n \<le> 16384 \<Longrightarrow> unat (of_nat n :: u16) = n"
  by (simp add: unat_of_nat)

interpretation shift: pipeline_mover pipeline_shift
proof
  fix c :: "'a conn"
  let ?n = "c_req_initial_send_len c"
  assume c: "pipe_bufs c" "0 < ?n" "?n < bf_len (c_recv_buf c)"
  then have "bf_commit (drop ?n (bf_bytes (c_recv_buf c))) (bf_reset (c_recv_buf c)) =
      Some ((c_recv_buf c)\<lparr>bf_bytes := drop ?n (bf_bytes (c_recv_buf c))\<rparr>)"
    by (intro bf_commit_reset) (auto simp: pipe_bufs_def bf_len_def)
  moreover have "take (bf_len (c_recv_buf c) - ?n) (drop ?n (bf_bytes (c_recv_buf c))) = drop ?n (bf_bytes (c_recv_buf c))"
    by (simp add: bf_len_def)
  ultimately show "\<exists>c2. pipeline_shift c = Some (True, c2) \<and> pipe_bufs c2 \<and>
      bf_bytes (c_recv_buf c2) = drop ?n (bf_bytes (c_recv_buf c)) \<and> c_pipeline_depth c2 = c_pipeline_depth c + 1"
    using c by (auto simp: pipeline_shift_def pipeline_leftover_def Let_def pipe_bufs_def bf_len_def)
qed (simp add: pipeline_shift_def pipeline_leftover_def)

lemma stash_rest:
  fixes c :: "'fn conn"
  assumes "pipe_bufs c" "0 < c_req_initial_send_len c" "c_req_initial_send_len c < bf_len (c_recv_buf c)"
  defines "rest \<equiv> drop (c_req_initial_send_len c) (bf_bytes (c_recv_buf c))"
  shows "pipeline_stash c = c\<lparr>c_send_buf := (c_send_buf c)\<lparr>bf_bytes := rest\<rparr>, c_pipeline_stash_len := of_nat (length rest)\<rparr>"
proof -
  have l: "pipeline_leftover c = length rest"
    using assms by (simp add: pipeline_leftover_def rest_def bf_len_def)
  have r: "rest \<noteq> []" "length rest \<le> 16384" using assms by (auto simp: rest_def bf_len_def pipe_bufs_def)
  have "take (length rest) (drop (c_req_initial_send_len c) (bf_bytes (c_recv_buf c))) = rest"
    by (simp add: rest_def)
  then show ?thesis
    using r assms(1) by (simp add: pipeline_stash_def l Let_def bf_write_avail_def pipe_bufs_def bf_write_def bf_len_def
        bf_reset_def)
qed

interpretation stash: pipeline_mover "stash_and_recover now" for now
proof
  fix c :: "'a conn"
  define rest where "rest = drop (c_req_initial_send_len c) (bf_bytes (c_recv_buf c))"
  assume c: "pipe_bufs c" "\<not> more_req_body c" "0 < c_req_initial_send_len c"
    "c_req_initial_send_len c < bf_len (c_recv_buf c)"
  have r: "rest \<noteq> []" "length rest \<le> 16384" using c by (auto simp: rest_def bf_len_def pipe_bufs_def)
  have u: "unat (of_nat (length rest) :: u16) = length rest" using r by (intro leftover_word)
  then have "(of_nat (length rest) :: u16) \<noteq> 0" using r(1) by (metis length_0_conv unat_0)
  moreover have "bf_commit rest (bf_reset (bf_reset (c_recv_buf c))) = Some ((bf_reset (c_recv_buf c))\<lparr>bf_bytes := rest\<rparr>)"
    using r(2) c(1) by (intro bf_commit_reset) (auto simp: pipe_bufs_def)
  ultimately have "\<exists>c2. stash_and_recover now c = Some (True, c2) \<and> pipe_bufs c2 \<and> bf_bytes (c_recv_buf c2) = rest \<and>
      c_pipeline_depth c2 = c_pipeline_depth c + 1"
    using c r u unfolding stash_and_recover_def prepare_early_response_state_def
    by (simp add: stash_rest [OF c(1,3,4), folded rest_def] pipeline_recover_def Let_def pipe_bufs_def bf_len_def)
  then show "\<exists>c2. stash_and_recover now c = Some (True, c2) \<and> pipe_bufs c2 \<and>
      bf_bytes (c_recv_buf c2) = drop (c_req_initial_send_len c) (bf_bytes (c_recv_buf c)) \<and>
      c_pipeline_depth c2 = c_pipeline_depth c + 1"
    by (simp add: rest_def)
qed (simp add: stash_and_recover_def prepare_early_response_state_def pipeline_stash_def pipeline_leftover_def
      pipeline_recover_def Let_def)

text \<open>
  C39: A pipeline is cut at the boundaries of its requests.  When the receive buffer holds
  whole requests one after another, each is served with exactly its own bytes, in order, and
  nothing is served besides, whether the rest is moved inside the receive buffer or kept in the
  send buffer while an upstream answers; no move traps.  The depth is only counted: a pipeline is served to its end
  whatever its depth, past \<open>kMaxPipelineDepth\<close>, which no operation tests.
\<close>

theorem pipeline_cut_exactly:
  assumes "pipe_bufs c" "bf_bytes (c_recv_buf c) = concat reqs" "reqs \<noteq> []"
    "\<forall>r \<in> set reqs. whole_request b r" "length reqs \<le> k"
  shows "pipelined pipeline_shift k (backend_scanner b) c = Some (at_depths (c_pipeline_depth c) reqs) \<and>
    pipelined (stash_and_recover now) k (backend_scanner b) c = Some (at_depths (c_pipeline_depth c) reqs)"
  using shift.serves [OF assms] stash.serves [OF assms] by simp

lemma samples_whole: "whole_request Scalar sample_request" "whole_request Scalar chunked_sample"
proof -
  have w: "whole_request Scalar r"
    if r: "rr_status (parse_request scalar_scanner r rq_reset) = PComplete"
      "\<not> c_req_malformed (capture_request_metadata scalar_scanner (recv_sample 99 r))"
      "\<not> more_req_body (capture_request_metadata scalar_scanner (recv_sample 99 r))"
      "c_req_initial_send_len (capture_request_metadata scalar_scanner (recv_sample 99 r)) = length r" for r
    using capture_framed [OF _ refl, of "recv_sample 99 r" Scalar] r
    by (simp add: whole_request_def framed_end_def recv_sample_def backend_scanner_def)
  show "whole_request Scalar sample_request" by (rule w) code_simp+
  show "whole_request Scalar chunked_sample" by (rule w) code_simp+
qed

theorem pipeline_cut_exactly_witness:
  "pipelined pipeline_shift 5 scalar_scanner (recv_sample 16384 (chunked_sample @ sample_request @ sample_request)) =
     Some [(chunked_sample, 0), (sample_request, 1), (sample_request, 2)]"
proof -
  let ?c = "recv_sample 16384 (chunked_sample @ sample_request @ sample_request)"
  have "length (chunked_sample @ sample_request @ sample_request) \<le> 16384"
    by (simp add: chunked_sample_def sample_request_def)
  then have "pipe_bufs ?c" by (simp add: pipe_bufs_def recv_sample_def bf_bind_def bf_len_def)
  then show ?thesis
    using pipeline_cut_exactly [of ?c "[chunked_sample, sample_request, sample_request]" Scalar 5] samples_whole
    by (simp add: recv_sample_def conn_blank_def backend_scanner_def)
qed

section \<open>The route of a request\<close>

text \<open>
  \<open>on_header_received\<close> reads the logged method back as a route method and matches the
  canonical path in the active table; without a table there is no route.
\<close>

definition logged_method_key :: "u8 \<Rightarrow> u8" where
  "logged_method_key b =
     (case find (\<lambda>m. log_u8 m = b) [LGet, LPost, LPut, LDelete, LPatch, LHead, LOptions, LConnect, LTrace, LOther] of
        None \<Rightarrow> kRouteMethodInvalid
      | Some m \<Rightarrow> route_method_key_log m)"

definition find_route ::
  "'fn route_config option \<Rightarrow> 'fn conn \<Rightarrow> ('fn route_entry option \<times> (bytes \<times> bytes) list) option" where
  "find_route config c =
     (case config of
        None \<Rightarrow> Some (None, [])
      | Some cfg \<Rightarrow> match_canonical cfg (c_req_path_canon c) (logged_method_key (c_req_method c)) kMaxRouteParams)"

lemma logged_method_key: "m \<noteq> UnknownMethod \<Longrightarrow> logged_method_key (map_log_method m) = route_method_key m"
  by (cases m) (simp_all add: logged_method_key_def map_log_method_def log_u8_def route_method_key_def route_method_key_log_def)

lemma route_key_slot: "m \<noteq> UnknownMethod \<Longrightarrow> route_method_slot_from_key (route_method_key m) = Some (unat (route_method_key m))"
  by (cases m) (simp_all add: route_method_slot_from_key_def route_method_key_def kRouteMethodSlots_def)

text \<open>The path that routing sees: the canonical path of the target, cut by the size of \<open>req_path\<close>.\<close>

definition routed_path :: "bytes \<Rightarrow> bytes" where
  "routed_path u = take (kMaxReqPathLen - 1 - length (takeWhile (\<lambda>b. b = 0x2F) u)) (strip_slashes (takeWhile not_qf u))"

lemma leading_slashes:
  "takeWhile (\<lambda>b. b = (0x2F :: u8)) (takeWhile not_qf u) = takeWhile (\<lambda>b. b = 0x2F) u"
  by (induction u) (auto simp: not_qf_def)

lemma clamp_canon_routed:
  assumes "canon_view off u = Some v"
  shows "clamp_canon off v (copy_path u) = routed_path u"
proof -
  obtain lo n where f: "finalize_path_canonical (takeWhile not_qf u) = (lo, n)" by fastforce
  have v: "v_off v - off = lo" "v_len v = n"
    using assms f by (auto simp: canon_view_def canonicalize_request_def not_qf_def [abs_def] split: if_splits)
  have lo: "lo = length (takeWhile (\<lambda>b. b = 0x2F) u)"
    using f by (simp add: finalize_path_canonical_def Let_def leading_slashes)
  have le: "lo + n \<le> length (takeWhile not_qf u)" by (rule finalize_strip(1) [OF f])
  have lt: "length (takeWhile not_qf u) \<le> length u" by (rule length_takeWhile_le)
  have "take n (drop lo (takeWhile not_qf u)) = take n (drop lo u)"
    using le by (metis (no_types, lifting) append_take_drop_id takeWhile_eq_take take_drop take_take min.absorb1 add.commute)
  then have s: "strip_slashes (takeWhile not_qf u) = take n (drop lo u)" using finalize_strip(2) [OF f] by simp
  let ?k = "length (copy_path u)"
  have k: "copy_path u = take ?k u" "?k = min 63 (length u)"
    by (auto simp: copy_path_def kMaxReqPathLen_def min_def)
  have d: "drop lo (copy_path u) = take (?k - lo) (drop lo u)" by (subst k(1)) (rule drop_take)
  have r: "routed_path u = take (min (63 - lo) n) (drop lo u)"
    by (simp add: routed_path_def s lo [symmetric] kMaxReqPathLen_def)
  have c: "clamp_canon off v (copy_path u) = take (min (?k - lo) n) (drop lo u)"
    unfolding clamp_canon_def Let_def v d by (auto simp: min_def)
  have "min (?k - lo) n = min (63 - lo) n" using k(2) le lt by auto
  then show ?thesis by (simp only: c r)
qed

lemma routed_path_short:
  assumes "length u < kMaxReqPathLen"
  shows "routed_path u = strip_slashes (takeWhile not_qf u)"
proof -
  obtain lo n where f: "finalize_path_canonical (takeWhile not_qf u) = (lo, n)" by fastforce
  have "lo + n \<le> length u" using finalize_strip(1) [OF f] length_takeWhile_le [of not_qf u] by linarith
  moreover have "lo = length (takeWhile (\<lambda>b. b = 0x2F) u)"
    using f by (simp add: finalize_path_canonical_def Let_def leading_slashes)
  moreover have "length (strip_slashes (takeWhile not_qf u)) \<le> n" using finalize_strip(2) [OF f, symmetric] by simp
  ultimately have "length (strip_slashes (takeWhile not_qf u)) \<le> kMaxReqPathLen - 1 - length (takeWhile (\<lambda>b. b = 0x2F) u)"
    using assms by linarith
  then show ?thesis unfolding routed_path_def by (rule take_all)
qed

lemma set_body_keeps [simp]:
  "c_req_method (set_body data e req c) = c_req_method c"
  "c_req_path_canon (set_body data e req c) = c_req_path_canon c"
  by (simp_all add: set_body_def body_framing_def Let_def)

lemma capture_route_inputs:
  fixes c :: "'fn conn"
  assumes "request_ok m u v fs" "request_value m u v fs = Some q" "bf_valid (c_recv_buf c)"
    "bf_bytes (c_recv_buf c) = request_bytes m u v fs @ rest"
  shows "c_req_path_canon (capture_request_metadata (backend_scanner b) c) = (if hd u = 0x2F then Some (routed_path u) else None)"
    "c_req_method (capture_request_metadata (backend_scanner b) c) = map_log_method m"
proof -
  let ?R = "parse_request (backend_scanner b) (bf_bytes (c_recv_buf c)) rq_reset"
  have R: "?R = req_ret PComplete (length (request_bytes m u v fs)) q"
    unfolding assms(4) by (rule backend.parse_request_complete [OF assms(1,2)])
  note p = request_value_result [OF assms(1,2,4)]
  have u: "u \<noteq> []" using assms(1) by (simp add: request_ok_def)
  have view: "view_bytes (bf_bytes (c_recv_buf c)) \<lparr>v_off = length (method_bytes m), v_len = length u\<rparr> = u"
    by (simp add: view_bytes_def assms(4) request_bytes_def)
  have "rq_method q = m" using p(1) by (simp add: request_parts_def)
  moreover have "bf_bytes (c_recv_buf c) \<noteq> []" using u by (simp add: assms(4) request_bytes_def)
  ultimately show "c_req_method (capture_request_metadata (backend_scanner b) c) = map_log_method m"
    "c_req_path_canon (capture_request_metadata (backend_scanner b) c) = (if hd u = 0x2F then Some (routed_path u) else None)"
    using R assms(3) u p(2,3) view clamp_canon_routed [of "length (method_bytes m)" u]
    by (auto simp: capture_request_metadata_def Let_def set_path_def canon_view_def split: option.splits prod.splits)
qed

end
