(* ===== verification/Spec2Isabelle.thy ===== *)
theory Spec2Isabelle
  imports Chunked_Parser Http_Messages Http_Framing Pools Ring_Buffers Handler_Abi Metrics Timer_Wheel Config_Pools
    Yield_Heap Response_Format Request_Meta
begin

text \<open>
  Verification of the Rutlang gateway runtime.

  \<^bold>\<open>The program.\<close>  A shard of the gateway is one thread with an event loop.  Bytes of a
  connection arrive in a receive buffer; the request parser reads the head, the connection
  records the request and where it ends, the route table picks a route, and the route answers
  with a formatted response, with a compiled handler or by forwarding to an upstream; the
  bytes after the request stay for the next one.  Timers, pools, rings and counters serve the
  loop.  A compiler for the routing language produces the handlers and the table.  The
  development models the run-time side, from the bytes on the wire to the chosen route and
  back to the bytes of the response, and the data structures of a shard.

  \<^bold>\<open>Theories and sources\<close> (paths under \<open>src/\<close>; \<open>rt\<close> is \<open>include/rut/runtime\<close> for headers
  and \<open>src/runtime\<close> for implementations).

  \<^item> \<open>Rut_Prelude\<close>: integer names of \<open>include/rut/common/types.h\<close>, bytes, shared lemmas and
    the collections of rewrite rules.
  \<^item> \<open>Chunked_Parser\<close>: \<open>rt/chunked_parser\<close>, the incremental decoder of chunked bodies and the
    loop that drives it.  It accepts exactly the chunked bodies, wherever the
    buffers are cut, and reports an error exactly when no continuation is a chunked body.
  \<^item> \<open>Simd_Scan\<close>, \<open>Simd_Vector\<close>, \<open>Simd_Arm\<close>: \<open>rt/simd\<close>, six implementations of the byte scanners.
    The locale \<open>byte_scanner\<close> is their contract; every implementation is an interpretation, so
    the parsers are verified once for all of them.
  \<^item> \<open>Http_Parser\<close>, \<open>Http_Lines\<close>, \<open>Http_Request_Line\<close>, \<open>Http_Messages\<close>, \<open>Http_Framing\<close>:
    \<open>rt/http_parser\<close> and \<open>rt/route_canon.h\<close>.  The parsers accept exactly the printed messages of
    a grammar and return their parts; verdicts are stable under more input; views stay
    inside the head; the framing is what the header lines say.
  \<^item> \<open>Header_Rules\<close>: \<open>common/http_header_validation.h\<close>.
  \<^item> \<open>Route_Trie\<close>: \<open>rt/route_method.h\<close> and \<open>rt/route_trie\<close>.  \<open>Route_Art\<close> with \<open>Route_Art_Nodes\<close>,
    \<open>Route_Art_Table\<close>, \<open>Route_Art_Split\<close>, \<open>Route_Art_Routes\<close>: \<open>rt/route_art\<close>, the adaptive radix
    tree.  Insertion refines insertion into a finite table, the search finds the best entry.
  \<^item> \<open>Route_Index\<close>, \<open>Route_Config\<close>, \<open>Route_Dispatch\<close>, \<open>Config_Pools\<close>: \<open>rt/route_table.h\<close>,
    \<open>rt/route_select\<close>.  The locale \<open>route_index\<close> is what the table asks of a dispatch
    structure; trie and radix tree are its interpretations.  Every sequence of builder
    operations keeps the table well formed, a match is the best route, registered bytes stay.
  \<^item> \<open>Handler_Abi\<close>: \<open>include/rut/jit/handler_abi.h\<close>, \<open>rt/jit_dispatch.h\<close>, \<open>rt/io_event.h\<close>: packing of
    handler results and their translation into the next action of the loop.
  \<^item> \<open>Connection\<close>: \<open>rt/connection_base.h\<close> and \<open>common/buffer.h\<close>, the state of a connection and the buffer operations.
  \<^item> \<open>Response_Format\<close>: the response formatters of \<open>rt/callbacks.cc\<close>; what they write is read
    back by the response parser with the same status, body, length and connection option, for every
    status from 100 to 599 and every body that fits.
  \<^item> \<open>Request_Meta\<close>: the request capture, pipelining and early-response helpers of
    \<open>rt/callbacks.cc\<close>, and the choice of the route in \<open>on_header_received\<close>.  The recorded end is the end of the request, and a pipeline is cut
    exactly at its requests.  The locale \<open>pipeline_mover\<close> is what serving a pipeline asks of the two
    ways to keep the rest.
  \<^item> \<open>Pools\<close>: \<open>rt/slab_pool.h\<close>, \<open>rt/slice_pool.h\<close>, \<open>rt/upstream_pool.h\<close> as interpretations of \<open>slot_pool\<close>.
  \<^item> \<open>Ring_Buffers\<close>: the rings of \<open>rt/access_log\<close> and \<open>rt/traffic_capture\<close>, as step relations of
    a producer and a consumer, bounded queues by the locale \<open>ring_capacity\<close>.
  \<^item> \<open>Timer_Wheel\<close>: \<open>rt/timer_wheel\<close> over explicit list pointers, refined to buckets of connections.
  \<^item> \<open>Yield_Heap\<close>: the deadline heap and one-shot timer of \<open>rt/epoll_event_loop.h\<close>; the
    locale \<open>deadline_queue\<close> is what the drain asks of the heap.
  \<^item> \<open>Metrics\<close>: \<open>rt/metrics.h\<close>, \<open>rt/drain.h\<close>.

  This theory holds the property that spans them: from the bytes of a request to its route.

  \<^bold>\<open>Conventions.\<close>  A byte is an 8-bit word and a string the list of its bytes; a view is an
  offset and a length.  Values that travel on the wire and counters that may wrap are words of
  their width; lengths and positions inside a buffer are natural numbers, as the buffers are
  far smaller than the range of their types.  A null pointer is \<open>None\<close>, and so is a trap.  A loop
  that need not end is a partial function into options, and its properties include that it
  returns (insertion and search in the radix tree, the tick of the timer wheel,
  \<open>drain_yield_heap\<close>).  The only fuel is the bound of
  \<open>pipelined\<close>, the number of requests to serve: as many as the buffer holds are enough, and too
  few give \<open>None\<close>.

  \<^bold>\<open>Parameters.\<close>  Compiled handlers and compiled match functions come from a code generator
  and are arguments of the definitions; of a compiled match function the hypothesis is that
  it computes the search of the tree it was generated from.  Clocks are arguments.

  \<^bold>\<open>Not modelled.\<close>  The compiler (lexer to code generation) runs before the gateway and
  works on its own trees.  The event loops, the kernel interfaces and the callbacks that chain
  the modelled steps on completion events are system calls around these steps; sockets,
  TLS, threads and memory mappings likewise.  Replay and simulation are offline tools.
\<close>

section \<open>From the wire to the route\<close>

text \<open>
  C4: A request is answered by the best route for its target.  Whatever operations built the
  table, when the receive buffer starts with a request in origin form, with any header lines
  and any bytes after it, the capture and the match give the best route of the table for the method
  and the canonical path of the target: the target up to its query without the slashes at its
  ends.  The path is cut so that it fits, with its leading slashes, into 63 bytes, and a target of at most 63 bytes is
  not cut.  A target in another form has no route.
\<close>

theorem request_reaches_best_route:
  fixes c :: "'fn conn"
  assumes run: "rc_run ops rc_new = Some cfg"
    and jit: "\<And>f p k. fn = Some f \<Longrightarrow> art_match_canonical_key (rc_art cfg) p k = Some (f p k)"
    and req: "request_ok m u v fs" "request_value m u v fs = Some q"
    and buf: "bf_valid (c_recv_buf c)" "bf_bytes (c_recv_buf c) = request_bytes m u v fs @ rest"
  shows "if hd u = 0x2F
    then \<exists>res. find_route (Some (install_art_jit_fn fn cfg)) (capture_request_metadata (backend_scanner b) c) = Some res \<and>
      best_match cfg (routed_path u) (unat (route_method_key m)) kMaxRouteParams res \<and>
      (length u < kMaxReqPathLen \<longrightarrow> routed_path u = strip_slashes (takeWhile not_qf u))
    else find_route (Some (install_art_jit_fn fn cfg)) (capture_request_metadata (backend_scanner b) c) = Some (None, [])"
proof -
  have m: "m \<noteq> UnknownMethod" using req(1) by (simp add: request_ok_def)
  have f: "find_route (Some (install_art_jit_fn fn cfg)) (capture_request_metadata (backend_scanner b) c) =
      match_canonical (install_art_jit_fn fn cfg) (if hd u = 0x2F then Some (routed_path u) else None)
        (route_method_key m) kMaxRouteParams"
    using capture_route_inputs [OF req buf, of b] logged_method_key [OF m] by (simp add: find_route_def)
  show ?thesis
  proof (cases "hd u = 0x2F")
    case True
    have "\<exists>res. match_canonical (install_art_jit_fn fn cfg) (Some (routed_path u)) (route_method_key m) kMaxRouteParams = Some res \<and>
        best_match cfg (routed_path u) (unat (route_method_key m)) kMaxRouteParams res"
      by (rule installed_match_best [OF run route_key_slot [OF m]]) (rule jit)
    then show ?thesis unfolding f using True routed_path_short [of u] by simp
  next
    case False
    then show ?thesis unfolding f by (simp add: match_canonical_def)
  qed
qed

theorem request_reaches_best_route_witness:
  "\<exists>cfg res. rc_run [UseSegmentTrie, AddStatic (Some (ascii ''/a'')) 0 200] (rc_new :: unit route_config) = Some cfg \<and>
     find_route (Some (install_art_jit_fn None cfg))
       (capture_request_metadata scalar_scanner (recv_sample 99 (request_bytes GET (ascii ''/a/?q'') Http11 []))) = Some res \<and>
     best_match cfg (ascii ''a'') 1 kMaxRouteParams res"
proof -
  let ?u = "ascii ''/a/?q''"
  let ?c = "recv_sample 99 (request_bytes GET ?u Http11 [])"
  obtain cfg where cfg: "rc_run [UseSegmentTrie, AddStatic (Some (ascii ''/a'')) 0 200] (rc_new :: unit route_config) = Some cfg"
    using rc_run_routes [OF routes_ok_new] by blast
  have ok: "request_ok GET ?u Http11 []" by code_simp
  have "(case request_value GET ?u Http11 [] of None \<Rightarrow> False | Some _ \<Rightarrow> True)" by code_simp
  then obtain q where q: "request_value GET ?u Http11 [] = Some q" by (auto split: option.splits)
  have r: "routed_path ?u = ascii ''a''" "unat (route_method_key GET) = 1" "hd ?u = 0x2F" by code_simp+
  show ?thesis
    using request_reaches_best_route [OF cfg _ ok q, of None ?c "[]" Scalar] cfg r
    by (auto simp: recv_sample_def backend_scanner_def)
qed

end
